(* ===== verification/Prelude.thy ===== *)
theory Prelude
  imports Main "HOL-Library.AList" "HOL-Library.Product_Lexorder"
begin

text \<open>
  What the components share: the errors the modelled code raises and the result type
  that carries them, the transaction wrapper of \<^verbatim>\<open>astrabox/persistence/sql/ops.py\<close>, the
  few SQL statements the repositories are written in (a table is the list of its rows in
  insertion order), Python's dictionaries as ordered association lists, and the string
  operations the code calls.

  A \<^typ>\<open>string\<close> is a sequence of code points up to 255, the Latin-1 fragment of Python's
  strings; white space and case are Python's on that fragment.
\<close>

named_theorems table_simps "rewriting of updates, inserts and selects on tables"
named_theorems res_simps "rewriting of fallible computations"

section \<open>Errors and fallible computations\<close>

text \<open>
  One constructor per kind of exception. An \<^verbatim>\<open>APIError\<close> keeps its code and HTTP status; the
  prose of messages is not modelled.
\<close>

datatype error =
    APIError string nat
  | InteractionContractError
  | ValueError
  | KeyError
  | TypeError
  | AttributeError
  | RuntimeError
  | UniqueViolation
  | ForeignKeyViolation
  | NoResultFound
  | HistoryCursorError
  | FileChangeCursorError
  | ChildRunProjectionError
  | EngineKindNotRegistered
  | TranscriptBatchConflict
  | TranscriptSessionMissing
  | IndexError
  | InvalidListCursor

type_synonym 'a res = "error + 'a"

definition rbind :: "'a res \<Rightarrow> ('a \<Rightarrow> 'b res) \<Rightarrow> 'b res" where
  "rbind m f = (case m of Inl e \<Rightarrow> Inl e | Inr x \<Rightarrow> f x)"

lemma rbind_Inl [simp, res_simps]: "rbind (Inl e) f = Inl e"
  by (simp add: rbind_def)

lemma rbind_Inr [simp, res_simps]: "rbind (Inr x) f = f x"
  by (simp add: rbind_def)

lemma rbind_Inr_iff [res_simps]: "rbind m f = Inr y \<longleftrightarrow> (\<exists>x. m = Inr x \<and> f x = Inr y)"
  by (cases m) auto

definition check :: "bool \<Rightarrow> error \<Rightarrow> unit res" where
  "check b e = (if b then Inr () else Inl e)"

lemma check_simps [simp, res_simps]: "check True e = Inr ()" "check False e = Inl e"
  by (simp_all add: check_def)

lemma check_Inr_iff [simp, res_simps]: "check b e = Inr u \<longleftrightarrow> b"
  by (simp add: check_def)

text \<open>A \<^verbatim>\<open>for\<close> loop whose body may raise, and a comprehension whose element may raise.\<close>

fun rfold :: "('x \<Rightarrow> 's \<Rightarrow> 's res) \<Rightarrow> 'x list \<Rightarrow> 's \<Rightarrow> 's res" where
  "rfold f [] s = Inr s"
| "rfold f (x # xs) s = rbind (f x s) (rfold f xs)"

fun rmap :: "('x \<Rightarrow> 'y res) \<Rightarrow> 'x list \<Rightarrow> 'y list res" where
  "rmap f [] = Inr []"
| "rmap f (x # xs) = rbind (f x) (\<lambda>y. rbind (rmap f xs) (\<lambda>ys. Inr (y # ys)))"

lemma rfold_append: "rfold f (xs @ ys) s = rbind (rfold f xs s) (rfold f ys)"
  by (induction xs arbitrary: s) (simp_all add: rbind_def split: sum.splits)

lemma rfold_invariant:
  assumes "rfold f xs s = Inr s'" and "P s"
    and "\<And>x a b. x \<in> set xs \<Longrightarrow> P a \<Longrightarrow> f x a = Inr b \<Longrightarrow> P b"
  shows "P s'"
  using assms
proof (induction xs arbitrary: s)
  case Nil
  then show ?case by simp
next
  case (Cons x xs)
  from Cons.prems(1) obtain a where a: "f x s = Inr a" "rfold f xs a = Inr s'"
    by (auto simp: rbind_Inr_iff)
  from Cons.prems(2) a(1) have "P a" by (rule Cons.prems(3) [of x s a, simplified])
  with a(2) Cons.prems(3) show ?case by (intro Cons.IH [of a]) auto
qed

lemma rfold_all:
  "rfold f xs s = Inr s' \<Longrightarrow> x \<in> set xs \<Longrightarrow> \<exists>a b. f x a = Inr b"
  by (induction xs arbitrary: s) (auto simp: rbind_Inr_iff)

lemma rmap_total: "(\<And>x. x \<in> set xs \<Longrightarrow> \<exists>y. f x = Inr y) \<Longrightarrow> \<exists>ys. rmap f xs = Inr ys"
proof (induction xs)
  case Nil
  then show ?case by simp
next
  case (Cons x xs)
  then obtain y ys where "f x = Inr y" "rmap f xs = Inr ys" by (metis list.set_intros)
  then show ?case by simp
qed

lemma rmap_all: "rmap f xs = Inr ys \<Longrightarrow> x \<in> set xs \<Longrightarrow> \<exists>y. f x = Inr y"
  by (induction xs arbitrary: ys) (auto simp: rbind_Inr_iff)

lemma rmap_mem: "rmap f xs = Inr ys \<Longrightarrow> y \<in> set ys \<Longrightarrow> \<exists>x \<in> set xs. f x = Inr y"
  by (induction xs arbitrary: ys) (auto simp: rbind_Inr_iff)

text \<open>What a loop keeps of its state.\<close>

lemma rfold_frame:
  assumes "rfold f xs s = Inr s'"
    and "\<And>x a b. x \<in> set xs \<Longrightarrow> f x a = Inr b \<Longrightarrow> g b = g a"
  shows "g s' = g s"
  using assms(1)
  by (rule rfold_invariant [where P = "\<lambda>t. g t = g s"]) (auto dest: assms(2))

text \<open>What a loop collects, and the states its body meets.\<close>

lemma rfold_collects:
  assumes "\<And>x s s'. x \<in> set xs \<Longrightarrow> Q s \<Longrightarrow> f x s = Inr s' \<Longrightarrow> Q s' \<and> C s \<union> g x \<subseteq> C s'"
    and "rfold f xs s = Inr s'" and "Q s"
  shows "Q s' \<and> C s \<union> (\<Union>x \<in> set xs. g x) \<subseteq> C s'"
  using assms
proof (induction xs arbitrary: s)
  case (Cons x xs)
  from Cons.prems(2) obtain mid where mid: "f x s = Inr mid" "rfold f xs mid = Inr s'" by (auto simp: rbind_Inr_iff)
  with Cons.prems have one: "Q mid" "C s \<union> g x \<subseteq> C mid" by auto
  have "Q s' \<and> C mid \<union> (\<Union>x \<in> set xs. g x) \<subseteq> C s'"
    by (rule Cons.IH [OF _ mid(2) one(1)]) (rule Cons.prems(1), simp_all)
  with one(2) show ?case by auto
qed auto

lemma rfold_meets:
  assumes "rfold f xs s = Inr s'" and "P s" and "x \<in> set xs"
    and "\<And>y a b. y \<in> set xs \<Longrightarrow> P a \<Longrightarrow> f y a = Inr b \<Longrightarrow> P b"
  shows "\<exists>a b. P a \<and> f x a = Inr b"
  using assms
proof (induction xs arbitrary: s)
  case (Cons y xs)
  from Cons.prems(1) obtain mid where mid: "f y s = Inr mid" "rfold f xs mid = Inr s'" by (auto simp: rbind_Inr_iff)
  show ?case
  proof (cases "x = y")
    case True
    with Cons.prems(2) mid show ?thesis by blast
  next
    case False
    from Cons.prems(2) mid(1) have "P mid" by (rule Cons.prems(4) [of y s mid, simplified])
    with False Cons.prems mid(2) show ?thesis by (intro Cons.IH [of mid]) auto
  qed
qed simp

lemma rfold_returns: "(\<And>x s. x \<in> set xs \<Longrightarrow> \<exists>s'. f x s = Inr s') \<Longrightarrow> \<exists>s'. rfold f xs s = Inr s'"
proof (induction xs arbitrary: s)
  case (Cons x xs)
  then obtain mid where "f x s = Inr mid" by (meson list.set_intros(1))
  with Cons show ?case by simp
qed simp

lemma rfold_Inl: "rfold f xs s = Inl e \<Longrightarrow> \<exists>x \<in> set xs. \<exists>a. f x a = Inl e"
proof (induction xs arbitrary: s)
  case (Cons x xs)
  then show ?case by (cases "f x s") auto
qed simp

lemma rmap_length: "rmap f xs = Inr ys \<Longrightarrow> length ys = length xs"
  by (induction xs arbitrary: ys) (auto simp: rbind_Inr_iff)

lemma rmap_Inr_iff: "rmap f xs = Inr ys \<longleftrightarrow> list_all2 (\<lambda>x y. f x = Inr y) xs ys"
proof (induction xs arbitrary: ys)
  case Nil
  then show ?case by auto
next
  case (Cons x xs)
  then show ?case by (cases ys) (auto simp: rbind_Inr_iff)
qed

section \<open>Transactions\<close>

text \<open>
  \<open>transaction\<close> commits what \<open>work\<close> wrote if it returns and keeps nothing it wrote if it
  raises. Transactions are serialised in the model: a commit sees every earlier one.
\<close>

definition transaction :: "('db \<Rightarrow> ('a \<times> 'db) res) \<Rightarrow> 'db \<Rightarrow> 'a res \<times> 'db" where
  "transaction work db =
     (case work db of Inl e \<Rightarrow> (Inl e, db) | Inr (x, db') \<Rightarrow> (Inr x, db'))"

lemma transaction_rollback: "fst (transaction work db) = Inl e \<Longrightarrow> snd (transaction work db) = db"
  by (auto simp: transaction_def split: sum.splits prod.splits)

lemma transaction_Inl [simp]: "work db = Inl e \<Longrightarrow> transaction work db = (Inl e, db)"
  by (simp add: transaction_def)

lemma transaction_Inr [simp]: "work db = Inr (x, db') \<Longrightarrow> transaction work db = (Inr x, db')"
  by (simp add: transaction_def)

lemma transaction_commit: "transaction work db = (Inr x, db') \<longleftrightarrow> work db = Inr (x, db')"
  by (auto simp: transaction_def split: sum.splits prod.splits)

section \<open>Tables\<close>

text \<open>
  \<^verbatim>\<open>UPDATE t SET .. WHERE p\<close>, its row count, \<^verbatim>\<open>EXISTS\<close>, the first matching row, \<^verbatim>\<open>ORDER BY\<close>
  (stable: rows with equal keys stay in insertion order) and an insert that does nothing on
  a key conflict. A \<^verbatim>\<open>SELECT .. WHERE\<close> is \<^const>\<open>filter\<close>.
\<close>

definition update_where :: "('r \<Rightarrow> bool) \<Rightarrow> ('r \<Rightarrow> 'r) \<Rightarrow> 'r list \<Rightarrow> 'r list" where
  "update_where p f rows = map (\<lambda>r. if p r then f r else r) rows"

definition rowcount :: "('r \<Rightarrow> bool) \<Rightarrow> 'r list \<Rightarrow> nat" where
  "rowcount p rows = length (filter p rows)"

definition exists_row :: "('r \<Rightarrow> bool) \<Rightarrow> 'r list \<Rightarrow> bool" where
  "exists_row p rows = list_ex p rows"

definition first_row :: "('r \<Rightarrow> bool) \<Rightarrow> 'r list \<Rightarrow> 'r option" where
  "first_row p rows = List.find p rows"

definition order_by :: "('r \<Rightarrow> 'k::linorder) \<Rightarrow> 'r list \<Rightarrow> 'r list" where
  "order_by key rows = sort_key key rows"

definition insert_absent :: "('r \<Rightarrow> 'k) \<Rightarrow> 'r \<Rightarrow> 'r list \<Rightarrow> 'r list" where
  "insert_absent key row rows =
     (if exists_row (\<lambda>r. key r = key row) rows then rows else rows @ [row])"

lemma exists_row_iff [table_simps]: "exists_row p rows \<longleftrightarrow> (\<exists>r \<in> set rows. p r)"
  by (simp add: exists_row_def list_ex_iff)

lemma update_where_Nil [simp, table_simps]: "update_where p f [] = []"
  by (simp add: update_where_def)

lemma update_where_Cons [simp, table_simps]:
  "update_where p f (r # rs) = (if p r then f r else r) # update_where p f rs"
  by (simp add: update_where_def)

lemma length_update_where [simp, table_simps]: "length (update_where p f rows) = length rows"
  by (simp add: update_where_def)

lemma set_update_where [table_simps]:
  "set (update_where p f rows) = (\<lambda>r. if p r then f r else r) ` set rows"
  by (simp add: update_where_def)

lemma ball_update_where [table_simps]:
  "(\<forall>r \<in> set (update_where p f rows). Q r) \<longleftrightarrow> (\<forall>r \<in> set rows. if p r then Q (f r) else Q r)"
  by (induction rows) auto

lemma map_update_where [table_simps]:
  "(\<And>r. key (f r) = key r) \<Longrightarrow> map key (update_where p f rows) = map key rows"
  by (simp add: update_where_def o_def if_distrib cong: if_cong)

lemma update_where_id:
  "(\<And>r. r \<in> set rows \<Longrightarrow> \<not> p r) \<Longrightarrow> update_where p f rows = rows"
  by (simp add: update_where_def map_idI)

lemma update_where_append [table_simps]:
  "update_where p f (xs @ ys) = update_where p f xs @ update_where p f ys"
  by (simp add: update_where_def)

lemma rowcount_0_iff [simp, table_simps]: "rowcount p rows = 0 \<longleftrightarrow> (\<forall>r \<in> set rows. \<not> p r)"
  by (auto simp: rowcount_def filter_empty_conv)

lemma rowcount_pos_iff [simp, table_simps]: "0 < rowcount p rows \<longleftrightarrow> (\<exists>r \<in> set rows. p r)"
  by (auto simp: rowcount_def filter_empty_conv simp flip: length_greater_0_conv)

lemma first_row_None_iff [table_simps]: "first_row p rows = None \<longleftrightarrow> (\<forall>r \<in> set rows. \<not> p r)"
  by (auto simp: first_row_def find_None_iff)

lemma first_row_Some: "first_row p rows = Some r \<Longrightarrow> r \<in> set rows \<and> p r"
  by (auto simp: first_row_def find_Some_iff)

lemma first_row_Nil [simp]: "first_row p [] = None"
  by (simp add: first_row_def)

lemma first_row_Cons [simp]:
  "first_row p (r # rs) = (if p r then Some r else first_row p rs)"
  by (simp add: first_row_def)

lemma first_row_append [table_simps]:
  "first_row p (xs @ ys) = (case first_row p xs of None \<Rightarrow> first_row p ys | Some r \<Rightarrow> Some r)"
  by (induction xs) auto

lemma first_row_unique:
  assumes "distinct (map key rows)" and "r \<in> set rows" and "key r = k"
  shows "first_row (\<lambda>r. key r = k) rows = Some r"
  using assms by (induction rows) (auto simp: first_row_def)

lemma unique_row:
  assumes "distinct (map key rows)" and "r \<in> set rows" and "r' \<in> set rows" and "key r = key r'"
  shows "r = r'"
  using assms by (meson inj_on_def distinct_map)

lemma filter_unique:
  assumes "distinct (map key rows)" and "r \<in> set rows" and "key r = k" and "p r"
  shows "filter (\<lambda>r. key r = k \<and> p r) rows = [r]"
  using assms
proof (induction rows)
  case Nil
  then show ?case by simp
next
  case (Cons q rows)
  show ?case
  proof (cases "q = r")
    case True
    with Cons.prems have "filter (\<lambda>r. key r = k \<and> p r) rows = []"
      by (auto simp: filter_empty_conv) (metis image_eqI)
    with True Cons.prems show ?thesis by simp
  next
    case False
    with Cons show ?thesis by auto
  qed
qed

lemma set_order_by [simp, table_simps]: "set (order_by key rows) = set rows"
  by (simp add: order_by_def)

lemma length_order_by [simp, table_simps]: "length (order_by key rows) = length rows"
  by (simp add: order_by_def)

lemma sorted_order_by: "sorted (map key (order_by key rows))"
  by (simp add: order_by_def)

lemma distinct_map_order_by: "distinct (map f (order_by key rows)) \<longleftrightarrow> distinct (map f rows)"
  by (simp add: order_by_def distinct_map)

lemma upto_append: "a \<le> m + 1 \<Longrightarrow> m \<le> n \<Longrightarrow> [a..m] @ [m + 1..n::int] = [a..n]"
  using upto_split1 [of a "m + 1" n] by (cases "m = n") simp_all

lemma order_by_id: "sorted (map key rows) \<Longrightarrow> order_by key rows = rows"
  by (simp add: order_by_def sort_key_id_if_sorted)

lemma distinct_map_insert_absent:
  "distinct (map key rows) \<Longrightarrow> distinct (map key (insert_absent key row rows))"
  by (auto simp: insert_absent_def exists_row_iff image_iff)

lemma set_insert_absent:
  "set (insert_absent key row rows) =
     (if \<exists>r \<in> set rows. key r = key row then set rows else insert row (set rows))"
  by (auto simp: insert_absent_def exists_row_iff)

section \<open>Dictionaries\<close>

text \<open>
  A Python dictionary keeps the order in which its keys were first stored; storing a
  present key keeps its place. That is \<^const>\<open>AList.update\<close>; \<^const>\<open>map_of\<close> reads it.
\<close>

type_synonym ('k, 'v) dict = "('k \<times> 'v) list"

definition dict_set :: "'k \<Rightarrow> 'v \<Rightarrow> ('k, 'v) dict \<Rightarrow> ('k, 'v) dict" where
  "dict_set k v d = AList.update k v d"

definition dict_update :: "('k, 'v) dict \<Rightarrow> ('k, 'v) dict \<Rightarrow> ('k, 'v) dict" where
  "dict_update d kvs = fold (\<lambda>(k, v). dict_set k v) kvs d"

definition dict_pop :: "'k \<Rightarrow> ('k, 'v) dict \<Rightarrow> ('k, 'v) dict" where
  "dict_pop k d = filter (\<lambda>kv. fst kv \<noteq> k) d"

lemma dict_get_set: "map_of (dict_set k v d) = (map_of d)(k \<mapsto> v)"
  by (simp add: dict_set_def AList.update_conv')

lemma dict_get_set_same [simp]: "map_of (dict_set k v d) k = Some v"
  by (simp add: dict_get_set)

lemma dict_get_set_other [simp]: "k' \<noteq> k \<Longrightarrow> map_of (dict_set k v d) k' = map_of d k'"
  by (simp add: dict_get_set)

lemma dict_set_same: "map_of d k = Some v \<Longrightarrow> dict_set k v d = d"
  by (induction d) (auto simp: dict_set_def split: if_splits)

lemma distinct_dict_set: "distinct (map fst d) \<Longrightarrow> distinct (map fst (dict_set k v d))"
  by (simp add: dict_set_def AList.distinct_update)

lemma dict_update_simps [simp]:
  "dict_update d [] = d" "dict_update d ((k, v) # kvs) = dict_update (dict_set k v d) kvs"
  by (simp_all add: dict_update_def)

lemma keys_dict_set: "fst ` set (dict_set k v d) = insert k (fst ` set d)"
  by (metis dict_get_set dom_fun_upd dom_map_of_conv_image_fst option.distinct(1))

lemma set_dict_set: "set (dict_set k v d) \<subseteq> insert (k, v) (set d)"
  by (induction d) (auto simp: dict_set_def)

lemma keys_dict_update: "fst ` set (dict_update d kvs) = fst ` set d \<union> fst ` set kvs"
proof (induction kvs arbitrary: d)
  case (Cons kv kvs)
  then show ?case by (cases kv) (simp add: keys_dict_set)
qed simp

lemma set_dict_update: "set (dict_update d kvs) \<subseteq> set d \<union> set kvs"
proof (induction kvs arbitrary: d)
  case (Cons kv kvs)
  from Cons [of "dict_set (fst kv) (snd kv) d"] set_dict_set [of "fst kv" "snd kv" d] show ?case by (cases kv) auto
qed simp

lemma distinct_dict_pop: "distinct (map fst d) \<Longrightarrow> distinct (map fst (dict_pop k d))"
  by (auto simp: dict_pop_def distinct_map inj_on_def)

lemma dict_get_pop: "map_of (dict_pop k d) k' = (if k' = k then None else map_of d k')"
  by (induction d) (auto simp: dict_pop_def)

lemma keys_dict_pop: "fst ` set (dict_pop k d) = fst ` set d - {k}"
  by (auto simp: dict_pop_def image_iff)

section \<open>Strings\<close>

definition is_space :: "char \<Rightarrow> bool" where
  "is_space c = (let n = of_char c :: nat in
     9 \<le> n \<and> n \<le> 13 \<or> 28 \<le> n \<and> n \<le> 32 \<or> n = 133 \<or> n = 160)"

definition lstrip :: "string \<Rightarrow> string" where
  "lstrip s = dropWhile is_space s"

definition rstrip :: "string \<Rightarrow> string" where
  "rstrip s = rev (dropWhile is_space (rev s))"

definition strip :: "string \<Rightarrow> string" where
  "strip s = rstrip (lstrip s)"

definition lower_char :: "char \<Rightarrow> char" where
  "lower_char c = (let n = of_char c :: nat in
     if 65 \<le> n \<and> n \<le> 90 \<or> 192 \<le> n \<and> n \<le> 222 \<and> n \<noteq> 215 then char_of (n + 32) else c)"

definition lower :: "string \<Rightarrow> string" where
  "lower s = map lower_char s"

definition startswith :: "string \<Rightarrow> string \<Rightarrow> bool" where
  "startswith prefix s = (take (length prefix) s = prefix)"

fun join :: "string \<Rightarrow> string list \<Rightarrow> string" where
  "join sep [] = []"
| "join sep [x] = x"
| "join sep (x # y # xs) = x @ sep @ join sep (y # xs)"

definition digit_char :: "nat \<Rightarrow> char" where
  "digit_char d = char_of (48 + d)"

fun str_nat :: "nat \<Rightarrow> string" where
  "str_nat n = (if n < 10 then [digit_char n] else str_nat (n div 10) @ [digit_char (n mod 10)])"

declare str_nat.simps [simp del]

definition str_int :: "int \<Rightarrow> string" where
  "str_int i = (if i < 0 then ''-'' @ str_nat (nat (- i)) else str_nat (nat i))"

lemma strip_Nil [simp]: "strip [] = []"
  by (simp add: strip_def lstrip_def rstrip_def)

lemma rev_takeWhile_strip: "set (rstrip s) \<subseteq> set s"
  unfolding rstrip_def by (metis set_dropWhileD set_rev subsetI)

lemma dropWhile_head: "dropWhile p xs \<noteq> [] \<Longrightarrow> \<not> p (hd (dropWhile p xs))"
  by (rule hd_dropWhile)

lemma rstrip_id: "s = [] \<or> \<not> is_space (last s) \<Longrightarrow> rstrip s = s"
  by (cases s rule: rev_cases) (simp_all add: rstrip_def)

lemma lstrip_id: "s = [] \<or> \<not> is_space (hd s) \<Longrightarrow> lstrip s = s"
  by (cases s) (simp_all add: lstrip_def)

lemma last_rstrip: "rstrip s \<noteq> [] \<Longrightarrow> \<not> is_space (last (rstrip s))"
  using hd_dropWhile [of is_space "rev s"] by (simp add: rstrip_def last_rev)

lemma rstrip_hd:
  assumes "s \<noteq> []" and "\<not> is_space (hd s)"
  shows "rstrip s \<noteq> [] \<and> hd (rstrip s) = hd s"
proof -
  from assms obtain c cs where s: "s = c # cs" "\<not> is_space c" by (cases s) auto
  have "dropWhile is_space (rev cs @ [c]) = dropWhile is_space (rev cs) @ [c] \<or>
        dropWhile is_space (rev cs @ [c]) = [c]"
    using s(2) by (cases "\<forall>x \<in> set (rev cs). is_space x") (auto simp: dropWhile_append)
  with s show ?thesis by (auto simp: rstrip_def)
qed

text \<open>Stripping is idempotent: what it returns carries no outer white space.\<close>

lemma strip_ends: "strip s = [] \<or> \<not> is_space (hd (strip s)) \<and> \<not> is_space (last (strip s))"
proof (cases "lstrip s = []")
  case True
  then show ?thesis by (simp add: strip_def rstrip_def)
next
  case False
  then have "\<not> is_space (hd (lstrip s))" by (simp add: lstrip_def hd_dropWhile)
  with False rstrip_hd [of "lstrip s"] last_rstrip [of "lstrip s"]
  show ?thesis by (simp add: strip_def)
qed

lemma strip_idem [simp]: "strip (strip s) = strip s"
  using strip_ends [of s] by (metis lstrip_id rstrip_id strip_def)

end
