(* ===== verification/Json.thy ===== *)
theory Json
  imports Prelude
begin

text \<open>
  JSON values as the code holds them: the dictionaries, lists, strings, integers, booleans
  and \<^verbatim>\<open>None\<close> that \<^verbatim>\<open>json.loads\<close> builds and the database's JSON columns store, with the Python
  operations the modelled modules apply to them (truth value, \<^verbatim>\<open>str\<close>, \<^verbatim>\<open>==\<close>, \<^verbatim>\<open>dict.get\<close>,
  hashing into a set). Floating-point numbers are not in the model. The code's \<^verbatim>\<open>deepcopy\<close>
  calls are identities here: values are immutable.
\<close>

datatype json =
    JNull
  | JBool bool
  | JInt int
  | JStr string
  | JList "json list"
  | JObj "(string \<times> json) list"

type_synonym obj = "(string, json) dict"

fun truthy :: "json \<Rightarrow> bool" where
  "truthy JNull = False"
| "truthy (JBool b) = b"
| "truthy (JInt i) = (i \<noteq> 0)"
| "truthy (JStr s) = (s \<noteq> [])"
| "truthy (JList xs) = (xs \<noteq> [])"
| "truthy (JObj d) = (d \<noteq> [])"

fun is_obj :: "json \<Rightarrow> bool" where
  "is_obj (JObj d) = True"
| "is_obj _ = False"

fun is_list :: "json \<Rightarrow> bool" where
  "is_list (JList xs) = True"
| "is_list _ = False"

fun is_str :: "json \<Rightarrow> bool" where
  "is_str (JStr s) = True"
| "is_str _ = False"

fun is_bool :: "json \<Rightarrow> bool" where
  "is_bool (JBool b) = True"
| "is_bool _ = False"

text \<open>The fields of a value known to be a dictionary, the items of one known to be a list.\<close>

fun jfields :: "json \<Rightarrow> obj" where
  "jfields (JObj d) = d"
| "jfields _ = []"

fun jitems :: "json \<Rightarrow> json list" where
  "jitems (JList xs) = xs"
| "jitems _ = []"

fun text_of :: "json \<Rightarrow> string" where
  "text_of (JStr s) = s"
| "text_of _ = []"

lemma is_obj_fields: "is_obj j \<Longrightarrow> j = JObj (jfields j)"
  by (cases j) auto

text \<open>\<^verbatim>\<open>d.get(k)\<close>, \<^verbatim>\<open>k in d\<close> and \<^verbatim>\<open>d[k]\<close>.\<close>

definition get :: "obj \<Rightarrow> string \<Rightarrow> json" where
  "get d k = (case map_of d k of None \<Rightarrow> JNull | Some v \<Rightarrow> v)"

definition has_key :: "obj \<Rightarrow> string \<Rightarrow> bool" where
  "has_key d k = (map_of d k \<noteq> None)"

definition index_key :: "obj \<Rightarrow> string \<Rightarrow> json res" where
  "index_key d k = (case map_of d k of None \<Rightarrow> Inl KeyError | Some v \<Rightarrow> Inr v)"

lemma get_Nil [simp]: "get [] k = JNull"
  by (simp add: get_def)

lemma get_Cons [simp]: "get ((k', v) # d) k = (if k = k' then v else get d k)"
  by (simp add: get_def)

lemma has_key_Nil [simp]: "\<not> has_key [] k"
  by (simp add: has_key_def)

lemma has_key_Cons [simp]: "has_key ((k', v) # d) k \<longleftrightarrow> k = k' \<or> has_key d k"
  by (simp add: has_key_def)

lemma get_dict_set [simp]: "get (dict_set k v d) k' = (if k' = k then v else get d k')"
  by (simp add: get_def dict_get_set)

lemma has_key_dict_set [simp]: "has_key (dict_set k v d) k' \<longleftrightarrow> k' = k \<or> has_key d k'"
  by (simp add: has_key_def dict_get_set)

lemma has_key_iff: "has_key d k \<longleftrightarrow> k \<in> fst ` set d"
  by (simp add: has_key_def map_of_eq_None_iff)

lemma get_not_has_key: "\<not> has_key d k \<Longrightarrow> get d k = JNull"
  by (simp add: has_key_def get_def)

text \<open>The projection \<^verbatim>\<open>{key: d[key] for key in keys if key in d}\<close>, in the order of the keys.\<close>

definition project :: "string list \<Rightarrow> obj \<Rightarrow> obj" where
  "project ks d = map (\<lambda>k. (k, get d k)) (filter (has_key d) ks)"

lemma keys_project: "fst ` set (project ks d) = {k \<in> set ks. has_key d k}"
  by (force simp: project_def)

lemma map_of_map_key: "map_of (map (\<lambda>k. (k, f k)) ks) k = (if k \<in> set ks then Some (f k) else None)"
  by (induction ks) auto

lemma get_project: "get (project ks d) k = (if k \<in> set ks then get d k else JNull)"
  by (auto simp: project_def get_def map_of_map_key has_key_def split: option.splits)

lemma has_key_project [simp]: "has_key (project ks d) k \<longleftrightarrow> k \<in> set ks \<and> has_key d k"
  by (auto simp: has_key_iff keys_project)

section \<open>Text\<close>

text \<open>
  \<^verbatim>\<open>str(x)\<close>. A string is itself; a list or a dictionary prints its elements with \<^verbatim>\<open>repr\<close>,
  which quotes strings.
\<close>

definition hex_digit :: "nat \<Rightarrow> char" where
  "hex_digit d = (if d < 10 then char_of (48 + d) else char_of (87 + d))"

definition repr_char :: "char \<Rightarrow> char \<Rightarrow> string" where
  "repr_char q c = (let n = of_char c :: nat in
     if c = q \<or> n = 92 then [char_of (92::nat), c]
     else if n = 10 then [char_of (92::nat), CHR ''n'']
     else if n = 13 then [char_of (92::nat), CHR ''r'']
     else if n = 9 then [char_of (92::nat), CHR ''t'']
     else if n < 32 \<or> 127 \<le> n \<and> n \<le> 160 \<or> n = 173
       then [char_of (92::nat), CHR ''x'', hex_digit (n div 16), hex_digit (n mod 16)]
     else [c])"

definition repr_str :: "string \<Rightarrow> string" where
  "repr_str s = (let single = char_of (39::nat); double = char_of (34::nat);
       q = (if single \<in> set s \<and> double \<notin> set s then double else single)
     in [q] @ concat (map (repr_char q) s) @ [q])"

fun repr :: "json \<Rightarrow> string" where
  "repr JNull = ''None''"
| "repr (JBool b) = (if b then ''True'' else ''False'')"
| "repr (JInt i) = str_int i"
| "repr (JStr s) = repr_str s"
| "repr (JList xs) = ''['' @ join '', '' (map repr xs) @ '']''"
| "repr (JObj d) = ''{'' @ join '', '' (map (\<lambda>kv. repr_str (fst kv) @ '': '' @ repr (snd kv)) d) @ ''}''"

fun py_str :: "json \<Rightarrow> string" where
  "py_str (JStr s) = s"
| "py_str j = repr j"

text \<open>The idiom \<^verbatim>\<open>str(x or "")\<close>.\<close>

definition str_or :: "json \<Rightarrow> string" where
  "str_or j = (if truthy j then py_str j else [])"

lemma str_or_JStr [simp]: "str_or (JStr s) = s"
  by (simp add: str_or_def)

lemma str_or_JNull [simp]: "str_or JNull = []"
  by (simp add: str_or_def)

section \<open>Equality and hashing\<close>

text \<open>
  Python's \<^verbatim>\<open>==\<close>: booleans are the integers 0 and 1, dictionaries compare without regard to
  order. Only a value without lists and dictionaries can be put into, or looked up in, a
  set.
\<close>

fun as_int :: "json \<Rightarrow> int option" where
  "as_int (JInt i) = Some i"
| "as_int (JBool b) = Some (if b then 1 else 0)"
| "as_int _ = None"

lemma size_obj_value: "(k, v) \<in> set d \<Longrightarrow> size v < Suc (size_list (size_prod (\<lambda>_. 0) size) d)"
  by (induction d) auto

lemma size_list_value: "x \<in> set xs \<Longrightarrow> size x < Suc (size_list size xs)"
  by (simp add: less_Suc_eq_le size_list_estimation')

function py_eq :: "json \<Rightarrow> json \<Rightarrow> bool" where
  "py_eq a b =
     (case as_int a of
        Some i \<Rightarrow> as_int b = Some i
      | None \<Rightarrow>
          (case (a, b) of
             (JList xs, JList ys) \<Rightarrow>
               length xs = length ys \<and> list_all (\<lambda>(x, y). py_eq x y) (zip xs ys)
           | (JObj d, JObj e) \<Rightarrow>
               length d = length e \<and>
               list_all (\<lambda>(k, v). case map_of e k of None \<Rightarrow> False | Some w \<Rightarrow> py_eq v w) d
           | _ \<Rightarrow> a = b))"
  by pat_completeness auto
termination
  by (relation "measure (size \<circ> fst)")
     (auto dest: size_obj_value set_zip_leftD [THEN size_list_value])

declare py_eq.simps [simp del]

lemma py_eq_str [simp]: "py_eq (JStr s) j \<longleftrightarrow> j = JStr s"
  by (subst py_eq.simps) (auto split: json.splits)

fun hashable :: "json \<Rightarrow> bool" where
  "hashable (JList _) = False"
| "hashable (JObj _) = False"
| "hashable _ = True"

text \<open>\<^verbatim>\<open>set(x)\<close> of an iterable value: what it holds, or the exception it raises.\<close>

fun set_of_json :: "json \<Rightarrow> json list res" where
  "set_of_json (JList xs) = (if list_all hashable xs then Inr xs else Inl TypeError)"
| "set_of_json (JStr s) = Inr (map (\<lambda>c. JStr [c]) s)"
| "set_of_json (JObj d) = Inr (map (\<lambda>kv. JStr (fst kv)) d)"
| "set_of_json _ = Inl TypeError"

definition in_set :: "json \<Rightarrow> json list \<Rightarrow> bool res" where
  "in_set x xs = (if hashable x then Inr (list_ex (py_eq x) xs) else Inl TypeError)"

text \<open>
  The text a JSON column's path expression gives (\<^verbatim>\<open>part["type"].as_string()\<close>): SQL \<^verbatim>\<open>NULL\<close> for a
  missing or null field. The platform stores strings in the fields it reads this way; a
  nested value reads as \<^verbatim>\<open>NULL\<close> here.
\<close>

fun as_string :: "json \<Rightarrow> string option" where
  "as_string (JStr s) = Some s"
| "as_string (JInt i) = Some (str_int i)"
| "as_string (JBool b) = Some (if b then ''true'' else ''false'')"
| "as_string _ = None"

fun jfield :: "json \<Rightarrow> string \<Rightarrow> json" where
  "jfield (JObj d) k = get d k"
| "jfield _ k = JNull"

definition index_json :: "json \<Rightarrow> string \<Rightarrow> json res" where
  "index_json j k = (if is_obj j then index_key (jfields j) k else Inl TypeError)"

text \<open>
  \<^verbatim>\<open>int(x)\<close>: of a string, its decimal digits after an optional sign, single underscores allowed
  between digits.
\<close>

definition is_digit :: "char \<Rightarrow> bool" where
  "is_digit c = (let n = of_char c :: nat in 48 \<le> n \<and> n \<le> 57)"

fun digits_from :: "nat \<Rightarrow> string \<Rightarrow> nat option" where
  "digits_from acc [] = Some acc"
| "digits_from acc (c # cs) =
     (if is_digit c then digits_from (acc * 10 + (of_char c - 48)) cs
      else if c = CHR ''_'' \<and> cs \<noteq> [] \<and> is_digit (hd cs) then digits_from acc cs
      else None)"

definition parse_digits :: "string \<Rightarrow> int res" where
  "parse_digits s =
     (if s \<noteq> [] \<and> is_digit (hd s)
      then (case digits_from 0 s of None \<Rightarrow> Inl ValueError | Some n \<Rightarrow> Inr (int n))
      else Inl ValueError)"

definition parse_int :: "string \<Rightarrow> int res" where
  "parse_int text =
     (let s = strip text in
      if startswith ''-'' s then rbind (parse_digits (tl s)) (\<lambda>n. Inr (- n))
      else if startswith ''+'' s then parse_digits (tl s)
      else parse_digits s)"

fun py_int :: "json \<Rightarrow> int res" where
  "py_int (JInt i) = Inr i"
| "py_int (JBool b) = Inr (if b then 1 else 0)"
| "py_int (JStr s) = parse_int s"
| "py_int _ = Inl TypeError"

end
