(* ===== verification/Store.thy ===== *)
theory Store
  imports Json
begin

text \<open>
  The database the session runtime works on: one record per table of
  \<^verbatim>\<open>astrabox/persistence/sql/models/sessions.py\<close> with the columns the modelled code reads or
  writes (of \<^verbatim>\<open>Session\<close>, 22 columns), and the row conditions its statements share. A table is the
  list of its rows; a timestamp is an integer count of seconds, the unit of the intervals added to it
  (\<^verbatim>\<open>LEASE_TTL_S\<close>, \<^verbatim>\<open>CLAIM_LEASE_S\<close>), coarser than the database's, and only compared; \<^verbatim>\<open>func.now()\<close> is the
  argument \<open>now\<close> of an operation, constant within a transaction.

  Columns with a closed vocabulary are datatypes. Identity columns draw from counters of the
  database. \<open>t_notices\<close> is the queue of notices committed with a change
  (\<^verbatim>\<open>PersistenceCoordination.notify\<close>), in commit order.
\<close>

type_synonym time = int

datatype session_state = CREATING | READY | TERMINATED | RECOVERY_REQUIRED | DELETED

record session_row =
  s_session_id :: string
  s_environment_name :: string
  s_user_id :: string
  s_engine_kind :: "string option"
  s_agent_id :: "string option"
  s_owner_type :: "string option"
  s_hidden :: bool
  s_state :: session_state
  s_deleted :: bool
  s_archived_at :: "time option"
  s_permission_mode :: "string option"
  s_engine_capabilities :: "json option"
  s_updated_at :: time
  s_last_output_at :: "time option"
  s_runtime_status :: "string option"
  s_runtime_status_at :: "time option"
  s_sandbox_id :: "string option"
  s_sandbox_parked_at :: "time option"
  s_runtime_unavailable :: bool
  s_recovery_reason :: "string option"
  s_last_error :: "string option"
  s_reader_cursor :: "json option"

record agent_row =
  ag_agent_id :: string
  ag_state :: string

record reader_row =
  rd_session_id :: string
  rd_owner :: string
  rd_generation :: int
  rd_expires_at :: time

datatype input_state = Pending | Delivered | Admitted | Failed | Imported

record input_row =
  i_input_id :: string
  i_session_id :: string
  i_seq :: int
  i_client_message_id :: string
  i_author_user_id :: "string option"
  i_source :: "string option"
  i_content :: string
  i_content_blocks :: "json list option"
  i_state :: input_state
  i_response_id :: "string option"
  i_failure :: "json option"
  i_import_record :: "obj option"
  i_created_at :: time
  i_delivered_at :: "time option"
  i_admitted_at :: "time option"
  i_conversation_order :: "int option"

record attachment_row =
  at_attachment_id :: string
  at_owner_user_id :: string
  at_scope :: string
  at_session_id :: "string option"
  at_input_id :: "string option"
  at_ordinal :: "int option"
  at_kind :: "string option"
  at_name :: string
  at_media_type :: string
  at_size :: int
  at_data :: "nat list"
  at_expires_at :: "time option"

datatype control_state = CPending | CDone | CFailed | CExpired

record control_row =
  c_control_id :: string
  c_session_id :: string
  c_kind :: string
  c_target :: "string option"
  c_reader_generation :: int
  c_requested_by :: "string option"
  c_state :: control_state
  c_error :: "string option"
  c_requested_at :: time
  c_applied_at :: "time option"

datatype origin = OriginInput | OriginEngine | OriginImport
datatype response_status = Running | Waiting | Ended
datatype outcome = Completed | OutcomeFailed | Cancelled

record response_row =
  r_session_id :: string
  r_response_id :: string
  r_seq :: int
  r_origin :: origin
  r_status :: response_status
  r_outcome :: "outcome option"
  r_native_reason :: "string option"
  r_usage :: "json option"
  r_error :: "json option"
  r_import_record :: "obj option"
  r_started_at :: time
  r_ended_at :: "time option"
  r_conversation_order :: "int option"

record response_input_row =
  ri_session_id :: string
  ri_response_id :: string
  ri_input_id :: string

datatype interaction_status = IOpen | IAnswered | IWithdrawn | IExpired

record interaction_row =
  x_session_id :: string
  x_interaction_id :: string
  x_response_id :: string
  x_contract :: obj
  x_status :: interaction_status
  x_answer :: "obj option"
  x_answered_by :: "string option"
  x_answered_at :: "time option"
  x_opened_at :: time
  x_closed_at :: "time option"

record output_row =
  o_session_id :: string
  o_seq :: int
  o_response_id :: "string option"
  o_part :: obj
  o_created_at :: time

datatype notice_kind = NInput | NOutput | NReader | NAnswer | NControl | NPermission
  | NTerminal | NTerminalInterrupt | NSession | NTranscript

record session_notice =
  n_session_id :: string
  n_kind :: notice_kind
  n_seq :: int

record db =
  t_sessions :: "session_row list"
  t_agents :: "agent_row list"
  t_readers :: "reader_row list"
  t_inputs :: "input_row list"
  t_attachments :: "attachment_row list"
  t_controls :: "control_row list"
  t_responses :: "response_row list"
  t_response_inputs :: "response_input_row list"
  t_interactions :: "interaction_row list"
  t_output :: "output_row list"
  t_next_input_seq :: int
  t_next_response_seq :: int
  t_notices :: "session_notice list"

definition RUNTIME_PROTOCOL_INCOMPATIBLE :: string where
  "RUNTIME_PROTOCOL_INCOMPATIBLE = ''runtime_protocol_incompatible''"

definition IMPORTED_SOURCE :: string where
  "IMPORTED_SOURCE = ''import''"

fun open_input_state :: "input_state \<Rightarrow> bool" where
  "open_input_state Pending = True"
| "open_input_state Delivered = True"
| "open_input_state _ = False"

definition notify :: "string \<Rightarrow> notice_kind \<Rightarrow> int \<Rightarrow> db \<Rightarrow> db" where
  "notify sid kind seq db =
     db\<lparr>t_notices := t_notices db @ [\<lparr>n_session_id = sid, n_kind = kind, n_seq = seq\<rparr>]\<rparr>"

section \<open>Row conditions\<close>

definition coalesce :: "'a option \<Rightarrow> 'a \<Rightarrow> 'a" where
  "coalesce x d = (case x of None \<Rightarrow> d | Some v \<Rightarrow> v)"

fun ended_state :: "session_state \<Rightarrow> bool" where
  "ended_state TERMINATED = True"
| "ended_state DELETED = True"
| "ended_state _ = False"

text \<open>\<^verbatim>\<open>_accepting\<close>: a live session of an active Agent, owned by \<open>owner\<close> when one is given.\<close>

definition accepting :: "db \<Rightarrow> string option \<Rightarrow> session_row \<Rightarrow> bool" where
  "accepting db owner s \<longleftrightarrow>
     \<not> s_deleted s \<and> \<not> ended_state (s_state s) \<and>
     coalesce (s_recovery_reason s) [] \<noteq> RUNTIME_PROTOCOL_INCOMPATIBLE \<and>
     \<not> exists_row (\<lambda>a. s_agent_id s = Some (ag_agent_id a) \<and> ag_state a \<noteq> ''ACTIVE'') (t_agents db) \<and>
     (case owner of None \<Rightarrow> True | Some u \<Rightarrow> s_user_id s = u)"

text \<open>\<^verbatim>\<open>_reader_protocol_eligible\<close> and \<^verbatim>\<open>_WORKSPACE_OWN\<close>.\<close>

definition reader_protocol_eligible :: "session_row \<Rightarrow> bool" where
  "reader_protocol_eligible s \<longleftrightarrow>
     s_deleted s \<or> s_archived_at s \<noteq> None \<or> ended_state (s_state s) \<or>
     coalesce (s_recovery_reason s) [] \<noteq> RUNTIME_PROTOCOL_INCOMPATIBLE"

definition workspace_own :: "session_row \<Rightarrow> bool" where
  "workspace_own s \<longleftrightarrow> s_hidden s \<and> s_owner_type s = Some ''assistant_workspace''"

text \<open>\<^verbatim>\<open>ReaderLease\<close> and \<^verbatim>\<open>_holds\<close>.\<close>

record reader_lease =
  l_session_id :: string
  l_owner :: string
  l_generation :: int

definition holds :: "reader_lease \<Rightarrow> reader_row \<Rightarrow> bool" where
  "holds lease r \<longleftrightarrow>
     rd_session_id r = l_session_id lease \<and> rd_owner r = l_owner lease \<and>
     rd_generation r = l_generation lease"

abbreviation holds_lease :: "db \<Rightarrow> reader_lease \<Rightarrow> bool" where
  "holds_lease db lease \<equiv> \<exists>r \<in> set (t_readers db). holds lease r"

section \<open>Keys and references\<close>

text \<open>
  What the schema's constraints keep of every stored database: the primary keys, the unique
  client message id, the references an operation relies on, and that the identity counters
  are above every value drawn from them.
\<close>

definition input_key :: "input_row \<Rightarrow> string \<times> string" where
  "input_key i = (i_session_id i, i_client_message_id i)"

definition response_key :: "response_row \<Rightarrow> string \<times> string" where
  "response_key r = (r_session_id r, r_response_id r)"

definition interaction_key :: "interaction_row \<Rightarrow> string \<times> string" where
  "interaction_key x = (x_session_id x, x_interaction_id x)"

definition response_input_key :: "response_input_row \<Rightarrow> string \<times> string \<times> string" where
  "response_input_key r = (ri_session_id r, ri_response_id r, ri_input_id r)"

definition output_key :: "output_row \<Rightarrow> string \<times> int" where
  "output_key o' = (o_session_id o', o_seq o')"

lemmas key_defs = input_key_def response_key_def interaction_key_def response_input_key_def
  output_key_def

definition keys_ok :: "db \<Rightarrow> bool" where
  "keys_ok db \<longleftrightarrow>
     distinct (map s_session_id (t_sessions db)) \<and>
     distinct (map rd_session_id (t_readers db)) \<and>
     distinct (map i_input_id (t_inputs db)) \<and>
     distinct (map input_key (t_inputs db)) \<and>
     distinct (map response_key (t_responses db)) \<and>
     distinct (map interaction_key (t_interactions db)) \<and>
     distinct (map response_input_key (t_response_inputs db)) \<and>
     distinct (map output_key (t_output db)) \<and>
     sorted_wrt (<) (map i_seq (t_inputs db)) \<and>
     (\<forall>i \<in> set (t_inputs db). i_seq i < t_next_input_seq db) \<and>
     sorted_wrt (<) (map r_seq (t_responses db)) \<and>
     (\<forall>r \<in> set (t_responses db). r_seq r < t_next_response_seq db)"

lemma keys_okD:
  assumes "keys_ok db"
  shows keys_ok_sessions: "distinct (map s_session_id (t_sessions db))"
    and keys_ok_readers: "distinct (map rd_session_id (t_readers db))"
    and keys_ok_inputs: "distinct (map i_input_id (t_inputs db))"
    and keys_ok_client: "distinct (map input_key (t_inputs db))"
    and keys_ok_responses: "distinct (map response_key (t_responses db))"
    and keys_ok_interactions: "distinct (map interaction_key (t_interactions db))"
    and keys_ok_output: "distinct (map output_key (t_output db))"
  using assms by (simp_all add: keys_ok_def)

lemma keys_ok_notify [simp]: "keys_ok (notify sid k n db) = keys_ok db"
  by (simp add: keys_ok_def notify_def)

text \<open>An update of columns outside the keys keeps them.\<close>

lemma keys_ok_update_sessions:
  assumes "keys_ok db" and "\<And>s. s_session_id (f s) = s_session_id s"
  shows "keys_ok (db\<lparr>t_sessions := update_where p f (t_sessions db)\<rparr>)"
  using assms by (simp add: keys_ok_def map_update_where)

lemma keys_ok_update_readers:
  assumes "keys_ok db" and "\<And>r. rd_session_id (f r) = rd_session_id r"
  shows "keys_ok (db\<lparr>t_readers := update_where p f (t_readers db)\<rparr>)"
  using assms by (simp add: keys_ok_def map_update_where)

lemma keys_ok_update_inputs:
  assumes "keys_ok db" and "\<And>i. i_input_id (f i) = i_input_id i"
    and "\<And>i. input_key (f i) = input_key i" and "\<And>i. i_seq (f i) = i_seq i"
  shows "keys_ok (db\<lparr>t_inputs := update_where p f (t_inputs db)\<rparr>)"
  using assms by (auto simp: keys_ok_def map_update_where set_update_where)

lemma keys_ok_update_responses:
  assumes "keys_ok db" and "\<And>r. response_key (f r) = response_key r" and "\<And>r. r_seq (f r) = r_seq r"
  shows "keys_ok (db\<lparr>t_responses := update_where p f (t_responses db)\<rparr>)"
  using assms by (auto simp: keys_ok_def map_update_where set_update_where)

lemma keys_ok_update_interactions:
  assumes "keys_ok db" and "\<And>x. interaction_key (f x) = interaction_key x"
  shows "keys_ok (db\<lparr>t_interactions := update_where p f (t_interactions db)\<rparr>)"
  using assms by (simp add: keys_ok_def map_update_where)

lemma keys_ok_cong:
  assumes "keys_ok db"
  shows "keys_ok (db\<lparr>t_controls := cs\<rparr>)" and "keys_ok (db\<lparr>t_attachments := as\<rparr>)"
    and "keys_ok (db\<lparr>t_notices := ns\<rparr>)" and "keys_ok (db\<lparr>t_agents := gs\<rparr>)"
  using assms by (simp_all add: keys_ok_def)

lemmas keys_ok_updates = keys_ok_update_sessions keys_ok_update_readers keys_ok_update_inputs
  keys_ok_update_responses keys_ok_update_interactions keys_ok_cong

end
