(* ===== verification/Samples.thy ===== *)
theory Samples
  imports Store
begin

text \<open>
  A small stored conversation, on which the theorems of the components are evaluated.
\<close>

definition sample_session :: "string \<Rightarrow> session_row" where
  "sample_session sid =
     \<lparr>s_session_id = sid, s_environment_name = ''prod'', s_user_id = ''ann'',
      s_engine_kind = Some ''claude'', s_agent_id = None, s_owner_type = None, s_hidden = False,
      s_state = READY, s_deleted = False, s_archived_at = None, s_permission_mode = None,
      s_engine_capabilities = None, s_updated_at = 0, s_last_output_at = None,
      s_runtime_status = None, s_runtime_status_at = None, s_sandbox_id = Some ''box'',
      s_sandbox_parked_at = None, s_runtime_unavailable = False, s_recovery_reason = None,
      s_last_error = None, s_reader_cursor = None\<rparr>"

definition sample_file :: "string \<Rightarrow> attachment_row" where
  "sample_file aid =
     \<lparr>at_attachment_id = aid, at_owner_user_id = ''ann'', at_scope = ''web'', at_session_id = None,
      at_input_id = None, at_ordinal = None, at_kind = None, at_name = ''a.txt'',
      at_media_type = ''text/plain'', at_size = 1, at_data = [65], at_expires_at = Some 100\<rparr>"

definition sample_db :: db where
  "sample_db =
     \<lparr>t_sessions = [sample_session ''s'', sample_session ''t''], t_agents = [], t_readers = [],
      t_inputs = [], t_attachments = [sample_file ''f'', sample_file ''g''], t_controls = [],
      t_responses = [], t_response_inputs = [], t_interactions = [], t_output = [],
      t_next_input_seq = 1, t_next_response_seq = 1, t_notices = []\<rparr>"

lemma sample_db_keys [simp]: "keys_ok sample_db"
  by (simp add: keys_ok_def sample_db_def sample_session_def)

end
