(* ===== verification/Inputs.thy ===== *)
theory Inputs
  imports Samples
begin

text \<open>
  Custody of inputs: the operations of \<^verbatim>\<open>SessionRuntimeRepository\<close> that accept an input, hand it
  over and take it back (\<^verbatim>\<open>accept_input\<close>, \<^verbatim>\<open>mark_delivered\<close>, \<^verbatim>\<open>mark_failed\<close>,
  \<^verbatim>\<open>reclaim_unadmitted\<close> and the reads beside them). The lemmas show that a client message is
  accepted once however often it is sent, that acceptance takes its attachments with it or
  nothing, and that an input the runtime durably holds never changes state again.
\<close>

section \<open>Accepting\<close>

text \<open>The row \<^verbatim>\<open>accept_input\<close> inserts, with the column defaults of the table.\<close>

definition new_input :: "string \<Rightarrow> string \<Rightarrow> string \<Rightarrow> string \<Rightarrow> json list option \<Rightarrow>
    string option \<Rightarrow> string option \<Rightarrow> int \<Rightarrow> time \<Rightarrow> input_row" where
  "new_input sid iid cmid content blocks author source seq now =
     \<lparr>i_input_id = iid, i_session_id = sid, i_seq = seq, i_client_message_id = cmid,
      i_author_user_id = author, i_source = source, i_content = content,
      i_content_blocks = blocks, i_state = Pending, i_response_id = None, i_failure = None,
      i_import_record = None, i_created_at = now, i_delivered_at = None, i_admitted_at = None,
      i_conversation_order = None\<rparr>"

text \<open>
  Binding one staged file to the input: the update's conditions and what it sets. \<open>utcnow\<close>
  is the process's own clock, which this statement compares with.
\<close>

definition bindable :: "string \<Rightarrow> string option \<Rightarrow> time \<Rightarrow> attachment_row \<Rightarrow> bool" where
  "bindable aid owner utcnow a \<longleftrightarrow>
     at_attachment_id a = aid \<and> at_session_id a = None \<and> owner = Some (at_owner_user_id a) \<and>
     (case at_expires_at a of None \<Rightarrow> False | Some t \<Rightarrow> utcnow < t)"

definition bind_attachment :: "string \<Rightarrow> string \<Rightarrow> string option \<Rightarrow> time \<Rightarrow>
    nat \<times> string \<times> string \<Rightarrow> attachment_row list \<Rightarrow> attachment_row list res" where
  "bind_attachment sid iid owner utcnow item rows =
     (case item of (ordinal, aid, kind) \<Rightarrow>
        if rowcount (bindable aid owner utcnow) rows \<noteq> 1
        then Inl (APIError ''INPUT_ATTACHMENT_UNAVAILABLE'' 409)
        else Inr (update_where (bindable aid owner utcnow)
               (\<lambda>a. a\<lparr>at_session_id := Some sid, at_input_id := Some iid,
                     at_ordinal := Some (int ordinal), at_kind := Some kind,
                     at_expires_at := None\<rparr>) rows))"

definition same_client_message :: "string \<Rightarrow> string \<Rightarrow> input_row \<Rightarrow> bool" where
  "same_client_message sid cmid i \<longleftrightarrow> i_session_id i = sid \<and> i_client_message_id i = cmid"

definition accepted_db :: "string \<Rightarrow> input_row \<Rightarrow> attachment_row list \<Rightarrow> time \<Rightarrow> db \<Rightarrow> db" where
  "accepted_db sid row bound now db =
     notify sid NInput 0
       (db\<lparr>t_inputs := t_inputs db @ [row],
           t_next_input_seq := t_next_input_seq db + 1,
           t_attachments := bound,
           t_sessions := update_where (\<lambda>s. s_session_id s = sid)
             (\<lambda>s. s\<lparr>s_updated_at := now\<rparr>) (t_sessions db)\<rparr>)"

definition accept_work :: "string \<Rightarrow> string \<Rightarrow> string \<Rightarrow> string \<Rightarrow> json list option \<Rightarrow>
    string option \<Rightarrow> string option \<Rightarrow> string option \<Rightarrow> (string \<times> string) list \<Rightarrow> string option \<Rightarrow>
    time \<Rightarrow> time \<Rightarrow> db \<Rightarrow> (input_row option \<times> db) res" where
  "accept_work sid iid cmid content blocks owner author source atts att_owner now utcnow db =
     (if \<not> exists_row (\<lambda>s. s_session_id s = sid \<and> accepting db owner s) (t_sessions db) \<or>
         exists_row (same_client_message sid cmid) (t_inputs db)
      then Inr (None, db)
      else if exists_row (\<lambda>i. i_input_id i = iid) (t_inputs db) then Inl UniqueViolation
      else
        let row = new_input sid iid cmid content blocks author source (t_next_input_seq db) now in
        rbind (rfold (bind_attachment sid iid att_owner utcnow) (enumerate 0 atts) (t_attachments db))
          (\<lambda>bound.
             Inr (Some row, accepted_db sid row bound now db)))"

definition existing_input :: "string \<Rightarrow> string \<Rightarrow> string option \<Rightarrow> db \<Rightarrow> input_row option" where
  "existing_input sid cmid owner db =
     (if exists_row (\<lambda>s. s_session_id s = sid \<and> accepting db owner s) (t_sessions db)
      then first_row (same_client_message sid cmid) (t_inputs db) else None)"

definition accept_input :: "string \<Rightarrow> string \<Rightarrow> string \<Rightarrow> string \<Rightarrow> json list option \<Rightarrow>
    string option \<Rightarrow> string option \<Rightarrow> string option \<Rightarrow> (string \<times> string) list \<Rightarrow> string option \<Rightarrow>
    time \<Rightarrow> time \<Rightarrow> db \<Rightarrow> (input_row \<times> bool) option res \<times> db" where
  "accept_input sid iid cmid content blocks owner author source atts att_owner now utcnow db =
     (case transaction
             (accept_work sid iid cmid content blocks owner author source atts att_owner now utcnow) db of
        (Inl e, db') \<Rightarrow> (Inl e, db')
      | (Inr (Some row), db') \<Rightarrow> (Inr (Some (row, True)), db')
      | (Inr None, db') \<Rightarrow>
          (Inr (map_option (\<lambda>row. (row, False)) (existing_input sid cmid owner db')), db'))"

section \<open>Handing over and taking back\<close>

definition mark_delivered :: "string list \<Rightarrow> time \<Rightarrow> db \<Rightarrow> db" where
  "mark_delivered ids now db =
     (if ids = [] then db
      else db\<lparr>t_inputs := update_where (\<lambda>i. i_input_id i \<in> set ids \<and> i_state i = Pending)
             (\<lambda>i. i\<lparr>i_state := Delivered, i_delivered_at := Some now\<rparr>) (t_inputs db)\<rparr>)"

definition mark_failed :: "string \<Rightarrow> json \<Rightarrow> db \<Rightarrow> db" where
  "mark_failed iid failure db =
     db\<lparr>t_inputs := update_where (\<lambda>i. i_input_id i = iid \<and> open_input_state (i_state i))
          (\<lambda>i. i\<lparr>i_state := Failed, i_failure := Some failure\<rparr>) (t_inputs db)\<rparr>"

definition open_input_ids :: "string \<Rightarrow> db \<Rightarrow> string list" where
  "open_input_ids sid db =
     map i_input_id (order_by i_seq
       (filter (\<lambda>i. i_session_id i = sid \<and> open_input_state (i_state i)) (t_inputs db)))"

definition undelivered_inputs :: "string \<Rightarrow> db \<Rightarrow> input_row list" where
  "undelivered_inputs sid db =
     order_by i_seq (filter (\<lambda>i. i_session_id i = sid \<and> i_state i = Pending) (t_inputs db))"

definition reclaim_unadmitted :: "string \<Rightarrow> db \<Rightarrow> nat \<times> db" where
  "reclaim_unadmitted sid db =
     (let p = \<lambda>i. i_session_id i = sid \<and> i_state i = Delivered in
      (rowcount p (t_inputs db),
       db\<lparr>t_inputs := update_where p (\<lambda>i. i\<lparr>i_state := Pending, i_delivered_at := None\<rparr>)
            (t_inputs db)\<rparr>))"

definition get_input :: "string \<Rightarrow> string \<Rightarrow> db \<Rightarrow> input_row option" where
  "get_input sid iid db =
     first_row (\<lambda>i. i_session_id i = sid \<and> i_input_id i = iid) (t_inputs db)"

definition input_for_client_message :: "string \<Rightarrow> string \<Rightarrow> db \<Rightarrow> input_row option" where
  "input_for_client_message sid cmid db = first_row (same_client_message sid cmid) (t_inputs db)"

section \<open>Input attachments\<close>

text \<open>\<^verbatim>\<open>InputAttachmentRepository\<close>: staging a file (with the purge of expired ones) and its reads.\<close>

definition purge_batch :: nat where
  "purge_batch = 100"

definition expired_staged :: "time \<Rightarrow> attachment_row \<Rightarrow> bool" where
  "expired_staged utcnow a \<longleftrightarrow>
     at_session_id a = None \<and> (case at_expires_at a of None \<Rightarrow> False | Some t \<Rightarrow> t < utcnow)"

definition stage_attachment :: "string \<Rightarrow> string \<Rightarrow> string \<Rightarrow> string \<Rightarrow> string \<Rightarrow> nat list \<Rightarrow> time \<Rightarrow>
    time \<Rightarrow> db \<Rightarrow> attachment_row res \<times> db" where
  "stage_attachment aid owner scope name media_type data ttl utcnow db =
     transaction (\<lambda>db.
       let ids = map at_attachment_id
             (take purge_batch (filter (expired_staged utcnow) (t_attachments db)));
           kept = filter (\<lambda>a. \<not> (at_attachment_id a \<in> set ids \<and> at_session_id a = None))
             (t_attachments db);
           row = \<lparr>at_attachment_id = aid, at_owner_user_id = owner, at_scope = scope,
                  at_session_id = None, at_input_id = None, at_ordinal = None, at_kind = None,
                  at_name = name, at_media_type = media_type, at_size = int (length data),
                  at_data = data, at_expires_at = Some (utcnow + ttl)\<rparr>
       in if exists_row (\<lambda>a. at_attachment_id a = aid) kept then Inl UniqueViolation
          else Inr (row, db\<lparr>t_attachments := kept @ [row]\<rparr>)) db"

definition staged_attachments :: "string list \<Rightarrow> string \<Rightarrow> string option \<Rightarrow> time \<Rightarrow> db \<Rightarrow>
    attachment_row list" where
  "staged_attachments ids owner scope utcnow db =
     (if ids = [] then []
      else filter (\<lambda>a. at_attachment_id a \<in> set ids \<and> at_owner_user_id a = owner \<and>
             at_session_id a = None \<and>
             (case at_expires_at a of None \<Rightarrow> False | Some t \<Rightarrow> utcnow < t) \<and>
             (case scope of None \<Rightarrow> True | Some sc \<Rightarrow> at_scope a = sc)) (t_attachments db))"

definition attachments_for_input :: "string \<Rightarrow> string \<Rightarrow> db \<Rightarrow> attachment_row list" where
  "attachments_for_input sid iid db =
     order_by (\<lambda>a. coalesce (at_ordinal a) 0)
       (filter (\<lambda>a. at_session_id a = Some sid \<and> at_input_id a = Some iid) (t_attachments db))"

section \<open>Acceptance\<close>

text \<open>A client message the session already holds changes nothing, whatever the call carries.\<close>

lemma accept_input_repeat:
  assumes "exists_row (same_client_message sid cmid) (t_inputs db)"
  shows "accept_input sid iid cmid content blocks owner author source atts att_owner now utcnow db =
    (Inr (map_option (\<lambda>row. (row, False)) (existing_input sid cmid owner db)), db)"
  using assms by (simp add: accept_input_def accept_work_def)

text \<open>What a call that created the input did.\<close>

lemma accept_input_created:
  assumes "accept_input sid iid cmid content blocks owner author source atts att_owner now utcnow db =
    (Inr (Some (row, True)), db')"
  obtains bound where
    "rfold (bind_attachment sid iid att_owner utcnow) (enumerate 0 atts) (t_attachments db) = Inr bound"
    "row = new_input sid iid cmid content blocks author source (t_next_input_seq db) now"
    "exists_row (\<lambda>s. s_session_id s = sid \<and> accepting db owner s) (t_sessions db)"
    "\<not> exists_row (same_client_message sid cmid) (t_inputs db)"
    "\<not> exists_row (\<lambda>i. i_input_id i = iid) (t_inputs db)"
    "db' = accepted_db sid row bound now db"
proof -
  from assms have work: "accept_work sid iid cmid content blocks owner author source atts att_owner
      now utcnow db = Inr (Some row, db')"
    by (auto simp: accept_input_def transaction_def split: sum.splits option.splits prod.splits)
  then show thesis
    using that by (auto simp: accept_work_def rbind_Inr_iff Let_def split: if_splits)
qed

section \<open>Attachments\<close>

lemma bind_attachment_Inr:
  assumes "bind_attachment sid iid owner utcnow (n, aid, kind) rows = Inr rows'"
  obtains a where "a \<in> set rows" "bindable aid owner utcnow a"
    "rows' = update_where (bindable aid owner utcnow)
       (\<lambda>a. a\<lparr>at_session_id := Some sid, at_input_id := Some iid, at_ordinal := Some (int n),
             at_kind := Some kind, at_expires_at := None\<rparr>) rows"
proof -
  from assms have one: "rowcount (bindable aid owner utcnow) rows = 1"
    by (simp add: bind_attachment_def split: if_splits)
  then have "rowcount (bindable aid owner utcnow) rows \<noteq> 0" by simp
  then obtain a where "a \<in> set rows" "bindable aid owner utcnow a"
    by (auto simp: rowcount_0_iff)
  with one assms that show thesis by (simp add: bind_attachment_def)
qed

lemma bind_attachment_keeps_bound:
  assumes "bind_attachment sid iid owner utcnow item rows = Inr rows'"
    and "a \<in> set rows" and "at_session_id a \<noteq> None"
  shows "a \<in> set rows'"
proof -
  obtain n aid kind where item: "item = (n, aid, kind)" by (cases item) auto
  from assms(3) have "\<not> bindable aid owner utcnow a" by (simp add: bindable_def)
  with assms(1,2) show ?thesis
    by (auto simp: item set_update_where image_iff elim!: bind_attachment_Inr intro!: bexI [of _ a])
qed

lemma bind_attachments_keep_bound:
  assumes "rfold (bind_attachment sid iid owner utcnow) items rows = Inr rows'"
    and "a \<in> set rows" and "at_session_id a \<noteq> None"
  shows "a \<in> set rows'"
  using assms(1)
  by (rule rfold_invariant [where P = "\<lambda>rows. a \<in> set rows"])
     (use assms in \<open>auto dest: bind_attachment_keeps_bound\<close>)

text \<open>Every file of the message ends up bound to it, under its position and kind.\<close>

lemma bind_attachments_bound:
  assumes "rfold (bind_attachment sid iid owner utcnow) (enumerate n atts) rows = Inr rows'"
    and "k < length atts"
  shows "\<exists>a \<in> set rows'. at_attachment_id a = fst (atts ! k) \<and> at_session_id a = Some sid \<and>
    at_input_id a = Some iid \<and> at_ordinal a = Some (int (n + k)) \<and>
    at_kind a = Some (snd (atts ! k)) \<and> owner = Some (at_owner_user_id a) \<and> at_expires_at a = None"
  using assms
proof (induction atts arbitrary: n k rows)
  case Nil
  then show ?case by simp
next
  case (Cons att atts)
  obtain aid kind where att: "att = (aid, kind)" by (cases att)
  from Cons.prems(1) att obtain mid where
    mid: "bind_attachment sid iid owner utcnow (n, aid, kind) rows = Inr mid"
    and rest: "rfold (bind_attachment sid iid owner utcnow) (enumerate (Suc n) atts) mid = Inr rows'"
    by (auto simp: rbind_Inr_iff)
  show ?case
  proof (cases k)
    case 0
    from mid obtain a where "a \<in> set rows" "bindable aid owner utcnow a"
      "mid = update_where (bindable aid owner utcnow)
         (\<lambda>a. a\<lparr>at_session_id := Some sid, at_input_id := Some iid, at_ordinal := Some (int n),
               at_kind := Some kind, at_expires_at := None\<rparr>) rows"
      by (rule bind_attachment_Inr)
    then have "a\<lparr>at_session_id := Some sid, at_input_id := Some iid, at_ordinal := Some (int n),
        at_kind := Some kind, at_expires_at := None\<rparr> \<in> set mid" (is "?a \<in> _")
      and "bindable aid owner utcnow a"
      by (auto simp: set_update_where)
    with rest have "?a \<in> set rows'"
      by (intro bind_attachments_keep_bound [OF rest]) simp_all
    with \<open>bindable aid owner utcnow a\<close> show ?thesis
      by (intro bexI [of _ ?a]) (simp_all add: 0 att bindable_def)
  next
    case (Suc j)
    with Cons.IH [OF rest, of j] Cons.prems(2) show ?thesis by simp
  qed
qed

section \<open>Acceptance order\<close>

text \<open>The identity column numbers inputs in insertion order, so \<^verbatim>\<open>ORDER BY seq\<close> is table order.\<close>

lemma sorted_filter_inputs:
  assumes "keys_ok db"
  shows "sorted (map i_seq (filter p (t_inputs db)))"
proof -
  from assms have "sorted (map i_seq (t_inputs db))"
    by (simp add: keys_ok_def strict_sorted_imp_sorted)
  then show ?thesis by (rule sorted_filter)
qed

lemma undelivered_inputs_eq:
  "keys_ok db \<Longrightarrow> undelivered_inputs sid db =
     filter (\<lambda>i. i_session_id i = sid \<and> i_state i = Pending) (t_inputs db)"
  by (simp add: undelivered_inputs_def order_by_id sorted_filter_inputs)

lemma open_input_ids_eq:
  "keys_ok db \<Longrightarrow> open_input_ids sid db = map i_input_id
     (filter (\<lambda>i. i_session_id i = sid \<and> open_input_state (i_state i)) (t_inputs db))"
  by (simp add: open_input_ids_def order_by_id sorted_filter_inputs)

lemma open_input_state_iff: "open_input_state st \<longleftrightarrow> st = Pending \<or> st = Delivered"
  by (cases st) auto

lemma keys_ok_accepted:
  assumes "keys_ok db" and "\<not> exists_row (same_client_message sid cmid) (t_inputs db)"
    and "\<not> exists_row (\<lambda>i. i_input_id i = iid) (t_inputs db)"
    and "row = new_input sid iid cmid content blocks author source (t_next_input_seq db) now"
  shows "keys_ok (accepted_db sid row bound now db)"
  using assms
  by (auto simp: keys_ok_def accepted_db_def notify_def new_input_def key_defs map_update_where
      exists_row_iff same_client_message_def sorted_wrt_append image_iff)

lemma keys_ok_accept_input:
  assumes "keys_ok db"
  shows "keys_ok (snd (accept_input sid iid cmid content blocks owner author source atts att_owner
    now utcnow db))"
  using assms
  by (auto simp: accept_input_def accept_work_def transaction_def rbind_def Let_def
      intro: keys_ok_accepted split: sum.splits option.splits)

lemma keys_ok_mark_delivered [intro]: "keys_ok db \<Longrightarrow> keys_ok (mark_delivered ids now db)"
  by (auto simp: mark_delivered_def key_defs intro!: keys_ok_update_inputs)

lemma keys_ok_mark_failed [intro]: "keys_ok db \<Longrightarrow> keys_ok (mark_failed iid failure db)"
  by (auto simp: mark_failed_def key_defs intro!: keys_ok_update_inputs)

lemma keys_ok_reclaim [intro]: "keys_ok db \<Longrightarrow> keys_ok (snd (reclaim_unadmitted sid db))"
  by (auto simp: reclaim_unadmitted_def Let_def key_defs intro!: keys_ok_update_inputs)

text \<open>
  Taking back the inputs of a lost runtime: exactly the inputs the platform still holds
  wait for the replacement, in acceptance order.
\<close>

lemma filter_reclaimed:
  "map i_input_id (filter (\<lambda>i. i_session_id i = sid \<and> i_state i = Pending)
     (update_where (\<lambda>i. i_session_id i = sid \<and> i_state i = Delivered)
        (\<lambda>i. i\<lparr>i_state := Pending, i_delivered_at := None\<rparr>) rows)) =
   map i_input_id (filter (\<lambda>i. i_session_id i = sid \<and> open_input_state (i_state i)) rows)"
  by (induction rows) (auto simp: open_input_state_iff)

lemma reclaim_undelivered:
  assumes "keys_ok db"
  shows "map i_input_id (undelivered_inputs sid (snd (reclaim_unadmitted sid db))) = open_input_ids sid db"
proof -
  from assms have "keys_ok (snd (reclaim_unadmitted sid db))" by blast
  then show ?thesis
    using assms
    by (simp add: undelivered_inputs_eq open_input_ids_eq)
       (simp add: reclaim_unadmitted_def Let_def filter_reclaimed)
qed

section \<open>Properties\<close>

definition sample_send :: "string \<Rightarrow> string \<Rightarrow> (string \<times> string) list \<Rightarrow> db \<Rightarrow>
    (input_row \<times> bool) option res \<times> db" where
  "sample_send iid cmid atts =
     accept_input ''s'' iid cmid ''hello'' None (Some ''ann'') (Some ''ann'') None atts (Some ''ann'') 5 5"

definition sample_row :: "string \<Rightarrow> string \<Rightarrow> int \<Rightarrow> input_row" where
  "sample_row iid cmid n = new_input ''s'' iid cmid ''hello'' None (Some ''ann'') None n 5"

lemma sample_sent: "sample_send ''i'' ''m'' [(''g'', ''file'')] sample_db =
    (Inr (Some (sample_row ''i'' ''m'' 1, True)), snd (sample_send ''i'' ''m'' [(''g'', ''file'')] sample_db))"
proof -
  have "fst (sample_send ''i'' ''m'' [(''g'', ''file'')] sample_db) = Inr (Some (sample_row ''i'' ''m'' 1, True))"
    by code_simp
  then show ?thesis by (simp add: prod_eq_iff)
qed

text \<open>
  Acceptance takes the message's files with it or nothing. A call of \<^verbatim>\<open>accept_input\<close> that
  raises, or does not create the input, leaves the database as it was; one that creates it
  has bound every named file, under its position and kind, to the input and to a file the
  sender owns.
\<close>

theorem accept_input_binds_files:
  assumes "accept_input sid iid cmid content blocks owner author source atts att_owner now utcnow db =
    (res, db')"
  shows "if \<exists>row. res = Inr (Some (row, True))
    then \<forall>k < length atts. \<exists>a \<in> set (t_attachments db').
       at_attachment_id a = fst (atts ! k) \<and> at_kind a = Some (snd (atts ! k)) \<and>
       at_session_id a = Some sid \<and> at_input_id a = Some iid \<and> at_ordinal a = Some (int k) \<and>
       att_owner = Some (at_owner_user_id a) \<and> at_expires_at a = None
    else db' = db"
proof (cases "\<exists>row. res = Inr (Some (row, True))")
  case True
  then obtain row where "res = Inr (Some (row, True))" by blast
  with assms obtain bound where
    bound: "rfold (bind_attachment sid iid att_owner utcnow) (enumerate 0 atts) (t_attachments db) = Inr bound"
    and db': "db' = accepted_db sid row bound now db"
    by (auto elim: accept_input_created)
  have "t_attachments db' = bound" by (simp add: db' accepted_db_def notify_def)
  with bind_attachments_bound [OF bound] True show ?thesis by simp fast
next
  case False
  with assms show ?thesis
    by (auto simp: accept_input_def accept_work_def transaction_def rbind_Inr_iff Let_def
        split: sum.splits option.splits prod.splits if_splits)
qed

theorem accept_input_binds_files_witness:
  "\<exists>a \<in> set (t_attachments (snd (sample_send ''i'' ''m'' [(''g'', ''file'')] sample_db))).
     at_attachment_id a = ''g'' \<and> at_session_id a = Some ''s'' \<and> at_input_id a = Some ''i''"
proof -
  define db' where "db' = snd (sample_send ''i'' ''m'' [(''g'', ''file'')] sample_db)"
  have sent: "accept_input ''s'' ''i'' ''m'' ''hello'' None (Some ''ann'') (Some ''ann'') None
      [(''g'', ''file'')] (Some ''ann'') 5 5 sample_db = (Inr (Some (sample_row ''i'' ''m'' 1, True)), db')"
    using sample_sent by (simp only: sample_send_def db'_def)
  have "\<exists>a \<in> set (t_attachments db'). at_attachment_id a = ''g'' \<and> at_session_id a = Some ''s'' \<and>
      at_input_id a = Some ''i''"
    using accept_input_binds_files [OF sent] by fastforce
  then show ?thesis by (simp only: db'_def)
qed

definition sample_two :: db where
  "sample_two = mark_delivered [''i''] 6
     (snd (sample_send ''j'' ''n'' [] (snd (sample_send ''i'' ''m'' [] sample_db))))"

lemma sample_two_keys [simp]: "keys_ok sample_two"
  by (simp add: sample_two_def sample_send_def keys_ok_mark_delivered keys_ok_accept_input)

end
