(* ===== verification/Leases.thy ===== *)
theory Leases
  imports Inputs
begin

text \<open>
  The reader lease of a session and what depends on it: claiming, renewing and releasing the
  lease (\<^verbatim>\<open>claim_reader\<close>, \<^verbatim>\<open>renew_reader\<close>, \<^verbatim>\<open>release_reader\<close>, \<^verbatim>\<open>reader_owner\<close>), the sweep's query
  for sessions without a live reader, and the controls people send to the live reader.

  The interface other components rely on is the locale \<open>fenced_lease\<close>: every grant starts a
  new generation and only the latest grant of a session is held. It is interpreted on the
  operations of the repository at the end of the theory.
\<close>

section \<open>The lease\<close>

definition claim_eligible :: "string \<Rightarrow> string \<Rightarrow> session_row \<Rightarrow> bool" where
  "claim_eligible env sid s \<longleftrightarrow>
     s_session_id s = sid \<and> s_environment_name s = env \<and> \<not> workspace_own s \<and>
     reader_protocol_eligible s"

definition seed_reader :: "string \<Rightarrow> string \<Rightarrow> time \<Rightarrow> reader_row" where
  "seed_reader sid owner expires =
     \<lparr>rd_session_id = sid, rd_owner = owner, rd_generation = 0, rd_expires_at = expires\<rparr>"

definition claimable :: "string \<Rightarrow> string \<Rightarrow> time \<Rightarrow> reader_row \<Rightarrow> bool" where
  "claimable sid owner now r \<longleftrightarrow> rd_session_id r = sid \<and> (rd_expires_at r < now \<or> rd_owner r = owner)"

definition taken_over :: "string \<Rightarrow> time \<Rightarrow> reader_row \<Rightarrow> reader_row" where
  "taken_over owner expires r =
     r\<lparr>rd_owner := owner, rd_generation := rd_generation r + 1, rd_expires_at := expires\<rparr>"

definition claim_reader :: "string \<Rightarrow> string \<Rightarrow> string \<Rightarrow> time \<Rightarrow> time \<Rightarrow> db \<Rightarrow>
    reader_lease option \<times> db" where
  "claim_reader env sid owner ttl now db =
     (if \<not> exists_row (claim_eligible env sid) (t_sessions db) then (None, db)
      else
        let seeded = insert_absent rd_session_id (seed_reader sid owner (now + ttl)) (t_readers db);
            claimed = update_where (claimable sid owner now) (taken_over owner (now + ttl)) seeded
        in if rowcount (claimable sid owner now) seeded = 0 then (None, db\<lparr>t_readers := seeded\<rparr>)
           else
             (map_option (\<lambda>r. \<lparr>l_session_id = sid, l_owner = owner, l_generation = rd_generation r\<rparr>)
                (first_row (\<lambda>r. rd_session_id r = sid) claimed),
              db\<lparr>t_readers := claimed\<rparr>))"

definition renew_reader :: "reader_lease \<Rightarrow> time \<Rightarrow> time \<Rightarrow> db \<Rightarrow> bool \<times> db" where
  "renew_reader lease ttl now db =
     (0 < rowcount (holds lease) (t_readers db),
      db\<lparr>t_readers := update_where (holds lease) (\<lambda>r. r\<lparr>rd_expires_at := now + ttl\<rparr>) (t_readers db)\<rparr>)"

definition release_reader :: "reader_lease \<Rightarrow> time \<Rightarrow> db \<Rightarrow> db" where
  "release_reader lease now db =
     db\<lparr>t_readers := update_where (holds lease) (\<lambda>r. r\<lparr>rd_expires_at := now\<rparr>) (t_readers db)\<rparr>"

definition reader_live :: "time \<Rightarrow> string \<Rightarrow> db \<Rightarrow> bool" where
  "reader_live now sid db =
     exists_row (\<lambda>r. rd_session_id r = sid \<and> now < rd_expires_at r) (t_readers db)"

definition reader_owner :: "time \<Rightarrow> string \<Rightarrow> db \<Rightarrow> string option" where
  "reader_owner now sid db =
     (case first_row (\<lambda>r. rd_session_id r = sid \<and> now < rd_expires_at r) (t_readers db) of
        None \<Rightarrow> None
      | Some r \<Rightarrow> if rd_owner r = [] then None else Some (rd_owner r))"

section \<open>Sessions that need a reader\<close>

definition inputs_waiting :: "db \<Rightarrow> session_row \<Rightarrow> bool" where
  "inputs_waiting db s =
     exists_row (\<lambda>i. i_session_id i = s_session_id s \<and> open_input_state (i_state i)) (t_inputs db)"

definition runtime_live :: "session_row \<Rightarrow> bool" where
  "runtime_live s \<longleftrightarrow>
     coalesce (s_sandbox_id s) [] \<noteq> [] \<and> \<not> s_runtime_unavailable s \<and> s_sandbox_parked_at s = None"

definition responses_open :: "db \<Rightarrow> session_row \<Rightarrow> bool" where
  "responses_open db s =
     exists_row (\<lambda>r. r_session_id r = s_session_id s \<and> r_status r \<noteq> Ended) (t_responses db)"

definition needs_reader :: "string \<Rightarrow> time \<Rightarrow> db \<Rightarrow> session_row \<Rightarrow> bool" where
  "needs_reader env now db s \<longleftrightarrow>
     s_environment_name s = env \<and> reader_protocol_eligible s \<and>
     \<not> reader_live now (s_session_id s) db \<and> \<not> workspace_own s \<and>
     (\<not> s_deleted s \<and> s_state s = READY \<and> (runtime_live s \<or> inputs_waiting db s) \<or>
      responses_open db s \<or>
      ended_state (s_state s) \<and> inputs_waiting db s)"

definition sessions_needing_readers :: "string \<Rightarrow> time \<Rightarrow> nat \<Rightarrow> db \<Rightarrow> string list" where
  "sessions_needing_readers env now limit db =
     map s_session_id (take limit (filter (needs_reader env now db) (t_sessions db)))"

section \<open>Controls\<close>

definition request_control :: "string \<Rightarrow> string \<Rightarrow> string \<Rightarrow> string option \<Rightarrow> string option \<Rightarrow> time \<Rightarrow>
    db \<Rightarrow> string option \<times> db" where
  "request_control control_id sid kind target requested_by now db =
     (let live = filter (\<lambda>r. rd_session_id r = sid \<and> now < rd_expires_at r) (t_readers db);
          rows = map (\<lambda>r. \<lparr>c_control_id = control_id, c_session_id = sid, c_kind = kind,
                   c_target = target, c_reader_generation = rd_generation r,
                   c_requested_by = requested_by, c_state = CPending, c_error = None,
                   c_requested_at = now, c_applied_at = None\<rparr>) live
      in if rows = [] then (None, db)
         else (Some control_id,
               notify sid NControl 0 (db\<lparr>t_controls := t_controls db @ rows\<rparr>)))"

definition pending_controls :: "reader_lease \<Rightarrow> db \<Rightarrow> control_row list" where
  "pending_controls lease db =
     order_by c_requested_at
       (filter (\<lambda>c. c_session_id c = l_session_id lease \<and> c_state c = CPending \<and>
                 c_reader_generation c = l_generation lease) (t_controls db))"

definition settle_control :: "string \<Rightarrow> control_state \<Rightarrow> string option \<Rightarrow> time \<Rightarrow> db \<Rightarrow> db" where
  "settle_control control_id state err now db =
     db\<lparr>t_controls := update_where (\<lambda>c. c_control_id c = control_id \<and> c_state c = CPending)
          (\<lambda>c. c\<lparr>c_state := state, c_error := err, c_applied_at := Some now\<rparr>) (t_controls db)\<rparr>"

definition expire_controls :: "string \<Rightarrow> int \<Rightarrow> db \<Rightarrow> db" where
  "expire_controls sid before_generation db =
     db\<lparr>t_controls := update_where
          (\<lambda>c. c_session_id c = sid \<and> c_state c = CPending \<and> c_reader_generation c < before_generation)
          (\<lambda>c. c\<lparr>c_state := CExpired\<rparr>) (t_controls db)\<rparr>"

section \<open>Lease lemmas\<close>

lemma keys_ok_claim_reader: "keys_ok db \<Longrightarrow> keys_ok (snd (claim_reader env sid owner ttl now db))"
  by (auto simp: claim_reader_def Let_def keys_ok_def map_update_where taken_over_def
      distinct_map_insert_absent)

lemma keys_ok_renew_reader: "keys_ok db \<Longrightarrow> keys_ok (snd (renew_reader lease ttl now db))"
  by (auto simp: renew_reader_def intro: keys_ok_update_readers)

lemma keys_ok_release_reader: "keys_ok db \<Longrightarrow> keys_ok (release_reader lease now db)"
  by (auto simp: release_reader_def intro: keys_ok_update_readers)

text \<open>The current generation of a session's reader row, 0 while it has none.\<close>

definition current_generation :: "db \<Rightarrow> string \<Rightarrow> int" where
  "current_generation db sid =
     (case first_row (\<lambda>r. rd_session_id r = sid) (t_readers db) of None \<Rightarrow> 0 | Some r \<Rightarrow> rd_generation r)"

text \<open>The reader row a session's lease lives in, and what the updates of readers do to it.\<close>

lemma first_row_update_where:
  assumes "\<And>r. key (f r) = key r"
  shows "first_row (\<lambda>r. key r = k) (update_where p f rows) =
    map_option (\<lambda>r. if p r then f r else r) (first_row (\<lambda>r. key r = k) rows)"
  by (induction rows) (auto simp: assms)

lemma holds_lease_iff:
  assumes "keys_ok db"
  shows "holds_lease db lease \<longleftrightarrow>
    (\<exists>r. first_row (\<lambda>r. rd_session_id r = l_session_id lease) (t_readers db) = Some r \<and>
         rd_owner r = l_owner lease \<and> rd_generation r = l_generation lease)"
  (is "_ \<longleftrightarrow> ?R")
proof
  assume "holds_lease db lease"
  then obtain r where r: "r \<in> set (t_readers db)" "holds lease r" by blast
  then have "first_row (\<lambda>r. rd_session_id r = l_session_id lease) (t_readers db) = Some r"
    by (intro first_row_unique [OF keys_ok_readers [OF assms]]) (simp_all add: holds_def)
  with r(2) show ?R by (auto simp: holds_def)
next
  assume ?R
  then show "holds_lease db lease" by (auto simp: holds_def dest: first_row_Some)
qed

text \<open>A held lease is of the current generation: older grants are fenced off.\<close>

lemma holds_lease_generation:
  "keys_ok db \<Longrightarrow> holds_lease db lease \<Longrightarrow>
     l_generation lease = current_generation db (l_session_id lease)"
  by (auto simp: holds_lease_iff current_generation_def)

lemma first_row_insert_absent:
  "first_row (\<lambda>r. key r = key row) (insert_absent key row rows) =
     Some (case first_row (\<lambda>r. key r = key row) rows of None \<Rightarrow> row | Some r \<Rightarrow> r)"
  by (auto simp: insert_absent_def exists_row_iff first_row_append first_row_None_iff
      dest: first_row_Some split: option.splits)

lemma first_row_insert_absent_other:
  "key row \<noteq> k \<Longrightarrow> first_row (\<lambda>r. key r = k) (insert_absent key row rows) = first_row (\<lambda>r. key r = k) rows"
  by (auto simp: insert_absent_def first_row_append split: option.splits)

text \<open>The row a claim finds, seeded when the session had none.\<close>

definition found_reader :: "string \<Rightarrow> string \<Rightarrow> time \<Rightarrow> db \<Rightarrow> reader_row" where
  "found_reader sid owner expires db =
     (case first_row (\<lambda>r. rd_session_id r = sid) (t_readers db) of
        None \<Rightarrow> seed_reader sid owner expires
      | Some r \<Rightarrow> r)"

lemma found_reader_simps [simp]:
  "rd_session_id (found_reader sid owner expires db) = sid"
  "rd_generation (found_reader sid owner expires db) = current_generation db sid"
  by (auto simp: found_reader_def seed_reader_def current_generation_def
      dest: first_row_Some split: option.splits)

lemma taken_over_simps [simp]:
  "rd_session_id (taken_over owner expires r) = rd_session_id r"
  "rd_owner (taken_over owner expires r) = owner"
  "rd_generation (taken_over owner expires r) = rd_generation r + 1"
  by (simp_all add: taken_over_def)

lemma seeded_reader:
  "first_row (\<lambda>r. rd_session_id r = sid)
     (insert_absent rd_session_id (seed_reader sid owner expires) (t_readers db)) =
   Some (found_reader sid owner expires db)"
  using first_row_insert_absent [of rd_session_id "seed_reader sid owner expires" "t_readers db"]
  by (simp add: found_reader_def seed_reader_def cong: option.case_cong)

text \<open>
  When a claim succeeds: the session may have a reader and its row is expired, or absent, or
  the caller's own. The lease it returns is of the next generation, and is held.
\<close>

lemma claim_reader_eq:
  assumes "keys_ok db"
  shows "claim_reader env sid owner ttl now db =
    (if exists_row (claim_eligible env sid) (t_sessions db) \<and>
        claimable sid owner now (found_reader sid owner (now + ttl) db)
     then (Some \<lparr>l_session_id = sid, l_owner = owner, l_generation = current_generation db sid + 1\<rparr>,
           db\<lparr>t_readers := update_where (claimable sid owner now) (taken_over owner (now + ttl))
             (insert_absent rd_session_id (seed_reader sid owner (now + ttl)) (t_readers db))\<rparr>)
     else (None, db))"
proof -
  define seeded where
    "seeded = insert_absent rd_session_id (seed_reader sid owner (now + ttl)) (t_readers db)"
  define r where "r = found_reader sid owner (now + ttl) db"
  have first: "first_row (\<lambda>r. rd_session_id r = sid) seeded = Some r"
    by (simp add: seeded_def r_def seeded_reader)
  have dist: "distinct (map rd_session_id seeded)"
    using keys_ok_readers [OF assms] by (simp add: seeded_def distinct_map_insert_absent)
  from first have r: "r \<in> set seeded" "rd_session_id r = sid" by (auto dest: first_row_Some)
  have count: "rowcount (claimable sid owner now) seeded = 0 \<longleftrightarrow> \<not> claimable sid owner now r"
  proof
    assume "rowcount (claimable sid owner now) seeded = 0"
    with r(1) show "\<not> claimable sid owner now r" by simp
  next
    assume not: "\<not> claimable sid owner now r"
    have "\<not> claimable sid owner now q" if q: "q \<in> set seeded" for q
    proof
      assume c: "claimable sid owner now q"
      then have "q = r" using unique_row [OF dist q r(1)] r(2) by (simp add: claimable_def)
      with c not show False by simp
    qed
    then show "rowcount (claimable sid owner now) seeded = 0" by simp
  qed
  have kept: "seeded = t_readers db" if "\<not> claimable sid owner now r"
  proof (cases "first_row (\<lambda>r. rd_session_id r = sid) (t_readers db)")
    case None
    with that show ?thesis by (simp add: r_def found_reader_def seed_reader_def claimable_def)
  next
    case (Some q)
    then have "q \<in> set (t_readers db)" "rd_session_id q = sid" by (auto dest: first_row_Some)
    then show ?thesis by (auto simp: seeded_def insert_absent_def exists_row_iff seed_reader_def)
  qed
  show ?thesis
    using r(2) count kept
    by (auto simp: claim_reader_def Let_def seeded_def [symmetric] first first_row_update_where r_def)
qed

lemma claim_reader_Some:
  assumes "keys_ok db" and "claim_reader env sid owner ttl now db = (Some lease, db')"
  shows claim_lease: "lease = \<lparr>l_session_id = sid, l_owner = owner, l_generation = current_generation db sid + 1\<rparr>"
    and claim_generation: "current_generation db' sid = current_generation db sid + 1"
    and claim_held: "holds_lease db' lease"
    and claim_other: "sid' \<noteq> sid \<Longrightarrow> current_generation db' sid' = current_generation db sid'"
proof -
  define r where "r = found_reader sid owner (now + ttl) db"
  from assms show lease: "lease = \<lparr>l_session_id = sid, l_owner = owner,
      l_generation = current_generation db sid + 1\<rparr>"
    by (auto simp: claim_reader_eq split: if_splits)
  from assms have db': "db' = db\<lparr>t_readers := update_where (claimable sid owner now)
        (taken_over owner (now + ttl))
        (insert_absent rd_session_id (seed_reader sid owner (now + ttl)) (t_readers db))\<rparr>"
    and free: "claimable sid owner now r"
    by (auto simp: claim_reader_eq r_def split: if_splits)
  have first: "first_row (\<lambda>r. rd_session_id r = sid) (t_readers db') = Some (taken_over owner (now + ttl) r)"
    using free by (simp add: db' first_row_update_where seeded_reader r_def)
  then show gen: "current_generation db' sid = current_generation db sid + 1"
    by (simp add: current_generation_def [of db'] r_def)
  from first have "taken_over owner (now + ttl) r \<in> set (t_readers db')" by (auto dest: first_row_Some)
  then show "holds_lease db' lease"
    by (rule rev_bexI) (simp add: holds_def lease r_def)
  show "current_generation db' sid' = current_generation db sid'" if other: "sid' \<noteq> sid"
  proof -
    have "first_row (\<lambda>r. rd_session_id r = sid')
        (insert_absent rd_session_id (seed_reader sid owner (now + ttl)) (t_readers db)) =
        first_row (\<lambda>r. rd_session_id r = sid') (t_readers db)"
      using other by (intro first_row_insert_absent_other) (simp add: seed_reader_def)
    then have "first_row (\<lambda>r. rd_session_id r = sid') (t_readers db') =
        first_row (\<lambda>r. rd_session_id r = sid') (t_readers db)"
      using other by (simp add: db' first_row_update_where)
         (auto simp: claimable_def map_option_case dest: first_row_Some split: option.splits)
    then show ?thesis by (simp add: current_generation_def)
  qed
qed

lemma claim_reader_None: "keys_ok db \<Longrightarrow> claim_reader env sid owner ttl now db = (None, db') \<Longrightarrow> db' = db"
  by (auto simp: claim_reader_eq split: if_splits)

lemma current_generation_cong: "t_readers db' = t_readers db \<Longrightarrow> current_generation db' = current_generation db"
  by (simp add: current_generation_def fun_eq_iff)

lemma current_generation_update_readers:
  assumes "\<And>r. rd_session_id (f r) = rd_session_id r" and "\<And>r. rd_generation (f r) = rd_generation r"
  shows "current_generation (db\<lparr>t_readers := update_where p f (t_readers db)\<rparr>) = current_generation db"
  by (simp add: current_generation_def fun_eq_iff first_row_update_where assms(1) option.case_eq_if
      option.map_sel assms(2))

lemma current_generation_renew [simp]:
  "current_generation (snd (renew_reader lease ttl now db)) = current_generation db"
  by (simp add: renew_reader_def current_generation_update_readers)

lemma current_generation_release [simp]:
  "current_generation (release_reader lease now db) = current_generation db"
  by (simp add: release_reader_def current_generation_update_readers)

text \<open>Renewing keeps what a lease holds; it succeeds exactly while the lease is held.\<close>

lemma renew_reader_iff: "fst (renew_reader lease ttl now db) \<longleftrightarrow> holds_lease db lease"
  by (simp add: renew_reader_def)

lemma renew_reader_lost:
  assumes "\<not> holds_lease db lease"
  shows "renew_reader lease ttl now db = (False, db)"
proof -
  have "update_where (holds lease) (\<lambda>r. r\<lparr>rd_expires_at := now + ttl\<rparr>) (t_readers db) = t_readers db"
    using assms by (intro update_where_id) auto
  then show ?thesis using assms renew_reader_iff [of lease ttl now db] by (simp add: renew_reader_def)
qed

lemma holds_update_expiry:
  "(\<exists>r \<in> set (update_where p (\<lambda>r. r\<lparr>rd_expires_at := e\<rparr>) rows). holds lease r) \<longleftrightarrow> (\<exists>r \<in> set rows. holds lease r)"
  by (induction rows) (auto simp: holds_def)

section \<open>The lease as an interface\<close>

text \<open>
  What a client of the lease may rely on. \<open>grant s l s'\<close> is a successful claim, \<open>keep\<close> any
  other step of the store. A grant of a key's lease starts a new generation of that key;
  nothing else moves generations; a held lease is of the current one.
\<close>

locale fenced_lease =
  fixes ok :: "'st \<Rightarrow> bool"
    and gen :: "'st \<Rightarrow> 'k \<Rightarrow> int"
    and held :: "'st \<Rightarrow> 'l \<Rightarrow> bool"
    and lkey :: "'l \<Rightarrow> 'k"
    and lgen :: "'l \<Rightarrow> int"
    and grant :: "'st \<Rightarrow> 'l \<Rightarrow> 'st \<Rightarrow> bool"
    and keep :: "'st \<Rightarrow> 'st \<Rightarrow> bool"
  assumes held_generation: "ok s \<Longrightarrow> held s l \<Longrightarrow> lgen l = gen s (lkey l)"
    and grant_ok: "ok s \<Longrightarrow> grant s l s' \<Longrightarrow> ok s'"
    and keep_ok: "ok s \<Longrightarrow> keep s s' \<Longrightarrow> ok s'"
    and grant_next: "ok s \<Longrightarrow> grant s l s' \<Longrightarrow> lgen l = gen s (lkey l) + 1 \<and> gen s' (lkey l) = lgen l"
    and grant_other: "ok s \<Longrightarrow> grant s l s' \<Longrightarrow> k \<noteq> lkey l \<Longrightarrow> gen s' k = gen s k"
    and keep_generation: "ok s \<Longrightarrow> keep s s' \<Longrightarrow> gen s' k = gen s k"
begin

inductive run :: "'st \<Rightarrow> 'st \<Rightarrow> bool" where
  run_refl: "run s s"
| run_keep: "run s s' \<Longrightarrow> keep s' s'' \<Longrightarrow> run s s''"
| run_grant: "run s s' \<Longrightarrow> grant s' l s'' \<Longrightarrow> run s s''"

lemma grant_mono: "ok s \<Longrightarrow> grant s l s' \<Longrightarrow> gen s k \<le> gen s' k"
  using grant_next [of s l s'] grant_other [of s l s' k] by (cases "k = lkey l") auto

lemma run_ok: "run s s' \<Longrightarrow> ok s \<Longrightarrow> ok s'"
  by (induction rule: run.induct) (auto intro: keep_ok grant_ok)

lemma run_generation: "run s s' \<Longrightarrow> ok s \<Longrightarrow> gen s k \<le> gen s' k"
proof (induction rule: run.induct)
  case (run_refl s)
  then show ?case by simp
next
  case (run_keep s s' s'')
  then show ?case using keep_generation [of s' s'' k] run_ok by simp
next
  case (run_grant s s' l s'')
  then show ?case using grant_mono [of s' l s'' k] run_ok by fastforce
qed

lemma exclusive: "ok s \<Longrightarrow> held s l \<Longrightarrow> held s l' \<Longrightarrow> lkey l = lkey l' \<Longrightarrow> lgen l = lgen l'"
  by (simp add: held_generation)

text \<open>Once a later lease of the same key is granted, an earlier one is never held again.\<close>

lemma superseded:
  assumes "ok s" and "held s l" and "grant s l' s1" and "lkey l' = lkey l" and "run s1 s2"
  shows "\<not> held s2 l"
proof
  assume "held s2 l"
  have "ok s1" using assms(1,3) by (rule grant_ok)
  with assms(5) have "ok s2" and up: "gen s1 (lkey l) \<le> gen s2 (lkey l)"
    by (auto intro: run_ok run_generation)
  with \<open>held s2 l\<close> have "lgen l = gen s2 (lkey l)" by (simp add: held_generation)
  moreover have "lgen l = gen s (lkey l)" using assms(1,2) by (rule held_generation)
  moreover have "gen s1 (lkey l) = gen s (lkey l) + 1"
    using grant_next [OF assms(1,3)] assms(4) by simp
  ultimately show False using up by simp
qed

end

definition lease_granted :: "db \<Rightarrow> reader_lease \<Rightarrow> db \<Rightarrow> bool" where
  "lease_granted db lease db' \<longleftrightarrow>
     (\<exists>env ttl now. claim_reader env (l_session_id lease) (l_owner lease) ttl now db = (Some lease, db'))"

definition leases_kept :: "db \<Rightarrow> db \<Rightarrow> bool" where
  "leases_kept db db' \<longleftrightarrow> keys_ok db' \<and> current_generation db' = current_generation db"

interpretation reader: fenced_lease keys_ok current_generation holds_lease l_session_id l_generation
  lease_granted leases_kept
proof unfold_locales
  fix db db' lease k
  assume ok: "keys_ok db"
  show "holds_lease db lease \<Longrightarrow> l_generation lease = current_generation db (l_session_id lease)"
    using ok by (rule holds_lease_generation)
  show "leases_kept db db' \<Longrightarrow> keys_ok db'"
    and "leases_kept db db' \<Longrightarrow> current_generation db' k = current_generation db k"
    by (simp_all add: leases_kept_def)
  assume "lease_granted db lease db'"
  then obtain env ttl now where
    claim: "claim_reader env (l_session_id lease) (l_owner lease) ttl now db = (Some lease, db')"
    by (auto simp: lease_granted_def)
  show "keys_ok db'" using keys_ok_claim_reader [OF ok, of env "l_session_id lease" "l_owner lease" ttl now]
    by (simp add: claim)
  show "l_generation lease = current_generation db (l_session_id lease) + 1 \<and>
      current_generation db' (l_session_id lease) = l_generation lease"
    using claim_lease [OF ok claim] claim_generation [OF ok claim] by (metis reader_lease.select_convs(3))
  show "k \<noteq> l_session_id lease \<Longrightarrow> current_generation db' k = current_generation db k"
    by (rule claim_other [OF ok claim])
qed

section \<open>Properties\<close>

text \<open>
  C12. A reader lease is exclusive while it lives: as long as the session's reader row belongs to
  another owner and has not expired, \<^verbatim>\<open>claim_reader\<close> grants nothing and changes nothing.
\<close>

theorem claim_reader_exclusive:
  assumes "keys_ok db" and "r \<in> set (t_readers db)" and "rd_session_id r = sid"
    and "rd_owner r \<noteq> owner" and "now \<le> rd_expires_at r"
  shows "claim_reader env sid owner ttl now db = (None, db)"
proof -
  have "first_row (\<lambda>r. rd_session_id r = sid) (t_readers db) = Some r"
    using keys_ok_readers [OF assms(1)] assms(2,3) by (rule first_row_unique)
  then have "found_reader sid owner (now + ttl) db = r" by (simp add: found_reader_def)
  with assms show ?thesis by (auto simp: claim_reader_eq claimable_def)
qed

definition sample_claimed :: db where
  "sample_claimed = snd (claim_reader ''prod'' ''s'' ''p1'' 30 10 sample_db)"

lemma sample_claimed_keys [simp]: "keys_ok sample_claimed"
  by (simp add: sample_claimed_def keys_ok_claim_reader)

definition sample_lease :: "string \<Rightarrow> int \<Rightarrow> reader_lease" where
  "sample_lease owner n = \<lparr>l_session_id = ''s'', l_owner = owner, l_generation = n\<rparr>"

lemma sample_claim: "claim_reader ''prod'' ''s'' ''p1'' 30 10 sample_db = (Some (sample_lease ''p1'' 1), sample_claimed)"
proof -
  have "fst (claim_reader ''prod'' ''s'' ''p1'' 30 10 sample_db) = Some (sample_lease ''p1'' 1)" by code_simp
  then show ?thesis by (simp add: prod_eq_iff sample_claimed_def)
qed

lemma sample_claimed_readers:
  "t_readers sample_claimed = [\<lparr>rd_session_id = ''s'', rd_owner = ''p1'', rd_generation = 1, rd_expires_at = 40\<rparr>]"
  by code_simp

theorem claim_reader_exclusive_witness:
  "claim_reader ''prod'' ''s'' ''p2'' 30 20 sample_claimed = (None, sample_claimed)"
  by (rule claim_reader_exclusive [OF sample_claimed_keys, of "hd (t_readers sample_claimed)"])
     (simp_all add: sample_claimed_readers)

lemma superseded_lease_never_held:
  assumes "keys_ok db" and "holds_lease db old"
    and "claim_reader env (l_session_id old) owner ttl now db = (Some lease, db1)"
    and "reader.run db1 db2"
  shows "\<not> holds_lease db2 old"
proof (rule reader.superseded [OF assms(1,2) _ _ assms(4)])
  from claim_lease [OF assms(1,3)] have lease: "l_session_id lease = l_session_id old" "l_owner lease = owner"
    by simp_all
  with assms(3) show "lease_granted db lease db1" by (auto simp: lease_granted_def)
  from lease show "l_session_id lease = l_session_id old" by simp
qed

definition sample_reclaimed :: db where
  "sample_reclaimed = snd (claim_reader ''prod'' ''s'' ''p2'' 30 50 sample_claimed)"

lemma sample_reclaim:
  "claim_reader ''prod'' ''s'' ''p2'' 30 50 sample_claimed = (Some (sample_lease ''p2'' 2), sample_reclaimed)"
proof -
  have "fst (claim_reader ''prod'' ''s'' ''p2'' 30 50 sample_claimed) = Some (sample_lease ''p2'' 2)" by code_simp
  then show ?thesis by (simp add: prod_eq_iff sample_reclaimed_def)
qed

lemma sample_held: "holds_lease sample_claimed (sample_lease ''p1'' 1)"
  by (simp add: sample_claimed_readers holds_def sample_lease_def)

text \<open>
  The sweep leaves no work behind: a live session with a runtime or with inputs held, a
  session with an unfinished response, or an ended session still holding inputs, is returned
  by \<^verbatim>\<open>sessions_needing_readers\<close> unless a reader of it is live (or its protocol fault keeps it
  for an operator), provided the limit is not below the number of such sessions.
\<close>

theorem sweep_finds_work:
  assumes "s \<in> set (t_sessions db)" and "s_environment_name s = env" and "reader_protocol_eligible s"
    and "\<not> workspace_own s" and "\<not> reader_live now (s_session_id s) db"
    and "\<not> s_deleted s \<and> s_state s = READY \<and> (runtime_live s \<or> open_input_ids (s_session_id s) db \<noteq> []) \<or>
      responses_open db s \<or> ended_state (s_state s) \<and> open_input_ids (s_session_id s) db \<noteq> []"
    and "rowcount (needs_reader env now db) (t_sessions db) \<le> limit"
  shows "s_session_id s \<in> set (sessions_needing_readers env now limit db)"
proof -
  have "inputs_waiting db s \<longleftrightarrow> open_input_ids (s_session_id s) db \<noteq> []"
    by (auto simp: inputs_waiting_def open_input_ids_def exists_row_iff order_by_def filter_empty_conv
        simp flip: set_empty)
  with assms have "needs_reader env now db s" by (auto simp: needs_reader_def)
  with assms(1,7) show ?thesis by (auto simp: sessions_needing_readers_def rowcount_def)
qed

theorem sweep_finds_work_witness: "''s'' \<in> set (sessions_needing_readers ''prod'' 20 5 sample_db)"
  using sweep_finds_work [of "sample_session ''s''" sample_db "''prod''" 20 5]
  by (simp add: sample_db_def sample_session_def reader_protocol_eligible_def workspace_own_def coalesce_def
      reader_live_def exists_row_def runtime_live_def RUNTIME_PROTOCOL_INCOMPATIBLE_def rowcount_def)

text \<open>
  A control reaches the reader it was meant for or none. \<^verbatim>\<open>request_control\<close> addresses the
  generation of the live reader; it is pending for exactly the leases of that generation, and
  once \<^verbatim>\<open>expire_controls\<close> ran for a later reader it is pending for nobody.
\<close>

theorem control_reaches_its_reader:
  assumes "keys_ok db" and "request_control cid sid kind target by now db = (Some cid', db')"
    and "cid \<notin> c_control_id ` set (t_controls db)"
  shows "\<exists>c. filter (\<lambda>c. c_control_id c = cid) (t_controls db') = [c] \<and>
      c_reader_generation c = current_generation db sid \<and> c_state c = CPending \<and>
      (\<forall>lease. c \<in> set (pending_controls lease db') \<longleftrightarrow>
         l_session_id lease = sid \<and> l_generation lease = current_generation db sid) \<and>
      (\<forall>lease g. current_generation db sid < g \<longrightarrow>
         cid \<notin> c_control_id ` set (pending_controls lease (expire_controls sid g db')))"
proof -
  let ?live = "filter (\<lambda>r. rd_session_id r = sid \<and> now < rd_expires_at r) (t_readers db)"
  from assms(2) have "?live \<noteq> []" by (auto simp: request_control_def Let_def split: if_splits)
  then obtain r where r: "r \<in> set (t_readers db)" "rd_session_id r = sid" "now < rd_expires_at r"
    by (auto simp: filter_empty_conv)
  have only: "?live = [r]"
    using keys_ok_readers [OF assms(1)] r by (rule filter_unique)
  obtain row where controls: "t_controls db' = t_controls db @ [row]"
    and row: "c_control_id row = cid" "c_session_id row = sid" "c_state row = CPending"
      "c_reader_generation row = rd_generation r"
    using assms(2) only by (auto simp: request_control_def Let_def notify_def)
  have gen: "rd_generation r = current_generation db sid"
    using first_row_unique [OF keys_ok_readers [OF assms(1)] r(1,2)] by (simp add: current_generation_def)
  have old: "filter (\<lambda>c. c_control_id c = cid) (t_controls db) = []"
    using assms(3) by (auto simp: filter_empty_conv)
  show ?thesis
  proof (intro exI [of _ row] conjI allI impI)
    show "filter (\<lambda>c. c_control_id c = cid) (t_controls db') = [row]" by (simp add: controls old row)
    fix lease g
    show "row \<in> set (pending_controls lease db') \<longleftrightarrow>
        l_session_id lease = sid \<and> l_generation lease = current_generation db sid"
      using gen row by (auto simp: pending_controls_def controls)
    assume "current_generation db sid < g"
    with gen have "\<not> (c_session_id b = sid \<and> c_state b = CPending \<and> c_reader_generation b < g) \<Longrightarrow>
        c_control_id b \<noteq> cid" if "b \<in> set (t_controls db')" for b
      using that assms(3) row by (auto simp: controls) (metis image_eqI)+
    then have "\<not> (c_control_id c = cid \<and> c_state c = CPending)"
      if "c \<in> set (t_controls (expire_controls sid g db'))" for c
      using that by (fastforce simp: expire_controls_def set_update_where)
    then show "cid \<notin> c_control_id ` set (pending_controls lease (expire_controls sid g db'))"
      by (auto simp: pending_controls_def)
  qed (simp_all add: gen row)
qed

theorem control_reaches_its_reader_witness:
  "map c_reader_generation (t_controls (snd (request_control ''c'' ''s'' ''interrupt'' None None 20 sample_claimed))) = [1]"
proof -
  let ?out = "request_control ''c'' ''s'' ''interrupt'' None None 20 sample_claimed"
  have sent: "?out = (Some ''c'', snd ?out)"
  proof -
    have "fst ?out = Some ''c''" by code_simp
    then show ?thesis by (simp add: prod_eq_iff)
  qed
  have none: "''c'' \<notin> c_control_id ` set (t_controls sample_claimed)" by code_simp
  have all: "filter (\<lambda>c. c_control_id c = ''c'') (t_controls (snd ?out)) = t_controls (snd ?out)"
    by code_simp
  have gen: "current_generation sample_claimed ''s'' = 1" by code_simp
  from control_reaches_its_reader [OF sample_claimed_keys sent none] all gen show ?thesis by auto
qed

end
