(* ===== verification/Interaction.thy ===== *)
theory Interaction
  imports Json
begin

text \<open>
  Interaction contracts, \<^verbatim>\<open>astrabox/core/service/orchestrator/engine/interaction_contract.py\<close>:
  the validation of what an adapter declares, the public projection a browser receives, the
  checks of a person's answer and what is derived from an accepted one. Every
  \<^verbatim>\<open>InteractionContractError\<close> and \<^verbatim>\<open>APIError\<close> of the module is a branch here.
\<close>

definition PRESENTATION_FORM :: string where "PRESENTATION_FORM = ''form''"
definition PRESENTATION_DECISION :: string where "PRESENTATION_DECISION = ''decision''"
definition PRESENTATION_TOOL_APPROVAL :: string where "PRESENTATION_TOOL_APPROVAL = ''tool_approval''"

definition INTERACTION_PRESENTATIONS :: "string list" where
  "INTERACTION_PRESENTATIONS = [PRESENTATION_FORM, PRESENTATION_DECISION, PRESENTATION_TOOL_APPROVAL]"

lemmas presentation_defs = PRESENTATION_FORM_def PRESENTATION_DECISION_def PRESENTATION_TOOL_APPROVAL_def

definition contract_keys :: "string \<Rightarrow> string list" where
  "contract_keys presentation =
     [''tool_name'', ''presentation'', ''prompt'', ''raw_input''] @
     (if presentation = PRESENTATION_FORM then [''questions'', ''preset_answers'']
      else if presentation = PRESENTATION_DECISION then [''body'', ''options'']
      else [])"

definition question_row_keys :: "string list" where
  "question_row_keys = [''id'', ''header'', ''question'', ''native_answer_key'', ''multi_select'',
     ''options'', ''allow_free_text'', ''allow_empty_text'']"

definition question_option_keys :: "string list" where
  "question_option_keys = [''label'', ''description'']"

definition decision_option_keys :: "string list" where
  "decision_option_keys = [''id'', ''denial'', ''reply'', ''comment_prefix'',
     ''permission_mode_choices'', ''default_permission_mode'', ''applies_permission_mode'']"

definition public_interaction_common_keys :: "string list" where
  "public_interaction_common_keys = [''interaction_id'', ''response_id'', ''tool_call_id'',
     ''tool_name'', ''presentation'', ''prompt'']"

definition public_question_keys :: "string list" where
  "public_question_keys = [''id'', ''header'', ''question'', ''multi_select'', ''options'',
     ''allow_free_text'', ''allow_empty_text'']"

definition public_decision_option_keys :: "string list" where
  "public_decision_option_keys = [''id'', ''denial'', ''permission_mode_choices'',
     ''default_permission_mode'', ''applies_permission_mode'']"

section \<open>Validating a declared contract\<close>

abbreviation refuse_unless :: "bool \<Rightarrow> unit res" where
  "refuse_unless b \<equiv> check b InteractionContractError"

definition nonempty_str :: "json \<Rightarrow> bool" where
  "nonempty_str v \<longleftrightarrow> is_str v \<and> strip (text_of v) \<noteq> []"

definition only_keys :: "string list \<Rightarrow> obj \<Rightarrow> bool" where
  "only_keys ks d \<longleftrightarrow> list_all (\<lambda>kv. fst kv \<in> set ks) d"

definition require_str :: "obj \<Rightarrow> string \<Rightarrow> string res" where
  "require_str contract key =
     rbind (refuse_unless (nonempty_str (get contract key)))
       (\<lambda>_. Inr (strip (text_of (get contract key))))"

definition validate_question_option :: "json \<Rightarrow> unit res" where
  "validate_question_option option =
     rbind (refuse_unless (is_obj option \<and> only_keys question_option_keys (jfields option)))
       (\<lambda>_. refuse_unless (nonempty_str (get (jfields option) ''label'')))"

definition validate_question :: "json \<Rightarrow> string list \<Rightarrow> string list res" where
  "validate_question row seen_ids =
     rbind (refuse_unless (is_obj row)) (\<lambda>_.
     let d = jfields row; row_id = get d ''id'' in
     rbind (refuse_unless (only_keys question_row_keys d)) (\<lambda>_.
     rbind (refuse_unless (nonempty_str row_id)) (\<lambda>_.
     rbind (refuse_unless (text_of row_id \<notin> set seen_ids)) (\<lambda>_.
     rbind (refuse_unless (is_bool (get d ''allow_free_text''))) (\<lambda>_.
     rbind (refuse_unless (is_bool (get d ''allow_empty_text''))) (\<lambda>_.
     rbind (refuse_unless (\<not> (truthy (get d ''allow_empty_text'') \<and>
                               \<not> truthy (get d ''allow_free_text'')))) (\<lambda>_.
     rbind (refuse_unless (is_list (get d ''options''))) (\<lambda>_.
     rbind (rmap validate_question_option (jitems (get d ''options''))) (\<lambda>_.
     Inr (seen_ids @ [text_of row_id]))))))))))"

definition validate_form_contract :: "obj \<Rightarrow> unit res" where
  "validate_form_contract contract =
     (let questions = get contract ''questions''; preset_answers = get contract ''preset_answers'' in
      rbind (refuse_unless (is_list questions \<and> jitems questions \<noteq> [])) (\<lambda>_.
      rbind (rfold validate_question (jitems questions) []) (\<lambda>_.
      refuse_unless (preset_answers = JNull \<or> is_obj preset_answers))))"

definition validate_decision_option :: "json \<Rightarrow> string list \<Rightarrow> string list res" where
  "validate_decision_option option seen_ids =
     rbind (refuse_unless (is_obj option)) (\<lambda>_.
     let d = jfields option; option_id = get d ''id''; mode_choices = get d ''permission_mode_choices'' in
     rbind (refuse_unless (only_keys decision_option_keys d)) (\<lambda>_.
     rbind (refuse_unless (nonempty_str option_id)) (\<lambda>_.
     rbind (refuse_unless (text_of option_id \<notin> set seen_ids)) (\<lambda>_.
     rbind (refuse_unless (is_bool (get d ''denial''))) (\<lambda>_.
     rbind (refuse_unless (nonempty_str (get d ''reply''))) (\<lambda>_.
     rbind (refuse_unless (mode_choices = JNull \<or>
              is_list mode_choices \<and> jitems mode_choices \<noteq> [] \<and>
              list_all nonempty_str (jitems mode_choices))) (\<lambda>_.
     rbind (refuse_unless (list_all (\<lambda>key. get d key = JNull \<or> nonempty_str (get d key))
              [''comment_prefix'', ''default_permission_mode'', ''applies_permission_mode''])) (\<lambda>_.
     Inr (seen_ids @ [text_of option_id])))))))))"

definition validate_decision_contract :: "obj \<Rightarrow> unit res" where
  "validate_decision_contract contract =
     (let body = get contract ''body''; options = get contract ''options'' in
      rbind (refuse_unless (body = JNull \<or> is_str body)) (\<lambda>_.
      rbind (refuse_unless (is_list options \<and> jitems options \<noteq> [])) (\<lambda>_.
      rbind (rfold validate_decision_option (jitems options) []) (\<lambda>_. Inr ()))))"

definition validate_interaction_contract :: "json \<Rightarrow> string res" where
  "validate_interaction_contract value =
     rbind (refuse_unless (is_obj value)) (\<lambda>_.
     let contract = jfields value in
     rbind (require_str contract ''presentation'') (\<lambda>presentation.
     rbind (refuse_unless (presentation \<in> set INTERACTION_PRESENTATIONS)) (\<lambda>_.
     rbind (require_str contract ''tool_name'') (\<lambda>_.
     rbind (require_str contract ''prompt'') (\<lambda>_.
     rbind (refuse_unless (is_obj (get contract ''raw_input''))) (\<lambda>_.
     rbind (refuse_unless (only_keys (contract_keys presentation) contract)) (\<lambda>_.
     rbind (if presentation = PRESENTATION_FORM then validate_form_contract contract
            else if presentation = PRESENTATION_DECISION then validate_decision_contract contract
            else Inr ()) (\<lambda>_.
     Inr presentation))))))))"

section \<open>Reading a person's answer\<close>

definition interaction_presentation :: "obj \<Rightarrow> string res" where
  "interaction_presentation pending =
     (let presentation = strip (str_or (get pending ''presentation'')) in
      if presentation \<in> set INTERACTION_PRESENTATIONS then Inr presentation
      else Inl (APIError ''INVALID_REQUEST'' 409))"

record answer_row =
  ar_question :: obj
  ar_answer :: obj
  ar_prompt :: string
  ar_response_text :: string

text \<open>The answers by the question they name; a later one replaces an earlier one.\<close>

definition answer_by_question :: "json list \<Rightarrow> (string, obj) dict" where
  "answer_by_question raw =
     fold (\<lambda>item d. if is_obj item \<and> strip (str_or (get (jfields item) ''question_id'')) \<noteq> []
                    then dict_set (strip (str_or (get (jfields item) ''question_id''))) (jfields item) d
                    else d) raw []"

definition question_number :: "nat \<Rightarrow> string" where
  "question_number index = ''Question '' @ str_nat (index + 1)"

definition answer_question :: "(string, obj) dict \<Rightarrow> nat \<times> json \<Rightarrow> answer_row list \<Rightarrow> answer_row list res" where
  "answer_question answers entry rows =
     (let item = snd entry; d = jfields item; question_id = strip (str_or (get d ''id'')) in
      if \<not> is_obj item then Inr rows
      else case map_of answers question_id of
        None \<Rightarrow> Inl (APIError ''INVALID_REQUEST'' 400)
      | Some answer \<Rightarrow>
          let labels = (if is_list (get answer ''option_labels'')
                        then map text_of (filter is_str (jitems (get answer ''option_labels''))) else []);
              option_label = get answer ''option_label'';
              free_text = get answer ''free_text'';
              response_text = (if labels \<noteq> [] then join '', '' labels
                               else if is_str option_label then text_of option_label
                               else if is_str free_text then text_of free_text
                               else []);
              header = strip (str_or (get d ''header''));
              question = strip (str_or (get d ''question''));
              prompt = (if header \<noteq> [] then header else if question \<noteq> [] then question
                        else if question_id \<noteq> [] then question_id else question_number (fst entry))
          in rbind (check (\<not> (is_str free_text \<and> get d ''allow_free_text'' \<noteq> JBool True))
                      (APIError ''INVALID_REQUEST'' 400)) (\<lambda>_.
             rbind (check (\<not> (response_text = [] \<and>
                              \<not> (is_str free_text \<and> get d ''allow_empty_text'' = JBool True)))
                      (APIError ''INVALID_REQUEST'' 400)) (\<lambda>_.
             Inr (rows @ [\<lparr>ar_question = d, ar_answer = answer, ar_prompt = prompt,
                           ar_response_text = response_text\<rparr>]))))"

definition validated_question_answer_rows :: "obj \<Rightarrow> obj \<Rightarrow> answer_row list res" where
  "validated_question_answer_rows pending response =
     (let raw_answers = get response ''answers''; questions = get pending ''questions'' in
      rbind (check (is_list raw_answers \<and> jitems raw_answers \<noteq> []) (APIError ''INVALID_REQUEST'' 400)) (\<lambda>_.
      rbind (check (is_list questions \<and> jitems questions \<noteq> []) (APIError ''INVALID_REQUEST'' 409)) (\<lambda>_.
      rfold (answer_question (answer_by_question (jitems raw_answers)))
        (enumerate 0 (jitems questions)) [])))"

text \<open>What iterating \<^verbatim>\<open>x or []\<close> visits: the items of a list, the characters of a string, the keys
  of a dictionary; a number is not iterable.\<close>

fun iter_or_empty :: "json \<Rightarrow> json list res" where
  "iter_or_empty (JList xs) = Inr xs"
| "iter_or_empty (JStr s) = Inr (map (\<lambda>c. JStr [c]) s)"
| "iter_or_empty (JObj d) = Inr (map (\<lambda>kv. JStr (fst kv)) d)"
| "iter_or_empty v = (if truthy v then Inl TypeError else Inr [])"

definition option_id_is :: "string \<Rightarrow> json \<Rightarrow> bool" where
  "option_id_is decision option \<longleftrightarrow> is_obj option \<and> strip (str_or (get (jfields option) ''id'')) = decision"

definition selected_decision_option :: "obj \<Rightarrow> obj \<Rightarrow> obj res" where
  "selected_decision_option pending response =
     (let decision = strip (str_or (get response ''decision'')) in
      rbind (iter_or_empty (get pending ''options'')) (\<lambda>options.
        case List.find (option_id_is decision) options of
          Some option \<Rightarrow> Inr (jfields option)
        | None \<Rightarrow> Inl (APIError ''INVALID_REQUEST'' 400)))"

definition validated_tool_approval_decision :: "obj \<Rightarrow> string res" where
  "validated_tool_approval_decision response =
     (let decision = lower (strip (str_or (get response ''decision''))) in
      if decision = ''approve'' \<or> decision = ''reject'' then Inr decision
      else Inl (APIError ''INVALID_REQUEST'' 400))"

definition validate_interaction_response :: "obj \<Rightarrow> obj \<Rightarrow> unit res" where
  "validate_interaction_response pending response =
     rbind (interaction_presentation pending) (\<lambda>presentation.
       if presentation = PRESENTATION_FORM then
         (if get response ''decline'' = JBool True then Inr ()
          else rbind (validated_question_answer_rows pending response) (\<lambda>_. Inr ()))
       else if presentation = PRESENTATION_DECISION then
         rbind (selected_decision_option pending response) (\<lambda>_. Inr ())
       else rbind (validated_tool_approval_decision response) (\<lambda>_. Inr ()))"

definition is_denied_interaction_response :: "obj \<Rightarrow> obj \<Rightarrow> bool res" where
  "is_denied_interaction_response pending response =
     rbind (interaction_presentation pending) (\<lambda>presentation.
       if presentation = PRESENTATION_FORM then Inr (get response ''decline'' = JBool True)
       else if presentation = PRESENTATION_DECISION then
         rbind (selected_decision_option pending response) (\<lambda>option. Inr (truthy (get option ''denial'')))
       else rbind (validated_tool_approval_decision response) (\<lambda>decision. Inr (decision = ''reject'')))"

definition nonempty :: "string \<Rightarrow> string option" where
  "nonempty s = (if s = [] then None else Some s)"

definition resolve_interaction_permission_mode :: "obj \<Rightarrow> obj \<Rightarrow> string option res" where
  "resolve_interaction_permission_mode pending response =
     (if pending = [] \<or> response = [] then Inr None
      else rbind (interaction_presentation pending) (\<lambda>presentation.
        if presentation \<noteq> PRESENTATION_DECISION then Inr None
        else rbind (selected_decision_option pending response) (\<lambda>option.
          let mode_choices = get option ''permission_mode_choices'' in
          if is_list mode_choices \<and> jitems mode_choices \<noteq> [] then
            let requested = strip (str_or (get response ''permission_mode''));
                fallback = strip (str_or (get option ''default_permission_mode''))
            in Inr (nonempty (if requested \<noteq> [] then requested else fallback))
          else Inr (nonempty (strip (str_or (get option ''applies_permission_mode'')))))))"

section \<open>Transcript reply and approval frame\<close>

definition newline :: string where
  "newline = [char_of (10::nat)]"

definition render_interaction_reply :: "obj \<Rightarrow> obj \<Rightarrow> string res" where
  "render_interaction_reply pending response =
     rbind (interaction_presentation pending) (\<lambda>presentation.
       if presentation = PRESENTATION_FORM then
         (if get response ''decline'' = JBool True then Inr ''User declined to answer questions.''
          else rbind (validated_question_answer_rows pending response) (\<lambda>rows.
            let lines = ''Response to your pending questions:'' #
                  map (\<lambda>row. ''- '' @ ar_prompt row @ '': '' @ ar_response_text row) rows;
                notes = strip (str_or (get response ''notes''))
            in Inr (join newline (if notes = [] then lines
                                  else lines @ ['''', ''Additional notes: '' @ notes]))))
       else if presentation = PRESENTATION_DECISION then
         rbind (selected_decision_option pending response) (\<lambda>option.
           let reply = str_or (get option ''reply'');
               comment = strip (str_or (get response ''comment''));
               declared = strip (str_or (get option ''comment_prefix''));
               prefix = (if declared \<noteq> [] then declared else ''Additional notes'')
           in Inr (join newline (if comment = [] then [reply] else [reply, prefix @ '': '' @ comment])))
       else
         rbind (validated_tool_approval_decision response) (\<lambda>decision.
           let lines = [''Response to your pending tool confirmation:'',
                  (if decision = ''approve'' then ''The user approved this tool use.''
                   else ''The user doesn'' @ [char_of (39::nat)] @ ''t want to proceed with this tool use.'')];
               comment = strip (str_or (get response ''comment''))
           in Inr (join newline (if comment = [] then lines
                                 else lines @ [''Additional notes: '' @ comment]))))"

definition build_tool_approval_request_frame :: "obj \<Rightarrow> obj option" where
  "build_tool_approval_request_frame pending =
     (let tool_call_id = strip (str_or (get pending ''tool_call_id''));
          interaction_id = strip (str_or (get pending ''interaction_id''))
      in if str_or (get pending ''presentation'') \<noteq> PRESENTATION_TOOL_APPROVAL \<or> tool_call_id = [] then None
         else Some [(''type'', JStr ''tool-approval-request''),
                    (''approvalId'', JStr (if interaction_id \<noteq> [] then interaction_id else tool_call_id)),
                    (''toolCallId'', JStr tool_call_id)])"

section \<open>The public projection\<close>

definition public_option :: "json \<Rightarrow> json res" where
  "public_option option =
     rbind (refuse_unless (is_obj option)) (\<lambda>_.
       Inr (JObj (project question_option_keys (jfields option))))"

definition public_question :: "json \<Rightarrow> json res" where
  "public_question row =
     rbind (refuse_unless (is_obj row)) (\<lambda>_.
     rbind (iter_or_empty (get (jfields row) ''options'')) (\<lambda>raw.
     rbind (rmap public_option raw) (\<lambda>options.
       Inr (JObj (dict_set ''options'' (JList options) (project public_question_keys (jfields row)))))))"

definition public_answer :: "obj \<Rightarrow> obj \<Rightarrow> json res" where
  "public_answer value answer =
     (if get answer ''decline'' = JBool True then Inr (JObj [(''decline'', JBool True)])
      else rbind (validated_question_answer_rows value answer) (\<lambda>rows.
        Inr (JObj [(''answers'', JList (map (\<lambda>row. JObj (project
          [''question_id'', ''option_label'', ''option_labels'', ''free_text''] (ar_answer row))) rows))])))"

definition interaction_statuses :: "json list" where
  "interaction_statuses = [JStr ''open'', JStr ''answered'', JStr ''withdrawn'', JStr ''expired'']"

definition public_form_part :: "obj \<Rightarrow> obj \<Rightarrow> obj res" where
  "public_form_part value public =
     rbind (iter_or_empty (get value ''questions'')) (\<lambda>raw.
     rbind (rmap public_question raw) (\<lambda>questions.
     let public1 = dict_set ''questions'' (JList questions) public;
         public2 = (if has_key value ''preset_answers''
                    then dict_set ''preset_answers'' (get value ''preset_answers'') public1 else public1)
     in if get value ''status'' = JStr ''answered'' \<and> is_obj (get value ''answer'')
        then rbind (public_answer value (jfields (get value ''answer'')))
               (\<lambda>a. Inr (dict_set ''answer'' a public2))
        else Inr public2))"

definition public_decision_part :: "obj \<Rightarrow> obj \<Rightarrow> obj res" where
  "public_decision_part value public =
     rbind (iter_or_empty (get value ''options'')) (\<lambda>raw.
       let public1 = (if has_key value ''body'' then dict_set ''body'' (get value ''body'') public else public)
       in Inr (dict_set ''options''
            (JList (map (\<lambda>option. JObj (project public_decision_option_keys (jfields option)))
                      (filter is_obj raw))) public1))"

definition public_interaction_view :: "json \<Rightarrow> bool \<Rightarrow> obj option res" where
  "public_interaction_view value include_tool_input =
     (if value = JNull then Inr None
      else rbind (refuse_unless (is_obj value)) (\<lambda>_.
      let v = jfields value in
      rbind (interaction_presentation v) (\<lambda>presentation.
      let common = project public_interaction_common_keys v;
          public = (if include_tool_input \<and> has_key v ''raw_input''
                    then dict_set ''raw_input'' (get v ''raw_input'') common else common)
      in rbind (if has_key v ''status'' then
                  rbind (in_set (get v ''status'') interaction_statuses) (\<lambda>known.
                  rbind (refuse_unless known) (\<lambda>_.
                    Inr (dict_set ''status'' (get v ''status'') public)))
                else Inr public) (\<lambda>public'.
         rbind (if presentation = PRESENTATION_FORM then public_form_part v public'
                else if presentation = PRESENTATION_DECISION then public_decision_part v public'
                else Inr public') (\<lambda>result.
         Inr (Some result))))))"

section \<open>What validation guarantees\<close>

definition question_shaped :: "json \<Rightarrow> bool" where
  "question_shaped q \<longleftrightarrow>
     is_obj q \<and> is_list (get (jfields q) ''options'') \<and>
     (\<forall>option \<in> set (jitems (get (jfields q) ''options'')). is_obj option)"

lemma validate_question_shaped: "validate_question row seen = Inr seen' \<Longrightarrow> question_shaped row"
  by (auto simp: validate_question_def Let_def rbind_Inr_iff question_shaped_def validate_question_option_def
      dest!: rmap_all)

lemma validate_form_shaped:
  assumes "validate_form_contract c = Inr u"
  shows "is_list (get c ''questions'')" and "\<forall>q \<in> set (jitems (get c ''questions'')). question_shaped q"
  using assms
  by (auto simp: validate_form_contract_def Let_def rbind_Inr_iff dest!: rfold_all dest: validate_question_shaped)

lemma validate_decision_shaped:
  "validate_decision_contract c = Inr u \<Longrightarrow> is_list (get c ''options'')"
  by (auto simp: validate_decision_contract_def Let_def rbind_Inr_iff)

lemma validate_contract_Inr:
  assumes "validate_interaction_contract (JObj c) = Inr presentation"
  shows "interaction_presentation c = Inr presentation" and "only_keys (contract_keys presentation) c"
    and "presentation = PRESENTATION_FORM \<Longrightarrow> validate_form_contract c = Inr ()"
    and "presentation = PRESENTATION_DECISION \<Longrightarrow> validate_decision_contract c = Inr ()"
    and "presentation \<in> set INTERACTION_PRESENTATIONS"
proof -
  from assms show "interaction_presentation c = Inr presentation"
    by (cases "get c ''presentation''")
       (auto simp: validate_interaction_contract_def interaction_presentation_def require_str_def nonempty_str_def
         rbind_Inr_iff Let_def)
  from assms show "only_keys (contract_keys presentation) c"
    and "presentation = PRESENTATION_FORM \<Longrightarrow> validate_form_contract c = Inr ()"
    and "presentation = PRESENTATION_DECISION \<Longrightarrow> validate_decision_contract c = Inr ()"
    and "presentation \<in> set INTERACTION_PRESENTATIONS"
    by (auto simp: validate_interaction_contract_def rbind_Inr_iff Let_def presentation_defs split: if_splits)
qed

lemma only_keys_get: "only_keys ks d \<Longrightarrow> k \<notin> set ks \<Longrightarrow> \<not> has_key d k"
  by (force simp: only_keys_def list_all_iff has_key_iff)

lemma contract_keys_status: "''status'' \<notin> set (contract_keys p)" "''answer'' \<notin> set (contract_keys p)"
  by (simp_all add: contract_keys_def)

lemma public_question_total: "question_shaped q \<Longrightarrow> \<exists>v. public_question q = Inr v"
proof -
  assume q: "question_shaped q"
  then obtain os where os: "get (jfields q) ''options'' = JList os"
    by (cases "get (jfields q) ''options''") (auto simp: question_shaped_def)
  with q have "\<exists>vs. rmap public_option os = Inr vs"
    by (intro rmap_total) (auto simp: question_shaped_def public_option_def)
  with q os show ?thesis by (auto simp: public_question_def question_shaped_def)
qed

text \<open>A contract with a settlement beside it, as the history shows it.\<close>

definition settle :: "obj \<Rightarrow> string \<Rightarrow> json \<Rightarrow> obj" where
  "settle c status answer = dict_update c [(''status'', JStr status), (''answer'', answer)]"

definition answerable :: "obj \<Rightarrow> json \<Rightarrow> bool" where
  "answerable c answer \<longleftrightarrow> is_obj answer \<longrightarrow> validate_interaction_response c (jfields answer) = Inr ()"

lemma rows_cong:
  "get v ''questions'' = get c ''questions'' \<Longrightarrow>
     validated_question_answer_rows v response = validated_question_answer_rows c response"
  by (simp add: validated_question_answer_rows_def)

lemma public_answer_total:
  assumes "interaction_presentation c = Inr PRESENTATION_FORM"
    and "validate_interaction_response c answer = Inr ()" and "get v ''questions'' = get c ''questions''"
  shows "\<exists>a. public_answer v answer = Inr a"
  using assms rows_cong [OF assms(3), of answer]
  by (auto simp: public_answer_def validate_interaction_response_def rbind_Inr_iff split: if_splits)

text \<open>The view of a value whose form or decision has the shape validation accepts.\<close>

lemma public_form_total:
  assumes "validate_form_contract c = Inr ()" and "interaction_presentation c = Inr PRESENTATION_FORM"
    and "get v ''questions'' = get c ''questions''" and "answerable c (get v ''answer'')"
  shows "\<exists>r. public_form_part v public = Inr r"
proof -
  from validate_form_shaped [OF assms(1)] assms(3) obtain qs where
    qs: "get v ''questions'' = JList qs" "\<forall>q \<in> set qs. question_shaped q"
    by (cases "get c ''questions''") auto
  then obtain pub where pub: "rmap public_question qs = Inr pub"
    using rmap_total [of qs public_question] public_question_total by blast
  show ?thesis
  proof (cases "get v ''status'' = JStr ''answered'' \<and> is_obj (get v ''answer'')")
    case True
    with assms(4) have "validate_interaction_response c (jfields (get v ''answer'')) = Inr ()"
      by (simp add: answerable_def)
    from public_answer_total [OF assms(2) this assms(3)] True qs pub show ?thesis
      by (auto simp: public_form_part_def Let_def)
  next
    case False
    with qs pub show ?thesis by (auto simp: public_form_part_def Let_def)
  qed
qed

lemma public_decision_total:
  assumes "validate_decision_contract c = Inr ()" and "get v ''options'' = get c ''options''"
  shows "\<exists>r. public_decision_part v public = Inr r"
  using validate_decision_shaped [OF assms(1)] assms(2)
  by (cases "get c ''options''") (auto simp: public_decision_part_def Let_def)

lemma public_view_total:
  assumes valid: "validate_interaction_contract (JObj c) = Inr presentation"
    and same: "\<And>k. k \<noteq> ''status'' \<Longrightarrow> k \<noteq> ''answer'' \<Longrightarrow> get v k = get c k"
    and status: "has_key v ''status'' \<Longrightarrow> get v ''status'' \<in> set interaction_statuses"
    and answer: "answerable c (get v ''answer'')"
  shows "\<exists>view. public_interaction_view (JObj v) shown = Inr (Some view)"
proof -
  note ok = validate_contract_Inr [OF valid]
  have pres: "interaction_presentation v = Inr presentation"
    using ok(1) same by (simp add: interaction_presentation_def)
  have known: "in_set (get v ''status'') interaction_statuses = Inr True" if "has_key v ''status''"
    using status [OF that] by (auto simp: in_set_def interaction_statuses_def)
  have "\<exists>r. (if presentation = PRESENTATION_FORM then public_form_part v public
      else if presentation = PRESENTATION_DECISION then public_decision_part v public
      else Inr public) = Inr r" for public
    using ok(1,3,4) answer same public_form_total [of c v public] public_decision_total [of c v public] by auto
  then obtain r where r: "\<And>public. (if presentation = PRESENTATION_FORM then public_form_part v public
      else if presentation = PRESENTATION_DECISION then public_decision_part v public
      else Inr public) = Inr (r public)"
    by metis
  show ?thesis
    using known by (auto simp: public_interaction_view_def pres r Let_def)
qed

section \<open>What the view hides\<close>

definition public_keys :: "string list" where
  "public_keys = public_interaction_common_keys @
     [''raw_input'', ''status'', ''questions'', ''preset_answers'', ''answer'', ''body'', ''options'']"

abbreviation keys_of :: "json \<Rightarrow> string set" where
  "keys_of j \<equiv> fst ` set (jfields j)"

definition public_question_view :: "json \<Rightarrow> bool" where
  "public_question_view q \<longleftrightarrow>
     keys_of q \<subseteq> set public_question_keys \<and>
     (\<forall>option \<in> set (jitems (get (jfields q) ''options'')). keys_of option \<subseteq> set question_option_keys)"

lemma keys_project_subset: "fst ` set (project ks d) \<subseteq> set ks"
  by (auto simp: keys_project)

lemma public_option_keys: "public_option option = Inr v \<Longrightarrow> keys_of v \<subseteq> set question_option_keys"
  using keys_project_subset [of question_option_keys "jfields option"]
  by (force simp: public_option_def rbind_Inr_iff)

lemma public_question_hides: "public_question q = Inr v \<Longrightarrow> public_question_view v"
proof -
  assume "public_question q = Inr v"
  then obtain raw options where options: "rmap public_option raw = Inr options"
    and v: "v = JObj (dict_set ''options'' (JList options) (project public_question_keys (jfields q)))"
    by (auto simp: public_question_def rbind_Inr_iff)
  have "keys_of v \<subseteq> set public_question_keys"
    using keys_project_subset [of public_question_keys "jfields q"]
    by (auto simp: v keys_dict_set public_question_keys_def)
  moreover have "keys_of option \<subseteq> set question_option_keys" if "option \<in> set options" for option
    using rmap_mem [OF options that] by (auto dest: public_option_keys)
  ultimately show ?thesis by (simp add: public_question_view_def v)
qed

definition base_view :: "obj \<Rightarrow> bool \<Rightarrow> bool" where
  "base_view d shown \<longleftrightarrow>
     fst ` set d \<subseteq> set (public_interaction_common_keys @ [''raw_input'', ''status'']) \<and>
     (\<not> shown \<longrightarrow> \<not> has_key d ''raw_input'')"

definition safe_view :: "obj \<Rightarrow> bool \<Rightarrow> bool" where
  "safe_view d shown \<longleftrightarrow>
     fst ` set d \<subseteq> set public_keys \<and> (\<not> shown \<longrightarrow> \<not> has_key d ''raw_input'') \<and>
     (\<forall>q \<in> set (jitems (get d ''questions'')). public_question_view q) \<and>
     (\<forall>option \<in> set (jitems (get d ''options'')). keys_of option \<subseteq> set public_decision_option_keys)"

lemma base_view_get:
  "base_view d shown \<Longrightarrow> k \<notin> set (public_interaction_common_keys @ [''raw_input'', ''status'']) \<Longrightarrow> get d k = JNull"
  by (rule get_not_has_key) (auto simp: base_view_def has_key_iff)

lemma base_view_safe: "base_view d shown \<Longrightarrow> safe_view d shown"
proof -
  assume base: "base_view d shown"
  have "get d ''questions'' = JNull" "get d ''options'' = JNull"
    using base by (auto intro: base_view_get simp: public_interaction_common_keys_def)
  with base show ?thesis by (auto simp: safe_view_def base_view_def public_keys_def)
qed

lemma safe_view_set:
  "safe_view d shown \<Longrightarrow> safe_view (dict_set ''answer'' a d) shown"
  "safe_view d shown \<Longrightarrow> safe_view (dict_set ''preset_answers'' a d) shown"
  "safe_view d shown \<Longrightarrow> safe_view (dict_set ''body'' a d) shown"
  by (auto simp: safe_view_def keys_dict_set public_keys_def)

lemma safe_view_options:
  "safe_view d shown \<Longrightarrow> \<forall>option \<in> set os. keys_of option \<subseteq> set public_decision_option_keys \<Longrightarrow>
     safe_view (dict_set ''options'' (JList os) d) shown"
  by (simp add: safe_view_def keys_dict_set public_keys_def)

definition with_presets :: "obj \<Rightarrow> obj \<Rightarrow> obj" where
  "with_presets v d = (if has_key v ''preset_answers''
     then dict_set ''preset_answers'' (get v ''preset_answers'') d else d)"

lemma public_form_safe:
  assumes "public_form_part v d = Inr r" and "base_view d shown"
  shows "safe_view r shown"
proof -
  from assms(1) obtain raw qs where qs: "rmap public_question raw = Inr qs"
    and r: "(\<exists>a. r = dict_set ''answer'' a (with_presets v (dict_set ''questions'' (JList qs) d))) \<or>
      r = with_presets v (dict_set ''questions'' (JList qs) d)"
    by (auto simp: public_form_part_def with_presets_def rbind_Inr_iff Let_def split: if_splits)
  have "\<forall>q \<in> set qs. public_question_view q" using rmap_mem [OF qs] by (auto dest: public_question_hides)
  moreover have "get d ''options'' = JNull"
    using assms(2) by (rule base_view_get) (simp add: public_interaction_common_keys_def)
  ultimately have "safe_view (dict_set ''questions'' (JList qs) d) shown"
    using assms(2) by (auto simp: safe_view_def base_view_def keys_dict_set public_keys_def)
  then have "safe_view (with_presets v (dict_set ''questions'' (JList qs) d)) shown"
    by (simp add: with_presets_def safe_view_set)
  with r show ?thesis by (auto simp: safe_view_set)
qed

lemma public_decision_safe:
  assumes "public_decision_part v d = Inr r" and "base_view d shown"
  shows "safe_view r shown"
proof -
  from assms(1) obtain raw where
    raw: "r = dict_set ''options'' (JList (map (\<lambda>option. JObj (project public_decision_option_keys (jfields option)))
        (filter is_obj raw)))
      (if has_key v ''body'' then dict_set ''body'' (get v ''body'') d else d)"
    by (auto simp: public_decision_part_def rbind_Inr_iff Let_def)
  define os where "os = map (\<lambda>option. JObj (project public_decision_option_keys (jfields option))) (filter is_obj raw)"
  have os: "\<forall>option \<in> set os. keys_of option \<subseteq> set public_decision_option_keys"
    by (simp add: os_def keys_project_subset)
  have r: "(\<exists>b. r = dict_set ''options'' (JList os) (dict_set ''body'' b d)) \<or> r = dict_set ''options'' (JList os) d"
    using raw by (auto simp: os_def)
  have "safe_view d shown" using assms(2) by (rule base_view_safe)
  with r os show ?thesis by (auto simp: safe_view_set safe_view_options simp del: image_subset_iff)
qed

lemma public_view_safe:
  assumes "public_interaction_view value shown = Inr (Some view)"
  shows "safe_view view shown"
proof -
  let ?v = "jfields value"
  define common where "common = (if shown \<and> has_key ?v ''raw_input''
    then dict_set ''raw_input'' (get ?v ''raw_input'') (project public_interaction_common_keys ?v)
    else project public_interaction_common_keys ?v)"
  have "''raw_input'' \<notin> set public_interaction_common_keys" by (simp add: public_interaction_common_keys_def)
  then have base: "base_view common shown" and base': "base_view (dict_set ''status'' st common) shown" for st
    using keys_project_subset [of public_interaction_common_keys ?v]
    by (auto simp: base_view_def common_def keys_dict_set)
  from assms obtain d where "d = common \<or> d = dict_set ''status'' (get ?v ''status'') common"
    and r: "public_form_part ?v d = Inr view \<or> public_decision_part ?v d = Inr view \<or> view = d"
    by (auto simp: public_interaction_view_def rbind_Inr_iff Let_def common_def split: if_splits)
  with base base' have "base_view d shown" by auto
  with r show ?thesis by (auto intro: public_form_safe public_decision_safe base_view_safe)
qed

lemma Int_disjoint_mono: "A \<subseteq> B \<Longrightarrow> C \<inter> B = {} \<Longrightarrow> C \<inter> A = {}"
  by blast

section \<open>Decisions\<close>

lemma validate_decision_option_Inr:
  assumes "validate_decision_option option seen = Inr mid"
  shows "is_obj option" and "is_str (get (jfields option) ''id'')"
    and "text_of (get (jfields option) ''id'') \<notin> set seen"
    and "mid = seen @ [text_of (get (jfields option) ''id'')]"
  using assms by (simp_all add: validate_decision_option_def Let_def rbind_Inr_iff nonempty_str_def)

lemma validate_decision_options:
  assumes "rfold validate_decision_option options seen = Inr seen'" and "distinct seen"
  shows "distinct seen' \<and> seen' = seen @ map (\<lambda>option. text_of (get (jfields option) ''id'')) options \<and>
    (\<forall>option \<in> set options. is_obj option \<and> is_str (get (jfields option) ''id''))"
  using assms
proof (induction options arbitrary: seen)
  case Nil
  then show ?case by simp
next
  case (Cons option options)
  from Cons.prems(1) obtain mid where mid: "validate_decision_option option seen = Inr mid"
    and rest: "rfold validate_decision_option options mid = Inr seen'"
    by (auto simp: rbind_Inr_iff)
  note o' = validate_decision_option_Inr [OF mid]
  with Cons.prems(2) have "distinct mid" by simp
  note IH = Cons.IH [OF rest this]
  have "seen' = seen @ map (\<lambda>option. text_of (get (jfields option) ''id'')) (option # options)"
    using IH o' by simp
  moreover have "\<forall>option \<in> set (option # options). is_obj option \<and> is_str (get (jfields option) ''id'')"
    using IH o' by simp
  ultimately show ?case using IH by blast
qed

lemma find_unique:
  assumes "x \<in> set xs" and "p x" and "\<And>y. y \<in> set xs \<Longrightarrow> p y \<Longrightarrow> y = x"
  shows "List.find p xs = Some x"
proof (cases "List.find p xs")
  case None
  with assms(1,2) show ?thesis by (auto simp: find_None_iff)
next
  case (Some y)
  then have "y \<in> set xs" "p y" by (auto simp: find_Some_iff)
  with Some assms(3) show ?thesis by simp
qed

section \<open>Properties\<close>

text \<open>
  A declared contract that \<^verbatim>\<open>validate_interaction_contract\<close> accepts can be shown at any time:
  \<^verbatim>\<open>public_interaction_view\<close> of it, with a known settlement status and an answer that
  \<^verbatim>\<open>validate_interaction_response\<close> accepted (or none) beside it, returns a view and never raises.
\<close>

theorem validated_contract_is_shown:
  assumes "validate_interaction_contract (JObj c) = Inr presentation"
    and "JStr status \<in> set interaction_statuses"
    and "\<And>a. answer = Some a \<Longrightarrow> validate_interaction_response c a = Inr ()"
  shows "(\<exists>view. public_interaction_view (JObj c) shown = Inr (Some view)) \<and>
    (\<exists>view. public_interaction_view
       (JObj (settle c status (case answer of None \<Rightarrow> JNull | Some a \<Rightarrow> JObj a))) shown = Inr (Some view))"
proof
  have "\<not> has_key c ''status''" "\<not> has_key c ''answer''"
    using only_keys_get [OF validate_contract_Inr(2) [OF assms(1)]] contract_keys_status by simp_all
  then show "\<exists>view. public_interaction_view (JObj c) shown = Inr (Some view)"
    by (intro public_view_total [OF assms(1)]) (simp_all add: answerable_def get_not_has_key)
  show "\<exists>view. public_interaction_view
      (JObj (settle c status (case answer of None \<Rightarrow> JNull | Some a \<Rightarrow> JObj a))) shown = Inr (Some view)"
    using assms(2,3)
    by (intro public_view_total [OF assms(1)]) (auto simp: settle_def answerable_def split: option.splits)
qed

definition sample_option :: "string \<Rightarrow> bool \<Rightarrow> json" where
  "sample_option oid denial = JObj [(''id'', JStr oid), (''denial'', JBool denial), (''reply'', JStr ''ok'')]"

definition sample_decision :: "string list \<Rightarrow> obj" where
  "sample_decision ids = [(''tool_name'', JStr ''plan''), (''presentation'', JStr ''decision''),
     (''prompt'', JStr ''Proceed?''), (''raw_input'', JObj []),
     (''options'', JList (map (\<lambda>i. sample_option i False) ids))]"

theorem validated_contract_is_shown_witness:
  "\<exists>view. public_interaction_view
     (JObj (settle (sample_decision [''a'', ''b'']) ''answered'' (JObj [(''decision'', JStr ''b'')]))) False = Inr (Some view)"
proof -
  have valid: "validate_interaction_contract (JObj (sample_decision [''a'', ''b''])) = Inr ''decision''" by code_simp
  have status: "JStr ''answered'' \<in> set interaction_statuses" by code_simp
  have "validate_interaction_response (sample_decision [''a'', ''b'']) [(''decision'', JStr ''b'')] = Inr ()" by code_simp
  then have "(\<exists>view. public_interaction_view (JObj (sample_decision [''a'', ''b''])) False = Inr (Some view)) \<and>
      (\<exists>view. public_interaction_view (JObj (settle (sample_decision [''a'', ''b'']) ''answered''
        (case Some [(''decision'', JStr ''b'')] of None \<Rightarrow> JNull | Some a \<Rightarrow> JObj a))) False = Inr (Some view))"
    by (intro validated_contract_is_shown [OF valid status]) simp
  then show ?thesis by (simp only: option.case)
qed

text \<open>
  The browser never receives control data. Every key of a public view is a browser-facing
  one, the tool input is there only when asked for, and each question, question option and
  decision option carries only its public keys; the native answer key, the adapter's reply
  and its comment prefix are not among them.
\<close>

theorem public_view_hides_control_data:
  assumes "public_interaction_view value shown = Inr (Some view)"
  shows "fst ` set view \<subseteq> set public_keys \<and> (\<not> shown \<longrightarrow> \<not> has_key view ''raw_input'') \<and>
    (\<forall>q \<in> set (jitems (get view ''questions'')).
       ''native_answer_key'' \<notin> keys_of q \<and> keys_of q \<subseteq> set public_question_keys \<and>
       (\<forall>option \<in> set (jitems (get (jfields q) ''options'')). keys_of option \<subseteq> {''label'', ''description''})) \<and>
    (\<forall>option \<in> set (jitems (get view ''options'')).
       {''reply'', ''comment_prefix''} \<inter> keys_of option = {} \<and> keys_of option \<subseteq> set public_decision_option_keys)"
proof -
  have hidden: "''native_answer_key'' \<notin> set public_question_keys"
    "{''reply'', ''comment_prefix''} \<inter> set public_decision_option_keys = {}"
    by (simp_all add: public_question_keys_def public_decision_option_keys_def)
  have labels: "set question_option_keys = {''label'', ''description''}" by (simp add: question_option_keys_def)
  note safe = public_view_safe [OF assms, unfolded safe_view_def public_question_view_def labels]
  show ?thesis
  proof (intro conjI ballI)
    fix q assume q: "q \<in> set (jitems (get view ''questions''))"
    with safe have ks: "keys_of q \<subseteq> set public_question_keys" by (elim conjE) (drule bspec, assumption, elim conjE)
    then show "keys_of q \<subseteq> set public_question_keys" .
    from ks hidden(1) show "''native_answer_key'' \<notin> keys_of q" by (rule contra_subsetD)
    fix option assume "option \<in> set (jitems (get (jfields q) ''options''))"
    with q safe show "keys_of option \<subseteq> {''label'', ''description''}"
      by (elim conjE) (drule bspec, assumption, elim conjE, erule bspec)
  next
    fix option assume "option \<in> set (jitems (get view ''options''))"
    with safe have ks: "keys_of option \<subseteq> set public_decision_option_keys" by (elim conjE) (erule bspec)
    then show "keys_of option \<subseteq> set public_decision_option_keys" .
    from ks hidden(2) show "{''reply'', ''comment_prefix''} \<inter> keys_of option = {}" by (rule Int_disjoint_mono)
  qed (rule safe [THEN conjunct1] safe [THEN conjunct2, THEN conjunct1])+
qed

theorem public_view_hides_control_data_witness:
  "\<exists>view. public_interaction_view (JObj (sample_decision [''a''])) False = Inr (Some view) \<and> \<not> has_key view ''raw_input''"
proof -
  have "\<not> Option.is_none (case public_interaction_view (JObj (sample_decision [''a''])) False of Inr v \<Rightarrow> v | Inl e \<Rightarrow> None)"
    by code_simp
  then obtain view where "public_interaction_view (JObj (sample_decision [''a''])) False = Inr (Some view)"
    by (auto simp: Option.is_none_def split: sum.splits)
  with public_view_hides_control_data [OF this, THEN conjunct2, THEN conjunct1] show ?thesis by simp
qed

text \<open>
  C31. An accepted answer can be used. When \<^verbatim>\<open>validate_interaction_response\<close> accepts a person's
  answer, the denial test, the permission mode it selects and the transcript reply are all
  defined; a mode is only selected by a decision.
\<close>

theorem accepted_answer_is_usable:
  assumes "validate_interaction_response pending response = Inr ()"
  shows "\<exists>denied mode reply.
    is_denied_interaction_response pending response = Inr denied \<and>
    resolve_interaction_permission_mode pending response = Inr mode \<and>
    render_interaction_reply pending response = Inr reply \<and>
    (mode \<noteq> None \<longrightarrow> interaction_presentation pending = Inr PRESENTATION_DECISION)"
proof -
  from assms obtain presentation where pres: "interaction_presentation pending = Inr presentation"
    by (auto simp: validate_interaction_response_def rbind_Inr_iff)
  have distinct: "PRESENTATION_FORM \<noteq> PRESENTATION_DECISION" by (simp add: presentation_defs)
  consider (form) "presentation = PRESENTATION_FORM" | (decision) "presentation = PRESENTATION_DECISION"
    | (other) "presentation \<noteq> PRESENTATION_FORM" "presentation \<noteq> PRESENTATION_DECISION" by blast
  then show ?thesis
  proof cases
    case form
    with assms pres distinct show ?thesis
      by (auto simp: validate_interaction_response_def is_denied_interaction_response_def
          resolve_interaction_permission_mode_def render_interaction_reply_def rbind_Inr_iff Let_def split: if_splits)
  next
    case decision
    with assms pres distinct obtain option where "selected_decision_option pending response = Inr option"
      by (auto simp: validate_interaction_response_def rbind_Inr_iff)
    with decision pres distinct show ?thesis
      by (auto simp: is_denied_interaction_response_def resolve_interaction_permission_mode_def
          render_interaction_reply_def Let_def)
  next
    case other
    with assms pres obtain d where "validated_tool_approval_decision response = Inr d"
      by (auto simp: validate_interaction_response_def rbind_Inr_iff)
    with other pres show ?thesis
      by (auto simp: is_denied_interaction_response_def resolve_interaction_permission_mode_def
          render_interaction_reply_def Let_def)
  qed
qed

theorem accepted_answer_is_usable_witness:
  "\<exists>denied. is_denied_interaction_response (sample_decision [''a'', ''b'']) [(''decision'', JStr ''b'')] = Inr denied"
proof -
  have "validate_interaction_response (sample_decision [''a'', ''b'']) [(''decision'', JStr ''b'')] = Inr ()" by code_simp
  from accepted_answer_is_usable [OF this] show ?thesis by blast
qed

text \<open>
  A decision selects the option it names. In a validated decision contract whose option ids
  carry no outer white space, answering with an option's id selects exactly that option.
\<close>

lemma decision_selects_its_option:
  assumes "validate_decision_contract c = Inr ()" and "option \<in> set (jitems (get c ''options''))"
    and "\<And>q. q \<in> set (jitems (get c ''options'')) \<Longrightarrow>
      strip (text_of (get (jfields q) ''id'')) = text_of (get (jfields q) ''id'')"
  shows "selected_decision_option c [(''decision'', get (jfields option) ''id'')] = Inr (jfields option)"
proof -
  from assms(1) obtain seen where
    seen: "rfold validate_decision_option (jitems (get c ''options'')) [] = Inr seen"
    and list: "is_list (get c ''options'')"
    by (auto simp: validate_decision_contract_def Let_def rbind_Inr_iff)
  let ?id = "\<lambda>q. text_of (get (jfields q) ''id'')"
  have ids: "distinct (map ?id (jitems (get c ''options'')))"
    and objs: "\<And>q. q \<in> set (jitems (get c ''options'')) \<Longrightarrow> is_obj q \<and> get (jfields q) ''id'' = JStr (?id q)"
    using validate_decision_options [OF seen] by (auto elim!: is_str.elims)
  have key: "option_id_is (?id option) q \<longleftrightarrow> ?id q = ?id option" if "q \<in> set (jitems (get c ''options''))" for q
    using objs [OF that] assms(3) [OF that] by (metis option_id_is_def str_or_JStr)
  have "List.find (option_id_is (?id option)) (jitems (get c ''options'')) = Some option"
    using assms(2) key unique_row [OF ids] by (intro find_unique) auto
  moreover have "iter_or_empty (get c ''options'') = Inr (jitems (get c ''options''))"
    using list by (cases "get c ''options''") auto
  moreover have "strip (str_or (get [(''decision'', get (jfields option) ''id'')] ''decision'')) = ?id option"
    using objs [OF assms(2)] assms(3) [OF assms(2)] by (metis get_Cons str_or_JStr)
  ultimately show ?thesis by (simp add: selected_decision_option_def del: get_Cons)
qed

text \<open>
  Without that, an option can be unreachable: validation compares the ids as they are, while
  the selection compares them stripped. A contract with the ids \<^verbatim>\<open>"a"\<close> and \<^verbatim>\<open>"a "\<close> is accepted, and
  no response ever selects its second option.
\<close>

theorem unreachable_option:
  "validate_interaction_contract (JObj (sample_decision [''a'', ''a ''])) = Inr ''decision'' \<and>
   (\<forall>response. selected_decision_option (sample_decision [''a'', ''a '']) response \<noteq> Inr (jfields (sample_option ''a '' False)))"
proof
  show "validate_interaction_contract (JObj (sample_decision [''a'', ''a ''])) = Inr ''decision''" by code_simp
  have same: "strip ''a'' = ''a''" "strip ''a '' = ''a''" by code_simp+
  show "\<forall>response. selected_decision_option (sample_decision [''a'', ''a '']) response \<noteq> Inr (jfields (sample_option ''a '' False))"
    by (auto simp: selected_decision_option_def sample_decision_def sample_option_def option_id_is_def same Let_def
        split: option.splits if_splits)
qed

end
