(* ===== verification/Recording.thy ===== *)
theory Recording
  imports Leases Interaction
begin

text \<open>
  What a reader records: the facts of \<^verbatim>\<open>session_runtime_repository.py\<close>, their application
  (\<^verbatim>\<open>_apply\<close>), the commit of one batch under the reader lease (\<^verbatim>\<open>record\<close>), the resume point, the
  reads of the output log and the filling of display positions (\<^verbatim>\<open>_index_recorded_messages\<close>);
  and the answers people give to open interactions.

  References of the recorded rows to their session hold because the lease row the commit
  updates references it too; the reference of a response's input to the input's row is a
  branch of the model.
\<close>

section \<open>Facts and batches\<close>

datatype message_kind = MInput | MResponse

datatype fact =
    ResponseStart string origin "string list"
  | MessagePosition message_kind string int
  | ResponseEnd string outcome "string option" "json option" "json option"
  | InteractionOpen string string obj
  | InteractionClose string interaction_status "int option"
  | InputsAdmitted "string list"
  | InputsFailed "string list" json

record output_part =
  p_seq :: int
  p_response_id :: "string option"
  p_part :: obj

record fact_batch =
  b_output :: "output_part list"
  b_facts :: "fact list"
  b_cursor :: "json option"
  b_status :: "string option"
  b_protocol_error :: "string option"

definition empty_batch :: fact_batch where
  "empty_batch = \<lparr>b_output = [], b_facts = [], b_cursor = None, b_status = None,
     b_protocol_error = None\<rparr>"

definition batch_nonempty :: "fact_batch \<Rightarrow> bool" where
  "batch_nonempty b \<longleftrightarrow> b_output b \<noteq> [] \<or> b_facts b \<noteq> [] \<or> b_cursor b \<noteq> None \<or>
     b_status b \<noteq> None \<or> b_protocol_error b \<noteq> None"

fun is_position :: "fact \<Rightarrow> bool" where
  "is_position (MessagePosition k m n) = True"
| "is_position _ = False"

fun is_response_end :: "fact \<Rightarrow> bool" where
  "is_response_end (ResponseEnd r oc nr u e) = True"
| "is_response_end _ = False"

section \<open>Applying one fact\<close>

definition of_response :: "string \<Rightarrow> string \<Rightarrow> response_row \<Rightarrow> bool" where
  "of_response sid rid r \<longleftrightarrow> r_session_id r = sid \<and> r_response_id r = rid"

definition of_interaction :: "string \<Rightarrow> string \<Rightarrow> interaction_row \<Rightarrow> bool" where
  "of_interaction sid xid x \<longleftrightarrow> x_session_id x = sid \<and> x_interaction_id x = xid"

definition new_response :: "string \<Rightarrow> string \<Rightarrow> origin \<Rightarrow> int \<Rightarrow> time \<Rightarrow> response_row" where
  "new_response sid rid origin seq now =
     \<lparr>r_session_id = sid, r_response_id = rid, r_seq = seq, r_origin = origin, r_status = Running,
      r_outcome = None, r_native_reason = None, r_usage = None, r_error = None,
      r_import_record = None, r_started_at = now, r_ended_at = None, r_conversation_order = None\<rparr>"

definition add_response :: "time \<Rightarrow> string \<Rightarrow> string \<Rightarrow> origin \<Rightarrow> db \<Rightarrow> db" where
  "add_response now sid rid origin db =
     (if exists_row (of_response sid rid) (t_responses db) then db
      else db\<lparr>t_responses := t_responses db @ [new_response sid rid origin (t_next_response_seq db) now],
              t_next_response_seq := t_next_response_seq db + 1\<rparr>)"

definition link_inputs :: "string \<Rightarrow> string \<Rightarrow> string list \<Rightarrow> db \<Rightarrow> db res" where
  "link_inputs sid rid iids db =
     (if iids = [] then Inr db
      else if \<not> list_all (\<lambda>iid. exists_row (\<lambda>i. i_input_id i = iid) (t_inputs db)) iids
      then Inl ForeignKeyViolation
      else Inr (db\<lparr>t_response_inputs :=
                     fold (\<lambda>iid. insert_absent response_input_key
                       \<lparr>ri_session_id = sid, ri_response_id = rid, ri_input_id = iid\<rparr>) iids
                       (t_response_inputs db),
                   t_inputs := update_where (\<lambda>i. i_session_id i = sid \<and> i_input_id i \<in> set iids)
                     (\<lambda>i. i\<lparr>i_response_id := Some rid\<rparr>) (t_inputs db)\<rparr>))"

definition position_message :: "string \<Rightarrow> message_kind \<Rightarrow> string \<Rightarrow> int \<Rightarrow> db \<Rightarrow> db" where
  "position_message sid kind mid seq db =
     (case kind of
        MInput \<Rightarrow> db\<lparr>t_inputs := update_where
            (\<lambda>i. i_session_id i = sid \<and> i_input_id i = mid \<and> i_conversation_order i = None)
            (\<lambda>i. i\<lparr>i_conversation_order := Some (seq * 2)\<rparr>) (t_inputs db)\<rparr>
      | MResponse \<Rightarrow> db\<lparr>t_responses := update_where
            (\<lambda>r. of_response sid mid r \<and> r_conversation_order r = None)
            (\<lambda>r. r\<lparr>r_conversation_order := Some (seq * 2)\<rparr>) (t_responses db)\<rparr>)"

definition end_response :: "time \<Rightarrow> string \<Rightarrow> string \<Rightarrow> outcome \<Rightarrow> string option \<Rightarrow> json option \<Rightarrow>
    json option \<Rightarrow> db \<Rightarrow> db" where
  "end_response now sid rid oc reason usage err db =
     db\<lparr>t_responses := update_where (\<lambda>r. of_response sid rid r \<and> r_status r \<noteq> Ended)
          (\<lambda>r. r\<lparr>r_status := Ended, r_outcome := Some oc, r_native_reason := reason,
                r_usage := usage, r_error := err, r_ended_at := Some now\<rparr>) (t_responses db),
        t_interactions := update_where
          (\<lambda>x. x_session_id x = sid \<and> x_response_id x = rid \<and> x_status x = IOpen)
          (\<lambda>x. x\<lparr>x_status := IWithdrawn, x_closed_at := Some now\<rparr>) (t_interactions db)\<rparr>"

definition new_interaction :: "string \<Rightarrow> string \<Rightarrow> string \<Rightarrow> obj \<Rightarrow> time \<Rightarrow> interaction_row" where
  "new_interaction sid xid rid contract now =
     \<lparr>x_session_id = sid, x_interaction_id = xid, x_response_id = rid, x_contract = contract,
      x_status = IOpen, x_answer = None, x_answered_by = None, x_answered_at = None,
      x_opened_at = now, x_closed_at = None\<rparr>"

definition open_interaction :: "time \<Rightarrow> string \<Rightarrow> string \<Rightarrow> string \<Rightarrow> obj \<Rightarrow> db \<Rightarrow> db" where
  "open_interaction now sid rid xid contract db =
     db\<lparr>t_interactions := insert_absent interaction_key (new_interaction sid xid rid contract now)
          (t_interactions db),
        t_responses := update_where (\<lambda>r. of_response sid rid r \<and> r_status r = Running)
          (\<lambda>r. r\<lparr>r_status := Waiting\<rparr>) (t_responses db)\<rparr>"

definition resume_response :: "string \<Rightarrow> string \<Rightarrow> db \<Rightarrow> db" where
  "resume_response sid rid db =
     db\<lparr>t_responses := update_where
          (\<lambda>r. of_response sid rid r \<and> r_status r = Waiting \<and>
               \<not> exists_row (\<lambda>x. x_session_id x = sid \<and> x_response_id x = rid \<and> x_status x = IOpen)
                   (t_interactions db))
          (\<lambda>r. r\<lparr>r_status := Running\<rparr>) (t_responses db)\<rparr>"

definition close_interaction :: "time \<Rightarrow> string \<Rightarrow> string \<Rightarrow> interaction_status \<Rightarrow> db \<Rightarrow> db" where
  "close_interaction now sid xid status db =
     (case first_row (\<lambda>x. of_interaction sid xid x \<and> x_status x = IOpen) (t_interactions db) of
        None \<Rightarrow> db
      | Some closed \<Rightarrow>
          resume_response sid (x_response_id closed)
            (db\<lparr>t_interactions := update_where (\<lambda>x. of_interaction sid xid x \<and> x_status x = IOpen)
                 (\<lambda>x. x\<lparr>x_status := status, x_closed_at := Some now\<rparr>) (t_interactions db)\<rparr>))"

definition held_input :: "string \<Rightarrow> string list \<Rightarrow> input_row \<Rightarrow> bool" where
  "held_input sid iids i \<longleftrightarrow>
     i_session_id i = sid \<and> i_input_id i \<in> set iids \<and> open_input_state (i_state i)"

definition admit_inputs :: "time \<Rightarrow> string \<Rightarrow> string list \<Rightarrow> db \<Rightarrow> db" where
  "admit_inputs now sid iids db =
     (if iids = [] then db
      else db\<lparr>t_inputs := update_where (held_input sid iids)
             (\<lambda>i. i\<lparr>i_state := Admitted, i_admitted_at := Some now\<rparr>) (t_inputs db)\<rparr>)"

definition fail_inputs :: "string \<Rightarrow> string list \<Rightarrow> json \<Rightarrow> db \<Rightarrow> db" where
  "fail_inputs sid iids failure db =
     (if iids = [] then db
      else db\<lparr>t_inputs := update_where (held_input sid iids)
             (\<lambda>i. i\<lparr>i_state := Failed, i_failure := Some failure\<rparr>) (t_inputs db)\<rparr>)"

fun apply_fact :: "time \<Rightarrow> string \<Rightarrow> fact \<Rightarrow> db \<Rightarrow> db res" where
  "apply_fact now sid (ResponseStart rid origin iids) db =
     link_inputs sid rid iids (add_response now sid rid origin db)"
| "apply_fact now sid (MessagePosition kind mid seq) db = Inr (position_message sid kind mid seq db)"
| "apply_fact now sid (ResponseEnd rid oc reason usage err) db =
     Inr (end_response now sid rid oc reason usage err db)"
| "apply_fact now sid (InteractionOpen rid xid contract) db =
     Inr (open_interaction now sid rid xid contract db)"
| "apply_fact now sid (InteractionClose xid status seq) db = Inr (close_interaction now sid xid status db)"
| "apply_fact now sid (InputsAdmitted iids) db = Inr (admit_inputs now sid iids db)"
| "apply_fact now sid (InputsFailed iids failure) db = Inr (fail_inputs sid iids failure db)"

section \<open>Display positions\<close>

text \<open>
  \<^verbatim>\<open>_index_recorded_messages\<close>: messages stored before their position column existed get it from
  the output log. A recorded marker wins over a consumption receipt, which wins over the
  start of the response that answers the input.
\<close>

definition part_type :: "output_row \<Rightarrow> string option" where
  "part_type o' = as_string (get (o_part o') ''type'')"

definition structural_types :: "string list" where
  "structural_types = [''start'', ''message-metadata'', ''data-input-consumed'']"

definition native_content :: "output_row \<Rightarrow> bool" where
  "native_content o' \<longleftrightarrow>
     (case part_type o' of None \<Rightarrow> False | Some t \<Rightarrow> t \<notin> set structural_types) \<and>
     get (o_part o') ''transient'' \<noteq> JBool True"

definition is_order_marker :: "string \<Rightarrow> output_row \<Rightarrow> bool" where
  "is_order_marker sid o' \<longleftrightarrow>
     o_session_id o' = sid \<and> o_response_id o' = None \<and> part_type o' = Some ''data-message-order''"

definition marker_field :: "output_row \<Rightarrow> string \<Rightarrow> string option" where
  "marker_field o' k = as_string (jfield (get (o_part o') ''data'') k)"

definition of_response_output :: "string \<Rightarrow> string \<Rightarrow> output_row \<Rightarrow> bool" where
  "of_response_output sid rid o' \<longleftrightarrow> o_session_id o' = sid \<and> o_response_id o' = Some rid"

definition input_indexable :: "string \<Rightarrow> db \<Rightarrow> input_row \<Rightarrow> bool" where
  "input_indexable sid db i \<longleftrightarrow>
     i_session_id i = sid \<and> i_conversation_order i = None \<and>
     (i_source i = Some IMPORTED_SOURCE \<or>
      exists_row (\<lambda>o'. is_order_marker sid o' \<and> marker_field o' ''kind'' = Some ''input'' \<and>
        marker_field o' ''id'' = Some (i_input_id i)) (t_output db) \<or>
      (case i_response_id i of None \<Rightarrow> False
       | Some rid \<Rightarrow> exists_row (of_response_output sid rid) (t_output db)))"

definition response_indexable :: "string \<Rightarrow> db \<Rightarrow> response_row \<Rightarrow> bool" where
  "response_indexable sid db r \<longleftrightarrow>
     r_session_id r = sid \<and> r_conversation_order r = None \<and>
     (r_origin r = OriginImport \<or>
      exists_row (\<lambda>o'. of_response_output sid (r_response_id r) o' \<and> native_content o') (t_output db))"

fun min_of :: "int list \<Rightarrow> int option" where
  "min_of [] = None"
| "min_of (x # xs) = Some (fold min xs x)"

definition min_position :: "(output_row \<Rightarrow> bool) \<Rightarrow> db \<Rightarrow> int option" where
  "min_position p db = map_option (\<lambda>n. n * 2) (min_of (map o_seq (filter p (t_output db))))"

definition boundary_position :: "string \<Rightarrow> db \<Rightarrow> string \<Rightarrow> int option" where
  "boundary_position sid db rid = min_position (of_response_output sid rid) db"

definition body_position :: "string \<Rightarrow> db \<Rightarrow> string \<Rightarrow> int option" where
  "body_position sid db rid = min_position (\<lambda>o'. of_response_output sid rid o' \<and> native_content o') db"

definition consumed_position :: "string \<Rightarrow> db \<Rightarrow> string \<Rightarrow> int option" where
  "consumed_position sid db iid =
     min_position (\<lambda>o'. o_session_id o' = sid \<and> part_type o' = Some ''data-input-consumed'' \<and>
                        marker_field o' ''inputId'' = Some iid) db"

definition anchor_position :: "string \<Rightarrow> db \<Rightarrow> string \<Rightarrow> int option" where
  "anchor_position sid db iid =
     min_of (List.map_filter
       (\<lambda>l. if ri_session_id l = sid \<and> ri_input_id l = iid
            then map_option (\<lambda>b. b - 1) (boundary_position sid db (ri_response_id l)) else None)
       (t_response_inputs db))"

type_synonym observed = "(message_kind \<times> string, int) dict"

fun marker_lane :: "json \<Rightarrow> message_kind res" where
  "marker_lane k =
     (if k = JStr ''input'' then Inr MInput
      else if k = JStr ''response'' then Inr MResponse
      else if hashable k then Inl KeyError else Inl TypeError)"

definition observe_marker :: "obj \<Rightarrow> observed \<Rightarrow> observed res" where
  "observe_marker marker obs =
     rbind (index_key marker ''data'') (\<lambda>data.
     rbind (index_json data ''kind'') (\<lambda>kind.
     rbind (marker_lane kind) (\<lambda>lane.
     rbind (index_json data ''id'') (\<lambda>identity.
     rbind (index_json data ''order'') (\<lambda>order.
     rbind (py_int order) (\<lambda>position.
     let key = (lane, py_str identity) in
     Inr (dict_set key (min (coalesce (map_of obs key) position) position) obs)))))))"

definition orelse :: "'a option \<Rightarrow> 'a option \<Rightarrow> 'a option" where
  "orelse a b = (case a of None \<Rightarrow> b | Some x \<Rightarrow> Some x)"

definition input_position :: "string \<Rightarrow> db \<Rightarrow> observed \<Rightarrow> string \<Rightarrow> int option" where
  "input_position sid db obs iid =
     orelse (map_of obs (MInput, iid)) (orelse (consumed_position sid db iid) (anchor_position sid db iid))"

definition response_position :: "string \<Rightarrow> db \<Rightarrow> observed \<Rightarrow> string \<Rightarrow> int option" where
  "response_position sid db obs rid = orelse (map_of obs (MResponse, rid)) (body_position sid db rid)"

definition recorded_position :: "obj option \<Rightarrow> int option \<Rightarrow> int option res" where
  "recorded_position import_record position =
     (case import_record of
        None \<Rightarrow> Inr position
      | Some record \<Rightarrow> rbind (index_key record ''position'') (\<lambda>v. rbind (py_int v) (\<lambda>n. Inr (Some n))))"

definition fill_input :: "string \<Rightarrow> db \<Rightarrow> observed \<Rightarrow> input_row \<Rightarrow> input_row res" where
  "fill_input sid db obs i =
     (if i_session_id i \<noteq> sid \<or> i_conversation_order i \<noteq> None then Inr i
      else rbind (recorded_position (i_import_record i) (input_position sid db obs (i_input_id i)))
             (\<lambda>position. Inr (i\<lparr>i_conversation_order := position\<rparr>)))"

definition fill_response :: "string \<Rightarrow> db \<Rightarrow> observed \<Rightarrow> response_row \<Rightarrow> response_row res" where
  "fill_response sid db obs r =
     (if r_session_id r \<noteq> sid \<or> r_conversation_order r \<noteq> None then Inr r
      else rbind (recorded_position (r_import_record r) (response_position sid db obs (r_response_id r)))
             (\<lambda>position. Inr (r\<lparr>r_conversation_order := position\<rparr>)))"

definition observed_markers :: "string \<Rightarrow> db \<Rightarrow> observed res" where
  "observed_markers sid db =
     rfold observe_marker (map o_part (order_by o_seq (filter (is_order_marker sid) (t_output db)))) []"

definition index_recorded_messages :: "string \<Rightarrow> db \<Rightarrow> db res" where
  "index_recorded_messages sid db =
     (if \<not> exists_row (input_indexable sid db) (t_inputs db) \<and>
         \<not> exists_row (response_indexable sid db) (t_responses db) then Inr db
      else
        rbind (observed_markers sid db) (\<lambda>obs.
        rbind (rmap (fill_input sid db obs) (t_inputs db)) (\<lambda>inputs.
        rbind (rmap (fill_response sid db obs) (t_responses db)) (\<lambda>responses.
        Inr (db\<lparr>t_inputs := inputs, t_responses := responses\<rparr>)))))"

section \<open>Committing a batch\<close>

type_synonym numbered = "(int, output_part) dict"

fun interaction_status_name :: "interaction_status \<Rightarrow> string" where
  "interaction_status_name IOpen = ''open''"
| "interaction_status_name IAnswered = ''answered''"
| "interaction_status_name IWithdrawn = ''withdrawn''"
| "interaction_status_name IExpired = ''expired''"

fun message_kind_name :: "message_kind \<Rightarrow> string" where
  "message_kind_name MInput = ''input''"
| "message_kind_name MResponse = ''response''"

definition conversation_order :: "string \<Rightarrow> message_kind \<Rightarrow> string \<Rightarrow> db \<Rightarrow> int option res" where
  "conversation_order sid kind mid db =
     (case kind of
        MInput \<Rightarrow>
          (case first_row (\<lambda>i. i_session_id i = sid \<and> i_input_id i = mid) (t_inputs db) of
             None \<Rightarrow> Inl NoResultFound | Some i \<Rightarrow> Inr (i_conversation_order i))
      | MResponse \<Rightarrow>
          (case first_row (of_response sid mid) (t_responses db) of
             None \<Rightarrow> Inl NoResultFound | Some r \<Rightarrow> Inr (r_conversation_order r)))"

definition opt_json :: "('a \<Rightarrow> json) \<Rightarrow> 'a option \<Rightarrow> json" where
  "opt_json f x = (case x of None \<Rightarrow> JNull | Some v \<Rightarrow> f v)"

definition order_part :: "message_kind \<Rightarrow> string \<Rightarrow> int option \<Rightarrow> int \<Rightarrow> output_part" where
  "order_part kind mid order seq =
     \<lparr>p_seq = seq, p_response_id = None,
      p_part = [(''type'', JStr ''data-message-order''), (''transient'', JBool True),
                (''data'', JObj [(''kind'', JStr (message_kind_name kind)), (''id'', JStr mid),
                                 (''order'', opt_json JInt order)])]\<rparr>"

definition settled_contract :: "interaction_row \<Rightarrow> obj" where
  "settled_contract x =
     dict_update (x_contract x)
       [(''status'', JStr (interaction_status_name (x_status x))),
        (''answer'', opt_json JObj (x_answer x))]"

definition interaction_part :: "interaction_row \<Rightarrow> string \<Rightarrow> int \<Rightarrow> output_part res" where
  "interaction_part x xid seq =
     rbind (public_interaction_view (JObj (settled_contract x)) True) (\<lambda>data.
       Inr \<lparr>p_seq = seq, p_response_id = Some (x_response_id x),
            p_part = [(''type'', JStr ''data-interaction''), (''id'', JStr xid),
                      (''data'', opt_json JObj data)]\<rparr>)"

fun render_fact :: "string \<Rightarrow> db \<Rightarrow> fact \<Rightarrow> numbered \<Rightarrow> numbered res" where
  "render_fact sid db (MessagePosition kind mid seq) out =
     rbind (conversation_order sid kind mid db) (\<lambda>order.
       Inr (dict_set seq (order_part kind mid order seq) out))"
| "render_fact sid db (InteractionClose xid status (Some seq)) out =
     (case first_row (of_interaction sid xid) (t_interactions db) of
        None \<Rightarrow> Inl NoResultFound
      | Some x \<Rightarrow> rbind (interaction_part x xid seq) (\<lambda>part. Inr (dict_set seq part out)))"
| "render_fact sid db _ out = Inr out"

definition numbered_output :: "output_part list \<Rightarrow> numbered" where
  "numbered_output parts = dict_update [] (map (\<lambda>p. (p_seq p, p)) parts)"

definition rendered_output :: "string \<Rightarrow> db \<Rightarrow> fact_batch \<Rightarrow> output_part list res" where
  "rendered_output sid db batch =
     rbind (rfold (render_fact sid db) (b_facts batch) (numbered_output (b_output batch)))
       (\<lambda>out. Inr (order_by p_seq (map snd out)))"

definition output_row_of :: "string \<Rightarrow> time \<Rightarrow> output_part \<Rightarrow> output_row" where
  "output_row_of sid now p =
     \<lparr>o_session_id = sid, o_seq = p_seq p, o_response_id = p_response_id p, o_part = p_part p,
      o_created_at = now\<rparr>"

definition insert_output :: "string \<Rightarrow> time \<Rightarrow> output_part list \<Rightarrow> db \<Rightarrow> db res" where
  "insert_output sid now parts db =
     (let rows = map (output_row_of sid now) parts in
      if distinct (map output_key (t_output db @ rows))
      then Inr (db\<lparr>t_output := t_output db @ rows\<rparr>)
      else Inl UniqueViolation)"

definition session_touched :: "fact_batch \<Rightarrow> output_part list \<Rightarrow> bool" where
  "session_touched batch out \<longleftrightarrow>
     b_protocol_error batch \<noteq> None \<or> b_cursor batch \<noteq> None \<or> b_status batch \<noteq> None \<or>
     out \<noteq> [] \<or> list_ex is_response_end (b_facts batch)"

definition set_some :: "'a option \<Rightarrow> 'a option \<Rightarrow> 'a option" where
  "set_some new old = (case new of None \<Rightarrow> old | Some v \<Rightarrow> Some v)"

definition touch_session :: "time \<Rightarrow> fact_batch \<Rightarrow> output_part list \<Rightarrow> session_row \<Rightarrow> session_row" where
  "touch_session now batch out s =
     s\<lparr>s_recovery_reason := (if b_protocol_error batch \<noteq> None then Some RUNTIME_PROTOCOL_INCOMPATIBLE
                             else s_recovery_reason s),
       s_last_error := set_some (b_protocol_error batch) (s_last_error s),
       s_reader_cursor := set_some (b_cursor batch) (s_reader_cursor s),
       s_runtime_status := set_some (b_status batch) (s_runtime_status s),
       s_runtime_status_at := (if b_status batch \<noteq> None then Some now else s_runtime_status_at s),
       s_last_output_at := (if out \<noteq> [] then Some now else s_last_output_at s),
       s_updated_at := (if list_ex is_response_end (b_facts batch) then now else s_updated_at s)\<rparr>"

definition last_seq :: "output_part list \<Rightarrow> int" where
  "last_seq out = (case map p_seq out of [] \<Rightarrow> 0 | n # ns \<Rightarrow> fold max ns n)"

definition update_session :: "string \<Rightarrow> time \<Rightarrow> fact_batch \<Rightarrow> output_part list \<Rightarrow> db \<Rightarrow> db" where
  "update_session sid now batch out db =
     (if \<not> session_touched batch out then db
      else
        let db1 = db\<lparr>t_sessions := update_where (\<lambda>s. s_session_id s = sid)
                      (touch_session now batch out) (t_sessions db)\<rparr>;
            db2 = (if (out \<noteq> [] \<or> b_facts batch \<noteq> [] \<or> b_status batch \<noteq> None) \<and>
                      0 < rowcount (\<lambda>s. s_session_id s = sid) (t_sessions db)
                   then notify sid NOutput (last_seq out) db1 else db1)
        in if b_protocol_error batch \<noteq> None then notify sid NSession 0 db2 else db2)"

definition record_work :: "reader_lease \<Rightarrow> fact_batch \<Rightarrow> time \<Rightarrow> time \<Rightarrow> db \<Rightarrow>
    (output_part list option \<times> db) res" where
  "record_work lease batch ttl now db =
     (case renew_reader lease ttl now db of (held, db1) \<Rightarrow>
        if \<not> held then Inr (None, db)
        else
          let sid = l_session_id lease in
          rbind (if list_ex is_position (b_facts batch) then index_recorded_messages sid db1
                 else Inr db1) (\<lambda>db2.
          rbind (rfold (apply_fact now sid) (b_facts batch) db2) (\<lambda>db3.
          rbind (rendered_output sid db3 batch) (\<lambda>out.
          rbind (insert_output sid now out db3) (\<lambda>db4.
          Inr (Some out, update_session sid now batch out db4))))))"

text \<open>
  The result is the batch's output as it was stored (the code writes it back into the
  batch), \<^const>\<open>None\<close> when the lease is lost.
\<close>

definition record_batch :: "reader_lease \<Rightarrow> fact_batch \<Rightarrow> time \<Rightarrow> time \<Rightarrow> db \<Rightarrow>
    output_part list option res \<times> db" where
  "record_batch lease batch ttl now db =
     (if \<not> batch_nonempty batch
      then (case renew_reader lease ttl now db of
              (held, db') \<Rightarrow> (Inr (if held then Some [] else None), db'))
      else transaction (record_work lease batch ttl now) db)"

section \<open>Reading the log\<close>

definition of_session :: "string \<Rightarrow> output_row \<Rightarrow> bool" where
  "of_session sid o' \<longleftrightarrow> o_session_id o' = sid"

definition session_log :: "string \<Rightarrow> db \<Rightarrow> output_row list" where
  "session_log sid db = filter (of_session sid) (t_output db)"

definition max_seq :: "string \<Rightarrow> db \<Rightarrow> int" where
  "max_seq sid db =
     (case map o_seq (session_log sid db) of [] \<Rightarrow> 0 | n # ns \<Rightarrow> fold max ns n)"

definition resume_point :: "string \<Rightarrow> db \<Rightarrow> int \<times> json option" where
  "resume_point sid db =
     (case first_row (\<lambda>s. s_session_id s = sid) (t_sessions db) of
        None \<Rightarrow> (0, None)
      | Some s \<Rightarrow> (max_seq sid db, s_reader_cursor s))"

definition read_output :: "string \<Rightarrow> int \<Rightarrow> nat \<Rightarrow> db \<Rightarrow> output_row list" where
  "read_output sid after limit db =
     take limit (order_by o_seq (filter (\<lambda>o'. of_session sid o' \<and> after < o_seq o') (t_output db)))"

definition output_for_responses :: "string \<Rightarrow> string list \<Rightarrow> int option \<Rightarrow> db \<Rightarrow> output_row list" where
  "output_for_responses sid rids through db =
     (if rids = [] then []
      else order_by o_seq (filter (\<lambda>o'. of_session sid o' \<and>
             (case o_response_id o' of None \<Rightarrow> False | Some rid \<Rightarrow> rid \<in> set rids) \<and>
             (case through of None \<Rightarrow> True | Some n \<Rightarrow> o_seq o' \<le> n)) (t_output db)))"

definition response_interactions :: "string \<Rightarrow> string list \<Rightarrow> db \<Rightarrow>
    (string \<times> interaction_status \<times> obj option) list" where
  "response_interactions sid rids db =
     (if rids = [] then []
      else map (\<lambda>x. (x_interaction_id x, x_status x, x_answer x))
             (filter (\<lambda>x. x_session_id x = sid \<and> x_response_id x \<in> set rids) (t_interactions db)))"

definition approval_answers :: "string \<Rightarrow> string list \<Rightarrow> db \<Rightarrow> (string \<times> obj) list" where
  "approval_answers sid rids db =
     (if rids = [] then []
      else List.map_filter (\<lambda>x. map_option (\<lambda>a. (x_interaction_id x, a)) (x_answer x))
             (filter (\<lambda>x. x_session_id x = sid \<and> x_response_id x \<in> set rids \<and>
                        (x_status x = IOpen \<or> x_status x = IAnswered)) (t_interactions db)))"

definition response_output_tail :: "string \<Rightarrow> string \<Rightarrow> nat \<Rightarrow> db \<Rightarrow> output_row list \<times> nat" where
  "response_output_tail sid rid limit db =
     (let rows = filter (of_response_output sid rid) (t_output db)
      in (rev (take limit (order_by (\<lambda>o'. - o_seq o') rows)), length rows))"

section \<open>Answers\<close>

definition awaiting_answer :: "string \<Rightarrow> string \<Rightarrow> interaction_row \<Rightarrow> bool" where
  "awaiting_answer sid xid x \<longleftrightarrow> of_interaction sid xid x \<and> x_status x = IOpen \<and> x_answer x = None"

definition request_answer :: "string \<Rightarrow> string \<Rightarrow> obj \<Rightarrow> string \<Rightarrow> time \<Rightarrow> db \<Rightarrow> bool \<times> db" where
  "request_answer sid xid answer answered_by now db =
     (if rowcount (awaiting_answer sid xid) (t_interactions db) = 0 then (False, db)
      else (True, notify sid NAnswer 0
             (db\<lparr>t_interactions := update_where (awaiting_answer sid xid)
                  (\<lambda>x. x\<lparr>x_answer := Some answer, x_answered_by := Some answered_by,
                        x_answered_at := Some now\<rparr>) (t_interactions db)\<rparr>)))"

definition pending_answers :: "string \<Rightarrow> db \<Rightarrow> interaction_row list" where
  "pending_answers sid db =
     order_by (\<lambda>x. coalesce (x_answered_at x) 0)
       (filter (\<lambda>x. x_session_id x = sid \<and> x_status x = IOpen \<and> x_answer x \<noteq> None)
          (t_interactions db))"

end
