(* ===== verification/Evolution.thy ===== *)
theory Evolution
  imports Recording
begin

text \<open>
  How the recorded conversation may change. \<open>evolves S db db'\<close> says that only sessions of \<open>S\<close>
  changed; that no input, response, interaction or output row is ever removed; that an input
  which left the platform's custody keeps its state, an ended response its ending, a closed
  interaction everything, a given answer its content, a display position its value; and that
  the output log only grows at its end. Every operation that writes those tables is shown to
  be such a step, so that the properties follow for any sequence of them.
\<close>

section \<open>Tables that only grow\<close>

definition grows :: "('r \<Rightarrow> 'r \<Rightarrow> bool) \<Rightarrow> ('r \<Rightarrow> bool) \<Rightarrow> 'r list \<Rightarrow> 'r list \<Rightarrow> bool" where
  "grows R P xs ys \<longleftrightarrow> (\<exists>as bs. ys = as @ bs \<and> list_all2 R xs as \<and> (\<forall>b \<in> set bs. P b))"

lemma growsI: "ys = as @ bs \<Longrightarrow> list_all2 R xs as \<Longrightarrow> (\<And>b. b \<in> set bs \<Longrightarrow> P b) \<Longrightarrow> grows R P xs ys"
  by (auto simp: grows_def)

lemma grows_refl: "(\<And>r. R r r) \<Longrightarrow> grows R P xs xs"
  by (rule growsI [of _ xs "[]"]) (simp_all add: list.rel_refl)

lemma grows_all2: "list_all2 R xs ys \<Longrightarrow> grows R P xs ys"
  by (rule growsI [of _ ys "[]"]) simp_all

lemma grows_append: "(\<And>r. R r r) \<Longrightarrow> (\<And>b. b \<in> set bs \<Longrightarrow> P b) \<Longrightarrow> grows R P xs (xs @ bs)"
  by (rule growsI [of _ xs bs]) (simp_all add: list.rel_refl)

lemma grows_trans:
  assumes "grows R P xs ys" and "grows R P ys zs"
    and "\<And>a b c. R a b \<Longrightarrow> R b c \<Longrightarrow> R a c" and "\<And>b c. P b \<Longrightarrow> R b c \<Longrightarrow> P c"
  shows "grows R P xs zs"
proof -
  from assms(1) obtain as bs where ys: "ys = as @ bs" "list_all2 R xs as" "\<forall>b \<in> set bs. P b"
    by (auto simp: grows_def)
  from assms(2) ys(1) obtain cs ds es where
    zs: "zs = cs @ ds @ es" "list_all2 R as cs" "list_all2 R bs ds" "\<forall>b \<in> set es. P b"
    by (auto simp: grows_def list_all2_append1)
  show ?thesis
  proof (rule growsI [of zs cs "ds @ es"])
    show "list_all2 R xs cs" using ys(2) zs(2) by (rule list_all2_trans [rotated 1]) (rule assms(3))
    fix b assume "b \<in> set (ds @ es)"
    then consider "b \<in> set ds" | "b \<in> set es" by auto
    then show "P b"
    proof cases
      case 1
      then obtain i where "i < length ds" "b = ds ! i" by (auto simp: in_set_conv_nth)
      with zs(3) have "bs ! i \<in> set bs" "R (bs ! i) b" by (auto simp: list_all2_conv_all_nth)
      with ys(3) show ?thesis using assms(4) by blast
    next
      case 2
      with zs(4) show ?thesis by blast
    qed
  qed (simp add: zs(1))
qed

lemma list_all2_update_where:
  "(\<And>r. R r r) \<Longrightarrow> (\<And>r. r \<in> set rows \<Longrightarrow> p r \<Longrightarrow> R r (f r)) \<Longrightarrow> list_all2 R rows (update_where p f rows)"
  by (induction rows) auto

lemma grows_update_where:
  "(\<And>r. R r r) \<Longrightarrow> (\<And>r. r \<in> set rows \<Longrightarrow> p r \<Longrightarrow> R r (f r)) \<Longrightarrow> grows R P rows (update_where p f rows)"
  by (intro grows_all2 list_all2_update_where)

lemma grows_rmap:
  "rmap f rows = Inr rows' \<Longrightarrow> (\<And>r r'. f r = Inr r' \<Longrightarrow> R r r') \<Longrightarrow> grows R P rows rows'"
  by (intro grows_all2) (auto simp: rmap_Inr_iff elim: list_all2_mono)

lemma grows_mem:
  assumes "grows R P xs ys" and "x \<in> set xs"
  obtains y where "y \<in> set ys" "R x y"
  using assms unfolding grows_def by (metis list_all2_conv_all_nth in_set_conv_nth Un_iff set_append)

lemma grows_new:
  assumes "grows R P xs ys" and "y \<in> set ys"
  obtains (old) x where "x \<in> set xs" "R x y" | (new) "P y"
  using assms unfolding grows_def by (metis list_all2_conv_all_nth in_set_conv_nth Un_iff set_append)

section \<open>What a row keeps\<close>

definition input_step :: "string set \<Rightarrow> input_row \<Rightarrow> input_row \<Rightarrow> bool" where
  "input_step S i i' \<longleftrightarrow>
     (i_session_id i \<notin> S \<longrightarrow> i' = i) \<and>
     i_session_id i' = i_session_id i \<and> i_input_id i' = i_input_id i \<and> i_seq i' = i_seq i \<and>
     i_client_message_id i' = i_client_message_id i \<and> i_content i' = i_content i \<and>
     i_content_blocks i' = i_content_blocks i \<and> i_source i' = i_source i \<and>
     (\<not> open_input_state (i_state i) \<longrightarrow> i_state i' = i_state i) \<and>
     (i_conversation_order i \<noteq> None \<longrightarrow> i_conversation_order i' = i_conversation_order i)"

definition response_step :: "string set \<Rightarrow> response_row \<Rightarrow> response_row \<Rightarrow> bool" where
  "response_step S r r' \<longleftrightarrow>
     (r_session_id r \<notin> S \<longrightarrow> r' = r) \<and>
     r_session_id r' = r_session_id r \<and> r_response_id r' = r_response_id r \<and> r_seq r' = r_seq r \<and>
     r_origin r' = r_origin r \<and>
     (r_status r = Ended \<longrightarrow> r_status r' = Ended \<and> r_outcome r' = r_outcome r \<and>
        r_native_reason r' = r_native_reason r \<and> r_usage r' = r_usage r \<and> r_error r' = r_error r \<and>
        r_ended_at r' = r_ended_at r) \<and>
     (r_conversation_order r \<noteq> None \<longrightarrow> r_conversation_order r' = r_conversation_order r)"

definition interaction_step :: "string set \<Rightarrow> interaction_row \<Rightarrow> interaction_row \<Rightarrow> bool" where
  "interaction_step S x x' \<longleftrightarrow>
     (x_session_id x \<notin> S \<longrightarrow> x' = x) \<and>
     x_session_id x' = x_session_id x \<and> x_interaction_id x' = x_interaction_id x \<and>
     x_response_id x' = x_response_id x \<and> x_contract x' = x_contract x \<and>
     (x_status x \<noteq> IOpen \<longrightarrow> x' = x) \<and>
     (x_answer x \<noteq> None \<longrightarrow> x_answer x' = x_answer x \<and> x_answered_by x' = x_answered_by x)"

lemmas row_steps = input_step_def response_step_def interaction_step_def

lemma row_steps_refl [simp]: "input_step S i i" "response_step S r r" "interaction_step S x x"
  by (simp_all add: row_steps)

lemma input_step_trans: "input_step S a b \<Longrightarrow> input_step S b c \<Longrightarrow> input_step S a c"
  by (auto simp: input_step_def)

lemma response_step_trans: "response_step S a b \<Longrightarrow> response_step S b c \<Longrightarrow> response_step S a c"
  by (auto simp: response_step_def)

lemma interaction_step_trans: "interaction_step S a b \<Longrightarrow> interaction_step S b c \<Longrightarrow> interaction_step S a c"
  by (auto simp: interaction_step_def)

section \<open>What the database keeps\<close>

definition log_extends :: "string set \<Rightarrow> output_row list \<Rightarrow> output_row list \<Rightarrow> bool" where
  "log_extends S xs ys \<longleftrightarrow> (\<exists>new. ys = xs @ new \<and> (\<forall>o' \<in> set new. o_session_id o' \<in> S))"

definition evolves :: "string set \<Rightarrow> db \<Rightarrow> db \<Rightarrow> bool" where
  "evolves S db db' \<longleftrightarrow>
     grows (input_step S) (\<lambda>i. i_session_id i \<in> S) (t_inputs db) (t_inputs db') \<and>
     grows (response_step S) (\<lambda>r. r_session_id r \<in> S) (t_responses db) (t_responses db') \<and>
     grows (interaction_step S) (\<lambda>x. x_session_id x \<in> S) (t_interactions db) (t_interactions db') \<and>
     log_extends S (t_output db) (t_output db')"

lemma log_extends_refl [simp]: "log_extends S xs xs"
  by (simp add: log_extends_def)

lemma log_extends_trans: "log_extends S xs ys \<Longrightarrow> log_extends S ys zs \<Longrightarrow> log_extends S xs zs"
  by (auto simp: log_extends_def)

lemma evolves_refl [simp]: "evolves S db db"
  by (simp add: evolves_def grows_refl)

lemma evolves_trans [trans]:
  assumes "evolves S a b" and "evolves S b c"
  shows "evolves S a c"
proof -
  have "grows (input_step S) (\<lambda>i. i_session_id i \<in> S) (t_inputs a) (t_inputs c)"
    using assms by (auto simp: evolves_def input_step_def intro: grows_trans input_step_trans)
  moreover have "grows (response_step S) (\<lambda>r. r_session_id r \<in> S) (t_responses a) (t_responses c)"
    using assms by (auto simp: evolves_def response_step_def intro: grows_trans response_step_trans)
  moreover have "grows (interaction_step S) (\<lambda>x. x_session_id x \<in> S) (t_interactions a) (t_interactions c)"
    using assms by (auto simp: evolves_def interaction_step_def intro: grows_trans interaction_step_trans)
  moreover have "log_extends S (t_output a) (t_output c)"
    using assms by (auto simp: evolves_def intro: log_extends_trans)
  ultimately show ?thesis by (simp add: evolves_def)
qed

lemma evolves_cong:
  assumes "t_inputs db' = t_inputs db" and "t_responses db' = t_responses db"
    and "t_interactions db' = t_interactions db" and "t_output db' = t_output db"
  shows "evolves S db db'"
  using assms by (simp add: evolves_def grows_refl)

lemma evolves_mono: "evolves S db db' \<Longrightarrow> S \<subseteq> T \<Longrightarrow> evolves T db db'"
  unfolding evolves_def grows_def log_extends_def row_steps
  by (elim conjE exE, intro conjI exI) (auto elim: list_all2_mono)

lemma evolves_inputs:
  assumes "grows (input_step S) (\<lambda>i. i_session_id i \<in> S) (t_inputs db) (t_inputs db')"
    and "t_responses db' = t_responses db" and "t_interactions db' = t_interactions db"
    and "t_output db' = t_output db"
  shows "evolves S db db'"
  using assms by (simp add: evolves_def grows_refl)

lemma evolves_responses:
  assumes "grows (response_step S) (\<lambda>r. r_session_id r \<in> S) (t_responses db) (t_responses db')"
    and "t_inputs db' = t_inputs db" and "t_interactions db' = t_interactions db"
    and "t_output db' = t_output db"
  shows "evolves S db db'"
  using assms by (simp add: evolves_def grows_refl)

text \<open>Sessions outside \<open>S\<close> keep their rows.\<close>

lemma grows_filter:
  assumes "grows R P xs ys" and "\<And>x y. R x y \<Longrightarrow> key y = key x \<and> (key x = k \<longrightarrow> y = x)"
    and "\<And>y. P y \<Longrightarrow> key y \<noteq> k"
  shows "filter (\<lambda>r. key r = k) ys = filter (\<lambda>r. key r = k) xs"
proof -
  have same: "filter (\<lambda>r. key r = k) as = filter (\<lambda>r. key r = k) xs" if "list_all2 R xs as" for as
    using that by (induction rule: list_all2_induct) (use assms(2) in auto)
  from assms(1) obtain as bs where "ys = as @ bs" "list_all2 R xs as" "\<forall>b \<in> set bs. P b"
    by (auto simp: grows_def)
  with same [of as] assms(3) show ?thesis by (auto simp: filter_empty_conv)
qed

lemma evolves_other:
  assumes "evolves S db db'" and "sid \<notin> S"
  shows "session_log sid db' = session_log sid db"
    and "filter (\<lambda>i. i_session_id i = sid) (t_inputs db') = filter (\<lambda>i. i_session_id i = sid) (t_inputs db)"
    and "filter (\<lambda>r. r_session_id r = sid) (t_responses db') = filter (\<lambda>r. r_session_id r = sid) (t_responses db)"
    and "filter (\<lambda>x. x_session_id x = sid) (t_interactions db') = filter (\<lambda>x. x_session_id x = sid) (t_interactions db)"
proof -
  show "session_log sid db' = session_log sid db"
    using assms by (auto simp: evolves_def log_extends_def session_log_def of_session_def filter_empty_conv)
qed (use assms in \<open>auto simp: evolves_def row_steps intro!: grows_filter\<close>)

section \<open>Custody operations\<close>

lemma evolves_accepted: "row = new_input sid iid cmid content blocks author source seq now \<Longrightarrow>
    evolves {sid} db (accepted_db sid row bound now db)"
  by (rule evolves_inputs) (auto simp: accepted_db_def notify_def new_input_def intro!: grows_append)

lemma evolves_accept_input:
  "evolves {sid} db (snd (accept_input sid iid cmid content blocks owner author source atts att_owner
     now utcnow db))"
  by (auto simp: accept_input_def accept_work_def transaction_def rbind_def Let_def
      intro: evolves_accepted split: sum.splits option.splits)

lemma evolves_mark_delivered: "evolves UNIV db (mark_delivered ids now db)"
  by (rule evolves_inputs) (auto simp: mark_delivered_def input_step_def intro!: grows_update_where grows_refl)

lemma evolves_mark_failed: "evolves UNIV db (mark_failed iid failure db)"
  by (rule evolves_inputs) (auto simp: mark_failed_def input_step_def intro!: grows_update_where)

lemma evolves_reclaim: "evolves {sid} db (snd (reclaim_unadmitted sid db))"
  by (rule evolves_inputs)
     (auto simp: reclaim_unadmitted_def Let_def input_step_def intro!: grows_update_where)

lemma evolves_request_answer: "evolves {sid} db (snd (request_answer sid xid answer by now db))"
  by (auto simp: request_answer_def notify_def evolves_def awaiting_answer_def of_interaction_def
      interaction_step_def intro!: grows_update_where grows_refl)

section \<open>Recording operations\<close>

lemma evolves_add_response: "evolves {sid} db (add_response now sid rid origin db)"
  by (rule evolves_responses) (auto simp: add_response_def new_response_def intro!: grows_append grows_refl)

lemma evolves_link_inputs: "link_inputs sid rid iids db = Inr db' \<Longrightarrow> evolves {sid} db db'"
  by (rule evolves_inputs)
     (auto simp: link_inputs_def input_step_def intro!: grows_update_where grows_refl split: if_splits)

lemma evolves_position_message: "evolves {sid} db (position_message sid kind mid seq db)"
  by (cases kind)
     (auto simp: position_message_def evolves_def row_steps of_response_def
       intro!: grows_update_where grows_refl)

lemma evolves_end_response: "evolves {sid} db (end_response now sid rid oc reason usage err db)"
  by (auto simp: end_response_def evolves_def row_steps of_response_def
      intro!: grows_update_where grows_refl)

lemma grows_insert_absent: "(\<And>r. R r r) \<Longrightarrow> P row \<Longrightarrow> grows R P rows (insert_absent key row rows)"
  by (auto simp: insert_absent_def intro: grows_append grows_refl)

lemma evolves_open_interaction: "evolves {sid} db (open_interaction now sid rid xid contract db)"
  by (auto simp: open_interaction_def evolves_def row_steps of_response_def new_interaction_def
      intro!: grows_update_where grows_refl grows_insert_absent)

lemma evolves_close_interaction: "evolves {sid} db (close_interaction now sid xid status db)"
  by (auto simp: close_interaction_def resume_response_def evolves_def row_steps of_response_def
      of_interaction_def intro!: grows_update_where grows_refl split: option.splits)

lemma evolves_admit_inputs: "evolves {sid} db (admit_inputs now sid iids db)"
  by (rule evolves_inputs)
     (auto simp: admit_inputs_def held_input_def input_step_def intro!: grows_update_where grows_refl)

lemma evolves_fail_inputs: "evolves {sid} db (fail_inputs sid iids failure db)"
  by (rule evolves_inputs)
     (auto simp: fail_inputs_def held_input_def input_step_def intro!: grows_update_where grows_refl)

lemma evolves_apply_fact: "apply_fact now sid f db = Inr db' \<Longrightarrow> evolves {sid} db db'"
  by (cases f)
     (auto simp: evolves_position_message evolves_end_response evolves_open_interaction
       evolves_close_interaction evolves_admit_inputs evolves_fail_inputs
       intro: evolves_trans [OF evolves_add_response evolves_link_inputs])

lemma evolves_apply_facts: "rfold (apply_fact now sid) fs db = Inr db' \<Longrightarrow> evolves {sid} db db'"
  by (rule rfold_invariant [where P = "evolves {sid} db"])
     (auto intro: evolves_trans evolves_apply_fact)

lemma evolves_index: "index_recorded_messages sid db = Inr db' \<Longrightarrow> evolves {sid} db db'"
  by (auto simp: index_recorded_messages_def evolves_def rbind_Inr_iff fill_input_def fill_response_def
      row_steps intro!: grows_refl elim!: grows_rmap split: if_splits)

lemma evolves_insert_output: "insert_output sid now parts db = Inr db' \<Longrightarrow> evolves {sid} db db'"
  by (auto simp: insert_output_def Let_def evolves_def grows_refl log_extends_def output_row_of_def
      split: if_splits)

lemma update_session_simps [simp]:
  "t_inputs (update_session sid now batch out db) = t_inputs db"
  "t_responses (update_session sid now batch out db) = t_responses db"
  "t_interactions (update_session sid now batch out db) = t_interactions db"
  "t_output (update_session sid now batch out db) = t_output db"
  "t_readers (update_session sid now batch out db) = t_readers db"
  "t_response_inputs (update_session sid now batch out db) = t_response_inputs db"
  "t_next_input_seq (update_session sid now batch out db) = t_next_input_seq db"
  "t_next_response_seq (update_session sid now batch out db) = t_next_response_seq db"
  by (simp_all add: update_session_def Let_def notify_def)

lemma renew_reader_simps [simp]:
  "t_inputs (snd (renew_reader lease ttl now db)) = t_inputs db"
  "t_responses (snd (renew_reader lease ttl now db)) = t_responses db"
  "t_interactions (snd (renew_reader lease ttl now db)) = t_interactions db"
  "t_output (snd (renew_reader lease ttl now db)) = t_output db"
  "t_sessions (snd (renew_reader lease ttl now db)) = t_sessions db"
  "t_response_inputs (snd (renew_reader lease ttl now db)) = t_response_inputs db"
  by (simp_all add: renew_reader_def)

text \<open>The stages of a commit.\<close>

lemma record_work_Some:
  assumes "record_work lease batch ttl now db = Inr (Some out, db')"
  obtains db2 db3 db4 where
    "holds_lease db lease"
    "(if list_ex is_position (b_facts batch)
      then index_recorded_messages (l_session_id lease) (snd (renew_reader lease ttl now db))
      else Inr (snd (renew_reader lease ttl now db))) = Inr db2"
    "rfold (apply_fact now (l_session_id lease)) (b_facts batch) db2 = Inr db3"
    "rendered_output (l_session_id lease) db3 batch = Inr out"
    "insert_output (l_session_id lease) now out db3 = Inr db4"
    "db' = update_session (l_session_id lease) now batch out db4"
proof -
  obtain held db1 where r: "renew_reader lease ttl now db = (held, db1)" by (cases "renew_reader lease ttl now db")
  with assms have "held" by (auto simp: record_work_def split: if_splits)
  then have "holds_lease db lease" using renew_reader_iff [of lease ttl now db] r by simp
  with assms r that show thesis
    by (auto simp: record_work_def rbind_Inr_iff Let_def split: if_splits)
qed

lemma evolves_record_work:
  assumes "record_work lease batch ttl now db = Inr (res, db')"
  shows "evolves {l_session_id lease} db db'"
proof (cases res)
  case None
  with assms show ?thesis
    by (auto simp: record_work_def rbind_Inr_iff Let_def split: if_splits prod.splits)
next
  case (Some out)
  let ?sid = "l_session_id lease"
  from assms [unfolded Some] obtain db2 db3 db4 where
    index: "(if list_ex is_position (b_facts batch)
      then index_recorded_messages ?sid (snd (renew_reader lease ttl now db))
      else Inr (snd (renew_reader lease ttl now db))) = Inr db2"
    and facts: "rfold (apply_fact now ?sid) (b_facts batch) db2 = Inr db3"
    and ins: "insert_output ?sid now out db3 = Inr db4"
    and db': "db' = update_session ?sid now batch out db4"
    by (rule record_work_Some)
  have "evolves {?sid} db (snd (renew_reader lease ttl now db))" by (rule evolves_cong) simp_all
  also have "evolves {?sid} (snd (renew_reader lease ttl now db)) db2"
    using index by (auto intro: evolves_index split: if_splits)
  also have "evolves {?sid} db2 db3" using facts by (rule evolves_apply_facts)
  also have "evolves {?sid} db3 db4" using ins by (rule evolves_insert_output)
  also have "evolves {?sid} db4 db'" by (rule evolves_cong) (simp_all add: db')
  finally show ?thesis .
qed

lemma evolves_renew: "evolves S db (snd (renew_reader lease ttl now db))"
  by (rule evolves_cong) simp_all

lemma evolves_record: "evolves {l_session_id lease} db (snd (record_batch lease batch ttl now db))"
  using evolves_renew [of "{l_session_id lease}" db lease ttl now]
  by (auto simp: record_batch_def transaction_def intro: evolves_record_work
      split: sum.splits prod.splits)

end
