(* ===== verification/Commit.thy ===== *)
theory Commit
  imports Evolution
begin

text \<open>
  Laws of a commit. A batch is committed under the lease or not at all; it keeps the keys and
  the lease generations; what it stores is numbered by the seqs the reader gave its parts and
  reserved for its facts; and a log numbered from 1 without gaps stays so.
\<close>

section \<open>Frames\<close>

lemma apply_fact_frame:
  assumes "apply_fact now sid f db = Inr db'"
  shows "t_readers db' = t_readers db \<and> t_sessions db' = t_sessions db \<and> t_output db' = t_output db"
  using assms
  by (cases f)
     (auto simp: link_inputs_def add_response_def position_message_def end_response_def
       open_interaction_def close_interaction_def resume_response_def admit_inputs_def fail_inputs_def
       split: if_splits message_kind.splits option.splits)

lemma apply_facts_frame:
  assumes "rfold (apply_fact now sid) fs db = Inr db'"
  shows "t_readers db' = t_readers db" and "t_sessions db' = t_sessions db" and "t_output db' = t_output db"
  using rfold_frame [OF assms, where g = t_readers] rfold_frame [OF assms, where g = t_sessions]
    rfold_frame [OF assms, where g = t_output]
  by (auto dest: apply_fact_frame)

lemma index_frame:
  assumes "index_recorded_messages sid db = Inr db'"
  shows "t_readers db' = t_readers db" and "t_sessions db' = t_sessions db" and "t_output db' = t_output db"
    and "t_interactions db' = t_interactions db"
  using assms by (auto simp: index_recorded_messages_def rbind_Inr_iff split: if_splits)

section \<open>Keys\<close>

lemma keys_ok_add_response: "keys_ok db \<Longrightarrow> keys_ok (add_response now sid rid origin db)"
  by (auto simp: add_response_def keys_ok_def new_response_def key_defs exists_row_iff of_response_def
      sorted_wrt_append image_iff)

lemma keys_ok_link_inputs:
  assumes "keys_ok db" and "link_inputs sid rid iids db = Inr db'"
  shows "keys_ok db'"
proof -
  have "distinct (map response_input_key
      (fold (\<lambda>iid. insert_absent response_input_key
         \<lparr>ri_session_id = sid, ri_response_id = rid, ri_input_id = iid\<rparr>) iids rows))"
    if "distinct (map response_input_key rows)" for rows
    using that by (induction iids arbitrary: rows) (simp_all add: distinct_map_insert_absent)
  then show ?thesis
    using assms keys_ok_update_inputs [of db "\<lambda>i. i\<lparr>i_response_id := Some rid\<rparr>"
        "\<lambda>i. i_session_id i = sid \<and> i_input_id i \<in> set iids"]
    by (auto simp: link_inputs_def keys_ok_def key_defs split: if_splits)
qed

lemma keys_ok_position: "keys_ok db \<Longrightarrow> keys_ok (position_message sid kind mid seq db)"
  by (cases kind)
     (auto simp: position_message_def key_defs intro!: keys_ok_update_inputs keys_ok_update_responses)

lemma keys_ok_end_response: "keys_ok db \<Longrightarrow> keys_ok (end_response now sid rid oc reason usage err db)"
  by (auto simp: end_response_def keys_ok_def key_defs map_update_where set_update_where)

lemma keys_ok_open_interaction: "keys_ok db \<Longrightarrow> keys_ok (open_interaction now sid rid xid contract db)"
  by (auto simp: open_interaction_def keys_ok_def response_key_def map_update_where set_update_where
      distinct_map_insert_absent)

lemma keys_ok_close_interaction: "keys_ok db \<Longrightarrow> keys_ok (close_interaction now sid xid status db)"
  by (auto simp: close_interaction_def resume_response_def keys_ok_def key_defs map_update_where
      set_update_where split: option.splits)

lemma keys_ok_admit: "keys_ok db \<Longrightarrow> keys_ok (admit_inputs now sid iids db)"
  by (auto simp: admit_inputs_def key_defs intro!: keys_ok_update_inputs)

lemma keys_ok_fail: "keys_ok db \<Longrightarrow> keys_ok (fail_inputs sid iids failure db)"
  by (auto simp: fail_inputs_def key_defs intro!: keys_ok_update_inputs)

lemma keys_ok_apply_fact: "apply_fact now sid f db = Inr db' \<Longrightarrow> keys_ok db \<Longrightarrow> keys_ok db'"
  by (cases f)
     (auto intro: keys_ok_link_inputs keys_ok_add_response keys_ok_position keys_ok_end_response
       keys_ok_open_interaction keys_ok_close_interaction keys_ok_admit keys_ok_fail)

lemma rmap_map_eq:
  "rmap f xs = Inr ys \<Longrightarrow> (\<And>x y. f x = Inr y \<Longrightarrow> key y = key x) \<Longrightarrow> map key ys = map key xs"
  by (induction xs arbitrary: ys) (auto simp: rbind_Inr_iff)

lemma keys_ok_same_keys:
  assumes "keys_ok db"
    and "map i_input_id is = map i_input_id (t_inputs db)" and "map input_key is = map input_key (t_inputs db)"
    and "map i_seq is = map i_seq (t_inputs db)"
    and "map response_key rs = map response_key (t_responses db)" and "map r_seq rs = map r_seq (t_responses db)"
  shows "keys_ok (db\<lparr>t_inputs := is, t_responses := rs\<rparr>)"
proof -
  have "\<forall>i \<in> set is. i_seq i < t_next_input_seq db"
    using assms(1) arg_cong [OF assms(4), of set] by (force simp: keys_ok_def)
  moreover have "\<forall>r \<in> set rs. r_seq r < t_next_response_seq db"
    using assms(1) arg_cong [OF assms(6), of set] by (force simp: keys_ok_def)
  ultimately show ?thesis using assms by (simp add: keys_ok_def)
qed

lemma keys_ok_index: "index_recorded_messages sid db = Inr db' \<Longrightarrow> keys_ok db \<Longrightarrow> keys_ok db'"
  by (auto simp: index_recorded_messages_def rbind_Inr_iff fill_input_def fill_response_def key_defs
      elim!: rmap_map_eq intro!: keys_ok_same_keys split: if_splits)

lemma insert_output_Inr:
  "insert_output sid now parts db = Inr db' \<longleftrightarrow>
     distinct (map output_key (t_output db @ map (output_row_of sid now) parts)) \<and>
     db' = db\<lparr>t_output := t_output db @ map (output_row_of sid now) parts\<rparr>"
  by (simp only: insert_output_def Let_def split: if_splits) auto

lemma keys_ok_insert_output: "insert_output sid now parts db = Inr db' \<Longrightarrow> keys_ok db \<Longrightarrow> keys_ok db'"
  by (simp add: insert_output_Inr keys_ok_def)

lemma touch_session_id [simp]: "s_session_id (touch_session now batch out s) = s_session_id s"
  by (simp add: touch_session_def)

lemma keys_ok_update_session: "keys_ok db \<Longrightarrow> keys_ok (update_session sid now batch out db)"
  by (simp add: update_session_def Let_def keys_ok_update_sessions)

lemma keys_ok_record_work:
  assumes "record_work lease batch ttl now db = Inr (res, db')" and ok: "keys_ok db"
  shows "keys_ok db'"
proof (cases res)
  case None
  with assms show ?thesis
    by (auto simp: record_work_def rbind_Inr_iff Let_def split: if_splits prod.splits)
next
  case (Some out)
  from assms(1) [unfolded Some] obtain db2 db3 db4 where
    index: "(if list_ex is_position (b_facts batch)
      then index_recorded_messages (l_session_id lease) (snd (renew_reader lease ttl now db))
      else Inr (snd (renew_reader lease ttl now db))) = Inr db2"
    and facts: "rfold (apply_fact now (l_session_id lease)) (b_facts batch) db2 = Inr db3"
    and ins: "insert_output (l_session_id lease) now out db3 = Inr db4"
    and db': "db' = update_session (l_session_id lease) now batch out db4"
    by (rule record_work_Some)
  have "keys_ok (snd (renew_reader lease ttl now db))" using ok by (rule keys_ok_renew_reader)
  with index have "keys_ok db2" by (auto intro: keys_ok_index split: if_splits)
  with facts have "keys_ok db3" by (rule rfold_invariant) (rule keys_ok_apply_fact)
  with ins have "keys_ok db4" by (rule keys_ok_insert_output)
  then show ?thesis by (simp add: db' keys_ok_update_session)
qed

lemma keys_ok_record: "keys_ok db \<Longrightarrow> keys_ok (snd (record_batch lease batch ttl now db))"
  using keys_ok_renew_reader [of db lease ttl now]
  by (auto simp: record_batch_def transaction_def intro: keys_ok_record_work split: sum.splits prod.splits)

section \<open>The lease and the commit\<close>

text \<open>Without the lease a batch leaves no trace.\<close>

lemma record_lost:
  assumes "\<not> holds_lease db lease"
  shows "record_batch lease batch ttl now db = (Inr None, db)"
  using renew_reader_lost [OF assms, of ttl now]
  by (auto simp: record_batch_def transaction_def record_work_def)

text \<open>The readers table after a commit: the lease row's expiry, nothing else.\<close>

lemma record_readers:
  assumes "record_work lease batch ttl now db = Inr (Some out, db')"
  shows "t_readers db' = t_readers (snd (renew_reader lease ttl now db))"
proof -
  from assms obtain db2 db3 db4 where
    index: "(if list_ex is_position (b_facts batch)
      then index_recorded_messages (l_session_id lease) (snd (renew_reader lease ttl now db))
      else Inr (snd (renew_reader lease ttl now db))) = Inr db2"
    and facts: "rfold (apply_fact now (l_session_id lease)) (b_facts batch) db2 = Inr db3"
    and ins: "insert_output (l_session_id lease) now out db3 = Inr db4"
    and db': "db' = update_session (l_session_id lease) now batch out db4"
    by (rule record_work_Some)
  have "t_readers db2 = t_readers (snd (renew_reader lease ttl now db))"
    using index by (auto dest: index_frame split: if_splits)
  with apply_facts_frame(1) [OF facts] ins show ?thesis
    by (auto simp: db' insert_output_def Let_def split: if_splits)
qed

lemma record_work_None: "record_work lease batch ttl now db = Inr (None, db') \<Longrightarrow> db' = db"
  by (auto simp: record_work_def rbind_Inr_iff Let_def split: if_splits prod.splits)

lemma record_batch_cases:
  obtains (lost) "record_batch lease batch ttl now db = (Inr None, db)"
  | (failed) e where "record_batch lease batch ttl now db = (Inl e, db)"
  | (renewed) "record_batch lease batch ttl now db = (Inr (Some []), snd (renew_reader lease ttl now db))"
  | (recorded) out db' where "record_batch lease batch ttl now db = (Inr (Some out), db')"
      "record_work lease batch ttl now db = Inr (Some out, db')"
proof (cases "holds_lease db lease")
  case False
  then show thesis using lost record_lost by blast
next
  case held: True
  show thesis
  proof (cases "batch_nonempty batch")
    case False
    then show thesis
      using renewed held renew_reader_iff [of lease ttl now db]
      by (auto simp: record_batch_def case_prod_beta)
  next
    case True
    show thesis
    proof (cases "record_work lease batch ttl now db")
      case (Inl e)
      with True failed show thesis by (simp add: record_batch_def)
    next
      case (Inr r)
      obtain res db' where r: "r = (res, db')" by (cases r)
      show thesis
      proof (cases res)
        case None
        with Inr r True lost record_work_None show thesis by (auto simp: record_batch_def)
      next
        case (Some out)
        with Inr r True recorded show thesis by (simp add: record_batch_def)
      qed
    qed
  qed
qed

lemma record_generation:
  "current_generation (snd (record_batch lease batch ttl now db)) = current_generation db"
  by (cases rule: record_batch_cases [of lease batch ttl now db])
     (simp_all add: record_readers [THEN current_generation_cong])

lemma record_kept: "keys_ok db \<Longrightarrow> leases_kept db (snd (record_batch lease batch ttl now db))"
  by (simp add: leases_kept_def keys_ok_record record_generation)

section \<open>Numbering\<close>

fun reserved :: "fact \<Rightarrow> int set" where
  "reserved (MessagePosition kind mid seq) = {seq}"
| "reserved (InteractionClose xid status (Some seq)) = {seq}"
| "reserved _ = {}"

definition batch_seqs :: "fact_batch \<Rightarrow> int set" where
  "batch_seqs batch = p_seq ` set (b_output batch) \<union> (\<Union>f \<in> set (b_facts batch). reserved f)"

definition numbered_ok :: "numbered \<Rightarrow> bool" where
  "numbered_ok d \<longleftrightarrow> distinct (map fst d) \<and> (\<forall>(k, p) \<in> set d. p_seq p = k)"

lemma numbered_ok_set: "numbered_ok d \<Longrightarrow> p_seq p = k \<Longrightarrow> numbered_ok (dict_set k p d)"
  using set_dict_set [of k p d] by (auto simp: numbered_ok_def distinct_dict_set)

lemma numbered_output_ok:
  "numbered_ok (numbered_output parts) \<and> fst ` set (numbered_output parts) = p_seq ` set parts"
proof -
  have "numbered_ok (fold (\<lambda>(k, v). dict_set k v) (map (\<lambda>p. (p_seq p, p)) parts) d) \<and>
      fst ` set (fold (\<lambda>(k, v). dict_set k v) (map (\<lambda>p. (p_seq p, p)) parts) d) = p_seq ` set parts \<union> fst ` set d"
    if "numbered_ok d" for d
    using that by (induction parts arbitrary: d) (simp_all add: numbered_ok_set keys_dict_set)
  from this [of "[]"] show ?thesis by (simp add: numbered_output_def dict_update_def numbered_ok_def)
qed

lemma order_part_seq [simp]: "p_seq (order_part kind mid order seq) = seq"
  by (simp add: order_part_def)

lemma interaction_part_seq: "interaction_part x xid seq = Inr p \<Longrightarrow> p_seq p = seq"
  by (auto simp: interaction_part_def rbind_Inr_iff)

lemma render_fact_ok:
  assumes "render_fact sid db f d = Inr d'" and "numbered_ok d"
  shows "numbered_ok d' \<and> fst ` set d' = reserved f \<union> fst ` set d"
  using assms
  by (cases "(sid, db, f, d)" rule: render_fact.cases)
     (clarsimp simp: rbind_Inr_iff numbered_ok_set keys_dict_set interaction_part_seq
       split: option.splits)+

lemma render_facts_ok:
  assumes "rfold (render_fact sid db) fs d = Inr d'" and "numbered_ok d"
  shows "numbered_ok d' \<and> fst ` set d' = (\<Union>f \<in> set fs. reserved f) \<union> fst ` set d"
  using assms
proof (induction fs arbitrary: d)
  case Nil
  then show ?case by simp
next
  case (Cons f fs)
  then obtain m where m: "render_fact sid db f d = Inr m" "rfold (render_fact sid db) fs m = Inr d'"
    by (auto simp: rbind_Inr_iff)
  from render_fact_ok [OF m(1) Cons.prems(2)] Cons.IH [OF m(2)] show ?case by auto
qed

text \<open>
  What is stored: one part per number the batch uses, in ascending order.
\<close>

lemma rendered_seqs:
  assumes "rendered_output sid db batch = Inr out"
  shows "sorted_wrt (<) (map p_seq out)" and "p_seq ` set out = batch_seqs batch"
proof -
  from assms obtain d where
    d: "rfold (render_fact sid db) (b_facts batch) (numbered_output (b_output batch)) = Inr d"
    and out: "out = order_by p_seq (map snd d)"
    by (auto simp: rendered_output_def rbind_Inr_iff)
  have ok: "numbered_ok d" and keys: "fst ` set d = batch_seqs batch"
    using render_facts_ok [OF d] numbered_output_ok [of "b_output batch"]
    by (auto simp: batch_seqs_def)
  have seqs: "map p_seq (map snd d) = map fst d" using ok by (auto simp: numbered_ok_def)
  from ok have "distinct (map p_seq (map snd d))" by (simp only: seqs numbered_ok_def)
  then have "distinct (map p_seq out)"
    by (simp only: out distinct_map_order_by)
  moreover have "sorted (map p_seq out)" by (simp add: out sorted_order_by)
  ultimately show "sorted_wrt (<) (map p_seq out)" by (simp add: strict_sorted_iff)
  have "p_seq ` set out = set (map p_seq (map snd d))" by (simp add: out image_image)
  also have "\<dots> = batch_seqs batch" by (simp only: seqs) (simp add: keys)
  finally show "p_seq ` set out = batch_seqs batch" .
qed

lemma record_output:
  assumes "record_work lease batch ttl now db = Inr (Some out, db')"
  shows "t_output db' = t_output db @ map (output_row_of (l_session_id lease) now) out"
    and "sorted_wrt (<) (map p_seq out)" and "p_seq ` set out = batch_seqs batch"
proof -
  from assms obtain db2 db3 db4 where
    index: "(if list_ex is_position (b_facts batch)
      then index_recorded_messages (l_session_id lease) (snd (renew_reader lease ttl now db))
      else Inr (snd (renew_reader lease ttl now db))) = Inr db2"
    and facts: "rfold (apply_fact now (l_session_id lease)) (b_facts batch) db2 = Inr db3"
    and out: "rendered_output (l_session_id lease) db3 batch = Inr out"
    and ins: "insert_output (l_session_id lease) now out db3 = Inr db4"
    and db': "db' = update_session (l_session_id lease) now batch out db4"
    by (rule record_work_Some)
  have "t_output db2 = t_output db" using index by (auto dest: index_frame split: if_splits)
  with apply_facts_frame(3) [OF facts] ins
  show "t_output db' = t_output db @ map (output_row_of (l_session_id lease) now) out"
    by (simp add: db' insert_output_Inr)
  show "sorted_wrt (<) (map p_seq out)" and "p_seq ` set out = batch_seqs batch"
    using rendered_seqs [OF out] by simp_all
qed

text \<open>The numbers a batch uses, with repetitions.\<close>

fun reserved_list :: "fact \<Rightarrow> int list" where
  "reserved_list (MessagePosition kind mid seq) = [seq]"
| "reserved_list (InteractionClose xid status (Some seq)) = [seq]"
| "reserved_list _ = []"

definition batch_numbers :: "fact_batch \<Rightarrow> int list" where
  "batch_numbers b = map p_seq (b_output b) @ concat (map reserved_list (b_facts b))"

lemma set_reserved_list [simp]: "set (reserved_list f) = reserved f"
  by (cases f rule: reserved.cases) simp_all

text \<open>Where no number is used twice, each part and each shown fact is stored as it is.\<close>

lemma dict_update_distinct:
  "distinct (map fst kvs) \<Longrightarrow> (k, v) \<in> set kvs \<Longrightarrow> map_of (dict_update d kvs) k = Some v"
proof (induction kvs arbitrary: d)
  case (Cons kv kvs)
  have other: "map_of (dict_update d kvs) k = map_of d k" if "k \<notin> fst ` set kvs" for d
    using that by (induction kvs arbitrary: d) (auto simp: dict_update_def dict_get_set)
  from Cons show ?case
    by (cases kv) (auto simp: dict_update_def dict_get_set other [unfolded dict_update_def] image_iff)
qed simp

lemma render_fact_other:
  "render_fact sid db f d = Inr d' \<Longrightarrow> k \<notin> reserved f \<Longrightarrow> map_of d' k = map_of d k"
  by (cases "(sid, db, f, d)" rule: render_fact.cases) (auto simp: rbind_Inr_iff split: option.splits)

lemma render_facts_other:
  "rfold (render_fact sid db) fs d = Inr d' \<Longrightarrow> \<forall>f \<in> set fs. k \<notin> reserved f \<Longrightarrow> map_of d' k = map_of d k"
  by (induction fs arbitrary: d) (auto simp: rbind_Inr_iff render_fact_other)

lemma rendered_keeps:
  assumes "rendered_output sid db b = Inr out" and "distinct (batch_numbers b)" and "p \<in> set (b_output b)"
  shows "p \<in> set out"
proof -
  from assms(1) obtain d where
    d: "rfold (render_fact sid db) (b_facts b) (numbered_output (b_output b)) = Inr d"
    and out: "out = order_by p_seq (map snd d)"
    by (auto simp: rendered_output_def rbind_Inr_iff)
  have "map_of (numbered_output (b_output b)) (p_seq p) = Some p"
    unfolding numbered_output_def
    using assms(2,3) by (intro dict_update_distinct) (auto simp: batch_numbers_def o_def)
  moreover have "\<forall>f \<in> set (b_facts b). p_seq p \<notin> reserved f"
    using assms(2,3) by (auto simp: batch_numbers_def)
  ultimately have "map_of d (p_seq p) = Some p" using render_facts_other [OF d] by simp
  then show ?thesis by (auto simp: out dest: map_of_SomeD intro: rev_image_eqI)
qed


fun shows_fact :: "string \<Rightarrow> db \<Rightarrow> output_part list \<Rightarrow> fact \<Rightarrow> bool" where
  "shows_fact sid db out (MessagePosition kind mid seq) =
     (case conversation_order sid kind mid db of
        Inl _ \<Rightarrow> False | Inr order \<Rightarrow> order_part kind mid order seq \<in> set out)"
| "shows_fact sid db out (InteractionClose xid status (Some seq)) =
     (case first_row (of_interaction sid xid) (t_interactions db) of
        None \<Rightarrow> False
      | Some x \<Rightarrow> (case interaction_part x xid seq of Inl _ \<Rightarrow> False | Inr p \<Rightarrow> p \<in> set out))"
| "shows_fact sid db out _ = True"

lemma render_fact_shows:
  assumes "render_fact sid db f d = Inr d'" and "\<And>k p. k \<in> reserved f \<Longrightarrow> map_of d' k = Some p \<Longrightarrow> p \<in> set out"
  shows "shows_fact sid db out f"
  using assms
  by (cases "(sid, db, f, d)" rule: render_fact.cases)
     (fastforce simp: rbind_Inr_iff dict_get_set split: option.splits)+

lemma rendered_shows:
  assumes "rendered_output sid db b = Inr out" and "distinct (batch_numbers b)" and "f \<in> set (b_facts b)"
  shows "shows_fact sid db out f"
proof -
  from assms(1) obtain d where
    d: "rfold (render_fact sid db) (b_facts b) (numbered_output (b_output b)) = Inr d"
    and out: "out = order_by p_seq (map snd d)"
    by (auto simp: rendered_output_def rbind_Inr_iff)
  from assms(3) obtain fs gs where fs: "b_facts b = fs @ f # gs" by (auto dest: split_list)
  from d obtain d1 d2 where d1: "render_fact sid db f d1 = Inr d2" and d2: "rfold (render_fact sid db) gs d2 = Inr d"
    by (auto simp: fs rfold_append rbind_Inr_iff)
  show ?thesis
    using d1
  proof (rule render_fact_shows)
    fix k p assume k: "k \<in> reserved f" "map_of d2 k = Some p"
    have "\<forall>g \<in> set gs. k \<notin> reserved g" using assms(2) k(1) by (auto simp: batch_numbers_def fs)
    with k(2) render_facts_other [OF d2] have "map_of d k = Some p" by simp
    then show "p \<in> set out" by (auto simp: out dest: map_of_SomeD intro: rev_image_eqI)
  qed
qed

section \<open>A log without gaps\<close>

definition contiguous :: "string \<Rightarrow> db \<Rightarrow> bool" where
  "contiguous sid db \<longleftrightarrow>
     map o_seq (session_log sid db) = [1..int (length (session_log sid db))]"

lemma max_seq_contiguous: "contiguous sid db \<Longrightarrow> max_seq sid db = int (length (session_log sid db))"
proof -
  have top: "fold max [2..n] (1::int) = n" if "1 \<le> n" for n :: int
    using that
  proof (induction n rule: int_ge_induct)
    case base
    then show ?case by simp
  next
    case (step i)
    then show ?case by (simp add: upto_rec2)
  qed
  assume "contiguous sid db"
  then have eq: "map o_seq (session_log sid db) = [1..int (length (session_log sid db))]"
    by (simp add: contiguous_def)
  show ?thesis
  proof (cases "session_log sid db")
    case Nil
    then show ?thesis by (simp add: max_seq_def)
  next
    case (Cons o' os)
    then have "1 \<le> int (length (session_log sid db))" by simp
    with eq top show ?thesis by (simp add: max_seq_def upto_rec1 [of 1])
  qed
qed

lemma strict_sorted_upto:
  "sorted_wrt (<) xs \<Longrightarrow> set xs = {a..b} \<Longrightarrow> xs = [a..b::int]"
  by (rule sorted_distinct_set_unique) (simp_all add: strict_sorted_iff)

text \<open>A batch that continues the numbering of its session leaves the log without gaps.\<close>

lemma record_contiguous:
  assumes "record_work lease batch ttl now db = Inr (Some out, db')"
    and "contiguous (l_session_id lease) db"
    and "batch_seqs batch = {max_seq (l_session_id lease) db + 1..n}" and "max_seq (l_session_id lease) db \<le> n"
  shows "contiguous (l_session_id lease) db'" and "max_seq (l_session_id lease) db' = n"
proof -
  let ?sid = "l_session_id lease"
  define m where "m = int (length (session_log ?sid db))"
  have m: "max_seq ?sid db = m" using assms(2) by (simp add: m_def max_seq_contiguous)
  have out: "map p_seq out = [m + 1..n]"
    using record_output(2,3) [OF assms(1)] assms(3) m by (intro strict_sorted_upto) simp_all
  have log: "session_log ?sid db' = session_log ?sid db @ map (output_row_of ?sid now) out"
    by (simp add: session_log_def record_output(1) [OF assms(1)] of_session_def output_row_of_def
        filter_map o_def)
  have len: "int (length out) = n - m" using arg_cong [OF out, of length] assms(4) m by simp
  have "map o_seq (session_log ?sid db') = [1..m] @ map p_seq out"
    using assms(2) by (simp add: log contiguous_def m_def output_row_of_def o_def)
  also have "\<dots> = [1..n]" using assms(4) m by (simp only: out upto_append m_def)
  finally have "map o_seq (session_log ?sid db') = [1..n]" .
  moreover have "int (length (session_log ?sid db')) = n" using len by (simp add: log m_def)
  ultimately show cont: "contiguous ?sid db'" by (simp add: contiguous_def)
  then show "max_seq ?sid db' = n"
    using \<open>int (length (session_log ?sid db')) = n\<close> by (simp add: max_seq_contiguous)
qed

section \<open>Responses and their interactions\<close>

text \<open>An open interaction belongs to a recorded response that is waiting.\<close>

definition open_is_waited_on :: "db \<Rightarrow> interaction_row \<Rightarrow> bool" where
  "open_is_waited_on db x \<longleftrightarrow>
     (x_status x = IOpen \<longrightarrow>
        (\<exists>r \<in> set (t_responses db). of_response (x_session_id x) (x_response_id x) r \<and> r_status r = Waiting))"

definition waiting_ok :: "db \<Rightarrow> bool" where
  "waiting_ok db \<longleftrightarrow> (\<forall>x \<in> set (t_interactions db). open_is_waited_on db x)"

lemma open_is_waited_on_mono:
  assumes "open_is_waited_on db x"
    and "\<And>r. r \<in> set (t_responses db) \<Longrightarrow> r_status r = Waiting \<Longrightarrow>
      \<exists>r' \<in> set (t_responses db'). response_key r' = response_key r \<and> r_status r' = Waiting"
  shows "open_is_waited_on db' x"
  using assms unfolding open_is_waited_on_def of_response_def response_key_def by (metis prod.inject)

lemma waiting_ok_responses:
  assumes "waiting_ok db" and "t_interactions db' = t_interactions db"
    and "\<And>r. r \<in> set (t_responses db) \<Longrightarrow> r_status r = Waiting \<Longrightarrow>
      \<exists>r' \<in> set (t_responses db'). response_key r' = response_key r \<and> r_status r' = Waiting"
  shows "waiting_ok db'"
  using assms by (auto simp: waiting_ok_def intro: open_is_waited_on_mono)

lemma update_where_waiting:
  assumes "r \<in> set rows" and "r_status r = Waiting"
    and "\<And>q. p q \<Longrightarrow> response_key (f q) = response_key q \<and> (r_status q = Waiting \<longrightarrow> r_status (f q) = Waiting)"
  shows "\<exists>r' \<in> set (update_where p f rows). response_key r' = response_key r \<and> r_status r' = Waiting"
  using assms by (intro bexI [of _ "if p r then f r else r"]) (auto simp: set_update_where)

lemma update_where_unaffected:
  assumes "P x" and "\<And>q. \<not> P (f q)" and "x \<in> set (update_where p f rows)"
  shows "x \<in> set rows" and "\<not> p x"
  using assms(3) unfolding set_update_where using assms(1,2) by (auto split: if_splits)

text \<open>The end of a response closes what it was asking; the other responses wait as before.\<close>

lemma waiting_ok_end_response:
  assumes "waiting_ok db"
  shows "waiting_ok (end_response now sid rid oc reason usage err db)"
  unfolding waiting_ok_def
proof
  fix x assume x: "x \<in> set (t_interactions (end_response now sid rid oc reason usage err db))"
  show "open_is_waited_on (end_response now sid rid oc reason usage err db) x"
  proof (cases "x_status x = IOpen")
    case True
    note kept = update_where_unaffected [of "\<lambda>x. x_status x = IOpen", OF True _ x [unfolded end_response_def, simplified]]
    have x': "x \<in> set (t_interactions db)" and other: "\<not> (x_session_id x = sid \<and> x_response_id x = rid)"
      using kept True by simp_all
    from assms x' True obtain r where r: "r \<in> set (t_responses db)"
      "of_response (x_session_id x) (x_response_id x) r" "r_status r = Waiting"
      by (auto simp: waiting_ok_def open_is_waited_on_def)
    with other have "\<not> of_response sid rid r" by (auto simp: of_response_def)
    with r(1) have "r \<in> set (t_responses (end_response now sid rid oc reason usage err db))"
      by (simp add: end_response_def set_update_where)
    with r(2,3) show ?thesis by (auto simp: open_is_waited_on_def)
  qed (simp add: open_is_waited_on_def)
qed

lemma end_response_settles:
  "(\<forall>r \<in> set (t_responses (end_response now sid rid oc reason usage err db)).
      of_response sid rid r \<longrightarrow> r_status r = Ended) \<and>
   (\<forall>x \<in> set (t_interactions (end_response now sid rid oc reason usage err db)).
      x_session_id x = sid \<and> x_response_id x = rid \<longrightarrow> x_status x \<noteq> IOpen)"
  by (simp add: end_response_def ball_update_where of_response_def)

lemma waiting_ok_open_interaction:
  assumes "waiting_ok db" and "exists_row (\<lambda>r. of_response sid rid r \<and> r_status r \<noteq> Ended) (t_responses db)"
  shows "waiting_ok (open_interaction now sid rid xid contract db)"
proof -
  let ?rows = "update_where (\<lambda>r. of_response sid rid r \<and> r_status r = Running)
    (\<lambda>r. r\<lparr>r_status := Waiting\<rparr>) (t_responses db)"
  have old: "waiting_ok (db\<lparr>t_responses := ?rows\<rparr>)"
    using assms(1) by (rule waiting_ok_responses) (simp, auto intro!: update_where_waiting, simp_all add: key_defs)
  from assms(2) obtain r where r: "r \<in> set (t_responses db)" "of_response sid rid r" "r_status r \<noteq> Ended"
    by (auto simp: exists_row_iff)
  then have "r_status r = Running \<or> r_status r = Waiting" by (cases "r_status r") simp_all
  with r have "\<exists>r \<in> set ?rows. of_response sid rid r \<and> r_status r = Waiting"
    by (intro bexI [of _ "if r_status r = Running then r\<lparr>r_status := Waiting\<rparr> else r"])
       (auto simp: set_update_where of_response_def)
  with old show ?thesis
    by (auto simp: open_interaction_def waiting_ok_def set_insert_absent open_is_waited_on_def new_interaction_def)
qed

lemma waiting_ok_resume:
  assumes "waiting_ok db"
  shows "waiting_ok (resume_response sid rid db)"
  unfolding waiting_ok_def
proof
  fix x assume x: "x \<in> set (t_interactions (resume_response sid rid db))"
  then have x': "x \<in> set (t_interactions db)" by (simp add: resume_response_def)
  with assms have ok: "open_is_waited_on db x" by (simp add: waiting_ok_def)
  show "open_is_waited_on (resume_response sid rid db) x"
  proof (cases "x_session_id x = sid \<and> x_response_id x = rid \<and> x_status x = IOpen")
    case True
    with x' have "exists_row (\<lambda>x. x_session_id x = sid \<and> x_response_id x = rid \<and> x_status x = IOpen) (t_interactions db)"
      by (auto simp: exists_row_iff)
    then have "t_responses (resume_response sid rid db) = t_responses db"
      by (simp add: resume_response_def update_where_id)
    with ok show ?thesis by (simp add: open_is_waited_on_def)
  next
    case False
    with ok show ?thesis
      by (auto simp: open_is_waited_on_def resume_response_def set_update_where of_response_def
          intro!: rev_bexI)
  qed
qed

lemma waiting_ok_close_interaction:
  assumes "waiting_ok db" and "status \<noteq> IOpen"
  shows "waiting_ok (close_interaction now sid xid status db)"
proof -
  have "waiting_ok (db\<lparr>t_interactions := update_where (\<lambda>x. of_interaction sid xid x \<and> x_status x = IOpen)
      (\<lambda>x. x\<lparr>x_status := status, x_closed_at := Some now\<rparr>) (t_interactions db)\<rparr>)"
    using assms by (simp add: waiting_ok_def open_is_waited_on_def ball_update_where)
  then show ?thesis
    using assms(1) by (auto simp: close_interaction_def intro: waiting_ok_resume split: option.splits)
qed

lemma waiting_ok_start:
  assumes "waiting_ok db" and "link_inputs sid rid iids (add_response now sid rid origin db) = Inr db'"
  shows "waiting_ok db'"
proof (rule waiting_ok_responses [OF assms(1)])
  show "t_interactions db' = t_interactions db"
    using assms(2) by (auto simp: link_inputs_def add_response_def split: if_splits)
  fix r assume "r \<in> set (t_responses db)" "r_status r = Waiting"
  moreover have "set (t_responses db) \<subseteq> set (t_responses db')"
    using assms(2) by (auto simp: link_inputs_def add_response_def split: if_splits)
  ultimately show "\<exists>r' \<in> set (t_responses db'). response_key r' = response_key r \<and> r_status r' = Waiting" by blast
qed

lemma waiting_ok_position: "waiting_ok db \<Longrightarrow> waiting_ok (position_message sid kind mid seq db)"
proof (rule waiting_ok_responses)
  fix r assume "r \<in> set (t_responses db)" "r_status r = Waiting"
  then show "\<exists>r' \<in> set (t_responses (position_message sid kind mid seq db)).
      response_key r' = response_key r \<and> r_status r' = Waiting"
    by (cases kind)
       (auto simp: position_message_def intro!: update_where_waiting, simp_all add: response_key_def)
qed (auto simp: position_message_def split: message_kind.splits)

lemma waiting_ok_cong:
  "waiting_ok db \<Longrightarrow> t_interactions db' = t_interactions db \<Longrightarrow> t_responses db' = t_responses db \<Longrightarrow> waiting_ok db'"
  by (simp add: waiting_ok_def open_is_waited_on_def)

lemma first_row_map:
  "(\<And>r. key (f r) = key r) \<Longrightarrow>
   first_row (\<lambda>r. key r = k) (update_where (\<lambda>r. key r = k) f rows) = map_option f (first_row (\<lambda>r. key r = k) rows)"
  by (induction rows) auto

lemma resume_point_update_session:
  assumes "exists_row (\<lambda>s. s_session_id s = sid) (t_sessions db)" and "b_cursor batch \<noteq> None"
  shows "snd (resume_point sid (update_session sid now batch out db)) = b_cursor batch"
proof -
  from assms(1) obtain s where "first_row (\<lambda>s. s_session_id s = sid) (t_sessions db) = Some s"
    by (cases "first_row (\<lambda>s. s_session_id s = sid) (t_sessions db)") (auto simp: first_row_None_iff exists_row_iff)
  moreover have "session_touched batch out" using assms(2) by (simp add: session_touched_def)
  ultimately show ?thesis
    using assms(2)
    by (auto simp: resume_point_def update_session_def Let_def notify_def first_row_map touch_session_def set_some_def)
qed

lemma map_sum_Inr_Some:
  assumes "map_sum g (map_option f) r = Inr (Some y)"
  obtains x where "r = Inr (Some x)" "f x = y"
  using assms by (cases r) auto

section \<open>Properties\<close>

text \<open>
  C1. Fencing. Once another \<^verbatim>\<open>claim_reader\<close> granted the session's lease anew, then after any
  sequence of claims and of steps that keep the lease generations (commits among them), the
  earlier reader can neither renew nor record: whatever batch it submits, nothing changes.
\<close>

theorem fenced_reader_records_nothing:
  assumes "keys_ok db" and "holds_lease db old"
    and "claim_reader env (l_session_id old) owner ttl now db = (Some lease, db1)"
    and "reader.run db1 db2"
  shows "record_batch old batch ttl' now' db2 = (Inr None, db2) \<and> renew_reader old ttl' now' db2 = (False, db2)"
proof -
  have "\<not> holds_lease db2 old" using assms by (rule superseded_lease_never_held)
  then show ?thesis by (simp add: record_lost renew_reader_lost)
qed

definition sample_part :: obj where
  "sample_part = [(''type'', JStr ''text-delta''), (''delta'', JStr ''hi'')]"

definition sample_batch :: fact_batch where
  "sample_batch = empty_batch\<lparr>
     b_output := [\<lparr>p_seq = 2, p_response_id = Some ''r'', p_part = sample_part\<rparr>],
     b_facts := [ResponseStart ''r'' OriginInput [], MessagePosition MResponse ''r'' 1],
     b_cursor := Some (JInt 7)\<rparr>"

definition sample_recorded :: db where
  "sample_recorded = snd (record_batch (sample_lease ''p1'' 1) sample_batch 30 15 sample_claimed)"

lemma sample_recorded_keys [simp]: "keys_ok sample_recorded"
  by (simp add: sample_recorded_def keys_ok_record)

definition sample_taken :: db where
  "sample_taken = snd (claim_reader ''prod'' ''s'' ''p2'' 30 50 sample_recorded)"

lemma sample_take:
  "claim_reader ''prod'' ''s'' ''p2'' 30 50 sample_recorded = (Some (sample_lease ''p2'' 2), sample_taken)"
proof -
  have "fst (claim_reader ''prod'' ''s'' ''p2'' 30 50 sample_recorded) = Some (sample_lease ''p2'' 2)" by code_simp
  then show ?thesis by (simp add: prod_eq_iff sample_taken_def)
qed

theorem fenced_reader_records_nothing_witness:
  "record_batch (sample_lease ''p1'' 1) sample_batch 30 60 (snd (record_batch (sample_lease ''p2'' 2) empty_batch 30 55 sample_taken)) =
    (Inr None, snd (record_batch (sample_lease ''p2'' 2) empty_batch 30 55 sample_taken))"
proof -
  have held: "holds_lease sample_recorded (sample_lease ''p1'' 1)" by code_simp
  have claim: "claim_reader ''prod'' (l_session_id (sample_lease ''p1'' 1)) ''p2'' 30 50 sample_recorded =
      (Some (sample_lease ''p2'' 2), sample_taken)"
    using sample_take by (simp add: sample_lease_def)
  have "keys_ok sample_taken"
    using keys_ok_claim_reader [OF sample_recorded_keys] by (simp add: sample_taken_def)
  then have "reader.run sample_taken (snd (record_batch (sample_lease ''p2'' 2) empty_batch 30 55 sample_taken))"
    by (intro reader.run_keep [OF reader.run_refl] record_kept)
  from fenced_reader_records_nothing [OF sample_recorded_keys held claim this] show ?thesis by blast
qed

text \<open>What the session's row keeps of a committed batch.\<close>

definition carries_batch :: "fact_batch \<Rightarrow> session_row \<Rightarrow> bool" where
  "carries_batch batch s \<longleftrightarrow>
     (b_cursor batch \<noteq> None \<longrightarrow> s_reader_cursor s = b_cursor batch) \<and>
     (b_status batch \<noteq> None \<longrightarrow> s_runtime_status s = b_status batch) \<and>
     (b_protocol_error batch \<noteq> None \<longrightarrow>
        s_last_error s = b_protocol_error batch \<and> s_recovery_reason s = Some RUNTIME_PROTOCOL_INCOMPATIBLE)"

lemma update_session_carries:
  "\<forall>s \<in> set (t_sessions (update_session sid now batch out db)). s_session_id s = sid \<longrightarrow> carries_batch batch s"
proof (cases "session_touched batch out")
  case True
  have "carries_batch batch (touch_session now batch out s)" for s
    by (auto simp: carries_batch_def touch_session_def set_some_def)
  with True show ?thesis
    by (auto simp: update_session_def Let_def notify_def set_update_where)
qed (auto simp: update_session_def session_touched_def carries_batch_def)

lemma update_session_tables:
  "t_inputs (update_session sid now batch out db) = t_inputs db"
  "t_responses (update_session sid now batch out db) = t_responses db"
  "t_response_inputs (update_session sid now batch out db) = t_response_inputs db"
  "t_interactions (update_session sid now batch out db) = t_interactions db"
  by (simp_all add: update_session_def Let_def notify_def)

text \<open>
  C2. A commit is all or nothing. \<^verbatim>\<open>record\<close> of a batch that is not empty either changes nothing
  at all, or it held the lease and stored the whole batch. Every fact of the batch is applied,
  in order, to the inputs, responses and interactions (display positions are filled in first,
  when the batch places a message). The log gains one row per number the batch gave a part or
  reserved for a fact, in ascending order after what was there; when no number is used twice
  these are the batch's parts, unchanged, and the parts that show its facts. The session's row
  carries the batch's cursor, status and protocol error, and the resume point the cursor.
\<close>

theorem record_all_or_nothing:
  assumes "record_batch lease batch ttl now db = (res, db')" and "batch_nonempty batch"
    and "sid = l_session_id lease" and "exists_row (\<lambda>s. s_session_id s = sid) (t_sessions db)"
  shows "(case res of
      Inr (Some out) \<Rightarrow>
        holds_lease db lease \<and>
        (\<exists>db2 db3.
           (if list_ex is_position (b_facts batch)
            then index_recorded_messages sid (snd (renew_reader lease ttl now db))
            else Inr (snd (renew_reader lease ttl now db))) = Inr db2 \<and>
           rfold (apply_fact now sid) (b_facts batch) db2 = Inr db3 \<and>
           t_inputs db' = t_inputs db3 \<and> t_responses db' = t_responses db3 \<and>
           t_response_inputs db' = t_response_inputs db3 \<and> t_interactions db' = t_interactions db3 \<and>
           (distinct (batch_numbers batch) \<longrightarrow> list_all (shows_fact sid db3 out) (b_facts batch))) \<and>
        t_output db' = t_output db @ map (output_row_of sid now) out \<and>
        sorted_wrt (<) (map p_seq out) \<and> p_seq ` set out = batch_seqs batch \<and>
        (distinct (batch_numbers batch) \<longrightarrow> set (b_output batch) \<subseteq> set out) \<and>
        (\<forall>s \<in> set (t_sessions db'). s_session_id s = sid \<longrightarrow> carries_batch batch s) \<and>
        (b_cursor batch \<noteq> None \<longrightarrow> snd (resume_point sid db') = b_cursor batch)
    | _ \<Rightarrow> db' = db)"
proof -
  consider (none) "db' = db" "\<And>out. res \<noteq> Inr (Some out)"
    | (stored) out where "res = Inr (Some out)" "record_work lease batch ttl now db = Inr (Some out, db')"
    using assms(1,2)
    by (cases rule: record_batch_cases [of lease batch ttl now db]) (auto simp: record_batch_def transaction_def split: sum.splits)
  then show ?thesis
  proof cases
    case none
    then show ?thesis by (auto split: sum.splits option.splits)
  next
    case stored
    from stored(2) obtain db2 db3 db4 where held: "holds_lease db lease"
      and index: "(if list_ex is_position (b_facts batch)
        then index_recorded_messages sid (snd (renew_reader lease ttl now db))
        else Inr (snd (renew_reader lease ttl now db))) = Inr db2"
      and facts: "rfold (apply_fact now sid) (b_facts batch) db2 = Inr db3"
      and out: "rendered_output sid db3 batch = Inr out"
      and ins: "insert_output sid now out db3 = Inr db4"
      and db': "db' = update_session sid now batch out db4"
      unfolding assms(3) by (rule record_work_Some)
    have "t_sessions db2 = t_sessions db" using index by (auto dest: index_frame split: if_splits)
    then have "t_sessions db4 = t_sessions db" using apply_facts_frame(2) [OF facts] ins by (simp add: insert_output_Inr)
    then have cursor: "snd (resume_point sid db') = b_cursor batch" if "b_cursor batch \<noteq> None"
      using that assms(4) by (auto simp: db' resume_point_update_session)
    have tables: "t_inputs db' = t_inputs db3" "t_responses db' = t_responses db3"
      "t_response_inputs db' = t_response_inputs db3" "t_interactions db' = t_interactions db3"
      using ins by (simp_all add: db' update_session_tables insert_output_Inr)
    have shown: "list_all (shows_fact sid db3 out) (b_facts batch)" "set (b_output batch) \<subseteq> set out"
      if "distinct (batch_numbers batch)"
      using rendered_shows [OF out that] rendered_keeps [OF out that] by (auto simp: list_all_iff)
    show ?thesis
      using held index facts tables shown cursor record_output [OF stored(2)] update_session_carries [of sid now batch out db4]
      by (auto simp: stored(1) assms(3) [symmetric] db' [symmetric])
  qed
qed

theorem record_all_or_nothing_witness:
  "map o_seq (t_output sample_recorded) = [1, 2] \<and> snd (resume_point ''s'' sample_recorded) = Some (JInt 7) \<and>
   list_ex (\<lambda>o'. o_seq o' = 2 \<and> o_response_id o' = Some ''r'' \<and> o_part o' = sample_part) (t_output sample_recorded)"
proof -
  let ?r = "record_batch (sample_lease ''p1'' 1) sample_batch 30 15 sample_claimed"
  have out: "map_sum (\<lambda>e. ()) (map_option (map p_seq)) (fst ?r) = Inr (Some [1, 2])" by code_simp
  then obtain parts where parts: "?r = (Inr (Some parts), sample_recorded)" "map p_seq parts = [1, 2]"
    by (cases ?r) (auto simp: sample_recorded_def split: sum.splits option.splits elim: map_sum_Inr_Some)
  have "batch_nonempty sample_batch" by code_simp
  moreover have "''s'' = l_session_id (sample_lease ''p1'' 1)" by (simp add: sample_lease_def)
  moreover have "exists_row (\<lambda>s. s_session_id s = ''s'') (t_sessions sample_claimed)" by code_simp
  ultimately have stored: "t_output sample_recorded = t_output sample_claimed @ map (output_row_of ''s'' 15) parts"
      "distinct (batch_numbers sample_batch) \<longrightarrow> set (b_output sample_batch) \<subseteq> set parts"
      "b_cursor sample_batch \<noteq> None \<longrightarrow> snd (resume_point ''s'' sample_recorded) = b_cursor sample_batch"
    using record_all_or_nothing [OF parts(1), of "''s''"] by simp_all
  have batch: "t_output sample_claimed = []" "b_cursor sample_batch = Some (JInt 7)" "distinct (batch_numbers sample_batch)"
    by code_simp+
  have "\<lparr>p_seq = 2, p_response_id = Some ''r'', p_part = sample_part\<rparr> \<in> set (b_output sample_batch)"
    by (simp add: sample_batch_def)
  with stored(2) batch(3) have "\<lparr>p_seq = 2, p_response_id = Some ''r'', p_part = sample_part\<rparr> \<in> set parts" by blast
  then have "list_ex (\<lambda>p. p_seq p = 2 \<and> p_response_id p = Some ''r'' \<and> p_part p = sample_part) parts"
    by (force simp: list_ex_iff)
  with stored(1,3) batch parts(2) show ?thesis by (simp add: output_row_of_def o_def list_ex_iff)
qed

text \<open>
  A reader writes its own session only. Whatever batch is committed under a lease, the
  output log, inputs, responses and interactions of every other session are the same after
  \<^verbatim>\<open>record\<close> as before, row by row.
\<close>

theorem record_keeps_other_sessions:
  assumes "sid \<noteq> l_session_id lease"
  shows "session_log sid (snd (record_batch lease batch ttl now db)) = session_log sid db \<and>
    filter (\<lambda>i. i_session_id i = sid) (t_inputs (snd (record_batch lease batch ttl now db))) =
      filter (\<lambda>i. i_session_id i = sid) (t_inputs db) \<and>
    filter (\<lambda>r. r_session_id r = sid) (t_responses (snd (record_batch lease batch ttl now db))) =
      filter (\<lambda>r. r_session_id r = sid) (t_responses db) \<and>
    filter (\<lambda>x. x_session_id x = sid) (t_interactions (snd (record_batch lease batch ttl now db))) =
      filter (\<lambda>x. x_session_id x = sid) (t_interactions db)"
  using evolves_record [of lease db batch ttl now] assms by (intro conjI evolves_other) auto

theorem record_keeps_other_sessions_witness:
  "session_log ''t'' (snd (record_batch (sample_lease ''p1'' 1) sample_batch 30 15 sample_claimed)) = []"
proof -
  have "''t'' \<noteq> l_session_id (sample_lease ''p1'' 1)" "session_log ''t'' sample_claimed = []" by code_simp+
  with record_keeps_other_sessions [of "''t''" "sample_lease ''p1'' 1"] show ?thesis by simp
qed

text \<open>
  C18. An open interaction is waited on: it belongs to a recorded response whose status is
  waiting. Every fact the reader records keeps this, provided an interaction opens on a
  recorded response that has not ended and a close does not ask for the status open; and the
  end of a response leaves it ended with no interaction open.
\<close>

theorem open_interactions_are_waited_on:
  assumes "waiting_ok db" and "apply_fact now sid f db = Inr db'"
    and "\<And>rid xid c. f = InteractionOpen rid xid c \<Longrightarrow>
      exists_row (\<lambda>r. of_response sid rid r \<and> r_status r \<noteq> Ended) (t_responses db)"
    and "\<And>xid n. f \<noteq> InteractionClose xid IOpen n"
  shows "waiting_ok db' \<and>
    (case f of ResponseEnd rid oc reason usage err \<Rightarrow>
       (\<forall>r \<in> set (t_responses db'). of_response sid rid r \<longrightarrow> r_status r = Ended) \<and>
       (\<forall>x \<in> set (t_interactions db'). x_session_id x = sid \<and> x_response_id x = rid \<longrightarrow> x_status x \<noteq> IOpen)
     | _ \<Rightarrow> True)"
proof -
  have "waiting_ok db'"
    using assms
    by (cases f)
       (auto intro: waiting_ok_start waiting_ok_position waiting_ok_end_response waiting_ok_open_interaction
         waiting_ok_close_interaction elim: waiting_ok_cong simp: admit_inputs_def fail_inputs_def
         simp del: split_paired_All)
  moreover have "case f of ResponseEnd rid oc reason usage err \<Rightarrow>
       (\<forall>r \<in> set (t_responses db'). of_response sid rid r \<longrightarrow> r_status r = Ended) \<and>
       (\<forall>x \<in> set (t_interactions db'). x_session_id x = sid \<and> x_response_id x = rid \<longrightarrow> x_status x \<noteq> IOpen)
     | _ \<Rightarrow> True"
    using assms(2) end_response_settles by (cases f) auto
  ultimately show ?thesis ..
qed

theorem open_interactions_are_waited_on_witness:
  "\<exists>db'. apply_fact 20 ''s'' (InteractionOpen ''r'' ''x'' []) sample_recorded = Inr db' \<and> waiting_ok db'"
proof -
  have "waiting_ok sample_recorded" by code_simp
  moreover have "exists_row (\<lambda>r. of_response ''s'' ''r'' r \<and> r_status r \<noteq> Ended) (t_responses sample_recorded)" by code_simp
  ultimately show ?thesis
    using open_interactions_are_waited_on [of sample_recorded 20 "''s''" "InteractionOpen ''r'' ''x'' []"]
    by auto
qed

text \<open>
  An interaction takes one answer. When \<^verbatim>\<open>request_answer\<close> returns true the answer is stored on
  the open interaction and waits for the reader; every further request is refused and
  changes nothing, so the first answer is the one handed over.
\<close>

lemma one_answer_per_interaction:
  assumes "keys_ok db" and "request_answer sid xid answer by now db = (True, db')"
  shows "(\<exists>x \<in> set (pending_answers sid db'). of_interaction sid xid x \<and> x_answer x = Some answer \<and> x_answered_by x = Some by) \<and>
    length (filter (\<lambda>x. x_interaction_id x = xid) (pending_answers sid db')) = 1 \<and>
    request_answer sid xid answer2 by2 now2 db' = (False, db')"
proof -
  from assms(2) obtain x where x: "x \<in> set (t_interactions db)" "awaiting_answer sid xid x"
    by (auto simp: request_answer_def split: if_splits)
  let ?f = "\<lambda>x. x\<lparr>x_answer := Some answer, x_answered_by := Some by, x_answered_at := Some now\<rparr>"
  have rows: "t_interactions db' = update_where (awaiting_answer sid xid) ?f (t_interactions db)"
    using assms(2) by (auto simp: request_answer_def notify_def split: if_splits)
  have dist: "distinct (map interaction_key (t_interactions db'))"
    using keys_ok_interactions [OF assms(1)] by (simp add: rows map_update_where interaction_key_def)
  have mem: "?f x \<in> set (t_interactions db')" using x by (auto simp: rows set_update_where)
  have waits: "?f x \<in> set (pending_answers sid db')"
    using mem x(2) by (simp add: pending_answers_def awaiting_answer_def of_interaction_def)
  have "filter (\<lambda>y. x_interaction_id y = xid) (pending_answers sid db') =
      filter (\<lambda>y. interaction_key y = (sid, xid) \<and> (x_status y = IOpen \<and> x_answer y \<noteq> None)) (pending_answers sid db')"
    by (auto simp: pending_answers_def interaction_key_def intro!: filter_cong)
  also have "\<dots> = [?f x]"
  proof (rule filter_unique)
    show "distinct (map interaction_key (pending_answers sid db'))"
      unfolding pending_answers_def distinct_map_order_by using dist by (rule distinct_map_filter)
  qed (use waits x(2) in \<open>auto simp: interaction_key_def awaiting_answer_def of_interaction_def\<close>)
  finally have "length (filter (\<lambda>y. x_interaction_id y = xid) (pending_answers sid db')) = 1" by simp
  moreover have "\<not> awaiting_answer sid xid y" if "y \<in> set (t_interactions db')" for y
    using that by (auto simp: rows set_update_where awaiting_answer_def)
  then have "request_answer sid xid answer2 by2 now2 db' = (False, db')"
    by (simp add: request_answer_def)
  moreover have "of_interaction sid xid (?f x)" "x_answer (?f x) = Some answer" "x_answered_by (?f x) = Some by"
    using x(2) by (simp_all add: awaiting_answer_def of_interaction_def)
  ultimately show ?thesis using waits by blast
qed

end
