(* ===== verification/History.thy ===== *)
theory History
  imports Commit
begin

text \<open>
  The reads of the conversation: one page of the history in conversation order
  (\<^verbatim>\<open>history_page\<close>), what the session view shows (\<^verbatim>\<open>activity\<close>), the lookups beside them, and the
  import of another system's history (\<^verbatim>\<open>import_history\<close>). The interface of a paged read is the
  locale \<open>keyset_pages\<close>: following the cursors from the newest page collects every entry once,
  in order, and stops.
\<close>

section \<open>Pages\<close>

text \<open>The sort key of an entry: phase, position, kind (0 an input, 1 a response), seq.\<close>

type_synonym entry_key = "int \<times> int \<times> int \<times> int"

definition entry_observed :: "int option \<Rightarrow> bool \<Rightarrow> int option \<Rightarrow> bool" where
  "entry_observed through imported order =
     (case order of None \<Rightarrow> False
      | Some n \<Rightarrow> (case through of None \<Rightarrow> True | Some t \<Rightarrow> imported \<or> n \<le> t * 2))"

definition entry_key :: "int option \<Rightarrow> int \<Rightarrow> bool \<Rightarrow> int option \<Rightarrow> int \<Rightarrow> entry_key" where
  "entry_key through kind imported order seq =
     (if imported then 0 else if entry_observed through imported order then 1 else 2,
      if entry_observed through imported order then coalesce order seq else seq, kind, seq)"

definition input_entry :: "int option \<Rightarrow> input_row \<Rightarrow> entry_key" where
  "input_entry through i =
     entry_key through 0 (i_source i = Some IMPORTED_SOURCE) (i_conversation_order i) (i_seq i)"

definition response_entry :: "int option \<Rightarrow> response_row \<Rightarrow> entry_key" where
  "response_entry through r =
     entry_key through 1 (r_origin r = OriginImport) (r_conversation_order r) (r_seq r)"

definition history_entries :: "string \<Rightarrow> int option \<Rightarrow> db \<Rightarrow> entry_key list" where
  "history_entries sid through db =
     map (input_entry through) (filter (\<lambda>i. i_session_id i = sid) (t_inputs db)) @
     map (response_entry through) (filter (\<lambda>r. r_session_id r = sid) (t_responses db))"

definition before_key :: "entry_key option \<Rightarrow> entry_key \<Rightarrow> bool" where
  "before_key before k = (case before of None \<Rightarrow> True | Some b \<Rightarrow> k < b)"

definition page_rows :: "string \<Rightarrow> entry_key option \<Rightarrow> nat \<Rightarrow> int option \<Rightarrow> db \<Rightarrow> entry_key list" where
  "page_rows sid before limit through db =
     take (limit + 1) (rev (order_by id (filter (before_key before) (history_entries sid through db))))"

record history_page_view =
  hp_entries :: "(message_kind \<times> int) list"
  hp_inputs :: "input_row list"
  hp_responses :: "response_row list"
  hp_links :: "(string \<times> string) list"
  hp_has_more :: bool
  hp_before :: "entry_key option"

definition key_kind :: "entry_key \<Rightarrow> int" where
  "key_kind k = fst (snd (snd k))"

definition key_seq :: "entry_key \<Rightarrow> int" where
  "key_seq k = snd (snd (snd k))"

definition page_keys :: "string \<Rightarrow> entry_key option \<Rightarrow> nat \<Rightarrow> int option \<Rightarrow> db \<Rightarrow> entry_key list" where
  "page_keys sid before limit through db = rev (take limit (page_rows sid before limit through db))"

definition page_cursor :: "string \<Rightarrow> entry_key option \<Rightarrow> nat \<Rightarrow> int option \<Rightarrow> db \<Rightarrow> entry_key option" where
  "page_cursor sid before limit through db =
     (let keys = page_keys sid before limit through db in
      if limit < length (page_rows sid before limit through db) \<and> keys \<noteq> [] then Some (hd keys) else None)"

definition read_page :: "string \<Rightarrow> entry_key option \<Rightarrow> nat \<Rightarrow> int option \<Rightarrow> db \<Rightarrow> history_page_view" where
  "read_page sid before limit through db =
     (let keys = page_keys sid before limit through db;
          input_seqs = map key_seq (filter (\<lambda>k. key_kind k = 0) keys);
          response_seqs = map key_seq (filter (\<lambda>k. key_kind k = 1) keys);
          inputs = order_by i_seq (filter (\<lambda>i. i_session_id i = sid \<and> i_seq i \<in> set input_seqs) (t_inputs db));
          responses = order_by r_seq (filter (\<lambda>r. r_session_id r = sid \<and> r_seq r \<in> set response_seqs) (t_responses db))
      in \<lparr>hp_entries = map (\<lambda>k. (if key_kind k = 0 then MInput else MResponse, key_seq k)) keys,
          hp_inputs = inputs, hp_responses = responses,
          hp_links = map (\<lambda>l. (ri_response_id l, ri_input_id l))
            (filter (\<lambda>l. ri_session_id l = sid \<and> ri_response_id l \<in> r_response_id ` set responses) (t_response_inputs db)),
          hp_has_more = limit < length (page_rows sid before limit through db),
          hp_before = page_cursor sid before limit through db\<rparr>)"

definition history_page :: "string \<Rightarrow> entry_key option \<Rightarrow> nat \<Rightarrow> int option \<Rightarrow> db \<Rightarrow>
    history_page_view res \<times> db" where
  "history_page sid before limit through db =
     (case transaction (\<lambda>db. rbind (index_recorded_messages sid db) (\<lambda>db'. Inr ((), db'))) db of
        (Inl e, db') \<Rightarrow> (Inl e, db')
      | (Inr _, db') \<Rightarrow> (Inr (read_page sid before limit through db'), db'))"

section \<open>Current activity and lookups\<close>

record activity_view =
  av_open_responses :: "response_row list"
  av_last_response :: "response_row option"
  av_open_interactions :: "interaction_row list"
  av_held_inputs :: "input_row list"

definition activity :: "string \<Rightarrow> db \<Rightarrow> activity_view" where
  "activity sid db =
     \<lparr>av_open_responses =
        order_by r_seq (filter (\<lambda>r. r_session_id r = sid \<and> r_status r \<noteq> Ended) (t_responses db)),
      av_last_response =
        (case order_by (\<lambda>r. - r_seq r) (filter (\<lambda>r. r_session_id r = sid \<and> r_status r = Ended \<and>
                r_origin r \<noteq> OriginImport) (t_responses db)) of
           [] \<Rightarrow> None | r # rs \<Rightarrow> Some r),
      av_open_interactions =
        order_by x_opened_at (filter (\<lambda>x. x_session_id x = sid \<and> x_status x = IOpen) (t_interactions db)),
      av_held_inputs =
        order_by i_seq (filter (\<lambda>i. i_session_id i = sid \<and> open_input_state (i_state i)) (t_inputs db))\<rparr>"

definition open_response_ids :: "string \<Rightarrow> db \<Rightarrow> string list" where
  "open_response_ids sid db =
     map r_response_id (filter (\<lambda>r. r_session_id r = sid \<and> r_status r \<noteq> Ended) (t_responses db))"

definition open_interaction_ids :: "string \<Rightarrow> db \<Rightarrow> string list" where
  "open_interaction_ids sid db =
     map x_interaction_id (filter (\<lambda>x. x_session_id x = sid \<and> x_status x = IOpen) (t_interactions db))"

definition get_interaction :: "string \<Rightarrow> string \<Rightarrow> db \<Rightarrow> interaction_row option" where
  "get_interaction sid xid db = first_row (of_interaction sid xid) (t_interactions db)"

definition get_response :: "string \<Rightarrow> string \<Rightarrow> db \<Rightarrow> response_row option" where
  "get_response sid rid db = first_row (of_response sid rid) (t_responses db)"

definition response_for_input :: "string \<Rightarrow> string \<Rightarrow> db \<Rightarrow> response_row option" where
  "response_for_input sid iid db =
     first_row (\<lambda>r. exists_row (\<lambda>l. ri_session_id l = sid \<and> ri_input_id l = iid \<and>
                 of_response sid (ri_response_id l) r) (t_response_inputs db)) (t_responses db)"

definition inputs_for_response :: "string \<Rightarrow> string \<Rightarrow> db \<Rightarrow> input_row list" where
  "inputs_for_response sid rid db =
     order_by i_seq (filter (\<lambda>i. i_session_id i = sid \<and>
       exists_row (\<lambda>l. ri_session_id l = sid \<and> ri_response_id l = rid \<and> ri_input_id l = i_input_id i)
         (t_response_inputs db)) (t_inputs db))"

definition response_ordinal :: "string \<Rightarrow> string \<Rightarrow> db \<Rightarrow> nat option" where
  "response_ordinal sid rid db =
     (case get_response sid rid db of
        None \<Rightarrow> None
      | Some started \<Rightarrow>
          let position = rowcount (\<lambda>r. r_session_id r = sid \<and> r_origin r \<noteq> OriginImport \<and>
                r_seq r \<le> r_seq started) (t_responses db)
          in if position = 0 then None else Some position)"

definition open_interactions_for_response :: "string \<Rightarrow> string \<Rightarrow> db \<Rightarrow> interaction_row list" where
  "open_interactions_for_response sid rid db =
     order_by x_opened_at (filter (\<lambda>x. x_session_id x = sid \<and> x_response_id x = rid \<and> x_status x = IOpen)
       (t_interactions db))"

section \<open>Imported history\<close>

datatype role = RoleUser | RoleAssistant

record history_entry =
  he_role :: role
  he_source_id :: string
  he_parent_source_id :: "string option"
  he_content :: string
  he_content_blocks :: "json list option"
  he_outcome :: "outcome option"
  he_record :: obj
  he_created_at :: time

definition import_position :: "obj option \<Rightarrow> int res" where
  "import_position record =
     (case record of None \<Rightarrow> Inl TypeError
      | Some d \<Rightarrow> rbind (index_key d ''position'') py_int)"

definition imported_history :: "string \<Rightarrow> db \<Rightarrow> (role \<times> obj option) list res" where
  "imported_history sid db =
     (let rows = map (\<lambda>i. (RoleUser, i_import_record i))
                   (filter (\<lambda>i. i_session_id i = sid \<and> i_source i = Some IMPORTED_SOURCE) (t_inputs db)) @
                 map (\<lambda>r. (RoleAssistant, r_import_record r))
                   (filter (\<lambda>r. r_session_id r = sid \<and> r_origin r = OriginImport) (t_responses db))
      in rbind (rmap (\<lambda>row. import_position (snd row)) rows) (\<lambda>positions.
           Inr (map snd (order_by fst (zip positions rows)))))"

definition has_own_messages :: "string \<Rightarrow> db \<Rightarrow> bool" where
  "has_own_messages sid db \<longleftrightarrow>
     exists_row (\<lambda>i. i_session_id i = sid \<and> i_source i \<noteq> Some IMPORTED_SOURCE) (t_inputs db) \<or>
     exists_row (\<lambda>r. r_session_id r = sid \<and> r_origin r \<noteq> OriginImport) (t_responses db)"

definition note_imported :: "input_row \<Rightarrow> (string, string) dict \<Rightarrow> (string, string) dict res" where
  "note_imported i known =
     (case i_import_record i of None \<Rightarrow> Inl TypeError
      | Some d \<Rightarrow> rbind (index_key d ''source_id'') (\<lambda>v. Inr (dict_set (py_str v) (i_input_id i) known)))"

definition imported_inputs :: "string \<Rightarrow> db \<Rightarrow> (string, string) dict res" where
  "imported_inputs sid db =
     rfold note_imported
       (filter (\<lambda>i. i_session_id i = sid \<and> i_source i = Some IMPORTED_SOURCE) (t_inputs db)) []"

definition imported_input :: "string \<Rightarrow> string \<Rightarrow> history_entry \<Rightarrow> int \<Rightarrow> int \<Rightarrow> input_row" where
  "imported_input sid iid e position seq =
     \<lparr>i_input_id = iid, i_session_id = sid, i_seq = seq,
      i_client_message_id = ''import:'' @ he_source_id e, i_author_user_id = None,
      i_source = Some IMPORTED_SOURCE, i_content = he_content e, i_content_blocks = he_content_blocks e,
      i_state = Imported, i_response_id = None, i_failure = None, i_import_record = Some (he_record e),
      i_created_at = he_created_at e, i_delivered_at = None, i_admitted_at = None,
      i_conversation_order = Some position\<rparr>"

definition imported_response :: "string \<Rightarrow> history_entry \<Rightarrow> int \<Rightarrow> int \<Rightarrow> response_row" where
  "imported_response sid e position seq =
     \<lparr>r_session_id = sid, r_response_id = ''import:'' @ he_source_id e, r_seq = seq,
      r_origin = OriginImport, r_status = Ended, r_outcome = he_outcome e, r_native_reason = None,
      r_usage = None, r_error = None, r_import_record = Some (he_record e),
      r_started_at = he_created_at e, r_ended_at = Some (he_created_at e),
      r_conversation_order = Some position\<rparr>"

definition insert_input :: "input_row \<Rightarrow> db \<Rightarrow> db res" where
  "insert_input row db =
     (if \<not> exists_row (\<lambda>s. s_session_id s = i_session_id row) (t_sessions db) then Inl ForeignKeyViolation
      else if exists_row (\<lambda>i. i_input_id i = i_input_id row \<or> input_key i = input_key row) (t_inputs db)
      then Inl UniqueViolation
      else Inr (db\<lparr>t_inputs := t_inputs db @ [row], t_next_input_seq := t_next_input_seq db + 1\<rparr>))"

definition insert_response :: "response_row \<Rightarrow> db \<Rightarrow> db res" where
  "insert_response row db =
     (if \<not> exists_row (\<lambda>s. s_session_id s = r_session_id row) (t_sessions db) then Inl ForeignKeyViolation
      else if exists_row (\<lambda>r. response_key r = response_key row) (t_responses db) then Inl UniqueViolation
      else Inr (db\<lparr>t_responses := t_responses db @ [row], t_next_response_seq := t_next_response_seq db + 1\<rparr>))"

definition answer_import :: "string \<Rightarrow> string \<Rightarrow> string \<Rightarrow> db \<Rightarrow> db res" where
  "answer_import sid rid parent db =
     (let link = \<lparr>ri_session_id = sid, ri_response_id = rid, ri_input_id = parent\<rparr> in
      if exists_row (\<lambda>l. response_input_key l = response_input_key link) (t_response_inputs db)
      then Inl UniqueViolation
      else Inr (db\<lparr>t_response_inputs := t_response_inputs db @ [link],
                   t_inputs := update_where (\<lambda>i. i_input_id i = parent)
                     (\<lambda>i. i\<lparr>i_response_id := Some rid\<rparr>) (t_inputs db)\<rparr>))"

text \<open>One imported message; \<open>iid\<close> is the identifier generated for a user message.\<close>

definition import_entry :: "string \<Rightarrow> string \<times> history_entry \<Rightarrow> (string, string) dict \<times> db \<Rightarrow>
    ((string, string) dict \<times> db) res" where
  "import_entry sid item state =
     (case (item, state) of ((iid, e), (known, db)) \<Rightarrow>
        rbind (import_position (Some (he_record e))) (\<lambda>position.
        if he_role e = RoleUser then
          rbind (insert_input (imported_input sid iid e position (t_next_input_seq db)) db) (\<lambda>db'.
            Inr (dict_set (he_source_id e) iid known, db'))
        else
          rbind (insert_response (imported_response sid e position (t_next_response_seq db)) db) (\<lambda>db'.
            case map_of known (coalesce (he_parent_source_id e) []) of
              None \<Rightarrow> Inr (known, db')
            | Some parent \<Rightarrow>
                rbind (answer_import sid (''import:'' @ he_source_id e) parent db') (\<lambda>db''.
                  Inr (known, db'')))))"

definition import_history :: "string \<Rightarrow> (string \<times> history_entry) list \<Rightarrow> db \<Rightarrow> bool res \<times> db" where
  "import_history sid entries db =
     transaction (\<lambda>db.
       if has_own_messages sid db then Inr (False, db)
       else rbind (imported_inputs sid db) (\<lambda>known.
            rbind (rfold (import_entry sid) entries (known, db)) (\<lambda>final.
              Inr (True, snd final)))) db"

section \<open>Paged reads as an interface\<close>

text \<open>
  A paged read over strictly ordered entries, newest page first. A page is a block of entries
  directly before the cursor it was asked for; its own cursor is its oldest entry while older
  ones remain.
\<close>

locale keyset_pages =
  fixes ok :: "'st \<Rightarrow> bool"
    and entries :: "'st \<Rightarrow> 'k::linorder list"
    and page :: "'st \<Rightarrow> 'k option \<Rightarrow> 'k list"
    and cursor :: "'st \<Rightarrow> 'k option \<Rightarrow> 'k option"
    and below :: "'k option \<Rightarrow> 'k \<Rightarrow> bool"
  assumes strict: "ok s \<Longrightarrow> sorted_wrt (<) (entries s)"
    and below_None: "below None k"
    and below_Some: "below (Some c) k \<longleftrightarrow> k < c"
    and page_block: "ok s \<Longrightarrow> \<exists>older. filter (below b) (entries s) = older @ page s b \<and> (cursor s b = None \<longleftrightarrow> older = [])"
    and cursor_oldest: "ok s \<Longrightarrow> cursor s b = Some c \<Longrightarrow> page s b \<noteq> [] \<and> c = hd (page s b)"
begin

text \<open>Following the cursors for at most \<open>n\<close> pages; \<^const>\<open>None\<close> when that did not reach the end.\<close>

fun collect :: "'st \<Rightarrow> nat \<Rightarrow> 'k option \<Rightarrow> 'k list option" where
  "collect s 0 b = None"
| "collect s (Suc n) b =
     (case cursor s b of None \<Rightarrow> Some (page s b)
      | Some c \<Rightarrow> map_option (\<lambda>older. older @ page s b) (collect s n (Some c)))"

lemma page_older:
  assumes "ok s" and "cursor s b = Some c"
  shows "filter (below b) (entries s) = filter (below (Some c)) (entries s) @ page s b"
proof -
  from page_block [OF assms(1)] obtain older where older: "filter (below b) (entries s) = older @ page s b" by blast
  from cursor_oldest [OF assms] obtain rest where p: "page s b = c # rest" by (cases "page s b") auto
  have sorted: "sorted_wrt (<) (older @ page s b)"
    using strict [OF assms(1)] older by (metis sorted_wrt_filter)
  have low: "\<forall>k \<in> set older. k < c" and high: "\<forall>k \<in> set (page s b). \<not> k < c"
    using sorted p by (auto simp: sorted_wrt_append)
  have "filter (below (Some c)) (entries s) = filter (\<lambda>k. k < c) (filter (below b) (entries s))"
  proof -
    have "c \<in> set (filter (below b) (entries s))" using older p by simp
    then have "k < c \<Longrightarrow> below b k" for k by (cases b) (auto simp: below_None below_Some)
    then show ?thesis by (auto simp: below_Some intro: filter_cong)
  qed
  also have "\<dots> = older" using low high by (simp add: older filter_id_conv filter_empty_conv)
  finally show ?thesis using older by simp
qed

lemma page_shrinks:
  "ok s \<Longrightarrow> cursor s b = Some c \<Longrightarrow>
     length (filter (below (Some c)) (entries s)) < length (filter (below b) (entries s))"
  using page_older [of s b c] cursor_oldest [of s b c] by (cases "page s b") auto

text \<open>The walk ends, with every entry before the cursor it started from, once and in order.\<close>

lemma collect_before:
  "ok s \<Longrightarrow> length (filter (below b) (entries s)) < n \<Longrightarrow> collect s n b = Some (filter (below b) (entries s))"
proof (induction n arbitrary: b)
  case 0
  then show ?case by simp
next
  case (Suc n)
  show ?case
  proof (cases "cursor s b")
    case None
    with page_block [OF Suc.prems(1), of b] show ?thesis by auto
  next
    case (Some c)
    have "collect s n (Some c) = Some (filter (below (Some c)) (entries s))"
      using Suc.prems page_shrinks [OF Suc.prems(1) Some] by (intro Suc.IH) simp_all
    with Some page_older [OF Suc.prems(1) Some] show ?thesis by simp
  qed
qed

lemma collect_all: "ok s \<Longrightarrow> collect s (Suc (length (entries s))) None = Some (entries s)"
proof -
  assume "ok s"
  moreover have "filter (below None) (entries s) = entries s" by (simp add: below_None)
  ultimately show ?thesis using collect_before [of s None "Suc (length (entries s))"] by simp
qed

end

text \<open>The keys of a session's entries are distinct: kind and seq already tell them apart.\<close>

lemma entry_key_simps [simp]:
  "key_kind (entry_key through kind imported order seq) = kind"
  "key_seq (entry_key through kind imported order seq) = seq"
  by (simp_all add: entry_key_def key_kind_def key_seq_def)

lemma distinct_map_by: "distinct (map (h \<circ> f) xs) \<Longrightarrow> distinct (map f xs)"
  by (auto simp: distinct_map inj_on_def)

lemma distinct_history_entries:
  assumes "keys_ok db"
  shows "distinct (history_entries sid through db)"
proof -
  have seqs: "distinct (map i_seq (t_inputs db))" "distinct (map r_seq (t_responses db))"
    using assms by (simp_all add: keys_ok_def strict_sorted_iff)
  have "distinct (map (input_entry through) (filter (\<lambda>i. i_session_id i = sid) (t_inputs db)))"
    by (rule distinct_map_by [of key_seq]) (use seqs(1) in \<open>simp add: o_def input_entry_def distinct_map_filter\<close>)
  moreover have "distinct (map (response_entry through) (filter (\<lambda>r. r_session_id r = sid) (t_responses db)))"
    by (rule distinct_map_by [of key_seq]) (use seqs(2) in \<open>simp add: o_def response_entry_def distinct_map_filter\<close>)
  moreover have "input_entry through i \<noteq> response_entry through r" for i r
    by (rule notI, drule arg_cong [of _ _ key_kind]) (simp add: input_entry_def response_entry_def)
  ultimately show ?thesis by (auto simp: history_entries_def) metis
qed

definition ordered_entries :: "string \<Rightarrow> int option \<Rightarrow> db \<Rightarrow> entry_key list" where
  "ordered_entries sid through db = order_by id (history_entries sid through db)"

lemma ordered_entries_strict: "keys_ok db \<Longrightarrow> sorted_wrt (<) (ordered_entries sid through db)"
  using distinct_history_entries [of db sid through] sorted_order_by [of id "history_entries sid through db"]
    distinct_map_order_by [of id id "history_entries sid through db"]
  by (simp add: ordered_entries_def strict_sorted_iff)

lemma page_rows_eq:
  assumes "keys_ok db"
  shows "page_rows sid before limit through db =
    take (limit + 1) (rev (filter (before_key before) (ordered_entries sid through db)))"
proof -
  let ?E = "history_entries sid through db"
  have "order_by id (filter (before_key before) ?E) = filter (before_key before) (order_by id ?E)"
  proof (rule sorted_distinct_set_unique)
    have "distinct ?E" by (rule distinct_history_entries [OF assms])
    then show "distinct (order_by id (filter (before_key before) ?E))" "distinct (filter (before_key before) (order_by id ?E))"
      using distinct_map_order_by [of id id] by (metis distinct_filter list.map_id)+
    show "sorted (order_by id (filter (before_key before) ?E))" "sorted (filter (before_key before) (order_by id ?E))"
      using sorted_order_by [of id] by (metis list.map_id, metis list.map_id sorted_wrt_filter)
  qed simp
  then show ?thesis by (simp add: page_rows_def ordered_entries_def)
qed

lemma page_keys_block:
  assumes "keys_ok db" and "0 < limit"
    and es_def: "es = filter (before_key before) (ordered_entries sid through db)"
  shows "es = take (length es - limit) es @ page_keys sid before limit through db"
    and "page_cursor sid before limit through db =
      (if length es \<le> limit then None else Some (hd (page_keys sid before limit through db)))"
    and "es \<noteq> [] \<Longrightarrow> page_keys sid before limit through db \<noteq> []"
proof -
  have "page_keys sid before limit through db = rev (take limit (rev es))"
    by (simp add: page_keys_def page_rows_eq [OF assms(1)] es_def min_def)
  then have keys: "page_keys sid before limit through db = drop (length es - limit) es"
    by (simp add: take_rev)
  then show "es = take (length es - limit) es @ page_keys sid before limit through db" by simp
  show nonempty: "page_keys sid before limit through db \<noteq> []" if "es \<noteq> []"
    using that assms(2) by (cases es) (auto simp: keys)
  have "length (page_rows sid before limit through db) = min (limit + 1) (length es)"
    by (simp add: page_rows_eq [OF assms(1)] es_def)
  then show "page_cursor sid before limit through db =
      (if length es \<le> limit then None else Some (hd (page_keys sid before limit through db)))"
    using nonempty by (cases "es = []") (auto simp: page_cursor_def Let_def)
qed

definition pages_ok :: "db \<times> string \<times> nat \<times> int option \<Rightarrow> bool" where
  "pages_ok q \<longleftrightarrow> (case q of (db, sid, limit, through) \<Rightarrow> keys_ok db \<and> 0 < limit)"

definition pages_entries :: "db \<times> string \<times> nat \<times> int option \<Rightarrow> entry_key list" where
  "pages_entries q = (case q of (db, sid, limit, through) \<Rightarrow> ordered_entries sid through db)"

definition pages_page :: "db \<times> string \<times> nat \<times> int option \<Rightarrow> entry_key option \<Rightarrow> entry_key list" where
  "pages_page q b = (case q of (db, sid, limit, through) \<Rightarrow> page_keys sid b limit through db)"

definition pages_cursor :: "db \<times> string \<times> nat \<times> int option \<Rightarrow> entry_key option \<Rightarrow> entry_key option" where
  "pages_cursor q b = (case q of (db, sid, limit, through) \<Rightarrow> hp_before (read_page sid b limit through db))"

lemma read_page_before [simp]: "hp_before (read_page sid b limit through db) = page_cursor sid b limit through db"
  by (simp add: read_page_def Let_def)

lemma pages_simps:
  "pages_cursor (db, sid, limit, through) b = page_cursor sid b limit through db"
  "pages_page (db, sid, limit, through) b = page_keys sid b limit through db"
  by (simp_all add: pages_cursor_def pages_page_def)

interpretation history: keyset_pages pages_ok pages_entries pages_page pages_cursor before_key
proof unfold_locales
  fix q :: "db \<times> string \<times> nat \<times> int option" and k b c
  obtain db sid limit through where q: "q = (db, sid, limit, through)" by (cases q)
  show "before_key None k" and "before_key (Some c) k \<longleftrightarrow> k < c" by (simp_all add: before_key_def)
  assume "pages_ok q"
  then have ok: "keys_ok db" "0 < limit" by (simp_all add: pages_ok_def q)
  show "sorted_wrt (<) (pages_entries q)" by (simp add: pages_entries_def q ordered_entries_strict ok)
  define es where "es = filter (before_key b) (ordered_entries sid through db)"
  note block = page_keys_block [OF ok es_def]
  show "\<exists>older. filter (before_key b) (pages_entries q) = older @ pages_page q b \<and>
      (pages_cursor q b = None \<longleftrightarrow> older = [])"
    using block(1,2) ok(2)
    by (intro exI [of _ "take (length es - limit) es"])
       (auto simp: q pages_entries_def pages_page_def pages_cursor_def simp flip: es_def)
  show "pages_cursor q b = Some c \<Longrightarrow> pages_page q b \<noteq> [] \<and> c = hd (pages_page q b)"
    using block(2,3) by (cases "es = []") (auto simp: q pages_page_def pages_cursor_def split: if_splits)
qed

section \<open>Walking the history\<close>

text \<open>A client that reads page after page, at most \<open>n\<close> of them (\<^const>\<open>None\<close> when more remain).\<close>

fun walk_history :: "nat \<Rightarrow> string \<Rightarrow> nat \<Rightarrow> int option \<Rightarrow> entry_key option \<Rightarrow> db \<Rightarrow>
    (message_kind \<times> int) list option res" where
  "walk_history 0 sid limit through b db = Inr None"
| "walk_history (Suc n) sid limit through b db =
     (case history_page sid b limit through db of
        (Inl e, db') \<Rightarrow> Inl e
      | (Inr page, db') \<Rightarrow>
          (case hp_before page of
             None \<Rightarrow> Inr (Some (hp_entries page))
           | Some c \<Rightarrow> rbind (walk_history n sid limit through (Some c) db') (\<lambda>older.
               Inr (map_option (\<lambda>es. es @ hp_entries page) older))))"

definition entry_of :: "entry_key \<Rightarrow> message_kind \<times> int" where
  "entry_of k = (if key_kind k = 0 then MInput else MResponse, key_seq k)"

lemma read_page_entries: "hp_entries (read_page sid b limit through db) = map entry_of (page_keys sid b limit through db)"
  by (simp add: read_page_def Let_def entry_of_def)

text \<open>Filling the positions is idempotent: they depend on the log and the links only.\<close>

lemma position_cong:
  assumes "t_output db' = t_output db" and "t_response_inputs db' = t_response_inputs db"
  shows "observed_markers sid db' = observed_markers sid db"
    and "input_position sid db' obs iid = input_position sid db obs iid"
    and "response_position sid db' obs rid = response_position sid db obs rid"
proof -
  have "boundary_position sid db' = boundary_position sid db"
    using assms by (simp add: boundary_position_def min_position_def fun_eq_iff)
  with assms show "observed_markers sid db' = observed_markers sid db"
    and "input_position sid db' obs iid = input_position sid db obs iid"
    and "response_position sid db' obs rid = response_position sid db obs rid"
    by (simp_all add: observed_markers_def input_position_def response_position_def consumed_position_def
        anchor_position_def body_position_def min_position_def cong: if_cong)
qed

lemma fill_input_again:
  assumes "fill_input sid db obs i = Inr i'" and "t_output db' = t_output db"
    and "t_response_inputs db' = t_response_inputs db"
  shows "fill_input sid db' obs i' = Inr i'"
proof (cases "i_session_id i \<noteq> sid \<or> i_conversation_order i \<noteq> None")
  case True
  with assms(1) show ?thesis by (auto simp: fill_input_def)
next
  case False
  with assms(1) obtain p where
    p: "recorded_position (i_import_record i) (input_position sid db obs (i_input_id i)) = Inr p"
    and i': "i' = i\<lparr>i_conversation_order := p\<rparr>"
    by (auto simp: fill_input_def rbind_Inr_iff)
  from p have "recorded_position (i_import_record i) (input_position sid db' obs (i_input_id i)) = Inr p"
    by (simp only: position_cong [OF assms(2,3)])
  with False show ?thesis by (cases p) (simp_all add: i' fill_input_def)
qed

lemma fill_response_again:
  assumes "fill_response sid db obs r = Inr r'" and "t_output db' = t_output db"
    and "t_response_inputs db' = t_response_inputs db"
  shows "fill_response sid db' obs r' = Inr r'"
proof (cases "r_session_id r \<noteq> sid \<or> r_conversation_order r \<noteq> None")
  case True
  with assms(1) show ?thesis by (auto simp: fill_response_def)
next
  case False
  with assms(1) obtain p where
    p: "recorded_position (r_import_record r) (response_position sid db obs (r_response_id r)) = Inr p"
    and r': "r' = r\<lparr>r_conversation_order := p\<rparr>"
    by (auto simp: fill_response_def rbind_Inr_iff)
  from p have "recorded_position (r_import_record r) (response_position sid db' obs (r_response_id r)) = Inr p"
    by (simp only: position_cong [OF assms(2,3)])
  with False show ?thesis by (cases p) (simp_all add: r' fill_response_def)
qed

lemma rmap_again:
  assumes "rmap f xs = Inr ys" and "\<And>x y. f x = Inr y \<Longrightarrow> g y = Inr y"
  shows "rmap g ys = Inr ys"
  using assms(1)
proof (induction xs arbitrary: ys)
  case Nil
  then show ?case by simp
next
  case (Cons x xs)
  then show ?case by (auto simp: rbind_Inr_iff assms(2))
qed

lemma index_again:
  assumes "index_recorded_messages sid db = Inr db'"
  shows "index_recorded_messages sid db' = Inr db'"
proof (cases "db' = db")
  case True
  with assms show ?thesis by simp
next
  case False
  with assms obtain obs where obs: "observed_markers sid db = Inr obs"
    and inputs: "rmap (fill_input sid db obs) (t_inputs db) = Inr (t_inputs db')"
    and responses: "rmap (fill_response sid db obs) (t_responses db) = Inr (t_responses db')"
    and same: "t_output db' = t_output db" "t_response_inputs db' = t_response_inputs db"
    by (simp add: index_recorded_messages_def rbind_Inr_iff split: if_splits) (elim exE conjE, auto)
  have "rmap (fill_input sid db' obs) (t_inputs db') = Inr (t_inputs db')"
    using inputs by (rule rmap_again) (rule fill_input_again [OF _ same])
  moreover have "rmap (fill_response sid db' obs) (t_responses db') = Inr (t_responses db')"
    using responses by (rule rmap_again) (rule fill_response_again [OF _ same])
  moreover have "observed_markers sid db' = Inr obs" using obs position_cong(1) [OF same, of sid] by simp
  ultimately show ?thesis by (simp add: index_recorded_messages_def)
qed

lemma history_page_indexed:
  "index_recorded_messages sid db = Inr db' \<Longrightarrow>
     history_page sid b limit through db = (Inr (read_page sid b limit through db'), db')"
  by (simp add: history_page_def)

lemma walk_history_collect:
  assumes "index_recorded_messages sid db = Inr db"
  shows "walk_history n sid limit through b db =
    Inr (map_option (map entry_of) (history.collect (db, sid, limit, through) n b))"
proof (induction n arbitrary: b)
  case 0
  then show ?case by simp
next
  case (Suc n)
  show ?case
    by (cases "page_cursor sid b limit through db")
       (simp_all add: history_page_indexed [OF assms] read_page_entries pages_simps Suc option.map_comp o_def)
qed

lemma walk_history_indexed:
  assumes "index_recorded_messages sid db = Inr db'"
  shows "walk_history n sid limit through b db = walk_history n sid limit through b db'"
  by (cases n) (simp_all add: history_page_indexed [OF assms] history_page_indexed [OF index_again [OF assms]])

lemma entries_set:
  "set (map entry_of (ordered_entries sid through db)) =
     (\<lambda>i. (MInput, i_seq i)) ` {i \<in> set (t_inputs db). i_session_id i = sid} \<union>
     (\<lambda>r. (MResponse, r_seq r)) ` {r \<in> set (t_responses db). r_session_id r = sid}"
  by (simp add: ordered_entries_def history_entries_def entry_of_def input_entry_def response_entry_def
      image_Un image_image)

lemma entries_distinct:
  assumes "keys_ok db"
  shows "distinct (map entry_of (ordered_entries sid through db))"
proof -
  have "inj_on entry_of (set (history_entries sid through db))"
  proof (rule inj_onI)
    fix a b assume "a \<in> set (history_entries sid through db)" "b \<in> set (history_entries sid through db)" "entry_of a = entry_of b"
    moreover have "distinct (map i_seq (t_inputs db))" "distinct (map r_seq (t_responses db))"
      using assms by (simp_all add: keys_ok_def strict_sorted_iff)
    ultimately show "a = b"
      by (auto simp: history_entries_def entry_of_def input_entry_def response_entry_def split: if_splits
          dest: unique_row)
  qed
  with distinct_history_entries [OF assms] show ?thesis
    by (simp only: ordered_entries_def distinct_map_order_by) (simp add: distinct_map)
qed

section \<open>Import\<close>

definition waiting_ids :: "string \<Rightarrow> db \<Rightarrow> string list" where
  "waiting_ids sid db = map i_input_id (filter (\<lambda>i. i_session_id i = sid \<and> i_state i = Pending) (t_inputs db))"

lemma waiting_ids_eq: "keys_ok db \<Longrightarrow> map i_input_id (undelivered_inputs sid db) = waiting_ids sid db"
  by (simp add: undelivered_inputs_eq waiting_ids_def)

text \<open>What one imported message, and so any number of them, leaves as it was.\<close>

definition import_kept :: "db \<Rightarrow> db \<Rightarrow> bool" where
  "import_kept db db' \<longleftrightarrow>
     keys_ok db' \<and> evolves UNIV db db' \<and> (\<forall>sid. waiting_ids sid db' = waiting_ids sid db) \<and>
     (\<forall>sid. open_response_ids sid db' = open_response_ids sid db)"

lemma import_kept_refl: "keys_ok db \<Longrightarrow> import_kept db db"
  by (simp add: import_kept_def)

lemma import_kept_trans: "import_kept a b \<Longrightarrow> import_kept b c \<Longrightarrow> import_kept a c"
  by (auto simp: import_kept_def intro: evolves_trans)

lemma keys_ok_insert_input:
  assumes "insert_input row db = Inr db'" and "keys_ok db" and "i_seq row = t_next_input_seq db"
  shows "keys_ok db'"
proof -
  from assms(1) have "i_input_id row \<notin> i_input_id ` set (t_inputs db)" "input_key row \<notin> input_key ` set (t_inputs db)"
    and db': "db' = db\<lparr>t_inputs := t_inputs db @ [row], t_next_input_seq := t_next_input_seq db + 1\<rparr>"
    by (auto simp: insert_input_def exists_row_iff split: if_splits)
  with assms(2,3) show ?thesis by (force simp: keys_ok_def sorted_wrt_append)
qed

lemma keys_ok_insert_response:
  assumes "insert_response row db = Inr db'" and "keys_ok db" and "r_seq row = t_next_response_seq db"
  shows "keys_ok db'"
proof -
  from assms(1) have "response_key row \<notin> response_key ` set (t_responses db)"
    and db': "db' = db\<lparr>t_responses := t_responses db @ [row], t_next_response_seq := t_next_response_seq db + 1\<rparr>"
    by (auto simp: insert_response_def exists_row_iff split: if_splits)
  with assms(2,3) show ?thesis by (force simp: keys_ok_def sorted_wrt_append)
qed

lemma import_kept_input:
  assumes "insert_input (imported_input sid iid e position (t_next_input_seq db)) db = Inr db'" and "keys_ok db"
  shows "import_kept db db'"
proof -
  have "keys_ok db'" using assms by (rule keys_ok_insert_input) (simp add: imported_input_def)
  moreover have "evolves UNIV db db'"
    using assms(1) by (intro evolves_inputs) (auto simp: insert_input_def intro!: grows_append split: if_splits)
  ultimately show ?thesis
    using assms(1)
    by (auto simp: import_kept_def insert_input_def waiting_ids_def imported_input_def open_response_ids_def
        split: if_splits)
qed

lemma import_kept_response:
  assumes "insert_response (imported_response sid e position (t_next_response_seq db)) db = Inr db'" and "keys_ok db"
  shows "import_kept db db'"
proof -
  have "keys_ok db'" using assms by (rule keys_ok_insert_response) (simp add: imported_response_def)
  moreover have "evolves UNIV db db'"
    using assms(1) by (intro evolves_responses) (auto simp: insert_response_def intro!: grows_append split: if_splits)
  ultimately show ?thesis
    using assms(1)
    by (auto simp: import_kept_def insert_response_def waiting_ids_def imported_response_def open_response_ids_def
        split: if_splits)
qed

lemma waiting_ids_update:
  assumes "\<And>i. i_input_id (f i) = i_input_id i \<and> i_session_id (f i) = i_session_id i \<and> i_state (f i) = i_state i"
  shows "map i_input_id (filter (\<lambda>i. i_session_id i = sid \<and> i_state i = Pending) (update_where p f rows)) =
    map i_input_id (filter (\<lambda>i. i_session_id i = sid \<and> i_state i = Pending) rows)"
  by (induction rows) (auto simp: assms)

lemma import_kept_answer:
  assumes "answer_import sid rid parent db = Inr db'" and "keys_ok db"
  shows "import_kept db db'"
proof -
  have "distinct (map i_input_id (t_inputs db'))" "distinct (map input_key (t_inputs db'))"
    "map i_seq (t_inputs db') = map i_seq (t_inputs db)"
    using assms by (auto simp: answer_import_def Let_def keys_ok_def map_update_where key_defs split: if_splits)
  then have "keys_ok db'"
    using assms keys_ok_update_inputs [of db "\<lambda>i. i\<lparr>i_response_id := Some rid\<rparr>" "\<lambda>i. i_input_id i = parent"]
    by (auto simp: answer_import_def Let_def keys_ok_def exists_row_iff key_defs image_iff split: if_splits)
  moreover have "evolves UNIV db db'"
    using assms(1) by (intro evolves_inputs)
      (auto simp: answer_import_def Let_def input_step_def intro!: grows_update_where split: if_splits)
  ultimately show ?thesis
    using assms(1)
    by (auto simp: import_kept_def answer_import_def Let_def waiting_ids_def waiting_ids_update
        open_response_ids_def split: if_splits)
qed

lemma import_entry_kept:
  assumes "import_entry sid item (known, db) = Inr (known', db')" and "keys_ok db"
  shows "import_kept db db'"
proof -
  obtain iid e where item: "item = (iid, e)" by (cases item)
  show ?thesis
  proof (cases "he_role e = RoleUser")
    case True
    with assms show ?thesis by (auto simp: import_entry_def item rbind_Inr_iff intro: import_kept_input)
  next
    case False
    with assms(1) obtain position mid where
      mid: "insert_response (imported_response sid e position (t_next_response_seq db)) db = Inr mid"
      and rest: "db' = mid \<or> (\<exists>parent. answer_import sid (''import:'' @ he_source_id e) parent mid = Inr db')"
      by (auto simp: import_entry_def item rbind_Inr_iff split: option.splits)
    from mid assms(2) have kept: "import_kept db mid" by (rule import_kept_response)
    then have "keys_ok mid" by (simp add: import_kept_def)
    with rest kept show ?thesis by (auto intro: import_kept_trans import_kept_answer)
  qed
qed

lemma import_entries_kept:
  assumes "rfold (import_entry sid) entries (known, db) = Inr (known', db')" and "keys_ok db"
  shows "import_kept db db'"
proof -
  have "import_kept db (snd (known', db'))"
    using assms(1)
  proof (rule rfold_invariant [where P = "\<lambda>s. import_kept db (snd s)"])
    fix item a b assume "import_kept db (snd a)" "import_entry sid item a = Inr b"
    then show "import_kept db (snd b)"
      by (cases a; cases b) (auto simp: import_kept_def dest!: import_entry_kept intro: evolves_trans)
  qed (simp add: import_kept_refl assms(2))
  then show ?thesis by simp
qed

text \<open>
  What an import stores: each user message as an input, each reply as an ended response, with
  the record, the declared position and the time of the source; and which input each reply
  answers, by the source identifiers known when it is reached.
\<close>

fun stored_input :: "string \<Rightarrow> string \<times> history_entry \<Rightarrow> input_row \<Rightarrow> bool" where
  "stored_input sid (iid, e) i \<longleftrightarrow>
     i_session_id i = sid \<and> i_input_id i = iid \<and> i_source i = Some IMPORTED_SOURCE \<and> i_state i = Imported \<and>
     i_content i = he_content e \<and> i_content_blocks i = he_content_blocks e \<and> i_import_record i = Some (he_record e) \<and>
     map_sum id Some (import_position (Some (he_record e))) = Inr (i_conversation_order i) \<and> i_created_at i = he_created_at e"

fun stored_reply :: "string \<Rightarrow> string \<times> history_entry \<Rightarrow> response_row \<Rightarrow> bool" where
  "stored_reply sid (iid, e) r \<longleftrightarrow>
     r_session_id r = sid \<and> r_response_id r = ''import:'' @ he_source_id e \<and> r_origin r = OriginImport \<and>
     r_status r = Ended \<and> r_outcome r = he_outcome e \<and> r_import_record r = Some (he_record e) \<and>
     map_sum id Some (import_position (Some (he_record e))) = Inr (r_conversation_order r) \<and>
     r_started_at r = he_created_at e \<and> r_ended_at r = Some (he_created_at e)"

abbreviation is_user_entry :: "string \<times> history_entry \<Rightarrow> bool" where
  "is_user_entry item \<equiv> he_role (snd item) = RoleUser"

fun reply_links :: "string \<Rightarrow> (string, string) dict \<Rightarrow> (string \<times> history_entry) list \<Rightarrow> response_input_row list" where
  "reply_links sid known [] = []"
| "reply_links sid known ((iid, e) # items) =
     (if he_role e = RoleUser then reply_links sid (dict_set (he_source_id e) iid known) items
      else (case map_of known (coalesce (he_parent_source_id e) []) of
              None \<Rightarrow> []
            | Some parent \<Rightarrow> [\<lparr>ri_session_id = sid, ri_response_id = ''import:'' @ he_source_id e, ri_input_id = parent\<rparr>]) @
           reply_links sid known items)"

abbreviation unanswered :: "input_row \<Rightarrow> input_row" where
  "unanswered i \<equiv> i\<lparr>i_response_id := None\<rparr>"

lemma unanswered_update: "map unanswered (update_where p (\<lambda>i. i\<lparr>i_response_id := v\<rparr>) rows) = map unanswered rows"
  by (induction rows) auto

lemma stored_input_unanswered: "stored_input sid item (unanswered i) = stored_input sid item i"
  by (cases item) simp

lemma import_user_stores:
  assumes "import_entry sid (iid, e) (known, db) = Inr (known', db')" and "he_role e = RoleUser"
  shows "\<exists>i. map unanswered (t_inputs db') = map unanswered (t_inputs db) @ [unanswered i] \<and> stored_input sid (iid, e) i \<and>
    t_responses db' = t_responses db \<and> t_response_inputs db' = t_response_inputs db \<and> known' = dict_set (he_source_id e) iid known"
proof -
  from assms obtain position where position: "import_position (Some (he_record e)) = Inr position"
    and insert: "insert_input (imported_input sid iid e position (t_next_input_seq db)) db = Inr db'"
    and known: "known' = dict_set (he_source_id e) iid known"
    by (auto simp: import_entry_def rbind_Inr_iff)
  from insert position known show ?thesis
    by (intro exI [of _ "imported_input sid iid e position (t_next_input_seq db)"])
       (auto simp: insert_input_def imported_input_def split: if_splits)
qed

lemma import_reply_stores:
  assumes "import_entry sid (iid, e) (known, db) = Inr (known', db')" and "he_role e \<noteq> RoleUser"
  shows "\<exists>r. t_responses db' = t_responses db @ [r] \<and> stored_reply sid (iid, e) r \<and>
    map unanswered (t_inputs db') = map unanswered (t_inputs db) \<and> known' = known \<and>
    t_response_inputs db' = t_response_inputs db @ reply_links sid known [(iid, e)]"
proof -
  from assms obtain position mid where position: "import_position (Some (he_record e)) = Inr position"
    and insert: "insert_response (imported_response sid e position (t_next_response_seq db)) db = Inr mid"
    and rest: "(case map_of known (coalesce (he_parent_source_id e) []) of
        None \<Rightarrow> Inr (known, mid)
      | Some parent \<Rightarrow> rbind (answer_import sid (''import:'' @ he_source_id e) parent mid) (\<lambda>db''. Inr (known, db''))) = Inr (known', db')"
    by (auto simp: import_entry_def rbind_Inr_iff)
  have mid: "mid = db\<lparr>t_responses := t_responses db @ [imported_response sid e position (t_next_response_seq db)],
      t_next_response_seq := t_next_response_seq db + 1\<rparr>"
    using insert by (auto simp: insert_response_def split: if_splits)
  have "stored_reply sid (iid, e) (imported_response sid e position (t_next_response_seq db))"
    using position by (simp add: imported_response_def)
  moreover have "t_responses db' = t_responses mid \<and> map unanswered (t_inputs db') = map unanswered (t_inputs mid) \<and> known' = known \<and>
      t_response_inputs db' = t_response_inputs mid @ reply_links sid known [(iid, e)]"
    using rest assms(2) by (auto simp: answer_import_def Let_def unanswered_update rbind_Inr_iff split: option.splits if_splits)
  ultimately show ?thesis by (simp add: mid)
qed

lemma import_entries_store:
  assumes "rfold (import_entry sid) entries (known, db) = Inr (known', db')"
  shows "\<exists>is rs. map unanswered (t_inputs db') = map unanswered (t_inputs db) @ map unanswered is \<and>
    list_all2 (stored_input sid) (filter is_user_entry entries) is \<and>
    t_responses db' = t_responses db @ rs \<and> list_all2 (stored_reply sid) (filter (\<lambda>x. \<not> is_user_entry x) entries) rs \<and>
    t_response_inputs db' = t_response_inputs db @ reply_links sid known entries"
  using assms
proof (induction entries arbitrary: known db)
  case (Cons item items)
  obtain iid e where item: "item = (iid, e)" by (cases item)
  from Cons.prems obtain known1 db1 where one: "import_entry sid (iid, e) (known, db) = Inr (known1, db1)"
    and rest: "rfold (import_entry sid) items (known1, db1) = Inr (known', db')"
    by (auto simp: item rbind_Inr_iff)
  from Cons.IH [OF rest] obtain "is" rs where later: "map unanswered (t_inputs db') = map unanswered (t_inputs db1) @ map unanswered is"
      "list_all2 (stored_input sid) (filter is_user_entry items) is" "t_responses db' = t_responses db1 @ rs"
      "list_all2 (stored_reply sid) (filter (\<lambda>x. \<not> is_user_entry x) items) rs"
      "t_response_inputs db' = t_response_inputs db1 @ reply_links sid known1 items" by blast
  show ?case
  proof (cases "he_role e = RoleUser")
    case True
    from import_user_stores [OF one True] obtain i where "map unanswered (t_inputs db1) = map unanswered (t_inputs db) @ [unanswered i]"
      "stored_input sid (iid, e) i" "t_responses db1 = t_responses db" "t_response_inputs db1 = t_response_inputs db"
      "known1 = dict_set (he_source_id e) iid known" by blast
    with later True show ?thesis by (intro exI [of _ "i # is"] exI [of _ rs]) (simp add: item)
  next
    case False
    from import_reply_stores [OF one False] obtain r where "t_responses db1 = t_responses db @ [r]" "stored_reply sid (iid, e) r"
      "map unanswered (t_inputs db1) = map unanswered (t_inputs db)" "known1 = known"
      "t_response_inputs db1 = t_response_inputs db @ reply_links sid known [(iid, e)]" by blast
    with later False show ?thesis by (intro exI [of _ "is"] exI [of _ "r # rs"]) (simp add: item)
  qed
qed simp

lemma stored_inputs_drop:
  assumes "map unanswered rows' = map unanswered rows @ map unanswered is" and "list_all2 (stored_input sid) items is"
  shows "list_all2 (stored_input sid) items (drop (length rows) rows')"
proof -
  have "map unanswered (drop (length rows) rows') = map unanswered is"
    using arg_cong [OF assms(1), of "drop (length rows)"] by (simp add: drop_map)
  moreover have "list_all2 (stored_input sid) items xs \<longleftrightarrow> list_all2 (stored_input sid) items (map unanswered xs)" for xs
    by (simp only: list_all2_map2 stored_input_unanswered)
  ultimately show ?thesis using assms(2) by metis
qed

section \<open>Properties\<close>

text \<open>
  C13. Paging loses and repeats nothing. Reading \<^verbatim>\<open>history_page\<close> from the newest page on, each time
  with the \<^verbatim>\<open>before\<close> of the page just read, ends; the pages together are every input and every
  response of the session exactly once, in conversation order: imported history first, then
  what the engine observed by position, then the inputs still queued.
\<close>

theorem history_pages_complete:
  assumes "keys_ok db" and "0 < limit" and "index_recorded_messages sid db = Inr db'"
  shows "walk_history (Suc (length (t_inputs db') + length (t_responses db'))) sid limit through None db =
      Inr (Some (map entry_of (ordered_entries sid through db'))) \<and>
    sorted_wrt (<) (ordered_entries sid through db') \<and>
    distinct (map entry_of (ordered_entries sid through db')) \<and>
    set (map entry_of (ordered_entries sid through db')) =
      (\<lambda>i. (MInput, i_seq i)) ` {i \<in> set (t_inputs db'). i_session_id i = sid} \<union>
      (\<lambda>r. (MResponse, r_seq r)) ` {r \<in> set (t_responses db'). r_session_id r = sid}"
proof -
  have ok: "keys_ok db'" using assms(3,1) by (rule keys_ok_index)
  let ?q = "(db', sid, limit, through)"
  have "length (ordered_entries sid through db') \<le> length (t_inputs db') + length (t_responses db')"
    using length_filter_le [of "\<lambda>i. i_session_id i = sid" "t_inputs db'"]
      length_filter_le [of "\<lambda>r. r_session_id r = sid" "t_responses db'"]
    by (simp add: ordered_entries_def history_entries_def add_mono)
  moreover have all: "filter (before_key None) (pages_entries ?q) = ordered_entries sid through db'"
    by (simp add: before_key_def pages_entries_def)
  ultimately have "history.collect ?q (Suc (length (t_inputs db') + length (t_responses db'))) None =
      Some (ordered_entries sid through db')"
    using history.collect_before [of ?q None] ok assms(2) by (simp add: pages_ok_def del: history.collect.simps)
  then have "walk_history (Suc (length (t_inputs db') + length (t_responses db'))) sid limit through None db =
      Inr (Some (map entry_of (ordered_entries sid through db')))"
    using walk_history_indexed [OF assms(3)] walk_history_collect [OF index_again [OF assms(3)]] by simp
  with ordered_entries_strict [OF ok] entries_distinct [OF ok] entries_set show ?thesis by blast
qed

theorem history_pages_complete_witness:
  "walk_history 3 ''s'' 1 None None sample_two = Inr (Some [(MInput, 1), (MInput, 2)])"
proof -
  have index: "index_recorded_messages ''s'' sample_two = Inr sample_two" by code_simp
  have n: "Suc (length (t_inputs sample_two) + length (t_responses sample_two)) = 3" by code_simp
  have es: "map entry_of (ordered_entries ''s'' None sample_two) = [(MInput, 1), (MInput, 2)]" by code_simp
  from history_pages_complete [OF sample_two_keys zero_less_one index, of None]
  show ?thesis by (simp only: n es)
qed

text \<open>
  C36. An import stores the whole history, in order and apart. \<^verbatim>\<open>import_history\<close> leaves a
  conversation that has a message of its own untouched, and stores nothing when it raises or
  refuses. When it succeeds the inputs it added are the user messages given, in their order,
  and the responses it added the replies given, in theirs, each with its record, declared
  position and original time; the answers it noted are those of the replies whose parent is a
  known message. What it stores is never handed to a runtime and opens nothing (the inputs
  waiting and the responses open are the same as before, in every session), no stored row is
  lost and the keys are kept.
\<close>

theorem import_history_stays_apart:
  assumes "keys_ok db" and "import_history sid entries db = (res, db')"
  shows "keys_ok db' \<and> evolves UNIV db db' \<and>
    (has_own_messages sid db \<or> (\<exists>e. res = Inl e) \<or> res = Inr False \<longrightarrow> db' = db) \<and>
    (res = Inr True \<longrightarrow>
       list_all2 (stored_input sid) (filter is_user_entry entries) (drop (length (t_inputs db)) (t_inputs db')) \<and>
       list_all2 (stored_reply sid) (filter (\<lambda>item. \<not> is_user_entry item) entries) (drop (length (t_responses db)) (t_responses db')) \<and>
       (\<exists>known. imported_inputs sid db = Inr known \<and>
          t_response_inputs db' = t_response_inputs db @ reply_links sid known entries)) \<and>
    map i_input_id (undelivered_inputs sid' db') = map i_input_id (undelivered_inputs sid' db) \<and>
    open_response_ids sid' db' = open_response_ids sid' db"
proof -
  consider (same) "db' = db" "res \<noteq> Inr True" | (stored) known known' where
    "\<not> has_own_messages sid db" "res = Inr True" "imported_inputs sid db = Inr known"
    "rfold (import_entry sid) entries (known, db) = Inr (known', db')"
    using assms(2)
    by (auto simp: import_history_def transaction_def rbind_Inr_iff split: sum.splits if_splits)
  then show ?thesis
  proof cases
    case same
    with assms(1) show ?thesis by simp
  next
    case stored
    from import_entries_store [OF stored(4)] obtain "is" rs where
      inputs: "map unanswered (t_inputs db') = map unanswered (t_inputs db) @ map unanswered is"
        "list_all2 (stored_input sid) (filter is_user_entry entries) is"
      and rest: "t_responses db' = t_responses db @ rs" "list_all2 (stored_reply sid) (filter (\<lambda>x. \<not> is_user_entry x) entries) rs"
        "t_response_inputs db' = t_response_inputs db @ reply_links sid known entries" by blast
    have "import_kept db db'" using stored(4) assms(1) by (rule import_entries_kept)
    with stored(1-3) assms(1) rest stored_inputs_drop [OF inputs] show ?thesis by (auto simp: import_kept_def waiting_ids_eq)
  qed
qed

definition sample_entry :: "role \<Rightarrow> string \<Rightarrow> string option \<Rightarrow> int \<Rightarrow> history_entry" where
  "sample_entry role source parent position =
     \<lparr>he_role = role, he_source_id = source, he_parent_source_id = parent, he_content = ''old'',
      he_content_blocks = None, he_outcome = Some Completed,
      he_record = [(''source_id'', JStr source), (''position'', JInt position)], he_created_at = 1\<rparr>"

definition sample_imported :: db where
  "sample_imported = snd (import_history ''s''
     [(''x'', sample_entry RoleUser ''a'' None 1), (''y'', sample_entry RoleAssistant ''b'' (Some ''a'') 2)] sample_db)"

theorem import_history_stays_apart_witness:
  "map (\<lambda>i. (i_input_id i, i_conversation_order i)) (t_inputs sample_imported) = [(''x'', Some 1)] \<and>
   length (t_responses sample_imported) = 1 \<and> undelivered_inputs ''s'' sample_imported = []"
proof -
  let ?es = "[(''x'', sample_entry RoleUser ''a'' None 1), (''y'', sample_entry RoleAssistant ''b'' (Some ''a'') 2)]"
  have "map_sum (\<lambda>e. ()) id (fst (import_history ''s'' ?es sample_db)) = Inr True" by code_simp
  then have res: "fst (import_history ''s'' ?es sample_db) = Inr True" by (cases "fst (import_history ''s'' ?es sample_db)") simp_all
  have call: "import_history ''s'' ?es sample_db = (Inr True, sample_imported)"
    by (simp add: sample_imported_def prod_eq_iff res)
  have before: "t_inputs sample_db = []" "t_responses sample_db = []" "undelivered_inputs ''s'' sample_db = []" by code_simp+
  have position: "import_position (Some (he_record (sample_entry RoleUser ''a'' None 1))) = Inr 1" by code_simp
  have roles: "he_role (sample_entry role a p n) = role" for role a p n by (simp add: sample_entry_def)
  from import_history_stays_apart [OF sample_db_keys call, of "''s''"] before roles position show ?thesis
    by (auto simp: list_all2_Cons1)
qed

end
