(* ===== verification/UiMessage.thy ===== *)
theory UiMessage
  imports History
begin

text \<open>
  Folding stored parts into the messages a page shows, \<^verbatim>\<open>session_runtime/ui_message.py\<close>:
  \<^verbatim>\<open>fold_message\<close>, \<^verbatim>\<open>input_message\<close>, \<^verbatim>\<open>history_messages\<close> and the public projection of one part
  (\<^verbatim>\<open>public_part\<close>). The code keeps the open text, reasoning and tool parts in dictionaries that
  share the part objects with the message; here those dictionaries hold the part's index in
  the message, since parts are only appended while folding.
\<close>

section \<open>Diagnostics\<close>

definition diagnostic_subtypes :: "json list" where
  "diagnostic_subtypes = [JStr ''tool_progress'', JStr ''background_tasks_changed'', JStr ''compact_boundary'']"

definition is_claude_diagnostic_part :: "obj \<Rightarrow> bool res" where
  "is_claude_diagnostic_part part =
     (let data = get part ''data'' in
      if get part ''type'' = JStr ''data-raw-event'' \<and> is_obj data \<and>
         get (jfields data) ''event_type'' = JStr ''claude_code.sdk''
      then in_set (get (jfields data) ''subtype'') diagnostic_subtypes
      else Inr False)"

section \<open>Folding\<close>

record fold_state =
  f_parts :: "obj list"
  f_metadata :: obj
  f_texts :: "(string, nat) dict"
  f_reasonings :: "(string, nat) dict"
  f_tools :: "(string, nat) dict"
  f_data :: "(string \<times> string, nat) dict"

definition empty_fold :: fold_state where
  "empty_fold = \<lparr>f_parts = [], f_metadata = [], f_texts = [], f_reasonings = [], f_tools = [], f_data = []\<rparr>"

definition add_part :: "obj \<Rightarrow> fold_state \<Rightarrow> fold_state" where
  "add_part part st = st\<lparr>f_parts := f_parts st @ [part]\<rparr>"

definition update_part :: "nat \<Rightarrow> (obj \<Rightarrow> obj) \<Rightarrow> fold_state \<Rightarrow> fold_state" where
  "update_part n f st = st\<lparr>f_parts := (f_parts st)[n := f (f_parts st ! n)]\<rparr>"

text \<open>\<^verbatim>\<open>tool(chunk)\<close>: the tool call's part, added when this is its first chunk.\<close>

definition new_tool_part :: "obj \<Rightarrow> obj" where
  "new_tool_part chunk =
     (let name = str_or (get chunk ''toolName''); dynamic = truthy (get chunk ''dynamic'') in
      [(''type'', JStr (if dynamic then ''dynamic-tool'' else ''tool-'' @ name)),
       (''toolCallId'', JStr (str_or (get chunk ''toolCallId''))),
       (''state'', JStr ''input-streaming''), (''input'', JNull)] @
      (if dynamic then [(''toolName'', JStr name)] else []))"

definition tool_part :: "obj \<Rightarrow> fold_state \<Rightarrow> nat \<times> fold_state" where
  "tool_part chunk st =
     (let call_id = str_or (get chunk ''toolCallId'') in
      case map_of (f_tools st) call_id of
        Some n \<Rightarrow> (n, st)
      | None \<Rightarrow> (length (f_parts st),
                 (add_part (new_tool_part chunk) st)\<lparr>f_tools := dict_set call_id (length (f_parts st)) (f_tools st)\<rparr>))"

definition with_tool :: "obj \<Rightarrow> (obj \<Rightarrow> obj) \<Rightarrow> fold_state \<Rightarrow> fold_state" where
  "with_tool chunk f st = (case tool_part chunk st of (n, st') \<Rightarrow> update_part n f st')"

definition start_text :: "bool \<Rightarrow> obj \<Rightarrow> fold_state \<Rightarrow> fold_state" where
  "start_text is_text chunk st =
     (let part = [(''type'', JStr (if is_text then ''text'' else ''reasoning'')), (''text'', JStr ''''),
                  (''state'', JStr ''streaming'')] @
                 (if is_obj (get chunk ''providerMetadata'')
                  then [(''providerMetadata'', get chunk ''providerMetadata'')] else []);
          n = length (f_parts st); key = str_or (get chunk ''id''); st' = add_part part st
      in if is_text then st'\<lparr>f_texts := dict_set key n (f_texts st)\<rparr>
         else st'\<lparr>f_reasonings := dict_set key n (f_reasonings st)\<rparr>)"

definition in_lane :: "bool \<Rightarrow> obj \<Rightarrow> (obj \<Rightarrow> obj) \<Rightarrow> fold_state \<Rightarrow> fold_state" where
  "in_lane is_text chunk f st =
     (case map_of (if is_text then f_texts st else f_reasonings st) (str_or (get chunk ''id'')) of
        None \<Rightarrow> st | Some n \<Rightarrow> update_part n f st)"

definition append_text :: "string \<Rightarrow> obj \<Rightarrow> obj" where
  "append_text delta part = dict_set ''text'' (JStr (text_of (get part ''text'') @ delta)) part"

definition answered_approval :: "obj \<Rightarrow> obj \<Rightarrow> obj" where
  "answered_approval chunk approval =
     (let a = dict_set ''approved'' (get chunk ''approved'') approval in
      if truthy (get chunk ''reason'') then dict_set ''reason'' (get chunk ''reason'') a else a)"

definition approval_response :: "obj \<Rightarrow> nat \<Rightarrow> fold_state \<Rightarrow> fold_state" where
  "approval_response chunk n st =
     (let approval = get (f_parts st ! n) ''approval'' in
      if is_obj approval \<and> py_eq (get (jfields approval) ''id'') (get chunk ''approvalId'')
      then update_part n (\<lambda>p. dict_set ''state'' (JStr ''approval-responded'')
             (dict_set ''approval'' (JObj (answered_approval chunk (jfields approval))) p)) st
      else st)"

definition fold_data :: "string \<Rightarrow> obj \<Rightarrow> fold_state \<Rightarrow> fold_state res" where
  "fold_data kind chunk st =
     (if get chunk ''transient'' = JBool True then Inr st
      else
        rbind (if kind = ''data-interaction'' then index_json (get chunk ''data'') ''interaction_id''
               else Inr (get chunk ''id'')) (\<lambda>part_id.
        let part = [(''type'', JStr kind), (''data'', get chunk ''data'')] in
        if part_id = JNull then Inr (add_part part st)
        else
          let key = (kind, py_str part_id) in
          case map_of (f_data st) key of
            Some n \<Rightarrow> Inr (update_part n (dict_set ''data'' (get chunk ''data'')) st)
          | None \<Rightarrow> Inr ((add_part (part @ [(''id'', part_id)]) st)
                      \<lparr>f_data := dict_set key (length (f_parts st)) (f_data st)\<rparr>)))"

definition fold_chunk :: "obj \<Rightarrow> fold_state \<Rightarrow> fold_state res" where
  "fold_chunk chunk st =
     rbind (is_claude_diagnostic_part chunk) (\<lambda>diagnostic.
     let kind = str_or (get chunk ''type'') in
     if diagnostic then Inr st
     else if kind \<in> {''start'', ''finish'', ''message-metadata''} then
       Inr (if is_obj (get chunk ''messageMetadata'')
            then st\<lparr>f_metadata := dict_update (f_metadata st) (jfields (get chunk ''messageMetadata''))\<rparr> else st)
     else if kind = ''start-step'' then Inr (add_part [(''type'', JStr ''step-start'')] st)
     else if kind = ''finish-step'' then Inr (st\<lparr>f_texts := [], f_reasonings := []\<rparr>)
     else if kind \<in> {''text-start'', ''reasoning-start''} then Inr (start_text (kind = ''text-start'') chunk st)
     else if kind \<in> {''text-delta'', ''reasoning-delta''} then
       Inr (in_lane (kind = ''text-delta'') chunk (append_text (str_or (get chunk ''delta''))) st)
     else if kind \<in> {''text-end'', ''reasoning-end''} then
       Inr (in_lane (kind = ''text-end'') chunk (dict_set ''state'' (JStr ''done'')) st)
     else if kind = ''tool-input-start'' then Inr (snd (tool_part chunk st))
     else if kind = ''tool-input-available'' then
       Inr (with_tool chunk (\<lambda>p. dict_update p [(''state'', JStr ''input-available''), (''input'', get chunk ''input'')]) st)
     else if kind = ''tool-input-error'' then
       Inr (with_tool chunk (\<lambda>p. dict_update p [(''state'', JStr ''output-error''), (''input'', get chunk ''input''),
              (''errorText'', JStr (str_or (get chunk ''errorText'')))]) st)
     else if kind = ''tool-approval-request'' then
       Inr (case map_of (f_tools st) (str_or (get chunk ''toolCallId'')) of
              None \<Rightarrow> st
            | Some n \<Rightarrow> update_part n (\<lambda>p. dict_update p [(''state'', JStr ''approval-requested''),
                (''approval'', JObj [(''id'', get chunk ''approvalId'')])]) st)
     else if kind = ''tool-approval-response'' then
       Inr (fold (\<lambda>kn. approval_response chunk (snd kn)) (f_tools st) st)
     else if kind = ''tool-output-available'' then
       Inr (with_tool chunk (\<lambda>p. dict_update p [(''state'', JStr ''output-available''), (''output'', get chunk ''output'')]) st)
     else if kind = ''tool-output-error'' then
       Inr (with_tool chunk (\<lambda>p. dict_update p [(''state'', JStr ''output-error''),
              (''errorText'', JStr (str_or (get chunk ''errorText'')))]) st)
     else if kind = ''tool-output-denied'' then
       Inr (with_tool chunk (dict_set ''state'' (JStr ''output-denied'')) st)
     else if kind \<in> {''source-url'', ''source-document'', ''file''} then Inr (add_part chunk st)
     else if startswith ''data-'' kind then fold_data kind chunk st
     else Inr st)"

section \<open>Closing a message\<close>

text \<open>\<^verbatim>\<open>part.get("providerMetadata", {}).get("astrabox", {}).get("part_id")\<close>.\<close>

definition dict_get :: "json \<Rightarrow> string \<Rightarrow> json \<Rightarrow> json res" where
  "dict_get v k fallback =
     (if is_obj v then Inr (case map_of (jfields v) k of None \<Rightarrow> fallback | Some w \<Rightarrow> w) else Inl AttributeError)"

definition part_identity :: "obj \<Rightarrow> json res" where
  "part_identity part =
     rbind (dict_get (JObj part) ''providerMetadata'' (JObj [])) (\<lambda>meta.
     rbind (dict_get meta ''astrabox'' (JObj [])) (\<lambda>own. dict_get own ''part_id'' JNull))"

definition retracted_ids :: "obj \<Rightarrow> json list res" where
  "retracted_ids metadata =
     (let ids = get metadata ''retracted_part_ids'' in if truthy ids then set_of_json ids else Inr [])"

definition is_text_part :: "obj \<Rightarrow> bool" where
  "is_text_part part \<longleftrightarrow> get part ''type'' = JStr ''text'' \<or> get part ''type'' = JStr ''reasoning''"

definition keep_part :: "json list \<Rightarrow> nat \<times> obj \<Rightarrow> (nat \<times> obj) list \<Rightarrow> (nat \<times> obj) list res" where
  "keep_part retracted entry kept =
     (if \<not> is_text_part (snd entry) then Inr (kept @ [entry])
      else rbind (part_identity (snd entry)) (\<lambda>part_id.
           rbind (in_set part_id retracted) (\<lambda>gone. Inr (if gone then kept else kept @ [entry]))))"

definition is_streaming :: "obj \<Rightarrow> bool" where
  "is_streaming part \<longleftrightarrow> get part ''state'' = JStr ''streaming''"

definition open_parts :: "fold_state \<Rightarrow> (nat, string) dict" where
  "open_parts st =
     dict_update [] (map (\<lambda>kn. (snd kn, fst kn))
       (filter (\<lambda>kn. is_streaming (f_parts st ! snd kn)) (f_texts st @ f_reasonings st)))"

definition continuation_parts :: "(nat, string) dict \<Rightarrow> (nat \<times> obj) list \<Rightarrow> json list" where
  "continuation_parts opened entries =
     List.map_filter (\<lambda>(index, n, part). map_option
       (\<lambda>part_id. JObj [(''index'', JInt (int index)), (''id'', JStr part_id)]) (map_of opened n)) (enumerate 0 entries)"

definition close_part :: "obj \<Rightarrow> obj" where
  "close_part part = (if is_streaming part then dict_set ''state'' (JStr ''done'') part else part)"

record ui_message =
  um_id :: string
  um_role :: string
  um_parts :: "obj list"
  um_metadata :: obj

definition finish_fold :: "string \<Rightarrow> fold_state \<Rightarrow> ui_message res" where
  "finish_fold message_id st =
     rbind (retracted_ids (f_metadata st)) (\<lambda>retracted.
     rbind (if retracted = [] then Inr (enumerate 0 (f_parts st))
            else rfold (keep_part retracted) (enumerate 0 (f_parts st)) []) (\<lambda>entries.
     let opened = open_parts st;
         metadata = (if opened = [] then f_metadata st
                     else dict_set ''continuation_parts'' (JList (continuation_parts opened entries)) (f_metadata st))
     in Inr \<lparr>um_id = message_id, um_role = ''assistant'',
             um_parts = map (\<lambda>entry. close_part (snd entry)) entries, um_metadata = metadata\<rparr>))"

definition fold_message :: "string \<Rightarrow> obj list \<Rightarrow> ui_message res" where
  "fold_message message_id chunks = rbind (rfold fold_chunk chunks empty_fold) (finish_fold message_id)"

section \<open>A person's message\<close>

text \<open>A timestamp in a view is its integer here; the code prints it in ISO format.\<close>

fun input_state_name :: "input_state \<Rightarrow> string" where
  "input_state_name Pending = ''pending''"
| "input_state_name Delivered = ''delivered''"
| "input_state_name Admitted = ''admitted''"
| "input_state_name Failed = ''failed''"
| "input_state_name Imported = ''imported''"

definition image_file_part :: "obj \<Rightarrow> obj" where
  "image_file_part block =
     (let source = jfields (get block ''source''); media_type = str_or (get source ''media_type'') in
      [(''type'', JStr ''file''), (''mediaType'', JStr media_type),
       (''url'', JStr (''data:'' @ media_type @ '';base64,'' @ str_or (get source ''data'')))])"

definition block_part :: "json \<Rightarrow> obj list" where
  "block_part block =
     (if is_obj block \<and> get (jfields block) ''type'' = JStr ''text''
      then [[(''type'', JStr ''text''), (''text'', JStr (str_or (get (jfields block) ''text'')))]]
      else if is_obj block \<and> get (jfields block) ''type'' = JStr ''image'' then [image_file_part (jfields block)]
      else [])"

definition provenance :: "obj \<Rightarrow> obj" where
  "provenance record =
     map (\<lambda>k. (k, get record k)) (filter (\<lambda>k. get record k \<noteq> JNull) [''source_id'', ''completion'', ''parent_source_id''])"

definition attachment_view :: "attachment_row \<Rightarrow> json" where
  "attachment_view a = JObj [(''attachment_id'', JStr (at_attachment_id a)), (''kind'', opt_json JStr (at_kind a)),
     (''name'', JStr (at_name a)), (''media_type'', JStr (at_media_type a)), (''size'', JInt (at_size a))]"

definition input_message :: "input_row \<Rightarrow> attachment_row list \<Rightarrow> ui_message" where
  "input_message i attachments =
     (let blocks = (case i_content_blocks i of None \<Rightarrow> [] | Some bs \<Rightarrow> bs);
          parts = (if blocks \<noteq> [] then concat (map block_part blocks)
                   else [[(''type'', JStr ''text''), (''text'', JStr (i_content i))]]);
          base = [(''input_id'', JStr (i_input_id i)), (''created_at'', JInt (i_created_at i)),
                  (''conversation_order'', opt_json JInt (i_conversation_order i)),
                  (''state'', JStr (input_state_name (i_state i))),
                  (''author_user_id'', opt_json JStr (i_author_user_id i)), (''source'', opt_json JStr (i_source i))];
          failed = (case i_failure i of None \<Rightarrow> base
                    | Some f \<Rightarrow> if truthy f then base @ [(''failure'', f)] else base);
          filed = (if attachments = [] then failed
                   else failed @ [(''attachments'', JList (map attachment_view attachments))]);
          metadata = (case i_import_record i of None \<Rightarrow> filed
                      | Some d \<Rightarrow> if d = [] then filed else filed @ [(''history_import'', JObj (provenance d))])
      in \<lparr>um_id = (if i_client_message_id i \<noteq> [] then i_client_message_id i else i_input_id i),
          um_role = ''user'', um_parts = parts, um_metadata = metadata\<rparr>)"

section \<open>The messages of a page\<close>

type_synonym settlement = "interaction_status \<times> obj option"

definition decision_of :: "(string, settlement) dict \<Rightarrow> string \<Rightarrow> obj option" where
  "decision_of settlements xid =
     (case map_of settlements xid of
        Some (status, Some answer) \<Rightarrow> if status = IOpen \<or> status = IAnswered then Some answer else None
      | _ \<Rightarrow> None)"

definition apply_decision :: "(string, settlement) dict \<Rightarrow> obj \<Rightarrow> obj" where
  "apply_decision settlements part =
     (let approval = get part ''approval'' in
      if \<not> is_obj approval then part
      else case decision_of settlements (str_or (get (jfields approval) ''id'')) of
        None \<Rightarrow> part
      | Some answer \<Rightarrow>
          let approved = (get answer ''decision'' = JStr ''approve'');
              comment = strip (str_or (get answer ''comment''));
              a1 = dict_set ''approved'' (JBool approved) (jfields approval);
              a2 = (if \<not> approved \<and> comment \<noteq> [] then dict_set ''reason'' (JStr comment) a1 else a1);
              part1 = dict_set ''approval'' (JObj a2) part
          in if get part ''state'' = JStr ''approval-requested''
             then dict_set ''state'' (JStr ''approval-responded'') part1 else part1)"

definition settle_part :: "(string, settlement) dict \<Rightarrow> obj \<Rightarrow> obj res" where
  "settle_part settlements part =
     (if get part ''type'' \<noteq> JStr ''data-interaction'' then Inr part
      else
        rbind (index_json (get part ''data'') ''interaction_id'') (\<lambda>xid.
        case map_of settlements (py_str xid) of
          None \<Rightarrow> Inl RuntimeError
        | Some (status, answer) \<Rightarrow>
            let data1 = dict_set ''status'' (JStr (interaction_status_name status)) (jfields (get part ''data''));
                data2 = (case answer of
                           Some a \<Rightarrow> if status = IAnswered then dict_set ''answer'' (JObj a) data1 else data1
                         | None \<Rightarrow> data1)
            in Inr (dict_set ''data'' (JObj data2) part)))"

fun origin_name :: "origin \<Rightarrow> string" where
  "origin_name OriginInput = ''input''"
| "origin_name OriginEngine = ''engine''"
| "origin_name OriginImport = ''import''"

fun response_status_name :: "response_status \<Rightarrow> string" where
  "response_status_name Running = ''running''"
| "response_status_name Waiting = ''waiting''"
| "response_status_name Ended = ''ended''"

fun outcome_name :: "outcome \<Rightarrow> string" where
  "outcome_name Completed = ''completed''"
| "outcome_name OutcomeFailed = ''failed''"
| "outcome_name Cancelled = ''cancelled''"

definition response_metadata :: "response_row \<Rightarrow> obj" where
  "response_metadata r =
     [(''response_id'', JStr (r_response_id r)), (''origin'', JStr (origin_name (r_origin r))),
      (''status'', JStr (response_status_name (r_status r))),
      (''outcome'', opt_json (\<lambda>oc. JStr (outcome_name oc)) (r_outcome r)),
      (''native_reason'', opt_json JStr (r_native_reason r)), (''started_at'', JInt (r_started_at r)),
      (''ended_at'', opt_json JInt (r_ended_at r)), (''conversation_order'', opt_json JInt (r_conversation_order r))]"

definition response_message :: "(string, settlement) dict \<Rightarrow> response_row \<Rightarrow> ui_message \<Rightarrow> ui_message res" where
  "response_message settlements r message =
     rbind (rmap (settle_part settlements) (map (apply_decision settlements) (um_parts message))) (\<lambda>parts.
     let m1 = (case r_import_record r of None \<Rightarrow> um_metadata message
               | Some d \<Rightarrow> if d = [] then um_metadata message
                          else dict_set ''history_import'' (JObj (provenance d)) (um_metadata message));
         m2 = dict_update m1 (response_metadata r);
         m3 = (case r_error r of None \<Rightarrow> m2 | Some e \<Rightarrow> if truthy e then dict_set ''error'' e m2 else m2)
     in Inr (message\<lparr>um_parts := parts, um_metadata := m3\<rparr>))"

definition entry_message :: "history_page_view \<Rightarrow> (string \<Rightarrow> attachment_row list) \<Rightarrow> (string, ui_message) dict \<Rightarrow>
    (string, settlement) dict \<Rightarrow> message_kind \<times> int \<Rightarrow> ui_message res" where
  "entry_message page attachments folded settlements entry =
     (case entry of
        (MInput, seq) \<Rightarrow>
          (case first_row (\<lambda>i. i_seq i = seq) (hp_inputs page) of
             None \<Rightarrow> Inl KeyError | Some i \<Rightarrow> Inr (input_message i (attachments (i_input_id i))))
      | (MResponse, seq) \<Rightarrow>
          (case first_row (\<lambda>r. r_seq r = seq) (hp_responses page) of
             None \<Rightarrow> Inl KeyError
           | Some r \<Rightarrow>
               (case map_of folded (r_response_id r) of
                  None \<Rightarrow> Inl KeyError | Some message \<Rightarrow> response_message settlements r message)))"

definition history_messages :: "history_page_view \<Rightarrow> (string \<Rightarrow> attachment_row list) \<Rightarrow> (string, ui_message) dict \<Rightarrow>
    (string \<times> interaction_status \<times> obj option) list \<Rightarrow> ui_message list res" where
  "history_messages page attachments folded interactions =
     rmap (entry_message page attachments folded (dict_update [] interactions)) (hp_entries page)"

section \<open>The public projection of a part\<close>

definition engine_child_refs :: "string list" where
  "engine_child_refs = [''engineRef'', ''parentEngineRef'', ''controlRef'']"

definition is_private_key :: "string \<Rightarrow> bool" where
  "is_private_key key = startswith ''__'' key"

definition public_part :: "obj \<Rightarrow> bool \<Rightarrow> obj option res" where
  "public_part part shared =
     rbind (is_claude_diagnostic_part part) (\<lambda>diagnostic.
     if diagnostic then Inr None
     else
       let public = filter (\<lambda>kv. \<not> is_private_key (fst kv)) part;
           public1 = (if get public ''type'' = JStr ''data-subagent'' \<and> is_obj (get public ''data'')
                      then dict_set ''data'' (JObj (filter (\<lambda>kv. fst kv \<notin> set engine_child_refs)
                             (jfields (get public ''data'')))) public
                      else public)
       in if get public1 ''type'' \<noteq> JStr ''data-interaction'' then Inr (Some public1)
          else rbind (public_interaction_view (get public1 ''data'') (\<not> shared)) (\<lambda>view.
            case view of
              None \<Rightarrow> Inr None
            | Some data \<Rightarrow> rbind (index_key data ''interaction_id'') (\<lambda>xid.
                Inr (Some (dict_set ''data'' (JObj data) (dict_set ''id'' xid public1))))))"

section \<open>Invariant of the fold\<close>

text \<open>Every index the fold keeps is of a part of the message, and a text lane's part has text.\<close>

definition lane_ok :: "obj list \<Rightarrow> (string, nat) dict \<Rightarrow> bool" where
  "lane_ok parts lane \<longleftrightarrow> (\<forall>kn \<in> set lane. snd kn < length parts \<and> is_str (get (parts ! snd kn) ''text''))"

definition points_below :: "nat \<Rightarrow> ('k, nat) dict \<Rightarrow> bool" where
  "points_below n d \<longleftrightarrow> (\<forall>kn \<in> set d. snd kn < n)"

definition fold_ok :: "fold_state \<Rightarrow> bool" where
  "fold_ok st \<longleftrightarrow>
     lane_ok (f_parts st) (f_texts st) \<and> lane_ok (f_parts st) (f_reasonings st) \<and>
     points_below (length (f_parts st)) (f_tools st) \<and> points_below (length (f_parts st)) (f_data st)"

lemma fold_ok_empty: "fold_ok empty_fold"
  by (simp add: fold_ok_def empty_fold_def lane_ok_def points_below_def)

lemma ball_dict_set: "P (k, v) \<Longrightarrow> \<forall>kn \<in> set d. P kn \<Longrightarrow> \<forall>kn \<in> set (dict_set k v d). P kn"
  using set_dict_set by fastforce

lemma points_below_set: "points_below n d \<Longrightarrow> points_below (Suc n) (dict_set k n d)"
  unfolding points_below_def by (rule ball_dict_set) auto

lemma points_below_Suc: "points_below n d \<Longrightarrow> points_below (Suc n) d"
  by (auto simp: points_below_def)

lemma lane_ok_append: "lane_ok parts lane \<Longrightarrow> lane_ok (parts @ [p]) lane"
  by (auto simp: lane_ok_def nth_append)

lemma lane_ok_set:
  "lane_ok parts lane \<Longrightarrow> is_str (get p ''text'') \<Longrightarrow> lane_ok (parts @ [p]) (dict_set k (length parts) lane)"
  unfolding lane_ok_def by (rule ball_dict_set) (auto simp: nth_append)

lemma lane_ok_update:
  "lane_ok parts lane \<Longrightarrow> (\<And>p. is_str (get p ''text'') \<Longrightarrow> is_str (get (f p) ''text'')) \<Longrightarrow>
     lane_ok (parts[n := f (parts ! n)]) lane"
  by (cases "n < length parts") (auto simp: lane_ok_def nth_list_update)

lemma fold_ok_add: "fold_ok st \<Longrightarrow> fold_ok (add_part p st)"
  by (auto simp: fold_ok_def add_part_def lane_ok_append points_below_Suc)

lemma fold_ok_update:
  "fold_ok st \<Longrightarrow> (\<And>p. is_str (get p ''text'') \<Longrightarrow> is_str (get (f p) ''text'')) \<Longrightarrow> fold_ok (update_part n f st)"
  by (auto simp: fold_ok_def update_part_def lane_ok_update)

lemma fold_ok_tool_part: "fold_ok st \<Longrightarrow> fold_ok (snd (tool_part chunk st))"
  by (auto simp: tool_part_def fold_ok_def add_part_def Let_def lane_ok_append points_below_set points_below_Suc
      split: option.splits)

lemma fold_ok_with_tool:
  "fold_ok st \<Longrightarrow> (\<And>p. is_str (get p ''text'') \<Longrightarrow> is_str (get (f p) ''text'')) \<Longrightarrow> fold_ok (with_tool chunk f st)"
  using fold_ok_tool_part [of st chunk] by (auto simp: with_tool_def intro: fold_ok_update split: prod.splits)

lemma fold_ok_start_text: "fold_ok st \<Longrightarrow> fold_ok (start_text is_text chunk st)"
  by (auto simp: start_text_def Let_def fold_ok_def add_part_def lane_ok_append lane_ok_set points_below_Suc)

lemma fold_ok_in_lane:
  "fold_ok st \<Longrightarrow> (\<And>p. is_str (get p ''text'') \<Longrightarrow> is_str (get (f p) ''text'')) \<Longrightarrow> fold_ok (in_lane is_text chunk f st)"
  by (auto simp: in_lane_def intro: fold_ok_update split: option.splits)

lemma fold_ok_approval: "fold_ok st \<Longrightarrow> fold_ok (approval_response chunk n st)"
  by (auto simp: approval_response_def Let_def intro!: fold_ok_update)

lemma fold_ok_data: "fold_data kind chunk st = Inr st' \<Longrightarrow> fold_ok st \<Longrightarrow> fold_ok st'"
  by (auto simp: fold_data_def Let_def rbind_Inr_iff fold_ok_add fold_ok_update split: if_splits option.splits)
     (auto simp: fold_ok_def add_part_def lane_ok_append points_below_set points_below_Suc)

lemma fold_ok_approvals: "fold_ok st \<Longrightarrow> fold_ok (fold (\<lambda>kn. approval_response chunk (snd kn)) kns st)"
  by (induction kns arbitrary: st) (simp_all add: fold_ok_approval)

lemma fold_ok_metadata: "fold_ok st \<Longrightarrow> fold_ok (st\<lparr>f_metadata := m\<rparr>)"
  by (simp add: fold_ok_def)

lemma fold_ok_clear: "fold_ok st \<Longrightarrow> fold_ok (st\<lparr>f_texts := [], f_reasonings := []\<rparr>)"
  by (simp add: fold_ok_def lane_ok_def)

lemma fold_ok_chunk:
  assumes "fold_chunk chunk st = Inr st'" and "fold_ok st"
  shows "fold_ok st'"
  using assms
  by (auto simp: fold_chunk_def Let_def rbind_Inr_iff append_text_def
      intro!: fold_ok_add fold_ok_metadata fold_ok_clear fold_ok_start_text fold_ok_in_lane fold_ok_tool_part
        fold_ok_with_tool fold_ok_update fold_ok_approvals
      intro: fold_ok_data split: if_splits option.splits)

section \<open>Properties\<close>

lemma public_part_cases:
  assumes "public_part part shared = Inr (Some public)"
    and "visible = filter (\<lambda>kv. \<not> is_private_key (fst kv)) part"
  obtains (plain) "public = visible" "get public ''type'' \<noteq> JStr ''data-subagent'' \<or> \<not> is_obj (get public ''data'')"
      "get public ''type'' \<noteq> JStr ''data-interaction''"
  | (child) "public = dict_set ''data'' (JObj (filter (\<lambda>kv. fst kv \<notin> set engine_child_refs)
        (jfields (get visible ''data'')))) visible" "get public ''type'' = JStr ''data-subagent''"
  | (interaction) data xid where "public_interaction_view (get visible ''data'') (\<not> shared) = Inr (Some data)"
      "public = dict_set ''data'' (JObj data) (dict_set ''id'' xid visible)" "get public ''type'' = JStr ''data-interaction''"
  using assms(1)
  by (auto simp: public_part_def Let_def rbind_Inr_iff split: if_splits option.splits simp flip: assms(2))

lemma get_visible_type:
  "get (filter (\<lambda>kv. \<not> is_private_key (fst kv)) part) ''type'' = get part ''type''"
proof -
  have "\<not> is_private_key ''type''" by (simp add: is_private_key_def startswith_def)
  then show ?thesis by (induction part) (auto simp: get_def)
qed

text \<open>
  A page never receives what the platform keeps to itself. In every part \<^verbatim>\<open>public_part\<close> lets
  through, no key is marked private (\<^verbatim>\<open>__\<close>-prefixed), a sub-agent's data carries none of the
  engine's handles, an interaction's data is a public view of its contract (without the tool
  input on a share link), and the part keeps its type.
\<close>

theorem public_part_hides_private:
  assumes "public_part part shared = Inr (Some public)"
  shows "(\<forall>kv \<in> set public. \<not> is_private_key (fst kv)) \<and> get public ''type'' = get part ''type'' \<and>
    (get public ''type'' = JStr ''data-subagent'' \<longrightarrow> set engine_child_refs \<inter> keys_of (get public ''data'') = {}) \<and>
    (get public ''type'' = JStr ''data-interaction'' \<longrightarrow> safe_view (jfields (get public ''data'')) (\<not> shared))"
proof -
  let ?visible = "filter (\<lambda>kv. \<not> is_private_key (fst kv)) part"
  have visible: "\<forall>kv \<in> set ?visible. \<not> is_private_key (fst kv)" by simp
  have set_ok: "\<forall>kv \<in> set (dict_set k v d). \<not> is_private_key (fst kv)"
    if "\<not> is_private_key k" "\<forall>kv \<in> set d. \<not> is_private_key (fst kv)" for k v d
    using that by (intro ball_dict_set) auto
  have names: "\<not> is_private_key ''data''" "\<not> is_private_key ''id''" by (simp_all add: is_private_key_def startswith_def)
  from assms refl [of ?visible] show ?thesis
  proof (cases rule: public_part_cases)
    case plain
    moreover have "keys_of j = {}" if "\<not> is_obj j" for j using that by (cases j) auto
    ultimately have "get public ''type'' = JStr ''data-subagent'' \<longrightarrow> keys_of (get public ''data'') = {}" by metis
    moreover have "\<forall>kv \<in> set public. \<not> is_private_key (fst kv)" using visible by (simp only: plain(1))
    moreover have "get public ''type'' = get part ''type''" by (simp only: plain(1) get_visible_type)
    ultimately show ?thesis using plain(3) by (metis Int_empty_right)
  next
    case child
    then have "get public ''data'' = JObj (filter (\<lambda>kv. fst kv \<notin> set engine_child_refs)
        (jfields (get ?visible ''data'')))" by simp
    then have "set engine_child_refs \<inter> keys_of (get public ''data'') = {}" by auto
    moreover have "get public ''type'' = get part ''type''" using child(1) by (simp add: get_visible_type)
    moreover have "\<forall>kv \<in> set public. \<not> is_private_key (fst kv)"
      unfolding child(1) by (rule set_ok [OF names(1) visible])
    moreover have "get public ''type'' \<noteq> JStr ''data-interaction''" using child(2) by simp
    ultimately show ?thesis by metis
  next
    case (interaction data xid)
    have "\<forall>kv \<in> set public. \<not> is_private_key (fst kv)"
      unfolding interaction(2) by (rule set_ok [OF names(1) set_ok [OF names(2) visible]])
    moreover have "get public ''type'' = get part ''type''" by (simp add: interaction(2) get_visible_type)
    moreover have "get public ''data'' = JObj data" by (simp add: interaction(2))
    moreover have "get public ''type'' \<noteq> JStr ''data-subagent''" using interaction(3) by simp
    ultimately show ?thesis using public_view_safe [OF interaction(1)] by (metis jfields.simps(1))
  qed
qed

theorem public_part_hides_private_witness:
  "\<exists>public. public_part [(''type'', JStr ''data-subagent''), (''__raw'', JNull),
     (''data'', JObj [(''engineRef'', JStr ''e''), (''kind'', JStr ''k'')])] False = Inr (Some public) \<and>
     \<not> has_key (jfields (get public ''data'')) ''engineRef''"
proof -
  let ?part = "[(''type'', JStr ''data-subagent''), (''__raw'', JNull),
     (''data'', JObj [(''engineRef'', JStr ''e''), (''kind'', JStr ''k'')])]"
  have run: "public_part ?part False = Inr (Some [(''type'', JStr ''data-subagent''), (''data'', JObj [(''kind'', JStr ''k'')])])"
    by code_simp
  from public_part_hides_private [OF run] have "''engineRef'' \<notin> keys_of (JObj [(''kind'', JStr ''k'')])"
    by (simp add: engine_child_refs_def)
  with run show ?thesis by (simp add: has_key_iff)
qed

lemma close_part_closed: "\<not> is_streaming (close_part p)"
  by (simp add: close_part_def is_streaming_def)

text \<open>
  A folded message is finished and well indexed: the fold never reaches outside the parts it
  has, and no part of the message \<^verbatim>\<open>fold_message\<close> returns is left streaming.
\<close>

theorem folded_message_is_closed:
  assumes "fold_message message_id chunks = Inr m"
  shows "um_id m = message_id \<and> (\<forall>p \<in> set (um_parts m). \<not> is_streaming p) \<and>
    (\<exists>st. rfold fold_chunk chunks empty_fold = Inr st \<and> fold_ok st)"
proof -
  from assms obtain st where st: "rfold fold_chunk chunks empty_fold = Inr st" and fin: "finish_fold message_id st = Inr m"
    by (auto simp: fold_message_def rbind_Inr_iff)
  have "fold_ok st" using st fold_ok_empty by (rule rfold_invariant) (rule fold_ok_chunk)
  with st fin show ?thesis by (auto simp: finish_fold_def rbind_Inr_iff Let_def close_part_closed)
qed

definition text_start :: "string \<Rightarrow> obj" where
  "text_start i = [(''type'', JStr ''text-start''), (''id'', JStr i)]"

definition text_delta :: "string \<Rightarrow> string \<Rightarrow> obj" where
  "text_delta i d = [(''type'', JStr ''text-delta''), (''id'', JStr i), (''delta'', JStr d)]"

definition text_end :: "string \<Rightarrow> obj" where
  "text_end i = [(''type'', JStr ''text-end''), (''id'', JStr i)]"

theorem folded_message_is_closed_witness:
  "\<exists>m. fold_message ''r'' [text_start ''1'', text_delta ''1'' ''hi''] = Inr m \<and> (\<forall>p \<in> set (um_parts m). \<not> is_streaming p)"
proof -
  have run: "fold_message ''r'' [text_start ''1'', text_delta ''1'' ''hi''] =
      Inr \<lparr>um_id = ''r'', um_role = ''assistant'',
        um_parts = [[(''type'', JStr ''text''), (''text'', JStr ''hi''), (''state'', JStr ''done'')]],
        um_metadata = [(''continuation_parts'', JList [JObj [(''index'', JInt 0), (''id'', JStr ''1'')]])]\<rparr>"
    by code_simp
  from folded_message_is_closed [OF run] run show ?thesis by blast
qed

lemma fold_text_start:
  "fold_chunk (text_start i) st =
     Inr ((add_part [(''type'', JStr ''text''), (''text'', JStr []), (''state'', JStr ''streaming'')] st)
       \<lparr>f_texts := dict_set i (length (f_parts st)) (f_texts st)\<rparr>)"
  by (simp add: fold_chunk_def is_claude_diagnostic_part_def text_start_def start_text_def Let_def)

lemma fold_text_delta:
  "map_of (f_texts st) i = Some n \<Longrightarrow> fold_chunk (text_delta i d) st = Inr (update_part n (append_text d) st)"
  by (simp add: fold_chunk_def is_claude_diagnostic_part_def text_delta_def in_lane_def Let_def)

lemma fold_text_end:
  "map_of (f_texts st) i = Some n \<Longrightarrow> fold_chunk (text_end i) st = Inr (update_part n (dict_set ''state'' (JStr ''done'')) st)"
  by (simp add: fold_chunk_def is_claude_diagnostic_part_def text_end_def in_lane_def Let_def)

lemma fold_text_deltas:
  assumes "map_of (f_texts st) i = Some n" and "f_parts st = ps @ [[(''type'', t), (''text'', JStr s), (''state'', u)]]"
    and "n = length ps"
  shows "\<exists>st'. rfold fold_chunk (map (text_delta i) ds) st = Inr st' \<and> f_texts st' = f_texts st \<and>
    f_parts st' = ps @ [[(''type'', t), (''text'', JStr (s @ concat ds)), (''state'', u)]]"
  using assms(1,2)
proof (induction ds arbitrary: s st)
  case Nil
  then show ?case by simp
next
  case (Cons d ds)
  let ?mid = "update_part n (append_text d) st"
  have parts: "f_parts ?mid = ps @ [[(''type'', t), (''text'', JStr (s @ d)), (''state'', u)]]"
    using Cons.prems(2) by (simp add: update_part_def append_text_def dict_set_def assms(3))
  have "map_of (f_texts ?mid) i = Some n" using Cons.prems(1) by (simp add: update_part_def)
  from Cons.IH [OF this parts] show ?case
    using fold_text_delta [OF Cons.prems(1), of d] by (auto simp: update_part_def)
qed

text \<open>
  Streamed text is the text. Whatever came before, a text part that is started, extended by
  any number of deltas and ended folds into one more part holding the deltas joined in order.
\<close>

theorem streamed_text_is_the_text:
  assumes "rfold fold_chunk chunks empty_fold = Inr st"
  shows "\<exists>st'. rfold fold_chunk (chunks @ text_start i # map (text_delta i) ds @ [text_end i]) empty_fold = Inr st' \<and>
    f_parts st' = f_parts st @ [[(''type'', JStr ''text''), (''text'', JStr (concat ds)), (''state'', JStr ''done'')]]"
proof -
  let ?n = "length (f_parts st)"
  define st1 where "st1 = (add_part [(''type'', JStr ''text''), (''text'', JStr []), (''state'', JStr ''streaming'')] st)
    \<lparr>f_texts := dict_set i ?n (f_texts st)\<rparr>"
  have key: "map_of (f_texts st1) i = Some ?n" and
    parts: "f_parts st1 = f_parts st @ [[(''type'', JStr ''text''), (''text'', JStr []), (''state'', JStr ''streaming'')]]"
    by (simp_all add: st1_def add_part_def)
  from fold_text_deltas [OF key parts refl, of ds] obtain st2 where
    st2: "rfold fold_chunk (map (text_delta i) ds) st1 = Inr st2" "f_texts st2 = f_texts st1"
      "f_parts st2 = f_parts st @ [[(''type'', JStr ''text''), (''text'', JStr (concat ds)), (''state'', JStr ''streaming'')]]"
    by auto
  have "fold_chunk (text_end i) st2 = Inr (update_part ?n (dict_set ''state'' (JStr ''done'')) st2)"
    using key st2(2) by (intro fold_text_end) simp
  moreover have "fold_chunk (text_start i) st = Inr st1" by (simp only: fold_text_start st1_def)
  ultimately show ?thesis
    using assms st2(1,3) by (simp add: rfold_append update_part_def dict_set_def)
qed

theorem streamed_text_is_the_text_witness:
  "\<exists>st'. rfold fold_chunk ([text_start ''1''] @ text_start ''2'' # map (text_delta ''2'') [''a'', ''b''] @ [text_end ''2'']) empty_fold = Inr st' \<and>
    last (f_parts st') = [(''type'', JStr ''text''), (''text'', JStr ''ab''), (''state'', JStr ''done'')]"
proof -
  obtain st where st: "rfold fold_chunk [text_start ''1''] empty_fold = Inr st" by (simp add: fold_text_start)
  from streamed_text_is_the_text [OF st, of "''2''" "[''a'', ''b'']"] show ?thesis by auto
qed

end
