(* ===== verification/Feed.thy ===== *)
theory Feed
  imports Recording
begin

text \<open>
  The process-wide feed, \<^verbatim>\<open>session_runtime/feed.py\<close>: a subscriber's queue with its bound on live
  parts, and the feed that hands out live parts, notices and resyncs. The step relation
  \<open>sub_step\<close> is everything that can happen to a subscription's queue; its invariant gives
  the bound, and that whoever missed a live part has a resync in its queue.
\<close>

section \<open>Subscriptions\<close>

datatype feed_item =
    LivePart int "string option" obj
  | Notice notice_kind int
  | Resync

definition LIVE_QUEUE_LIMIT :: nat where
  "LIVE_QUEUE_LIMIT = 2000"

record subscription =
  sb_session_id :: string
  sb_queue :: "feed_item list"
  sb_live :: nat
  sb_dropped :: bool

definition new_subscription :: "string \<Rightarrow> subscription" where
  "new_subscription sid = \<lparr>sb_session_id = sid, sb_queue = [], sb_live = 0, sb_dropped = False\<rparr>"

fun is_live :: "feed_item \<Rightarrow> bool" where
  "is_live (LivePart seq rid part) = True"
| "is_live _ = False"

definition put_nowait :: "feed_item \<Rightarrow> subscription \<Rightarrow> subscription" where
  "put_nowait item sub = sub\<lparr>sb_queue := sb_queue sub @ [item]\<rparr>"

definition put_live :: "feed_item \<Rightarrow> subscription \<Rightarrow> subscription" where
  "put_live item sub =
     (if LIVE_QUEUE_LIMIT \<le> sb_live sub
      then (if sb_dropped sub then sub else put_nowait Resync (sub\<lparr>sb_dropped := True\<rparr>))
      else put_nowait item (sub\<lparr>sb_live := sb_live sub + 1\<rparr>))"

text \<open>The next item; \<^const>\<open>None\<close> while the queue is empty and the subscriber waits.\<close>

definition sub_get :: "subscription \<Rightarrow> (feed_item \<times> subscription) option" where
  "sub_get sub =
     (case sb_queue sub of
        [] \<Rightarrow> None
      | item # rest \<Rightarrow>
          let sub' = sub\<lparr>sb_queue := rest\<rparr> in
          Some (item, case item of
                        LivePart seq rid part \<Rightarrow> sub'\<lparr>sb_live := sb_live sub - 1\<rparr>
                      | Resync \<Rightarrow> sub'\<lparr>sb_dropped := False\<rparr>
                      | Notice kind seq \<Rightarrow> sub'))"

section \<open>The feed\<close>

text \<open>
  Subscriptions are kept under a handle, the object's identity in the code, which files them
  by session. \<open>fd_needed\<close> lists the sessions the \<^verbatim>\<open>on_reader_needed\<close> callback was called with.
\<close>

record session_feed =
  fd_subscribers :: "(nat, subscription) dict"
  fd_next :: nat
  fd_callback :: bool
  fd_needed :: "string list"
  fd_last_notice_seq :: "int option"

definition empty_feed :: session_feed where
  "empty_feed = \<lparr>fd_subscribers = [], fd_next = 0, fd_callback = False, fd_needed = [], fd_last_notice_seq = None\<rparr>"

definition on_reader_needed :: "session_feed \<Rightarrow> session_feed" where
  "on_reader_needed feed = feed\<lparr>fd_callback := True\<rparr>"

definition subscribe :: "string \<Rightarrow> session_feed \<Rightarrow> nat \<times> session_feed" where
  "subscribe sid feed =
     (fd_next feed, feed\<lparr>fd_subscribers := fd_subscribers feed @ [(fd_next feed, new_subscription sid)],
                         fd_next := fd_next feed + 1\<rparr>)"

definition unsubscribe :: "nat \<Rightarrow> session_feed \<Rightarrow> session_feed" where
  "unsubscribe handle feed = feed\<lparr>fd_subscribers := dict_pop handle (fd_subscribers feed)\<rparr>"

definition each_subscriber :: "(subscription \<Rightarrow> bool) \<Rightarrow> (subscription \<Rightarrow> subscription) \<Rightarrow> session_feed \<Rightarrow> session_feed" where
  "each_subscriber p f feed =
     feed\<lparr>fd_subscribers := map (\<lambda>hs. (fst hs, if p (snd hs) then f (snd hs) else snd hs)) (fd_subscribers feed)\<rparr>"

definition wake :: "string \<Rightarrow> session_feed \<Rightarrow> session_feed" where
  "wake sid feed = each_subscriber (\<lambda>sub. sb_session_id sub = sid) (put_nowait (Notice NInput 0)) feed"

definition publish_live :: "string \<Rightarrow> feed_item \<Rightarrow> session_feed \<Rightarrow> session_feed" where
  "publish_live sid item feed = each_subscriber (\<lambda>sub. sb_session_id sub = sid) (put_live item) feed"

definition on_notice :: "session_notice \<Rightarrow> session_feed \<Rightarrow> session_feed" where
  "on_notice notice feed =
     (let feed1 = feed\<lparr>fd_last_notice_seq := Some (n_seq notice)\<rparr>;
          feed2 = (if n_kind notice = NReader \<and> fd_callback feed1
                   then feed1\<lparr>fd_needed := fd_needed feed1 @ [n_session_id notice]\<rparr> else feed1)
      in each_subscriber (\<lambda>sub. sb_session_id sub = n_session_id notice)
           (put_nowait (Notice (n_kind notice) (n_seq notice))) feed2)"

definition broadcast_resync :: "session_feed \<Rightarrow> session_feed" where
  "broadcast_resync feed = each_subscriber (\<lambda>sub. True) (put_nowait Resync) feed"

section \<open>What can happen to a queue\<close>

inductive sub_step :: "subscription \<Rightarrow> subscription \<Rightarrow> bool" where
  live: "is_live item \<Longrightarrow> sub_step sub (put_live item sub)"
| notice: "sub_step sub (put_nowait (Notice kind seq) sub)"
| resync: "sub_step sub (put_nowait Resync sub)"
| taken: "sub_get sub = Some (item, sub') \<Longrightarrow> sub_step sub sub'"

inductive sub_reachable :: "string \<Rightarrow> subscription \<Rightarrow> bool" for sid where
  new: "sub_reachable sid (new_subscription sid)"
| step: "sub_reachable sid sub \<Longrightarrow> sub_step sub sub' \<Longrightarrow> sub_reachable sid sub'"

definition sub_ok :: "subscription \<Rightarrow> bool" where
  "sub_ok sub \<longleftrightarrow>
     sb_live sub = length (filter is_live (sb_queue sub)) \<and> sb_live sub \<le> LIVE_QUEUE_LIMIT \<and>
     (sb_dropped sub \<longrightarrow> Resync \<in> set (sb_queue sub))"

lemma sub_ok_put_live: "is_live item \<Longrightarrow> sub_ok sub \<Longrightarrow> sub_ok (put_live item sub)"
  by (auto simp: sub_ok_def put_live_def put_nowait_def)

lemma sub_ok_put: "\<not> is_live item \<Longrightarrow> sub_ok sub \<Longrightarrow> sub_ok (put_nowait item sub)"
  by (auto simp: sub_ok_def put_nowait_def)

lemma sub_ok_get: "sub_get sub = Some (item, sub') \<Longrightarrow> sub_ok sub \<Longrightarrow> sub_ok sub'"
  by (auto simp: sub_get_def sub_ok_def Let_def split: list.splits feed_item.splits)

lemma sub_ok_step: "sub_step sub sub' \<Longrightarrow> sub_ok sub \<Longrightarrow> sub_ok sub'"
  by (induction rule: sub_step.induct) (auto intro: sub_ok_put_live sub_ok_put sub_ok_get)

lemma sub_ok_new: "sub_ok (new_subscription sid)"
  by (simp add: sub_ok_def new_subscription_def)

lemma sub_reachable_ok: "sub_reachable sid sub \<Longrightarrow> sub_ok sub"
  by (induction rule: sub_reachable.induct) (auto intro: sub_ok_step sub_ok_new)

text \<open>Every operation of the feed moves each subscription by such a step, or leaves it.\<close>

definition feed_moves :: "session_feed \<Rightarrow> session_feed \<Rightarrow> bool" where
  "feed_moves feed feed' \<longleftrightarrow>
     (\<forall>h sub'. map_of (fd_subscribers feed') h = Some sub' \<longrightarrow>
        (\<exists>sub. map_of (fd_subscribers feed) h = Some sub \<and> (sub' = sub \<or> sub_step sub sub')))"

lemma map_of_each: "map_of (map (\<lambda>hs. (fst hs, g (snd hs))) d) h = map_option g (map_of d h)"
  by (induction d) auto

lemma feed_moves_each:
  "(\<And>sub. p sub \<Longrightarrow> sub_step sub (f sub)) \<Longrightarrow>
     fd_subscribers feed' = fd_subscribers (each_subscriber p f feed) \<Longrightarrow> feed_moves feed feed'"
  by (auto simp: feed_moves_def each_subscriber_def
      map_of_each [where g = "\<lambda>sub. if p sub then f sub else sub"])

lemma feed_moves_publish: "is_live item \<Longrightarrow> feed_moves feed (publish_live sid item feed)"
  by (rule feed_moves_each [where p = "\<lambda>sub. sb_session_id sub = sid" and f = "put_live item"])
     (auto intro: sub_step.live simp: publish_live_def)

lemma feed_moves_notice: "feed_moves feed (on_notice notice feed)"
  by (rule feed_moves_each [where p = "\<lambda>sub. sb_session_id sub = n_session_id notice"
        and f = "put_nowait (Notice (n_kind notice) (n_seq notice))"])
     (auto intro: sub_step.notice simp: on_notice_def each_subscriber_def Let_def)

lemma feed_moves_broadcast: "feed_moves feed (broadcast_resync feed)"
  by (rule feed_moves_each [where p = "\<lambda>sub. True" and f = "put_nowait Resync"])
     (auto intro: sub_step.resync simp: broadcast_resync_def)

section \<open>Properties\<close>

text \<open>
  C35. A slow subscriber is bounded and knows when it missed something. However parts, notices and
  resyncs arrive and are taken, a subscription never queues more than 2000 live parts, and
  when a live part is dropped because of that, a resync is in the queue after it, so the
  subscriber will read the output log again.
\<close>

theorem slow_subscriber_is_told:
  assumes "sub_reachable sid sub" and "is_live item"
  shows "length (filter is_live (sb_queue (put_live item sub))) \<le> LIVE_QUEUE_LIMIT \<and>
    (item \<in> set (sb_queue (put_live item sub)) \<or> Resync \<in> set (sb_queue (put_live item sub)))"
proof -
  have ok: "sub_ok sub" using assms(1) by (rule sub_reachable_ok)
  then have "sub_ok (put_live item sub)" using assms(2) by (intro sub_ok_put_live)
  with ok show ?thesis by (auto simp: sub_ok_def put_live_def put_nowait_def)
qed

theorem slow_subscriber_is_told_witness:
  "LivePart 1 None [] \<in> set (sb_queue (put_live (LivePart 1 None []) (new_subscription ''s''))) \<or>
   Resync \<in> set (sb_queue (put_live (LivePart 1 None []) (new_subscription ''s'')))"
  using slow_subscriber_is_told [OF sub_reachable.new, of "LivePart 1 None []"] by simp

end
