(* ===== verification/Follow.thy ===== *)
theory Follow
  imports UiMessage Feed Commit
begin

text \<open>
  A page's view of a session, \<^verbatim>\<open>session_runtime/follow.py\<close>: the generator \<^verbatim>\<open>follow_output\<close> as a
  start and one step per feed item. A yielded part carries a tag that is not in the code: the
  log number it came from, or \<^const>\<open>None\<close> for a part the generator makes up itself.

  The store moves between two page reads of one drain, so a drain is given the states of the
  store its reads find, in order; \<open>Reading\<close> is a drain that has run out of them, i.e. one that
  still waits for a read. An exception leaves the generator with the parts already yielded.
\<close>

section \<open>Parts\<close>

definition PAGE :: nat where
  "PAGE = 500"

definition HELD_LIMIT :: nat where
  "HELD_LIMIT = 5000"

type_synonym yielded = "int option \<times> obj"

definition resume_cursor_part :: "int \<Rightarrow> obj" where
  "resume_cursor_part seq =
     [(''type'', JStr ''data-resume-cursor''), (''transient'', JBool True), (''data'', JObj [(''seq'', JInt seq)])]"

definition SESSION_CHANGED_PART :: obj where
  "SESSION_CHANGED_PART =
     [(''type'', JStr ''data-session-changed''), (''transient'', JBool True), (''data'', JObj [])]"

definition TRANSCRIPT_CHANGED_PART :: obj where
  "TRANSCRIPT_CHANGED_PART =
     [(''type'', JStr ''data-transcript-changed''), (''transient'', JBool True), (''data'', JObj [])]"

definition finishes :: "obj \<Rightarrow> bool" where
  "finishes part \<longleftrightarrow> get part ''type'' = JStr ''finish'' \<or> get part ''type'' = JStr ''error''"

definition emit :: "int \<Rightarrow> obj \<Rightarrow> yielded list res" where
  "emit seq stored =
     rbind (public_part stored False) (\<lambda>shown.
     case shown of
       None \<Rightarrow> Inr []
     | Some part \<Rightarrow>
         if get part ''type'' = JStr ''error''
         then Inr [(None, resume_cursor_part seq), (Some seq, part)]
         else Inr [(Some seq, part)])"

section \<open>Reading the log\<close>

datatype drain_end = Exhausted | Finished | Reading | Raising error

text \<open>
  One page of rows. The consumer of \<^verbatim>\<open>from_log\<close> stops it at a finishing part it receives, which
  ends the call; \<^verbatim>\<open>from_log\<close> itself stops after a finishing row, received or not.
\<close>

fun log_rows :: "int \<Rightarrow> output_row list \<Rightarrow> yielded list \<times> int \<times> drain_end \<times> bool" where
  "log_rows pos [] = ([], pos, Exhausted, False)"
| "log_rows pos (row # rows) =
     (case emit (o_seq row) (o_part row) of
        Inl e \<Rightarrow> ([], pos, Raising e, True)
      | Inr outs \<Rightarrow>
          if list_ex (\<lambda>y. finishes (snd y)) outs then (outs, o_seq row, Finished, True)
          else if finishes (o_part row) then (outs, o_seq row, Exhausted, True)
          else let (rest, r) = log_rows (o_seq row) rows in (outs @ rest, r))"

fun from_log :: "string \<Rightarrow> int \<Rightarrow> db list \<Rightarrow> yielded list \<times> int \<times> drain_end" where
  "from_log sid pos [] = ([], pos, Reading)"
| "from_log sid pos (db # dbs) =
     (let rows = read_output sid pos PAGE db in
      case log_rows pos rows of
        (outs, pos', stop, stopped) \<Rightarrow>
          if stopped \<or> length rows < PAGE then (outs, pos', stop)
          else let (rest, r) = from_log sid pos' dbs in (outs @ rest, r))"

section \<open>The generator\<close>

record follow_state =
  fo_last :: int
  fo_held :: "(int, obj) dict"

datatype follow_end =
    Following follow_state
  | Ended_at int
  | Still_reading
  | Raised error

fun drain_end_of :: "drain_end \<Rightarrow> follow_end option" where
  "drain_end_of Reading = Some Still_reading"
| "drain_end_of (Raising e) = Some (Raised e)"
| "drain_end_of _ = None"

definition cursor_at :: "int \<Rightarrow> yielded" where
  "cursor_at seq = (None, resume_cursor_part seq)"

definition changed_parts :: "yielded list" where
  "changed_parts = [(None, SESSION_CHANGED_PART), (None, TRANSCRIPT_CHANGED_PART)]"

definition follow_start :: "string \<Rightarrow> int \<Rightarrow> db list \<Rightarrow> yielded list \<times> follow_end" where
  "follow_start sid after_seq dbs =
     (case from_log sid after_seq dbs of
        (outs, pos, stop) \<Rightarrow>
          case drain_end_of stop of
            Some r \<Rightarrow> (changed_parts @ outs, r)
          | None \<Rightarrow>
              if stop = Finished then (changed_parts @ outs @ [cursor_at pos], Ended_at pos)
              else (changed_parts @ outs @ (if pos \<noteq> after_seq then [cursor_at pos] else []),
                    Following \<lparr>fo_last = pos, fo_held = []\<rparr>))"

text \<open>\<^verbatim>\<open>while not ended and last + 1 in held\<close>.\<close>

function drain_held :: "int \<Rightarrow> (int, obj) dict \<Rightarrow> yielded list \<times> int \<times> (int, obj) dict \<times> drain_end" where
  "drain_held pos held =
     (case map_of held (pos + 1) of
        None \<Rightarrow> ([], pos, held, Exhausted)
      | Some part \<Rightarrow>
          case emit (pos + 1) part of
            Inl e \<Rightarrow> ([], pos, held, Raising e)
          | Inr outs \<Rightarrow>
              let held' = dict_pop (pos + 1) held in
              if finishes part then (outs, pos + 1, held', Finished)
              else let (rest, r) = drain_held (pos + 1) held' in (outs @ rest, r))"
  by pat_completeness auto
termination
proof (relation "measure (\<lambda>(pos, held). length held)")
  show "wf (measure (\<lambda>(pos, held). length held))" by simp
  fix pos :: int and held :: "(int, obj) dict" and part outs held'
  assume "map_of held (pos + 1) = Some part" and "held' = dict_pop (pos + 1) held"
  then show "((pos + 1, held'), pos, held) \<in> measure (\<lambda>(pos, held). length held)"
    by (auto simp: dict_pop_def intro!: length_filter_less dest: map_of_SomeD)
qed

declare drain_held.simps [simp del]

fun wants_log :: "feed_item \<Rightarrow> int \<Rightarrow> bool" where
  "wants_log (Notice kind seq) pos \<longleftrightarrow> kind = NOutput \<and> pos < seq"
| "wants_log Resync pos \<longleftrightarrow> True"
| "wants_log (LivePart seq rid part) pos \<longleftrightarrow> False"

fun own_parts :: "feed_item \<Rightarrow> yielded list" where
  "own_parts (Notice kind seq) =
     (if kind = NSession \<or> kind = NReader then [(None, SESSION_CHANGED_PART)]
      else if kind = NTranscript then [(None, TRANSCRIPT_CHANGED_PART)] else [])"
| "own_parts Resync = changed_parts"
| "own_parts (LivePart seq rid part) = []"

fun hold :: "feed_item \<Rightarrow> follow_state \<Rightarrow> (int, obj) dict" where
  "hold (LivePart seq rid part) st =
     (if fo_last st < seq \<and> length (fo_held st) < HELD_LIMIT then dict_set seq part (fo_held st) else fo_held st)"
| "hold _ st = fo_held st"

definition close_burst :: "yielded list \<Rightarrow> int \<Rightarrow> yielded list" where
  "close_burst burst seq =
     burst @ (if get (snd (last burst)) ''type'' \<noteq> JStr ''data-resume-cursor'' then [cursor_at seq] else [])"

definition follow_item :: "string \<Rightarrow> feed_item \<Rightarrow> db list \<Rightarrow> follow_state \<Rightarrow> yielded list \<times> follow_end" where
  "follow_item sid item dbs st =
     (case (if wants_log item (fo_last st) then from_log sid (fo_last st) dbs else ([], fo_last st, Exhausted)) of
        (outs, pos1, stop) \<Rightarrow>
          case drain_end_of stop of
            Some r \<Rightarrow> ([], r)
          | None \<Rightarrow>
              case (if stop = Finished then ([], pos1, hold item st, Finished) else drain_held pos1 (hold item st)) of
                (rest, pos2, held, stop2) \<Rightarrow>
                  case drain_end_of stop2 of
                    Some r \<Rightarrow> ([], r)
                  | None \<Rightarrow>
                      let burst = own_parts item @ outs @ rest;
                          st' = \<lparr>fo_last = pos2, fo_held = filter (\<lambda>kv. pos2 < fst kv) held\<rparr>
                      in if burst = [] then ([], Following st')
                         else (close_burst burst pos2, if stop2 = Finished then Ended_at pos2 else Following st'))"

fun follow_run :: "string \<Rightarrow> (feed_item \<times> db list) list \<Rightarrow> follow_state \<Rightarrow> yielded list \<times> follow_end" where
  "follow_run sid [] st = ([], Following st)"
| "follow_run sid ((item, dbs) # events) st =
     (case follow_item sid item dbs st of
        (ys, Following st') \<Rightarrow> let (rest, r) = follow_run sid events st' in (ys @ rest, r)
      | (ys, r) \<Rightarrow> (ys, r))"

text \<open>One call of \<^verbatim>\<open>follow_output\<close>: what it has yielded after these feed items.\<close>

definition follow_output :: "string \<Rightarrow> int \<Rightarrow> db list \<Rightarrow> (feed_item \<times> db list) list \<Rightarrow> yielded list \<times> follow_end" where
  "follow_output sid after_seq dbs events =
     (case follow_start sid after_seq dbs of
        (ys, Following st) \<Rightarrow> let (rest, r) = follow_run sid events st in (ys @ rest, r)
      | (ys, r) \<Rightarrow> (ys, r))"

section \<open>The log as a sequence\<close>

text \<open>
  \<open>content\<close> is what a session's log holds under each number; a state of the store agrees with
  it when the session's log has no gap and holds these parts. \<open>shown_from content a b\<close> is what
  a page should see of the numbers after \<open>a\<close> up to \<open>b\<close>.
\<close>

definition log_agrees :: "string \<Rightarrow> (int \<Rightarrow> obj) \<Rightarrow> db \<Rightarrow> bool" where
  "log_agrees sid content db \<longleftrightarrow>
     contiguous sid db \<and> list_all (\<lambda>row. o_part row = content (o_seq row)) (session_log sid db)"

fun item_agrees :: "(int \<Rightarrow> obj) \<Rightarrow> feed_item \<Rightarrow> bool" where
  "item_agrees content (LivePart seq rid part) \<longleftrightarrow> part = content seq"
| "item_agrees content _ \<longleftrightarrow> True"

definition shown_part :: "(int \<Rightarrow> obj) \<Rightarrow> int \<Rightarrow> (int \<times> obj) option" where
  "shown_part content n =
     (case public_part (content n) False of Inr (Some part) \<Rightarrow> Some (n, part) | _ \<Rightarrow> None)"

definition shown_from :: "(int \<Rightarrow> obj) \<Rightarrow> int \<Rightarrow> int \<Rightarrow> (int \<times> obj) list" where
  "shown_from content a b = List.map_filter (shown_part content) [a + 1..b]"

definition from_the_log :: "yielded list \<Rightarrow> (int \<times> obj) list" where
  "from_the_log ys = List.map_filter (\<lambda>y. map_option (\<lambda>n. (n, snd y)) (fst y)) ys"

lemma map_filter_append [simp]: "List.map_filter f (xs @ ys) = List.map_filter f xs @ List.map_filter f ys"
  by (induction xs) (auto simp: map_filter_simps split: option.splits)

lemma from_the_log_simps [simp]:
  "from_the_log [] = []"
  "from_the_log (xs @ ys) = from_the_log xs @ from_the_log ys"
  "from_the_log ((None, p) # ys) = from_the_log ys"
  "from_the_log ((Some n, p) # ys) = (n, p) # from_the_log ys"
  by (simp_all add: from_the_log_def map_filter_simps)

lemma from_the_log_own [simp]:
  "from_the_log changed_parts = []" "from_the_log (cursor_at n # ys) = from_the_log ys"
  "from_the_log (own_parts item) = []" "from_the_log (close_burst ys n) = from_the_log ys"
  by (cases item; simp add: changed_parts_def cursor_at_def close_burst_def)+

lemma shown_from_same [simp]: "shown_from content a a = []"
  by (simp add: shown_from_def map_filter_simps)

lemma shown_from_append:
  "a \<le> b \<Longrightarrow> b \<le> c \<Longrightarrow> shown_from content a b @ shown_from content b c = shown_from content a c"
  by (simp add: shown_from_def upto_append [of "a + 1" b c, symmetric])

lemma shown_from_next:
  "shown_from content n (n + 1) = (case shown_part content (n + 1) of None \<Rightarrow> [] | Some x \<Rightarrow> [x])"
  by (simp add: shown_from_def map_filter_simps split: option.split)

lemma emit_shown:
  assumes "emit (n + 1) (content (n + 1)) = Inr outs"
  shows "from_the_log outs = shown_from content n (n + 1)"
proof (cases "public_part (content (n + 1)) False")
  case (Inl e)
  with assms show ?thesis by (simp add: emit_def)
next
  case (Inr shown)
  with assms show ?thesis
    by (cases shown) (auto simp: emit_def shown_from_next shown_part_def split: if_splits)
qed

text \<open>A page of a log without gaps: the numbers right after the last one seen.\<close>

lemma filter_upto_gt: "0 \<le> a \<Longrightarrow> filter (\<lambda>n. a < n) [1..m] = [a + 1..m]" for a m :: int
proof (cases "a \<le> m")
  case True
  assume "0 \<le> a"
  with True have "[1..m] = [1..a] @ [a + 1..m]" by (simp add: upto_append)
  moreover have "filter (\<lambda>n. a < n) [1..a] = []" and "filter (\<lambda>n. a < n) [a + 1..m] = [a + 1..m]"
    by (auto simp: filter_empty_conv filter_id_conv)
  ultimately show ?thesis by simp
qed (auto simp: filter_empty_conv)

lemma take_upto_int: "take k [a..m] = [a..min m (a + int k - 1)]" for a m :: int
proof (induction k arbitrary: a)
  case 0
  then show ?case by simp
next
  case (Suc k)
  show ?case
  proof (cases "a \<le> m")
    case True
    then have "take (Suc k) [a..m] = a # [a + 1..min m (a + 1 + int k - 1)]"
      by (simp add: upto_rec1 Suc)
    also have "\<dots> = [a..min m (a + int (Suc k) - 1)]" using True by (simp add: upto_rec1 algebra_simps)
    finally show ?thesis .
  qed simp
qed

lemma read_output_seqs:
  assumes "contiguous sid db" and "0 \<le> a"
  shows "map o_seq (read_output sid a k db) = [a + 1..min (max_seq sid db) (a + int k)]"
    and "set (read_output sid a k db) \<subseteq> set (session_log sid db)"
proof -
  let ?rows = "filter (\<lambda>o'. of_session sid o' \<and> a < o_seq o') (t_output db)"
  have rows: "?rows = filter (\<lambda>o'. a < o_seq o') (session_log sid db)"
    by (simp add: session_log_def conj_commute)
  have "map o_seq ?rows = filter (\<lambda>n. a < n) (map o_seq (session_log sid db))"
    by (simp add: rows filter_map o_def)
  also have "\<dots> = [a + 1..max_seq sid db]"
    using assms by (simp add: contiguous_def filter_upto_gt max_seq_contiguous)
  finally have seqs: "map o_seq ?rows = [a + 1..max_seq sid db]" .
  then have "order_by o_seq ?rows = ?rows" by (intro order_by_id) simp
  then have page: "read_output sid a k db = take k ?rows" by (simp add: read_output_def)
  show "map o_seq (read_output sid a k db) = [a + 1..min (max_seq sid db) (a + int k)]"
    by (simp add: page take_map [symmetric] seqs take_upto_int del: filter_filter)
  show "set (read_output sid a k db) \<subseteq> set (session_log sid db)"
    by (auto simp: page rows dest: in_set_takeD)
qed

section \<open>Every step shows the next numbers\<close>

lemma log_rows_shown:
  assumes "map o_seq rows = [pos + 1..m]" and "\<forall>row \<in> set rows. o_part row = content (o_seq row)"
    and "log_rows pos rows = (outs, pos', stop, stopped)"
  shows "from_the_log outs = shown_from content pos pos' \<and> pos \<le> pos'"
  using assms
proof (induction rows arbitrary: pos outs)
  case Nil
  then show ?case by simp
next
  case (Cons row rows)
  have "pos + 1 \<le> m" using Cons.prems(1) by (cases "pos + 1 \<le> m") simp_all
  with Cons.prems(1) have seq: "o_seq row = pos + 1" and rows: "map o_seq rows = [pos + 1 + 1..m]"
    by (simp_all add: upto_rec1)
  have part: "o_part row = content (pos + 1)" using Cons.prems(2) seq by simp
  show ?case
  proof (cases "emit (pos + 1) (content (pos + 1))")
    case (Inl e)
    then show ?thesis using Cons.prems(3) seq part by simp
  next
    case (Inr now_out)
    have now_shown: "from_the_log now_out = shown_from content pos (pos + 1)" by (rule emit_shown) (rule Inr)
    obtain later r where later: "log_rows (pos + 1) rows = (later, r)" by (cases "log_rows (pos + 1) rows")
    show ?thesis
    proof (cases "list_ex (\<lambda>y. finishes (snd y)) now_out \<or> finishes (content (pos + 1))")
      case True
      with Cons.prems(3) Inr now_shown seq part show ?thesis by (auto split: if_splits)
    next
      case False
      with Cons.prems(3) Inr seq part later
      have outs: "outs = now_out @ later" and r: "r = (pos', stop, stopped)" by simp_all
      from Cons.IH [OF rows _ later [unfolded r]] Cons.prems(2)
      have "from_the_log later = shown_from content (pos + 1) pos'" and le: "pos + 1 \<le> pos'" by simp_all
      then show ?thesis by (simp add: outs now_shown shown_from_append)
    qed
  qed
qed

lemma from_log_shown:
  assumes "\<forall>db \<in> set dbs. log_agrees sid content db" and "0 \<le> pos"
    and "from_log sid pos dbs = (outs, pos', stop)"
  shows "from_the_log outs = shown_from content pos pos' \<and> pos \<le> pos'"
  using assms
proof (induction dbs arbitrary: pos outs)
  case Nil
  then show ?case by simp
next
  case (Cons db dbs)
  obtain first at st stopped where rows: "log_rows pos (read_output sid pos PAGE db) = (first, at, st, stopped)"
    by (cases "log_rows pos (read_output sid pos PAGE db)") auto
  have "log_agrees sid content db" using Cons.prems(1) by simp
  then have page: "from_the_log first = shown_from content pos at \<and> pos \<le> at"
    using log_rows_shown [OF _ _ rows] read_output_seqs [of sid db pos PAGE] Cons.prems(2)
    by (auto simp: log_agrees_def list_all_iff)
  show ?case
  proof (cases "stopped \<or> length (read_output sid pos PAGE db) < PAGE")
    case True
    with Cons.prems(3) rows page show ?thesis by (auto simp: Let_def split: if_splits)
  next
    case False
    obtain later r where later: "from_log sid at dbs = (later, r)" by (cases "from_log sid at dbs")
    with Cons.prems(3) rows False have outs: "outs = first @ later" and r: "r = (pos', stop)"
      by (simp_all add: Let_def split: if_splits)
    from Cons.IH [OF _ _ later [unfolded r]] Cons.prems(1,2) page
    have "from_the_log later = shown_from content at pos' \<and> at \<le> pos'" by simp
    with page show ?thesis by (simp add: outs shown_from_append)
  qed
qed

definition held_agrees :: "(int \<Rightarrow> obj) \<Rightarrow> (int, obj) dict \<Rightarrow> bool" where
  "held_agrees content held \<longleftrightarrow> list_all (\<lambda>(seq, part). part = content seq) held"

lemma held_agrees_pop: "held_agrees content held \<Longrightarrow> held_agrees content (dict_pop k held)"
  by (auto simp: held_agrees_def list_all_iff dict_pop_def)

lemma held_agrees_set: "held_agrees content held \<Longrightarrow> held_agrees content (dict_set n (content n) held)"
  unfolding held_agrees_def list_all_iff by (rule ball_dict_set) auto

lemma held_agrees_hold:
  "held_agrees content (fo_held st) \<Longrightarrow> item_agrees content item \<Longrightarrow> held_agrees content (hold item st)"
  by (cases item) (simp_all add: held_agrees_set)

lemma drain_held_shown:
  assumes "held_agrees content held" and "drain_held pos held = (outs, pos', held', stop)"
  shows "from_the_log outs = shown_from content pos pos' \<and> pos \<le> pos' \<and> held_agrees content held'"
  using assms
proof (induction pos held arbitrary: outs rule: drain_held.induct)
  case (1 pos held)
  show ?case
  proof (cases "map_of held (pos + 1)")
    case None
    with 1 show ?thesis by (simp add: drain_held.simps [of pos held])
  next
    case (Some part)
    have part: "part = content (pos + 1)"
      using 1(2) map_of_SomeD [OF Some] by (auto simp: held_agrees_def list_all_iff)
    show ?thesis
    proof (cases "emit (pos + 1) part")
      case (Inl e)
      with 1 Some show ?thesis by (simp add: drain_held.simps [of pos held])
    next
      case (Inr now_out)
      then have now_shown: "from_the_log now_out = shown_from content pos (pos + 1)"
        by (intro emit_shown) (simp add: part)
      have popped: "held_agrees content (dict_pop (pos + 1) held)" using 1(2) by (rule held_agrees_pop)
      obtain later r where later: "drain_held (pos + 1) (dict_pop (pos + 1) held) = (later, r)"
        by (cases "drain_held (pos + 1) (dict_pop (pos + 1) held)")
      show ?thesis
      proof (cases "finishes part")
        case True
        with 1(3) Some Inr now_shown popped show ?thesis by (auto simp: drain_held.simps [of pos held])
      next
        case False
        with 1(3) Some Inr later have outs: "outs = now_out @ later" and r: "r = (pos', held', stop)"
          by (simp_all add: drain_held.simps [of pos held])
        from 1(1) [OF Some Inr refl False popped later [unfolded r]] now_shown show ?thesis
          by (auto simp: outs shown_from_append)
      qed
    qed
  qed
qed

fun end_at :: "(int \<Rightarrow> obj) \<Rightarrow> int \<Rightarrow> follow_end \<Rightarrow> bool" where
  "end_at content n (Following st) \<longleftrightarrow> fo_last st = n \<and> held_agrees content (fo_held st)"
| "end_at content n (Ended_at k) \<longleftrightarrow> k = n"
| "end_at content n _ \<longleftrightarrow> True"

lemma drain_end_of_end: "drain_end_of stop = Some r \<Longrightarrow> end_at content n r"
  by (cases stop) auto

lemma follow_item_shown:
  assumes "\<forall>db \<in> set dbs. log_agrees sid content db" and "item_agrees content item"
    and "held_agrees content (fo_held st)" and "0 \<le> fo_last st"
    and "follow_item sid item dbs st = (ys, r)"
  shows "\<exists>n \<ge> fo_last st. from_the_log ys = shown_from content (fo_last st) n \<and> end_at content n r"
proof -
  obtain outs pos1 stop where
    log: "(if wants_log item (fo_last st) then from_log sid (fo_last st) dbs else ([], fo_last st, Exhausted))
      = (outs, pos1, stop)"
    by (cases "if wants_log item (fo_last st) then from_log sid (fo_last st) dbs else ([], fo_last st, Exhausted)")
  then have shown1: "from_the_log outs = shown_from content (fo_last st) pos1 \<and> fo_last st \<le> pos1"
    using from_log_shown [OF assms(1,4)] by (auto split: if_splits)
  obtain rest pos2 held stop2 where
    drain: "(if stop = Finished then ([], pos1, hold item st, Finished) else drain_held pos1 (hold item st))
      = (rest, pos2, held, stop2)"
    by (cases "if stop = Finished then ([], pos1, hold item st, Finished) else drain_held pos1 (hold item st)")
  have "held_agrees content (hold item st)" using assms(2,3) by (intro held_agrees_hold)
  with drain have shown2: "from_the_log rest = shown_from content pos1 pos2 \<and> pos1 \<le> pos2 \<and> held_agrees content held"
    using drain_held_shown by (auto split: if_splits)
  have kept: "held_agrees content (filter (\<lambda>kv. pos2 < fst kv) held)"
    using shown2 by (simp add: held_agrees_def list_all_iff)
  have shown: "from_the_log (outs @ rest) = shown_from content (fo_last st) pos2" and le: "fo_last st \<le> pos2"
    using shown1 shown2 by (simp_all add: shown_from_append)
  show ?thesis
  proof (cases "drain_end_of stop")
    case (Some r')
    with assms(5) log have "ys = []" and "r = r'" by (simp_all add: follow_item_def)
    with Some show ?thesis by (auto intro: exI [of _ "fo_last st"] drain_end_of_end)
  next
    case unstopped: None
    show ?thesis
    proof (cases "drain_end_of stop2")
      case (Some r')
      with unstopped assms(5) log drain have "ys = []" and "r = r'" by (simp_all add: follow_item_def)
      with Some show ?thesis by (auto intro: exI [of _ "fo_last st"] drain_end_of_end)
    next
      case None
      with unstopped assms(5) log drain
      have "(ys, r) = (if own_parts item @ outs @ rest = []
          then ([], Following \<lparr>fo_last = pos2, fo_held = filter (\<lambda>kv. pos2 < fst kv) held\<rparr>)
          else (close_burst (own_parts item @ outs @ rest) pos2,
            if stop2 = Finished then Ended_at pos2
            else Following \<lparr>fo_last = pos2, fo_held = filter (\<lambda>kv. pos2 < fst kv) held\<rparr>))"
        by (simp add: follow_item_def Let_def)
      moreover have "from_the_log ys = from_the_log (outs @ rest)"
        using calculation by (auto split: if_splits)
      ultimately show ?thesis using shown le kept by (auto intro!: exI [of _ pos2] split: if_splits)
    qed
  qed
qed

definition event_agrees :: "string \<Rightarrow> (int \<Rightarrow> obj) \<Rightarrow> feed_item \<times> db list \<Rightarrow> bool" where
  "event_agrees sid content event \<longleftrightarrow>
     item_agrees content (fst event) \<and> list_all (log_agrees sid content) (snd event)"

lemma follow_run_shown:
  assumes "list_all (event_agrees sid content) events"
    and "held_agrees content (fo_held st)" and "0 \<le> fo_last st"
    and "follow_run sid events st = (ys, r)"
  shows "\<exists>n \<ge> fo_last st. from_the_log ys = shown_from content (fo_last st) n \<and> end_at content n r"
  using assms
proof (induction events arbitrary: st ys)
  case Nil
  then show ?case by (auto intro: exI [of _ "fo_last st"])
next
  case (Cons event events)
  obtain item dbs where event: "event = (item, dbs)" by (cases event)
  obtain first r1 where step: "follow_item sid item dbs st = (first, r1)" by (cases "follow_item sid item dbs st")
  have "\<forall>db \<in> set dbs. log_agrees sid content db" and "item_agrees content item"
    using Cons.prems(1) by (simp_all add: event event_agrees_def list_all_iff)
  from follow_item_shown [OF this Cons.prems(2,3) step] obtain m where
    m: "fo_last st \<le> m" "from_the_log first = shown_from content (fo_last st) m" "end_at content m r1"
    by blast
  show ?case
  proof (cases "\<exists>st'. r1 = Following st'")
    case True
    then obtain st' where r1: "r1 = Following st'" ..
    obtain later r2 where later: "follow_run sid events st' = (later, r2)" by (cases "follow_run sid events st'")
    with Cons.prems(4) step have ys: "ys = first @ later" and r2: "r2 = r" by (simp_all add: event r1)
    with Cons.IH [OF _ _ _ later [unfolded r2]] Cons.prems(1,3) m r1 obtain n where
      "m \<le> n" "from_the_log later = shown_from content m n" "end_at content n r"
      by (auto simp: event)
    with m show ?thesis by (auto simp: ys shown_from_append intro!: exI [of _ n])
  next
    case False
    with Cons.prems(4) step have "ys = first" and "r = r1" by (auto simp: event split: follow_end.splits)
    with m show ?thesis by auto
  qed
qed

lemma follow_output_shown:
  assumes "list_all (log_agrees sid content) dbs" and "list_all (event_agrees sid content) events"
    and "0 \<le> after_seq" and "follow_output sid after_seq dbs events = (ys, r)"
  shows "\<exists>n \<ge> after_seq. from_the_log ys = shown_from content after_seq n \<and>
    (\<forall>st. r = Following st \<longrightarrow> fo_last st = n) \<and> (\<forall>k. r = Ended_at k \<longrightarrow> k = n)"
proof -
  obtain outs pos stop where log: "from_log sid after_seq dbs = (outs, pos, stop)"
    by (cases "from_log sid after_seq dbs")
  then have shown: "from_the_log outs = shown_from content after_seq pos" and le: "after_seq \<le> pos"
    using from_log_shown [OF _ assms(3) log] assms(1) by (simp_all add: list_all_iff)
  obtain first r1 where start: "follow_start sid after_seq dbs = (first, r1)"
    by (cases "follow_start sid after_seq dbs")
  then have first: "from_the_log first = from_the_log outs" and r1: "end_at content pos r1"
    using log by (auto simp: follow_start_def held_agrees_def drain_end_of_end split: option.splits if_splits)
  show ?thesis
  proof (cases "\<exists>st. r1 = Following st")
    case True
    then obtain st where st: "r1 = Following st" ..
    obtain later r2 where later: "follow_run sid events st = (later, r2)" by (cases "follow_run sid events st")
    with assms(4) start have ys: "ys = first @ later" and "r2 = r" by (simp_all add: follow_output_def st)
    with follow_run_shown [OF assms(2) _ _ later] r1 st le assms(3) obtain n where
      "pos \<le> n" "from_the_log later = shown_from content pos n" "end_at content n r"
      by auto
    with le first shown show ?thesis
      by (cases r) (auto simp: ys shown_from_append intro!: exI [of _ n])
  next
    case False
    with assms(4) start have "ys = first" and "r = r1" by (auto simp: follow_output_def split: follow_end.splits)
    with first shown le r1 show ?thesis by (cases r) (auto intro!: exI [of _ pos])
  qed
qed

section \<open>Properties\<close>

text \<open>
  C3. A page sees each part once and in order. Whatever states of the store the reads of a
  \<^verbatim>\<open>follow_output\<close> call find and whatever the feed hands it, in any order and with live parts
  early, late, repeated or missing: as long as every log read has no gap and live parts are
  the parts the log holds under their number, the parts yielded from the log are exactly the
  visible parts of the numbers after \<open>after_seq\<close>, in ascending order without gap or repetition,
  up to a number the call's end state names.
\<close>

theorem follow_shows_each_part_once:
  assumes "list_all (log_agrees sid content) dbs" and "list_all (event_agrees sid content) events"
    and "0 \<le> after_seq" and "follow_output sid after_seq dbs events = (ys, r)"
  shows "\<exists>n \<ge> after_seq. from_the_log ys = shown_from content after_seq n \<and>
    (\<forall>st. r = Following st \<longrightarrow> fo_last st = n) \<and> (\<forall>k. r = Ended_at k \<longrightarrow> k = n)"
  using assms by (rule follow_output_shown)

text \<open>
  A sample: two parts are in the log, the third and the last are live and come out of order.
\<close>

definition sample_content :: "int \<Rightarrow> obj" where
  "sample_content n =
     (if n = 3 then sample_part
      else if n = 4 then [(''type'', JStr ''finish'')]
      else coalesce (map_option o_part (first_row (\<lambda>o'. o_seq o' = n) (session_log ''s'' sample_recorded))) [])"

definition sample_events :: "(feed_item \<times> db list) list" where
  "sample_events = [(LivePart 4 None (sample_content 4), []), (Notice NOutput 2, [sample_recorded]),
     (LivePart 3 None (sample_content 3), [])]"

theorem follow_shows_each_part_once_witness:
  "from_the_log (fst (follow_output ''s'' 1 [sample_recorded] sample_events)) = shown_from sample_content 1 4"
proof -
  have "list_all (log_agrees ''s'' sample_content) [sample_recorded]" by code_simp
  moreover have "list_all (event_agrees ''s'' sample_content) sample_events" by code_simp
  moreover have "snd (follow_output ''s'' 1 [sample_recorded] sample_events) = Ended_at 4" by code_simp
  ultimately show ?thesis
    using follow_shows_each_part_once [of "''s''" sample_content "[sample_recorded]" sample_events 1]
    by (fastforce simp: prod_eq_iff)
qed

section \<open>Catching up\<close>

text \<open>A finishing part is always shown, unless projecting it raises.\<close>

lemma public_part_finishes:
  assumes "public_part part False = Inr shown" and "finishes part"
  shows "\<exists>p. shown = Some p \<and> finishes p"
proof -
  have "get part ''type'' \<noteq> JStr ''data-raw-event''" using assms(2) by (auto simp: finishes_def)
  then have "is_claude_diagnostic_part part = Inr False" by (simp add: is_claude_diagnostic_part_def Let_def)
  with assms show ?thesis
    by (auto simp: public_part_def Let_def finishes_def get_visible_type split: if_splits)
qed

lemma emit_finishes:
  assumes "emit n part = Inr outs" and "finishes part"
  shows "list_ex (\<lambda>y. finishes (snd y)) outs"
proof -
  from assms(1) obtain shown where shown: "public_part part False = Inr shown"
    by (auto simp: emit_def rbind_Inr_iff)
  with public_part_finishes [OF this assms(2)] assms(1) show ?thesis
    by (auto simp: emit_def split: if_splits)
qed

lemma log_rows_end:
  assumes "log_rows pos rows = (outs, pos', stop, stopped)"
  shows "if stopped then stop = Finished \<or> (\<exists>e. stop = Raising e)
    else stop = Exhausted \<and> pos' = (if rows = [] then pos else o_seq (last rows))"
  using assms
proof (induction rows arbitrary: pos outs)
  case Nil
  then show ?case by simp
next
  case (Cons row rows)
  obtain later r where later: "log_rows (o_seq row) rows = (later, r)" by (cases "log_rows (o_seq row) rows")
  show ?case
  proof (cases "r = (pos', stop, stopped)")
    case True
    with Cons.IH [of "o_seq row" later] later have "if stopped then stop = Finished \<or> (\<exists>e. stop = Raising e)
      else stop = Exhausted \<and> pos' = (if rows = [] then o_seq row else o_seq (last rows))" by simp
    then show ?thesis by auto
  next
    case False
    with Cons.prems emit_finishes [of "o_seq row" "o_part row"] show ?thesis
      by (auto simp: later split: sum.splits if_splits)
  qed
qed

lemma last_upto_int: "a \<le> m \<Longrightarrow> last [a..m] = m" for a m :: int
  by (simp add: upto_rec2)

lemma from_log_catches_up:
  assumes "contiguous sid db" and "0 \<le> pos" and "pos \<le> max_seq sid db"
    and "max_seq sid db - pos < int (k * PAGE)"
    and "from_log sid pos (replicate k db) = (outs, pos', stop)"
  shows "stop = Exhausted \<and> pos' = max_seq sid db \<or> stop = Finished \<or> (\<exists>e. stop = Raising e)"
  using assms
proof (induction k arbitrary: pos outs)
  case 0
  then show ?case by simp
next
  case (Suc k)
  define rows where "rows = read_output sid pos PAGE db"
  define top where "top = min (max_seq sid db) (pos + int PAGE)"
  have seqs: "map o_seq rows = [pos + 1..top]"
    unfolding rows_def top_def using Suc.prems(1,2) by (rule read_output_seqs)
  then have length: "length rows = nat (top - pos)" using length_map [of o_seq rows] by simp
  obtain first at st stopped where page: "log_rows pos rows = (first, at, st, stopped)"
    by (cases "log_rows pos rows") auto
  obtain later r where later: "from_log sid at (replicate k db) = (later, r)"
    by (cases "from_log sid at (replicate k db)")
  note stop = log_rows_end [OF page]
  show ?case
  proof (cases "stopped")
    case True
    with stop Suc.prems(5) page show ?thesis by (auto simp: rows_def Let_def)
  next
    case False
    with stop have at: "at = (if rows = [] then pos else o_seq (last rows))" and st: "st = Exhausted" by simp_all
    have "at = top"
    proof (cases "rows = []")
      case True
      with length at Suc.prems(3) show ?thesis by (simp add: top_def PAGE_def)
    next
      case nonempty: False
      then have "at = last [pos + 1..top]" using at by (simp add: seqs [symmetric] last_map)
      moreover have "pos + 1 \<le> top" using nonempty length by (cases "pos + 1 \<le> top") simp_all
      ultimately show ?thesis by (simp add: last_upto_int)
    qed
    show ?thesis
    proof (cases "length rows < PAGE")
      case True
      then have "top = max_seq sid db" using length by (auto simp: top_def min_def split: if_splits)
      with True Suc.prems(5) page st \<open>at = top\<close> show ?thesis by (simp add: rows_def Let_def)
    next
      case full: False
      then have "top = pos + int PAGE" using length by (auto simp: top_def min_def PAGE_def)
      moreover have "r = (pos', stop)"
        using full False Suc.prems(5) page later by (simp add: rows_def Let_def)
      moreover have "top \<le> max_seq sid db" by (simp add: top_def)
      ultimately show ?thesis
        using Suc.IH [of at later] Suc.prems(1,2,4) \<open>at = top\<close> later by (simp add: algebra_simps)
    qed
  qed
qed

text \<open>
  C34. A page that connects catches up. When the log is not growing meanwhile and each of the
  call's reads returns, \<^verbatim>\<open>follow_output\<close> does not stay in the log: having read at most one page
  of 500 rows more than the log has after \<open>after_seq\<close>, it follows the feed from the log's last
  number, unless it met the end of a response first and ended there, or a stored part that
  cannot be projected made it raise.
\<close>

theorem follow_catches_up:
  assumes "contiguous sid db" and "0 \<le> after_seq" and "after_seq \<le> max_seq sid db"
    and "max_seq sid db - after_seq < int (k * PAGE)"
  shows "snd (follow_start sid after_seq (replicate k db)) =
      Following \<lparr>fo_last = max_seq sid db, fo_held = []\<rparr> \<or>
    (\<exists>n. snd (follow_start sid after_seq (replicate k db)) = Ended_at n) \<or>
    (\<exists>e. snd (follow_start sid after_seq (replicate k db)) = Raised e)"
proof -
  obtain outs pos stop where log: "from_log sid after_seq (replicate k db) = (outs, pos, stop)"
    by (cases "from_log sid after_seq (replicate k db)")
  from from_log_catches_up [OF assms log] show ?thesis by (auto simp: follow_start_def log)
qed

theorem follow_catches_up_witness:
  "snd (follow_start ''s'' 0 (replicate 1 sample_recorded)) = Following \<lparr>fo_last = 2, fo_held = []\<rparr>"
proof -
  have "contiguous ''s'' sample_recorded" by code_simp
  moreover have "max_seq ''s'' sample_recorded = 2" by code_simp
  moreover have "(case snd (follow_start ''s'' 0 (replicate 1 sample_recorded)) of Following st \<Rightarrow> True | _ \<Rightarrow> False)"
    by code_simp
  ultimately show ?thesis
    using follow_catches_up [of "''s''" sample_recorded 0 1] by (auto simp: PAGE_def)
qed

end
