(* ===== verification/Reads.thy ===== *)
theory Reads
  imports UiMessage Commit Evolution
begin

text \<open>
  The reads of the output log beyond the conversation itself,
  \<^verbatim>\<open>persistence/repository/session_read_repository.py\<close>, and the file changes built from them
  (\<^verbatim>\<open>session_runtime/file_changes.py\<close>); and that a log that only grows at its end never changes
  what has been read from it.
\<close>

section \<open>Statements\<close>

definition within :: "int option \<Rightarrow> int \<Rightarrow> bool" where
  "within through n \<longleftrightarrow> (case through of None \<Rightarrow> True | Some m \<Rightarrow> n \<le> m)"

definition response_rows :: "string \<Rightarrow> string \<Rightarrow> int option \<Rightarrow> db \<Rightarrow> output_row list" where
  "response_rows sid rid through db =
     filter (\<lambda>o'. o_response_id o' = Some rid \<and> within through (o_seq o')) (session_log sid db)"

definition greatest :: "int list \<Rightarrow> int option" where
  "greatest ns = (case ns of [] \<Rightarrow> None | n # rest \<Rightarrow> Some (fold max rest n))"

definition last_output_seqs :: "string \<Rightarrow> string list \<Rightarrow> int option \<Rightarrow> db \<Rightarrow> (string, int) dict" where
  "last_output_seqs sid rids through db =
     List.map_filter (\<lambda>rid. map_option (\<lambda>n. (rid, n)) (greatest (map o_seq (response_rows sid rid through db)))) (remdups rids)"

definition responses_ended_between :: "string \<Rightarrow> int \<Rightarrow> int \<Rightarrow> db \<Rightarrow> string list" where
  "responses_ended_between sid after through db =
     (let in_window = List.map_filter o_response_id
            (filter (\<lambda>o'. after < o_seq o' \<and> o_seq o' \<le> through) (session_log sid db));
          ended = filter (\<lambda>rn. snd rn \<le> through \<and>
              exists_row (\<lambda>r. r_session_id r = sid \<and> r_response_id r = fst rn \<and> r_status r = Ended) (t_responses db))
            (last_output_seqs sid in_window None db)
      in map fst (order_by snd ended))"

definition parts_of_type :: "string \<Rightarrow> string \<Rightarrow> string list \<Rightarrow> int \<Rightarrow> db \<Rightarrow> output_row list" where
  "parts_of_type sid kind rids through db =
     (if rids = [] then []
      else order_by o_seq (filter (\<lambda>o'. (case o_response_id o' of None \<Rightarrow> False | Some rid \<Rightarrow> rid \<in> set rids) \<and>
             o_seq o' \<le> through \<and> get (o_part o') ''type'' = JStr kind) (session_log sid db)))"

definition waiting_interaction :: "string \<Rightarrow> db \<Rightarrow> interaction_row option" where
  "waiting_interaction sid db =
     (case order_by x_opened_at (filter (\<lambda>x. x_session_id x = sid \<and> x_status x = IOpen \<and> x_answer x = None) (t_interactions db)) of
        [] \<Rightarrow> None | x # _ \<Rightarrow> Some x)"

section \<open>File changes\<close>

definition FILE_CHANGES_PART :: string where
  "FILE_CHANGES_PART = ''data-file-changes''"

record file_changes_view =
  fc_through_seq :: int
  fc_responses :: "(string \<times> obj list) list"

definition file_changes :: "string \<Rightarrow> int \<Rightarrow> db \<Rightarrow> file_changes_view res" where
  "file_changes sid after db =
     (let through = fst (resume_point sid db) in
      if after < 0 \<or> through < after then Inl FileChangeCursorError
      else
        let rids = responses_ended_between sid after through db;
            rows = parts_of_type sid FILE_CHANGES_PART rids through db
        in Inr \<lparr>fc_through_seq = through,
                fc_responses = map (\<lambda>rid. (rid, map o_part (filter (\<lambda>o'. o_response_id o' = Some rid) rows))) rids\<rparr>)"

section \<open>A source that only grows\<close>

text \<open>
  What a reader of a growing log may rely on: content read up to a position that was stored
  stays the same. A cache keyed by such positions stays right while the source grows.
\<close>

locale versioned_source =
  fixes grows :: "'db \<Rightarrow> 'db \<Rightarrow> bool" and stored :: "'db \<Rightarrow> 'k \<Rightarrow> int \<Rightarrow> bool" and content :: "'db \<Rightarrow> 'k \<Rightarrow> int \<Rightarrow> 'v"
  assumes stored_grows: "grows db db' \<Longrightarrow> stored db k n \<Longrightarrow> stored db' k n"
    and content_grows: "grows db db' \<Longrightarrow> stored db k n \<Longrightarrow> content db' k n = content db k n"
begin

lemma stored_runs: "grows\<^sup>*\<^sup>* db db' \<Longrightarrow> stored db k n \<Longrightarrow> stored db' k n"
  by (induction rule: rtranclp_induct) (auto intro: stored_grows)

lemma content_runs: "grows\<^sup>*\<^sup>* db db' \<Longrightarrow> stored db k n \<Longrightarrow> content db' k n = content db k n"
  by (induction rule: rtranclp_induct) (auto dest: stored_runs simp: content_grows)

lemma entry_grows:
  "grows db db' \<Longrightarrow> stored db k n \<and> content db k n = v \<Longrightarrow> stored db' k n \<and> content db' k n = v"
  by (simp add: stored_grows content_grows)

end

definition log_grows :: "db \<Rightarrow> db \<Rightarrow> bool" where
  "log_grows db db' \<longleftrightarrow>
     (\<forall>sid. \<exists>new. session_log sid db' = session_log sid db @ new \<and>
        (\<forall>o' \<in> set new. \<forall>q \<in> set (session_log sid db). o_seq q < o_seq o'))"

definition log_reaches :: "db \<Rightarrow> string \<times> string \<Rightarrow> int \<Rightarrow> bool" where
  "log_reaches db key n \<longleftrightarrow> (\<exists>o' \<in> set (session_log (fst key) db). n \<le> o_seq o')"

definition parts_through :: "string \<Rightarrow> string \<Rightarrow> int option \<Rightarrow> db \<Rightarrow> obj list" where
  "parts_through sid rid through db = map o_part (order_by o_seq (response_rows sid rid through db))"

definition folded_through :: "db \<Rightarrow> string \<times> string \<Rightarrow> int \<Rightarrow> ui_message res" where
  "folded_through db key n = fold_message (snd key) (parts_through (fst key) (snd key) (Some n) db)"

interpretation output_log: versioned_source log_grows log_reaches folded_through
proof
  fix db db' :: db and k :: "string \<times> string" and n :: int
  assume grows: "log_grows db db'" and reaches: "log_reaches db k n"
  obtain sid rid where k: "k = (sid, rid)" by (cases k)
  from grows obtain new where new: "session_log sid db' = session_log sid db @ new"
    "\<forall>o' \<in> set new. \<forall>q \<in> set (session_log sid db). o_seq q < o_seq o'"
    unfolding log_grows_def by blast
  from reaches k obtain q where q: "q \<in> set (session_log sid db)" "n \<le> o_seq q" by (auto simp: log_reaches_def)
  show "log_reaches db' k n" using q new(1) by (auto simp: log_reaches_def k)
  have "\<not> within (Some n) (o_seq o')" if "o' \<in> set new" for o'
    using new(2) that q by (fastforce simp: within_def)
  then have "response_rows sid rid (Some n) db' = response_rows sid rid (Some n) db"
    by (simp add: response_rows_def new(1) filter_empty_conv)
  then show "folded_through db' k n = folded_through db k n" by (simp add: folded_through_def parts_through_def k)
qed

text \<open>What the recording component guarantees is such growth.\<close>

lemma evolves_log_grows:
  assumes "evolves S db db'" and "\<And>sid. contiguous sid db" and "\<And>sid. contiguous sid db'"
  shows "log_grows db db'"
  unfolding log_grows_def
proof
  fix sid
  from assms(1) obtain new where out: "t_output db' = t_output db @ new" by (auto simp: evolves_def log_extends_def)
  let ?new = "filter (of_session sid) new" and ?n = "int (length (session_log sid db))"
  have log: "session_log sid db' = session_log sid db @ ?new" by (simp add: session_log_def out)
  have old: "map o_seq (session_log sid db) = [1..?n]" using assms(2) by (simp add: contiguous_def)
  have "map o_seq (session_log sid db) @ map o_seq ?new = [1..?n + int (length ?new)]"
    using assms(3) [of sid] unfolding contiguous_def log by simp
  then have "map o_seq ?new = [?n + 1..?n + int (length ?new)]"
    unfolding old by (simp add: upto_append [of 1 ?n "?n + int (length ?new)", symmetric])
  then have "set (map o_seq ?new) = {?n + 1..?n + int (length ?new)}" by simp
  then have "?n < o_seq o'" if "o' \<in> set ?new" for o'
  proof -
    have "o_seq o' \<in> set (map o_seq ?new)" using that by simp
    then show ?thesis unfolding \<open>set (map o_seq ?new) = _\<close> by simp
  qed
  moreover have "o_seq q \<le> ?n" if "q \<in> set (session_log sid db)" for q
    using that old by (metis atLeastAtMost_iff imageI list.set_map set_upto)
  ultimately show "\<exists>new. session_log sid db' = session_log sid db @ new \<and>
      (\<forall>o' \<in> set new. \<forall>q \<in> set (session_log sid db). o_seq q < o_seq o')"
    using log by (meson le_less_trans)
qed

end
