(* ===== verification/Codec.thy ===== *)
theory Codec
  imports Json
begin

text \<open>
  The parts of Python's standard library that the session runtime prints and reads with: decimal
  numbers, \<^verbatim>\<open>json.dumps\<close>, \<^verbatim>\<open>str.rpartition\<close> and their inverses.
\<close>

section \<open>Decimal numbers\<close>

lemma of_digit_char: "d < 10 \<Longrightarrow> of_char (digit_char d) = 48 + d"
  by (simp add: digit_char_def)

lemma is_digit_char: "d < 10 \<Longrightarrow> is_digit (digit_char d)"
  by (simp add: is_digit_def of_digit_char Let_def)

lemma str_nat_digits: "list_all is_digit (str_nat n) \<and> str_nat n \<noteq> []"
proof (induction n rule: str_nat.induct)
  case (1 n)
  then show ?case by (subst (1 2) str_nat.simps) (auto simp: is_digit_char)
qed

lemma digits_from_append:
  "list_all is_digit s \<Longrightarrow> digits_from acc (s @ t) = (case digits_from acc s of None \<Rightarrow> None | Some n \<Rightarrow> digits_from n t)"
  by (induction s arbitrary: acc) auto

lemma digits_from_str_nat: "digits_from 0 (str_nat n) = Some n"
proof (induction n rule: str_nat.induct)
  case (1 n)
  show ?case
  proof (cases "n < 10")
    case True
    then show ?thesis by (subst str_nat.simps) (simp add: is_digit_char of_digit_char)
  next
    case False
    with 1 str_nat_digits show ?thesis
      by (subst str_nat.simps) (simp add: digits_from_append is_digit_char of_digit_char)
  qed
qed

lemma str_nat_inj: "str_nat m = str_nat n \<Longrightarrow> m = n"
  by (metis digits_from_str_nat option.inject)

section \<open>Splitting\<close>

text \<open>\<^verbatim>\<open>s.rpartition(c)\<close>, \<open>None\<close> when \<open>c\<close> does not occur, else what is before and after its last occurrence.\<close>

definition rpartition :: "char \<Rightarrow> string \<Rightarrow> (string \<times> string) option" where
  "rpartition c s =
     (if c \<in> set s
      then Some (rev (tl (dropWhile (\<lambda>x. x \<noteq> c) (rev s))), rev (takeWhile (\<lambda>x. x \<noteq> c) (rev s)))
      else None)"

lemma rpartition_Some:
  assumes "rpartition c s = Some (a, b)"
  shows "s = a @ [c] @ b" and "c \<notin> set b"
proof -
  from assms have c: "c \<in> set s" and a: "a = rev (tl (dropWhile (\<lambda>x. x \<noteq> c) (rev s)))"
    and b: "b = rev (takeWhile (\<lambda>x. x \<noteq> c) (rev s))"
    by (auto simp: rpartition_def split: if_splits)
  have drop: "dropWhile (\<lambda>x. x \<noteq> c) (rev s) \<noteq> []" using c by (simp add: dropWhile_eq_Nil_conv)
  then have "hd (dropWhile (\<lambda>x. x \<noteq> c) (rev s)) = c" using hd_dropWhile [OF drop] by simp
  with drop have "dropWhile (\<lambda>x. x \<noteq> c) (rev s) = c # tl (dropWhile (\<lambda>x. x \<noteq> c) (rev s))"
    by (metis list.collapse)
  moreover have "rev s = takeWhile (\<lambda>x. x \<noteq> c) (rev s) @ dropWhile (\<lambda>x. x \<noteq> c) (rev s)" by simp
  ultimately have "rev s = rev b @ c # rev a" by (metis a b rev_rev_ident)
  then have "rev (rev s) = rev (rev b @ c # rev a)" by (rule arg_cong)
  then show "s = a @ [c] @ b" by simp
  show "c \<notin> set b" unfolding b by (auto dest: set_takeWhileD)
qed

lemma rpartition_split: "c \<notin> set b \<Longrightarrow> rpartition c (a @ [c] @ b) = Some (a, b)"
proof -
  assume "c \<notin> set b"
  then have "takeWhile (\<lambda>x. x \<noteq> c) (rev b @ [c] @ rev a) = rev b" "dropWhile (\<lambda>x. x \<noteq> c) (rev b @ [c] @ rev a) = c # rev a"
    by (subst takeWhile_append2, auto) (subst dropWhile_append2, auto)
  then show ?thesis by (simp add: rpartition_def)
qed

text \<open>The same for a separator of several characters.\<close>

definition rpartition_str :: "string \<Rightarrow> string \<Rightarrow> (string \<times> string) option" where
  "rpartition_str sep s =
     (let ns = filter (\<lambda>n. startswith sep (drop n s)) [0..<Suc (length s)] in
      if ns = [] then None else Some (take (List.last ns) s, drop (List.last ns + length sep) s))"

lemma startswith_head: "startswith (c # sep) s \<Longrightarrow> s \<noteq> [] \<and> hd s = c"
  by (cases s) (simp_all add: startswith_def)

lemma rpartition_str_split:
  assumes "c \<notin> set sep" and "c \<notin> set b"
  shows "rpartition_str (c # sep) (a @ (c # sep) @ b) = Some (a, b)"
proof -
  let ?s = "a @ (c # sep) @ b" and ?here = "\<lambda>n. startswith (c # sep) (drop n (a @ (c # sep) @ b))"
  have later: "\<not> ?here n" if n: "length a < n" for n
  proof
    assume "?here n"
    then have head: "drop n ?s \<noteq> [] \<and> hd (drop n ?s) = c" by (rule startswith_head)
    from n obtain m where "n = Suc (length a + m)" using less_iff_Suc_add by blast
    then have "drop n ?s = drop m (sep @ b)" by simp
    with head have "c \<in> set (sep @ b)" by (metis hd_in_set in_set_dropD)
    with assms show False by simp
  qed
  have "[0..<Suc (length ?s)] = [0..<length a] @ [length a..<length a + (Suc (length ((c # sep) @ b)))]"
    using upt_add_eq_append [of 0 "length a" "Suc (length ((c # sep) @ b))"] by simp
  also have "[length a..<length a + (Suc (length ((c # sep) @ b)))] = [length a] @ [Suc (length a)..<Suc (length ?s)]"
    by (subst upt_conv_Cons) simp_all
  finally have "[0..<Suc (length ?s)] = [0..<length a] @ [length a] @ [Suc (length a)..<Suc (length ?s)]" .
  moreover have "filter ?here [Suc (length a)..<Suc (length ?s)] = []"
    unfolding filter_empty_conv by (intro ballI later) (simp only: set_upt atLeastLessThan_iff Suc_le_eq)
  moreover have "?here (length a)" by (simp add: startswith_def)
  ultimately have "filter ?here [0..<Suc (length ?s)] = filter ?here [0..<length a] @ [length a]"
    by (simp only: filter_append filter.simps if_True append_Nil2)
  then show ?thesis unfolding rpartition_str_def by (simp only: Let_def) simp
qed

section \<open>Printing JSON\<close>

text \<open>
  \<^verbatim>\<open>json.dumps\<close> with the separators and \<^verbatim>\<open>ensure_ascii\<close> it is called with.
\<close>

definition dumps_char :: "bool \<Rightarrow> char \<Rightarrow> string" where
  "dumps_char ensure_ascii c =
     (let n = of_char c :: nat; bs = char_of (92::nat) in
      if n = 34 \<or> n = 92 then [bs, c]
      else if n = 10 then [bs, CHR ''n'']
      else if n = 13 then [bs, CHR ''r'']
      else if n = 9 then [bs, CHR ''t'']
      else if n = 8 then [bs, CHR ''b'']
      else if n = 12 then [bs, CHR ''f'']
      else if n < 32 \<or> ensure_ascii \<and> 127 \<le> n then bs # ''u00'' @ [hex_digit (n div 16), hex_digit (n mod 16)]
      else [c])"

definition dumps_str :: "bool \<Rightarrow> string \<Rightarrow> string" where
  "dumps_str ensure_ascii s =
     (let quote = [char_of (34::nat)] in quote @ concat (map (dumps_char ensure_ascii) s) @ quote)"

fun dumps :: "string \<Rightarrow> string \<Rightarrow> bool \<Rightarrow> json \<Rightarrow> string" where
  "dumps item key ascii JNull = ''null''"
| "dumps item key ascii (JBool b) = (if b then ''true'' else ''false'')"
| "dumps item key ascii (JInt i) = str_int i"
| "dumps item key ascii (JStr s) = dumps_str ascii s"
| "dumps item key ascii (JList xs) = ''['' @ join item (map (dumps item key ascii) xs) @ '']''"
| "dumps item key ascii (JObj d) =
     ''{'' @ join item (map (\<lambda>kv. dumps_str ascii (fst kv) @ key @ dumps item key ascii (snd kv)) d) @ ''}''"

definition json_dumps :: "json \<Rightarrow> string" where
  "json_dumps = dumps '', '' '': '' True"

section \<open>Base 64\<close>

text \<open>\<^verbatim>\<open>base64.b64encode\<close> and \<^verbatim>\<open>urlsafe_b64encode\<close> on a list of bytes.\<close>

definition b64_alphabet :: "bool \<Rightarrow> string" where
  "b64_alphabet urlsafe = ''ABCDEFGHIJKLMNOPQRSTUVWXYZabcdefghijklmnopqrstuvwxyz0123456789'' @ (if urlsafe then ''-_'' else ''+/'')"

definition b64_char :: "bool \<Rightarrow> nat \<Rightarrow> char" where
  "b64_char urlsafe n = b64_alphabet urlsafe ! n"

fun b64encode :: "bool \<Rightarrow> nat list \<Rightarrow> string" where
  "b64encode u [] = []"
| "b64encode u [a] = [b64_char u (a div 4), b64_char u ((a mod 4) * 16), CHR ''='', CHR ''='']"
| "b64encode u [a, b] =
     [b64_char u (a div 4), b64_char u ((a mod 4) * 16 + b div 16), b64_char u ((b mod 16) * 4), CHR ''='']"
| "b64encode u (a # b # c # rest) =
     [b64_char u (a div 4), b64_char u ((a mod 4) * 16 + b div 16), b64_char u ((b mod 16) * 4 + c div 64),
      b64_char u (c mod 64)] @ b64encode u rest"

text \<open>
  \<^verbatim>\<open>urlsafe_b64decode\<close>: both alphabets are read, other characters are skipped, and padding ends the
  data. The state is the position in a group of four, what is left of the last character
  and the padding seen; a string with other than ASCII characters is refused.
\<close>

definition b64_value :: "char \<Rightarrow> nat option" where
  "b64_value c =
     (let n = of_char c :: nat in
      if 65 \<le> n \<and> n \<le> 90 then Some (n - 65)
      else if 97 \<le> n \<and> n \<le> 122 then Some (n - 71)
      else if 48 \<le> n \<and> n \<le> 57 then Some (n + 4)
      else if c = CHR ''+'' \<or> c = CHR ''-'' then Some 62
      else if c = CHR ''/'' \<or> c = CHR ''_'' then Some 63
      else None)"

fun b64decode_from :: "nat \<Rightarrow> nat \<Rightarrow> nat \<Rightarrow> string \<Rightarrow> nat list res" where
  "b64decode_from q left pads [] = (if q = 0 then Inr [] else Inl ValueError)"
| "b64decode_from q left pads (c # cs) =
     (if c = CHR ''='' then (if 2 \<le> q \<and> 4 \<le> q + (pads + 1) then Inr [] else b64decode_from q left (if 2 \<le> q then pads + 1 else pads) cs)
      else case b64_value c of
        None \<Rightarrow> b64decode_from q left pads cs
      | Some v \<Rightarrow>
          if q = 0 then b64decode_from 1 v 0 cs
          else if q = 1 then rbind (b64decode_from 2 (v mod 16) 0 cs) (\<lambda>bs. Inr ((left * 4 + v div 16) # bs))
          else if q = 2 then rbind (b64decode_from 3 (v mod 4) 0 cs) (\<lambda>bs. Inr ((left * 16 + v div 4) # bs))
          else rbind (b64decode_from 0 0 0 cs) (\<lambda>bs. Inr ((left * 64 + v) # bs)))"

definition is_ascii :: "string \<Rightarrow> bool" where
  "is_ascii s = list_all (\<lambda>c. of_char c < (128::nat)) s"

definition urlsafe_b64decode :: "string \<Rightarrow> nat list res" where
  "urlsafe_b64decode s = (if is_ascii s then b64decode_from 0 0 0 s else Inl ValueError)"

definition b64_right :: "bool \<Rightarrow> nat \<Rightarrow> bool" where
  "b64_right u n \<longleftrightarrow> b64_value (b64_char u n) = Some n \<and> b64_char u n \<noteq> CHR ''='' \<and>
     of_char (b64_char u n) < (128::nat) \<and> \<not> is_space (b64_char u n)"

lemma b64_right_table: "list_all (b64_right True) [0..<64]" "list_all (b64_right False) [0..<64]"
  by code_simp+

lemma b64_right: "n < 64 \<Longrightarrow> b64_right u n"
  using b64_right_table by (cases u) (simp_all add: list_all_iff)

lemma b64_value_char [simp]: "n < 64 \<Longrightarrow> b64_value (b64_char u n) = Some n" "n < 64 \<Longrightarrow> b64_char u n \<noteq> CHR ''=''"
  using b64_right [of n u] by (simp_all add: b64_right_def)

lemma sextets [simp]:
  "a < 256 \<Longrightarrow> a div 4 < (64::nat)" "(a mod 4) * 16 < (64::nat)" "b < 256 \<Longrightarrow> (a mod 4) * 16 + b div 16 < (64::nat)"
  "(b mod 16) * 4 < (64::nat)" "c < 256 \<Longrightarrow> (b mod 16) * 4 + c div 64 < (64::nat)"
proof -
  have m4: "a mod 4 < (4::nat)" and m16: "b mod 16 < (16::nat)" for a b :: nat by simp_all
  show "a < 256 \<Longrightarrow> a div 4 < (64::nat)" by simp
  show "(a mod 4) * 16 < (64::nat)" using m4 [of a] by linarith
  show "(b mod 16) * 4 < (64::nat)" using m16 [of b] by linarith
  show "(a mod 4) * 16 + b div 16 < (64::nat)" if "b < 256"
  proof -
    have "b div 16 < 16" using that by simp
    with m4 [of a] show ?thesis by linarith
  qed
  show "(b mod 16) * 4 + c div 64 < (64::nat)" if "c < 256"
  proof -
    have "c div 64 < 4" using that by simp
    with m16 [of b] show ?thesis by linarith
  qed
qed

lemma joined_bytes [simp]:
  "b < 256 \<Longrightarrow> b div 16 div 16 = (0::nat)" "b < 256 \<Longrightarrow> b div 16 mod 16 = (b div 16 :: nat)"
  "c < 256 \<Longrightarrow> c div 64 div 4 = (0::nat)" "c < 256 \<Longrightarrow> c div 64 mod 4 = (c div 64 :: nat)"
proof -
  have "b < 256 \<Longrightarrow> b div 16 < (16::nat)" for b by simp
  then show "b < 256 \<Longrightarrow> b div 16 div 16 = (0::nat)" "b < 256 \<Longrightarrow> b div 16 mod 16 = (b div 16 :: nat)"
    using div_less mod_less by blast+
  have "c < 256 \<Longrightarrow> c div 64 < (4::nat)" for c by simp
  then show "c < 256 \<Longrightarrow> c div 64 div 4 = (0::nat)" "c < 256 \<Longrightarrow> c div 64 mod 4 = (c div 64 :: nat)"
    using div_less mod_less by blast+
qed

lemma b64decode_encode: "list_all (\<lambda>b. b < 256) bs \<Longrightarrow> b64decode_from 0 0 0 (b64encode u bs) = Inr bs"
  by (induction u bs rule: b64encode.induct) simp_all

text \<open>The encoded text without its padding, which the cursors drop and add again.\<close>

fun b64_digits :: "bool \<Rightarrow> nat list \<Rightarrow> string" where
  "b64_digits u [] = []"
| "b64_digits u [a] = [b64_char u (a div 4), b64_char u ((a mod 4) * 16)]"
| "b64_digits u [a, b] = [b64_char u (a div 4), b64_char u ((a mod 4) * 16 + b div 16), b64_char u ((b mod 16) * 4)]"
| "b64_digits u (a # b # c # rest) =
     [b64_char u (a div 4), b64_char u ((a mod 4) * 16 + b div 16), b64_char u ((b mod 16) * 4 + c div 64),
      b64_char u (c mod 64)] @ b64_digits u rest"

definition rstrip_char :: "char \<Rightarrow> string \<Rightarrow> string" where
  "rstrip_char c s = rev (dropWhile (\<lambda>x. x = c) (rev s))"

definition repad :: "string \<Rightarrow> string" where
  "repad s = s @ replicate (nat (- int (length s) mod 4)) (CHR ''='')"

definition b64_pads :: "nat list \<Rightarrow> nat" where
  "b64_pads bs = (if length bs mod 3 = 0 then 0 else 3 - length bs mod 3)"

lemma b64encode_digits: "b64encode u bs = b64_digits u bs @ replicate (b64_pads bs) (CHR ''='')"
  by (induction u bs rule: b64encode.induct) (simp_all add: b64_pads_def numeral_2_eq_2)

lemma b64_digits_chars: "list_all (\<lambda>b. b < 256) bs \<Longrightarrow> set (b64_digits u bs) \<subseteq> b64_char u ` {..<64}"
  by (induction u bs rule: b64_digits.induct) (simp_all add: imageI)

lemma length_b64_digits: "(length (b64_digits u bs) + b64_pads bs) mod 4 = 0 \<and> b64_pads bs < 4"
  by (induction u bs rule: b64_digits.induct) (auto simp: b64_pads_def)

lemma repad_digits: "repad (b64_digits u bs) = b64encode u bs"
proof -
  have "nat (- int (length (b64_digits u bs)) mod 4) = b64_pads bs"
  proof -
    have "int (length (b64_digits u bs) + b64_pads bs) mod 4 = 0"
      using length_b64_digits [of u bs] by (metis of_nat_0 of_nat_mod of_nat_numeral)
    moreover have "0 \<le> int (b64_pads bs)" "int (b64_pads bs) < 4" using length_b64_digits [of u bs] by simp_all
    ultimately have "- int (length (b64_digits u bs)) mod 4 = int (b64_pads bs)" unfolding of_nat_add by presburger
    then show ?thesis by simp
  qed
  then show ?thesis by (simp add: repad_def b64encode_digits)
qed

lemma rstrip_padding:
  assumes "list_all (\<lambda>b. b < 256) bs"
  shows "rstrip_char (CHR ''='') (b64encode u bs) = b64_digits u bs"
proof -
  have no_pad: "c \<noteq> CHR ''=''" if "c \<in> set (b64_digits u bs)" for c
    using subsetD [OF b64_digits_chars [OF assms, of u] that] b64_value_char(2) by (metis imageE lessThan_iff)
  have "dropWhile (\<lambda>x. x = CHR ''='') (replicate n (CHR ''='') @ xs) = dropWhile (\<lambda>x. x = CHR ''='') xs" for n xs
    by (induction n) simp_all
  moreover have "dropWhile (\<lambda>x. x = CHR ''='') (rev (b64_digits u bs)) = rev (b64_digits u bs)"
  proof -
    have "dropWhile P xs = xs" if "\<forall>x \<in> set xs. \<not> P x" for P and xs :: string using that by (cases xs) simp_all
    from this [of "rev (b64_digits u bs)" "\<lambda>x. x = CHR ''=''"] no_pad show ?thesis by auto
  qed
  ultimately show ?thesis by (simp add: rstrip_char_def b64encode_digits)
qed

text \<open>What a cursor drops and adds again decodes to the bytes it encoded.\<close>

lemma b64_round_trip:
  assumes "list_all (\<lambda>b. b < 256) bs"
  shows "urlsafe_b64decode (repad (rstrip_char (CHR ''='') (b64encode True bs))) = Inr bs"
    and "bs \<noteq> [] \<Longrightarrow> strip (rstrip_char (CHR ''='') (b64encode True bs)) = rstrip_char (CHR ''='') (b64encode True bs)"
    and "bs \<noteq> [] \<Longrightarrow> rstrip_char (CHR ''='') (b64encode True bs) \<noteq> []"
proof -
  have chars: "\<forall>c \<in> set (b64_digits True bs). of_char c < (128::nat) \<and> \<not> is_space c"
    using b64_digits_chars [OF assms, of True] b64_right by (auto simp: b64_right_def)
  then have "is_ascii (b64encode True bs)" by (auto simp: is_ascii_def list_all_iff b64encode_digits)
  then show "urlsafe_b64decode (repad (rstrip_char (CHR ''='') (b64encode True bs))) = Inr bs"
    by (simp add: rstrip_padding [OF assms] repad_digits urlsafe_b64decode_def b64decode_encode [OF assms])
  show nonempty: "rstrip_char (CHR ''='') (b64encode True bs) \<noteq> []" if "bs \<noteq> []"
    using that unfolding rstrip_padding [OF assms] by (cases "(True, bs)" rule: b64_digits.cases) simp_all
  show "strip (rstrip_char (CHR ''='') (b64encode True bs)) = rstrip_char (CHR ''='') (b64encode True bs)" if "bs \<noteq> []"
    using nonempty [OF that] chars unfolding rstrip_padding [OF assms] strip_def
    by (simp add: lstrip_id rstrip_id)
qed

section \<open>Reading JSON\<close>

text \<open>
  \<^verbatim>\<open>json.loads\<close>. Text is Latin-1 and numbers are whole, as everywhere in this development: a
  fraction, an exponent or a character beyond Latin-1 is refused here. The fuel of the
  descent is the length of the text, which every call shortens.
\<close>

definition is_ws :: "char \<Rightarrow> bool" where
  "is_ws c \<longleftrightarrow> (of_char c :: nat) \<in> {32, 9, 10, 13}"

definition skip_ws :: "string \<Rightarrow> string" where
  "skip_ws s = dropWhile is_ws s"

definition unescape :: "char \<Rightarrow> char option" where
  "unescape e =
     (if e = char_of (34::nat) \<or> e = char_of (92::nat) \<or> e = CHR ''/'' then Some e
      else if e = CHR ''n'' then Some (char_of (10::nat))
      else if e = CHR ''r'' then Some (char_of (13::nat))
      else if e = CHR ''t'' then Some (char_of (9::nat))
      else if e = CHR ''b'' then Some (char_of (8::nat))
      else if e = CHR ''f'' then Some (char_of (12::nat))
      else None)"

definition hex_value :: "char \<Rightarrow> nat option" where
  "hex_value c =
     (let n = of_char c :: nat in
      if 48 \<le> n \<and> n \<le> 57 then Some (n - 48)
      else if 97 \<le> n \<and> n \<le> 102 then Some (n - 87)
      else if 65 \<le> n \<and> n \<le> 70 then Some (n - 55)
      else None)"

fun hex_number :: "nat \<Rightarrow> string \<Rightarrow> nat option" where
  "hex_number acc [] = Some acc"
| "hex_number acc (c # cs) = (case hex_value c of None \<Rightarrow> None | Some v \<Rightarrow> hex_number (acc * 16 + v) cs)"

definition cons_fst :: "char \<Rightarrow> string \<times> string \<Rightarrow> string \<times> string" where
  "cons_fst c st = (c # fst st, snd st)"

fun parse_string :: "string \<Rightarrow> (string \<times> string) option" where
  "parse_string [] = None"
| "parse_string (c # cs) =
     (if c = char_of (34::nat) then Some ([], cs)
      else if c = char_of (92::nat) then
        (case cs of
           [] \<Rightarrow> None
         | e # r \<Rightarrow>
             if e = CHR ''u'' then
               (case hex_number 0 (take 4 r) of
                  None \<Rightarrow> None
                | Some n \<Rightarrow> if length (take 4 r) = 4 \<and> n < 256 then map_option (cons_fst (char_of n)) (parse_string (drop 4 r)) else None)
             else (case unescape e of None \<Rightarrow> None | Some x \<Rightarrow> map_option (cons_fst x) (parse_string r)))
      else if (of_char c :: nat) < 32 then None
      else map_option (cons_fst c) (parse_string cs))"

definition float_tail :: "string \<Rightarrow> bool" where
  "float_tail s \<longleftrightarrow>
     (case s of
        [] \<Rightarrow> False
      | c # r \<Rightarrow>
          (let t = (if r \<noteq> [] \<and> (c = CHR ''e'' \<or> c = CHR ''E'') \<and> hd r \<in> {CHR ''+'', CHR ''-''} then tl r else r) in
           (c = CHR ''.'' \<or> c = CHR ''e'' \<or> c = CHR ''E'') \<and> t \<noteq> [] \<and> is_digit (hd t)))"

definition number_digits :: "string \<Rightarrow> string" where
  "number_digits t = (if startswith ''0'' t then ''0'' else takeWhile is_digit t)"

definition parse_number :: "string \<Rightarrow> (json \<times> string) option" where
  "parse_number s =
     (let neg = startswith ''-'' s; t = (if neg then tl s else s);
          ds = number_digits t; rest = drop (length ds) t
      in if ds = [] \<or> float_tail rest then None
         else map_option (\<lambda>n. (JInt (if neg then - int n else int n), rest)) (digits_from 0 ds))"

fun loads_value :: "nat \<Rightarrow> string \<Rightarrow> (json \<times> string) option"
  and loads_items :: "nat \<Rightarrow> string \<Rightarrow> (json list \<times> string) option"
  and loads_members :: "nat \<Rightarrow> string \<Rightarrow> (obj \<times> string) option" where
  "loads_value 0 s = None"
| "loads_value (Suc k) s =
     (if s = [] then None
      else if hd s = char_of (34::nat) then map_option (\<lambda>(t, r). (JStr t, r)) (parse_string (tl s))
      else if hd s = CHR ''['' then
        (let r = skip_ws (tl s) in
         if startswith '']'' r then Some (JList [], tl r)
         else map_option (\<lambda>(vs, r'). (JList vs, r')) (loads_items k r))
      else if hd s = CHR ''{'' then
        (let r = skip_ws (tl s) in
         if startswith ''}'' r then Some (JObj [], tl r)
         else map_option (\<lambda>(kvs, r'). (JObj (dict_update [] kvs), r')) (loads_members k r))
      else if startswith ''null'' s then Some (JNull, drop 4 s)
      else if startswith ''true'' s then Some (JBool True, drop 4 s)
      else if startswith ''false'' s then Some (JBool False, drop 5 s)
      else parse_number s)"
| "loads_items 0 s = None"
| "loads_items (Suc k) s =
     (case loads_value k s of
        None \<Rightarrow> None
      | Some (v, r) \<Rightarrow>
          let r' = skip_ws r in
          if startswith '','' r' then map_option (\<lambda>(vs, t). (v # vs, t)) (loads_items k (skip_ws (tl r')))
          else if startswith '']'' r' then Some ([v], tl r')
          else None)"
| "loads_members 0 s = None"
| "loads_members (Suc k) s =
     (if \<not> startswith [char_of (34::nat)] s then None
      else case parse_string (tl s) of
        None \<Rightarrow> None
      | Some (key, r) \<Rightarrow>
          let r' = skip_ws r in
          if \<not> startswith '':'' r' then None
          else case loads_value k (skip_ws (tl r')) of
            None \<Rightarrow> None
          | Some (v, q) \<Rightarrow>
              let q' = skip_ws q in
              if startswith '','' q' then map_option (\<lambda>(kvs, t). ((key, v) # kvs, t)) (loads_members k (skip_ws (tl q')))
              else if startswith ''}'' q' then Some ([(key, v)], tl q')
              else None)"

definition json_loads :: "string \<Rightarrow> json res" where
  "json_loads s =
     (case loads_value (Suc (length s)) (skip_ws s) of
        None \<Rightarrow> Inl ValueError
      | Some (v, r) \<Rightarrow> if skip_ws r = [] then Inr v else Inl ValueError)"

text \<open>\<^verbatim>\<open>json.loads\<close> of bytes decodes UTF-8 first, here as far as Latin-1 reaches.\<close>

fun decode_utf8 :: "nat list \<Rightarrow> string res" where
  "decode_utf8 [] = Inr []"
| "decode_utf8 (b # bs) =
     (if b < 128 then rbind (decode_utf8 bs) (\<lambda>s. Inr (char_of b # s))
      else case bs of
        c # rest \<Rightarrow> if (b = 194 \<or> b = 195) \<and> 128 \<le> c \<and> c < 192
                    then rbind (decode_utf8 rest) (\<lambda>s. Inr (char_of ((b - 192) * 64 + (c - 128)) # s)) else Inl ValueError
      | [] \<Rightarrow> Inl ValueError)"

definition json_loads_bytes :: "nat list \<Rightarrow> json res" where
  "json_loads_bytes bs = rbind (decode_utf8 bs) json_loads"

definition encode_ascii :: "string \<Rightarrow> nat list" where
  "encode_ascii s = map of_char s"

section \<open>What is printed reads back\<close>

definition compact :: "json \<Rightarrow> string" where
  "compact = dumps '','' '':'' True"

text \<open>
  The text with a gap of white space after each separator, with or without escapes for other than
  ASCII characters: the compact form has no gap, the form \<^verbatim>\<open>json.dumps\<close> prints by itself has a blank.
\<close>

definition printed :: "string \<Rightarrow> bool \<Rightarrow> json \<Rightarrow> string" where
  "printed gap a = dumps (CHR '','' # gap) (CHR '':'' # gap) a"

lemma compact_printed: "compact = printed [] True"
  by (simp add: compact_def printed_def)

fun printed_char :: "char \<Rightarrow> string \<Rightarrow> bool" where
  "printed_char c [x] \<longleftrightarrow> x = c \<and> x \<noteq> char_of (34::nat) \<and> x \<noteq> char_of (92::nat) \<and> 32 \<le> (of_char x :: nat)"
| "printed_char c [b, e] \<longleftrightarrow> b = char_of (92::nat) \<and> e \<noteq> CHR ''u'' \<and> unescape e = Some c"
| "printed_char c [b, u, h1, h2, h3, h4] \<longleftrightarrow>
     b = char_of (92::nat) \<and> u = CHR ''u'' \<and> hex_number 0 [h1, h2, h3, h4] = Some (of_char c)"
| "printed_char c _ \<longleftrightarrow> False"

lemma hex_value_digit: "d < 16 \<Longrightarrow> hex_value (hex_digit d) = Some d"
  by (auto simp: hex_value_def hex_digit_def Let_def)

lemma printed_escapes: "list_all (\<lambda>n. printed_char (char_of n) (dumps_char a (char_of n))) [34, 92, 10, 13, 9, 8, 12 :: nat]"
  by (cases a) (simp_all only:, code_simp+)

lemma printed_char: "printed_char c (dumps_char a c)"
proof -
  define n where "n = (of_char c :: nat)"
  have c: "c = char_of n" by (simp add: n_def)
  have n: "n < 256" by (simp add: n_def)
  consider "n \<in> set [34, 92, 10, 13, 9, 8, 12]" | "n \<notin> {34, 92, 10, 13, 9, 8, 12}" "n < 32 \<or> a \<and> 127 \<le> n"
    | "n \<notin> {34, 92}" "32 \<le> n" "\<not> a \<or> n < 127"
    by (cases a) (auto, linarith+)
  then show ?thesis
  proof cases
    case 1
    with printed_escapes [of a] show ?thesis unfolding c list_all_iff by (rule bspec)
  next
    case 2
    have zero: "hex_value (CHR ''0'') = Some 0" by code_simp
    have "n div 16 < 16" "n mod 16 < 16" using n by simp_all
    with 2 zero show ?thesis by (simp add: dumps_char_def n_def [symmetric] hex_value_digit)
  next
    case 3
    then have "dumps_char a c = [c]" by (auto simp add: dumps_char_def n_def [symmetric] Let_def)
    moreover have "c \<noteq> char_of (34::nat)" "c \<noteq> char_of (92::nat)" using 3(1) by (auto simp: n_def)
    ultimately show ?thesis using 3(2) by (simp add: n_def)
  qed
qed

lemma parse_printed:
  assumes "printed_char c s"
  shows "parse_string (s @ t) = map_option (cons_fst c) (parse_string t)"
proof -
  from assms consider x where "s = [x]" | b e where "s = [b, e]" | b u h1 h2 h3 h4 where "s = [b, u, h1, h2, h3, h4]"
    by (cases "(c, s)" rule: printed_char.cases) auto
  then show ?thesis
  proof cases
    case 1
    with assms show ?thesis by auto
  next
    case 2
    with assms show ?thesis by auto
  next
    case 3
    with assms show ?thesis by (simp del: hex_number.simps)
  qed
qed

lemma parse_string_dumps: "parse_string (concat (map (dumps_char a) s) @ char_of (34::nat) # rest) = Some (s, rest)"
  by (induction s) (simp_all add: parse_printed [OF printed_char] cons_fst_def)

text \<open>A value's text ends where a value may end.\<close>

definition ends_token :: "string \<Rightarrow> bool" where
  "ends_token rest \<longleftrightarrow> rest = [] \<or> hd rest \<in> set '',]}''"

lemma str_nat_lead: "0 < n \<Longrightarrow> hd (str_nat n) \<noteq> CHR ''0''"
proof (induction n rule: str_nat.induct)
  case (1 n)
  show ?case
  proof (cases "n < 10")
    case True
    have "digit_char n \<noteq> digit_char 0" using 1(2) True of_digit_char [of n] of_digit_char [of 0] by auto
    moreover have "digit_char 0 = CHR ''0''" by code_simp
    ultimately show ?thesis using True by (subst str_nat.simps) simp
  next
    case False
    then have "hd (str_nat (n div 10)) \<noteq> CHR ''0''" using 1(1) by simp
    then show ?thesis using False str_nat_digits [of "n div 10"] by (subst str_nat.simps) simp
  qed
qed

lemma parse_digits_token:
  assumes "ends_token rest"
  shows "number_digits (str_nat n @ rest) = str_nat n"
    and "\<not> float_tail rest" and "\<not> startswith ''-'' (str_nat n @ rest)"
proof -
  have stop: "takeWhile is_digit (str_nat n @ rest) = str_nat n"
  proof -
    have "rest = [] \<or> \<not> is_digit (hd rest)" using assms by (auto simp: ends_token_def is_digit_def)
    then show ?thesis using str_nat_digits [of n] by (cases rest) (auto simp: list_all_iff takeWhile_append)
  qed
  obtain d ds where dds: "str_nat n = d # ds" "is_digit d" using str_nat_digits [of n] by (cases "str_nat n") auto
  have "str_nat n = ''0''" if "startswith ''0'' (str_nat n @ rest)"
  proof -
    have "n = 0" using that str_nat_lead [of n] dds by (auto simp: startswith_def)
    then show ?thesis by simp code_simp
  qed
  with stop show "number_digits (str_nat n @ rest) = str_nat n" by (simp add: number_digits_def) metis
  show "\<not> float_tail rest" using assms by (cases rest) (auto simp: ends_token_def float_tail_def)
  show "\<not> startswith ''-'' (str_nat n @ rest)" using dds by (auto simp: startswith_def is_digit_def)
qed

lemma parse_number_str:
  assumes "ends_token rest"
  shows "parse_number (str_int i @ rest) = Some (JInt i, rest)"
proof (cases "i < 0")
  case True
  have "startswith ''-'' (CHR ''-'' # t)" for t by (simp add: startswith_def)
  with True str_nat_digits [of "nat (- i)"] show ?thesis
    by (simp add: str_int_def parse_number_def Let_def parse_digits_token [OF assms] digits_from_str_nat)
next
  case False
  with str_nat_digits [of "nat i"] show ?thesis
    by (simp add: str_int_def parse_number_def Let_def parse_digits_token [OF assms] digits_from_str_nat)
qed

text \<open>The first character of a value's text is no white space and closes nothing.\<close>

lemma printed_head:
  obtains c t where "printed gap a v = c # t" "\<not> is_ws c" "c \<noteq> CHR '']''"
proof -
  have digit: "\<not> is_ws c \<and> c \<noteq> CHR '']''" if "is_digit c" for c using that by (auto simp: is_digit_def is_ws_def)
  have "printed gap a v \<noteq> [] \<and> \<not> is_ws (hd (printed gap a v)) \<and> hd (printed gap a v) \<noteq> CHR '']''"
  proof (cases v)
    case (JInt i)
    then show ?thesis
      using digit str_nat_digits [of "nat i"] str_nat_digits [of "nat (- i)"]
      by (cases "str_nat (nat i)") (auto simp: printed_def str_int_def is_ws_def)
  next
    case (JStr s)
    have "char_of (34::nat) \<noteq> CHR '']''" by code_simp
    with JStr show ?thesis by (simp add: printed_def dumps_str_def is_ws_def)
  qed (auto simp: printed_def is_ws_def)
  with that show ?thesis by (cases "printed gap a v") auto
qed

lemma skip_printed [simp]: "skip_ws (printed gap a v @ rest) = printed gap a v @ rest"
  by (rule printed_head [of gap a v]) (simp add: skip_ws_def)

text \<open>The gap is blank, so the parser skips it.\<close>

definition blank :: "string \<Rightarrow> bool" where
  "blank gap \<longleftrightarrow> list_all is_ws gap"

lemma skip_gap: "blank gap \<Longrightarrow> skip_ws (gap @ s) = skip_ws s"
  by (induction gap) (auto simp: blank_def skip_ws_def)

fun json_ok :: "json \<Rightarrow> bool" where
  "json_ok (JList xs) = list_all json_ok xs"
| "json_ok (JObj d) = (distinct (map fst d) \<and> list_all (\<lambda>kv. json_ok (snd kv)) d)"
| "json_ok _ = True"

definition reads_back :: "string \<Rightarrow> bool \<Rightarrow> json \<Rightarrow> bool" where
  "reads_back gap a v \<longleftrightarrow> (\<forall>k rest. ends_token rest \<longrightarrow> length (printed gap a v) \<le> k \<longrightarrow> loads_value k (printed gap a v @ rest) = Some (v, rest))"

lemma items_read_back:
  assumes "vs \<noteq> []" and "\<forall>v \<in> set vs. reads_back gap a v" and "blank gap" and "length (join (CHR '','' # gap) (map (printed gap a) vs)) < k"
  shows "loads_items k (join (CHR '','' # gap) (map (printed gap a) vs) @ CHR '']'' # rest) = Some (vs, rest)"
  using assms
proof (induction vs arbitrary: k)
  case (Cons v vs)
  from Cons.prems(4) obtain n where k: "k = Suc n" by (cases k) simp_all
  show ?case
  proof (cases vs)
    case Nil
    with Cons.prems k have "loads_value n (printed gap a v @ CHR '']'' # rest) = Some (v, CHR '']'' # rest)"
      by (auto simp: reads_back_def ends_token_def)
    with Nil k show ?thesis by (simp add: skip_ws_def is_ws_def startswith_def)
  next
    case (Cons w ws)
    define more_text where "more_text = join (CHR '','' # gap) (map (printed gap a) vs) @ CHR '']'' # rest"
    have head: "loads_value n (printed gap a v @ CHR '','' # gap @ more_text) = Some (v, CHR '','' # gap @ more_text)"
      using Cons.prems(2,4) k Cons by (auto simp: reads_back_def ends_token_def)
    have "loads_items n more_text = Some (vs, rest)"
      unfolding more_text_def using Cons.prems(2,3,4) k Cons by (intro Cons.IH) auto
    moreover have "skip_ws (gap @ more_text) = more_text"
      unfolding skip_gap [OF Cons.prems(3)] more_text_def Cons by (rule printed_head [of gap a w]) (cases ws; simp add: skip_ws_def)
    moreover have "join (CHR '','' # gap) (map (printed gap a) (v # vs)) @ CHR '']'' # rest = printed gap a v @ CHR '','' # gap @ more_text"
      using Cons by (simp add: more_text_def)
    ultimately show ?thesis using head by (simp add: k skip_ws_def is_ws_def startswith_def)
  qed
qed simp

definition member_text :: "string \<Rightarrow> bool \<Rightarrow> string \<times> json \<Rightarrow> string" where
  "member_text gap a kv = dumps_str a (fst kv) @ CHR '':'' # gap @ printed gap a (snd kv)"

lemma member_parse:
  "parse_string (tl (member_text gap a kv @ t)) = Some (fst kv, CHR '':'' # gap @ printed gap a (snd kv) @ t)"
  "startswith [char_of (34::nat)] (member_text gap a kv @ t)" "skip_ws (member_text gap a kv @ t) = member_text gap a kv @ t"
  by (simp_all add: member_text_def dumps_str_def parse_string_dumps startswith_def skip_ws_def is_ws_def)

lemma member_step:
  assumes "reads_back gap a (snd kv)" and "blank gap" and "length (member_text gap a kv) \<le> n" and "t = CHR '','' # u \<or> t = CHR ''}'' # u"
  shows "loads_members (Suc n) (member_text gap a kv @ t) =
    (if t = CHR '','' # u then map_option (\<lambda>(kvs, t). (kv # kvs, t)) (loads_members n (skip_ws u)) else Some ([kv], u))"
proof -
  have "ends_token t" using assms(4) by (auto simp: ends_token_def)
  then have "loads_value n (printed gap a (snd kv) @ t) = Some (snd kv, t)"
    using assms(1,3) by (simp add: reads_back_def member_text_def dumps_str_def)
  moreover have "skip_ws t = t" "skip_ws (CHR '':'' # u') = CHR '':'' # u'" for u'
    using assms(4) by (auto simp: skip_ws_def is_ws_def)
  moreover have "skip_ws (gap @ printed gap a (snd kv) @ t) = printed gap a (snd kv) @ t"
    by (simp add: skip_gap [OF assms(2)])
  ultimately show ?thesis
    using assms(4) member_parse [of gap a kv t] by (auto simp: startswith_def Let_def split: option.splits)
qed

lemma members_read_back:
  assumes "kvs \<noteq> []" and "\<forall>kv \<in> set kvs. reads_back gap a (snd kv)" and "blank gap" and "length (join (CHR '','' # gap) (map (member_text gap a) kvs)) < k"
  shows "loads_members k (join (CHR '','' # gap) (map (member_text gap a) kvs) @ CHR ''}'' # rest) = Some (kvs, rest)"
  using assms
proof (induction kvs arbitrary: k)
  case (Cons kv kvs)
  from Cons.prems(4) obtain n where k: "k = Suc n" by (cases k) simp_all
  have read: "reads_back gap a (snd kv)" using Cons.prems(2) by simp
  show ?case
  proof (cases kvs)
    case Nil
    with member_step [OF read Cons.prems(3), of n "CHR ''}'' # rest" rest] Cons.prems(4) k show ?thesis by simp
  next
    case (Cons kw kws)
    define more_text where "more_text = join (CHR '','' # gap) (map (member_text gap a) kvs) @ CHR ''}'' # rest"
    have whole: "join (CHR '','' # gap) (map (member_text gap a) (kv # kvs)) @ CHR ''}'' # rest = member_text gap a kv @ CHR '','' # gap @ more_text"
      using Cons by (simp add: more_text_def)
    have "loads_members n more_text = Some (kvs, rest)"
      unfolding more_text_def using Cons.prems(2,3,4) k Cons by (intro Cons.IH) auto
    moreover have "skip_ws (gap @ more_text) = more_text"
      unfolding skip_gap [OF Cons.prems(3)] more_text_def Cons using member_parse(3) [of gap a kw] by (cases kws) simp_all
    moreover have "length (member_text gap a kv) \<le> n" using Cons.prems(4) k Cons by simp
    ultimately show ?thesis using member_step [OF read Cons.prems(3), of n "CHR '','' # gap @ more_text" "gap @ more_text"] unfolding whole k by simp
  qed
qed simp

lemma dict_update_new: "distinct (map fst (d @ kvs)) \<Longrightarrow> dict_update d kvs = d @ kvs"
proof (induction kvs arbitrary: d)
  case (Cons kv kvs)
  have "dict_set (fst kv) (snd kv) d = d @ [kv]" if "fst kv \<notin> fst ` set d" for d
    using that by (induction d) (auto simp: dict_set_def)
  with Cons show ?case by (cases kv) auto
qed simp

lemma reads_backI:
  assumes "\<And>k rest. ends_token rest \<Longrightarrow> length (printed gap a v) \<le> Suc k \<Longrightarrow> loads_value (Suc k) (printed gap a v @ rest) = Some (v, rest)"
  shows "reads_back gap a v"
  unfolding reads_back_def
proof (intro allI impI)
  fix k rest assume "ends_token rest" and k: "length (printed gap a v) \<le> k"
  moreover have "printed gap a v \<noteq> []" by (rule printed_head [of gap a v]) simp
  with k obtain n where "k = Suc n" by (cases k) simp_all
  ultimately show "loads_value k (printed gap a v @ rest) = Some (v, rest)" using assms by blast
qed

lemma quote_char: "char_of (34::nat) = CHR 0x22"
  by code_simp

lemma loads_number:
  assumes "s \<noteq> []" and "hd s \<notin> set [CHR 0x22, CHR ''['', CHR ''{'', CHR ''n'', CHR ''t'', CHR ''f'']"
  shows "loads_value (Suc k) s = parse_number s"
  using assms by (cases s) (auto simp: startswith_def quote_char)

lemma str_int_head: "str_int i \<noteq> [] \<and> (hd (str_int i) = CHR ''-'' \<or> is_digit (hd (str_int i)))"
  using str_nat_digits [of "nat i"] by (cases "str_nat (nat i)") (auto simp: str_int_def)

lemma printed_reads_back:
  assumes "blank gap"
  shows "json_ok v \<Longrightarrow> reads_back gap a v"
proof (induction v rule: json.induct)
  case JNull
  show ?case by (rule reads_backI) (simp add: printed_def startswith_def quote_char)
next
  case (JBool b)
  show ?case by (rule reads_backI) (cases b; simp add: printed_def startswith_def quote_char)
next
  case (JInt i)
  have "hd (str_int i @ rest) \<notin> set [CHR 0x22, CHR ''['', CHR ''{'', CHR ''n'', CHR ''t'', CHR ''f'']" for rest
    using str_int_head [of i] by (auto simp: is_digit_def)
  with str_int_head [of i] show ?case
    by (intro reads_backI) (simp add: printed_def loads_number parse_number_str del: loads_value.simps)
next
  case (JStr s)
  show ?case by (rule reads_backI) (simp add: printed_def dumps_str_def parse_string_dumps)
next
  case (JList xs)
  then have all: "\<forall>v \<in> set xs. reads_back gap a v" by (auto simp: list_all_iff)
  show ?case
  proof (rule reads_backI)
    fix k rest assume len: "length (printed gap a (JList xs)) \<le> Suc k"
    have whole: "printed gap a (JList xs) @ rest = CHR ''['' # join (CHR '','' # gap) (map (printed gap a) xs) @ CHR '']'' # rest" by (simp add: printed_def)
    show "loads_value (Suc k) (printed gap a (JList xs) @ rest) = Some (JList xs, rest)"
    proof (cases xs)
      case Nil
      show ?thesis unfolding whole unfolding Nil
        by (simp add: skip_ws_def is_ws_def startswith_def quote_char)
    next
      case (Cons w ws)
      let ?body = "join (CHR '','' # gap) (map (printed gap a) xs) @ CHR '']'' # rest"
      have "\<exists>c t. ?body = c # t \<and> \<not> is_ws c \<and> c \<noteq> CHR '']''"
        unfolding Cons by (rule printed_head [of gap a w]) (cases ws; simp)
      then obtain c t where body: "?body = c # t" and "\<not> is_ws c" "c \<noteq> CHR '']''" by blast
      then have "skip_ws ?body = ?body" "\<not> startswith '']'' ?body"
        unfolding body by (simp_all add: skip_ws_def startswith_def)
      moreover have "loads_items k ?body = Some (xs, rest)"
        using len by (intro items_read_back) (simp_all add: Cons all [unfolded Cons] printed_def assms)
      ultimately show ?thesis unfolding whole by (simp add: quote_char)
    qed
  qed
next
  case (JObj d)
  then have all: "\<forall>kv \<in> set d. reads_back gap a (snd kv)" and keys: "distinct (map fst d)"
    by (auto simp: list_all_iff snds.simps)
  show ?case
  proof (rule reads_backI)
    fix k rest assume len: "length (printed gap a (JObj d)) \<le> Suc k"
    have whole: "printed gap a (JObj d) @ rest = CHR ''{'' # join (CHR '','' # gap) (map (member_text gap a) d) @ CHR ''}'' # rest"
      by (simp add: printed_def member_text_def [abs_def])
    show "loads_value (Suc k) (printed gap a (JObj d) @ rest) = Some (JObj d, rest)"
    proof (cases d)
      case Nil
      show ?thesis unfolding whole unfolding Nil
        by (simp add: skip_ws_def is_ws_def startswith_def quote_char)
    next
      case (Cons kw kws)
      let ?body = "join (CHR '','' # gap) (map (member_text gap a) d) @ CHR ''}'' # rest"
      have "\<exists>t. ?body = CHR 0x22 # t"
        unfolding Cons by (cases kws) (simp_all add: member_text_def dumps_str_def quote_char)
      then obtain t where body: "?body = CHR 0x22 # t" by blast
      then have "skip_ws ?body = ?body" "\<not> startswith ''}'' ?body"
        unfolding body by (simp_all add: skip_ws_def startswith_def is_ws_def)
      moreover have "length (join (CHR '','' # gap) (map (member_text gap a) d)) < k" using len by (simp add: printed_def member_text_def [abs_def])
      then have "loads_members k ?body = Some (d, rest)"
        using all Cons assms by (intro members_read_back) simp_all
      ultimately show ?thesis using dict_update_new [of "[]" d] keys unfolding whole by (simp add: quote_char)
    qed
  qed
qed

lemma json_loads_printed:
  assumes "blank gap" and "json_ok v"
  shows "json_loads (printed gap a v) = Inr v"
proof -
  have "loads_value (Suc (length (printed gap a v))) (printed gap a v @ []) = Some (v, [])"
    using printed_reads_back [OF assms] by (simp add: reads_back_def ends_token_def del: loads_value.simps)
  with skip_printed [of gap a v "[]"] show ?thesis by (simp add: json_loads_def skip_ws_def del: loads_value.simps)
qed

lemma json_loads_compact: "json_ok v \<Longrightarrow> json_loads (compact v) = Inr v"
  by (simp add: compact_printed json_loads_printed blank_def)

text \<open>What is printed with \<^verbatim>\<open>ensure_ascii\<close> is ASCII, and decodes from its bytes.\<close>

lemma is_ascii_simps [simp]: "is_ascii []" "is_ascii (c # s) \<longleftrightarrow> (of_char c :: nat) < 128 \<and> is_ascii s"
  "is_ascii (s @ t) \<longleftrightarrow> is_ascii s \<and> is_ascii t"
  by (simp_all add: is_ascii_def)

lemma is_ascii_concat: "is_ascii (concat ss) \<longleftrightarrow> (\<forall>s \<in> set ss. is_ascii s)"
  by (induction ss) simp_all

lemma is_ascii_join: "is_ascii sep \<Longrightarrow> \<forall>s \<in> set ss. is_ascii s \<Longrightarrow> is_ascii (join sep ss)"
  by (induction sep ss rule: join.induct) simp_all

lemma is_ascii_digits: "list_all is_digit s \<Longrightarrow> is_ascii s"
  by (induction s) (auto simp: is_digit_def Let_def)

lemma is_ascii_str_int: "is_ascii (str_int i)"
  using is_ascii_digits str_nat_digits by (simp add: str_int_def)

lemma hex_digit_ascii: "d < 16 \<Longrightarrow> (of_char (hex_digit d) :: nat) < 128"
  by (simp add: hex_digit_def)

lemma is_ascii_dumps_char: "is_ascii (dumps_char True c)"
proof -
  have "(of_char c :: nat) div 16 < 16" using nat_of_char_less_256 [of c] by (simp only: div_less_iff_less_mult)
  then show ?thesis by (simp add: dumps_char_def Let_def hex_digit_ascii)
qed

lemma is_ascii_dumps_str: "is_ascii (dumps_str True s)"
  by (simp add: dumps_str_def is_ascii_concat is_ascii_dumps_char)

lemma is_ascii_dumps: "is_ascii item \<Longrightarrow> is_ascii key \<Longrightarrow> is_ascii (dumps item key True v)"
proof (induction v rule: json.induct)
  case (JList xs)
  then show ?case by (simp add: is_ascii_join)
next
  case (JObj d)
  then have "\<forall>kv \<in> set d. is_ascii (dumps item key True (snd kv))" by (auto simp: snds.simps)
  with JObj.prems show ?case by (simp add: is_ascii_join is_ascii_dumps_str)
qed (simp_all add: is_ascii_str_int is_ascii_dumps_str)

lemma decode_utf8_ascii: "is_ascii s \<Longrightarrow> decode_utf8 (encode_ascii s) = Inr s"
  by (induction s) (simp_all add: encode_ascii_def)

lemma json_loads_bytes_compact: "json_ok v \<Longrightarrow> json_loads_bytes (encode_ascii (compact v)) = Inr v"
  using is_ascii_dumps [of "'',''" "'':''" v]
  by (simp add: json_loads_bytes_def decode_utf8_ascii json_loads_compact flip: compact_def)

lemma encode_ascii_bytes: "list_all (\<lambda>b. b < 256) (encode_ascii s)"
  by (simp add: encode_ascii_def list_all_iff)

end
