(* ===== verification/Folds.thy ===== *)
theory Folds
  imports Reads Codec
begin

text \<open>
  The folded messages kept in one process, \<^verbatim>\<open>session_runtime/response_folds.py\<close>. The builds are
  tasks that run beside the reads: a read looks up what is kept, joins builds under way and
  starts one for the rest (\<open>read_messages\<close>); a build reads the log and keeps its folds
  (\<open>run_build\<close>); its callback forgets it (\<open>built\<close>); the read ends when the builds it joined have
  (\<open>finish_messages\<close>). Any of these, of any reads, and growth of the log may come in between.
\<close>

section \<open>State\<close>

record kept =
  k_last_seq :: int
  k_message :: ui_message
  k_size :: int

type_synonym fold_key = "string \<times> string"

record fold_task =
  tk_session_id :: string
  tk_want :: "(string, int) dict"
  tk_result :: "(string, ui_message) dict res option"

record folds =
  fo_kept_bytes :: int
  fo_kept :: "(fold_key, kept) dict"
  fo_size :: int
  fo_building :: "(string \<times> string \<times> int, nat) dict"
  fo_tasks :: "fold_task list"

definition KEPT_BYTES :: int where
  "KEPT_BYTES = 64 * 1024 * 1024"

definition new_folds :: "int \<Rightarrow> folds" where
  "new_folds kept_bytes = \<lparr>fo_kept_bytes = kept_bytes, fo_kept = [], fo_size = 0, fo_building = [], fo_tasks = []\<rparr>"

section \<open>Keeping\<close>

definition message_json :: "ui_message \<Rightarrow> json" where
  "message_json m = JObj [(''id'', JStr (um_id m)), (''role'', JStr (um_role m)), (''parts'', JList (map JObj (um_parts m))),
     (''metadata'', JObj (um_metadata m))]"

definition message_size :: "ui_message \<Rightarrow> int" where
  "message_size m = int (length (json_dumps (message_json m)))"

text \<open>The loop at the end of \<^verbatim>\<open>_keep\<close>; \<^verbatim>\<open>popitem\<close> of an empty dictionary raises.\<close>

fun evict :: "int \<Rightarrow> (fold_key, kept) dict \<Rightarrow> int \<Rightarrow> ((fold_key, kept) dict \<times> int) res" where
  "evict limit [] held = (if held \<le> limit then Inr ([], held) else Inl KeyError)"
| "evict limit (kv # rest) held =
     (if held \<le> limit then Inr (kv # rest, held) else evict limit rest (held - k_size (snd kv)))"

definition keep :: "fold_key \<times> kept \<Rightarrow> folds \<Rightarrow> folds res" where
  "keep kv st =
     (let without = dict_pop (fst kv) (fo_kept st);
          held = (case map_of (fo_kept st) (fst kv) of None \<Rightarrow> fo_size st | Some old \<Rightarrow> fo_size st - k_size old)
      in if fo_kept_bytes st < k_size (snd kv) then Inr (st\<lparr>fo_kept := without, fo_size := held\<rparr>)
         else rbind (evict (fo_kept_bytes st) (without @ [kv]) (held + k_size (snd kv))) (\<lambda>(kept, held').
           Inr (st\<lparr>fo_kept := kept, fo_size := held'\<rparr>)))"

definition move_to_end :: "fold_key \<Rightarrow> folds \<Rightarrow> folds" where
  "move_to_end key st =
     (case map_of (fo_kept st) key of
        None \<Rightarrow> st | Some k \<Rightarrow> st\<lparr>fo_kept := dict_pop key (fo_kept st) @ [(key, k)]\<rparr>)"

section \<open>Reading\<close>

text \<open>The parts of an imported reply live on its row; \<^verbatim>\<open>record["parts"]\<close> is any stored JSON.\<close>

fun iterate :: "json \<Rightarrow> json list res" where
  "iterate (JList xs) = Inr xs"
| "iterate (JStr s) = Inr (map (\<lambda>c. JStr [c]) s)"
| "iterate (JObj d) = Inr (map (JStr \<circ> fst) d)"
| "iterate _ = Inl TypeError"

definition fold_json_chunk :: "json \<Rightarrow> fold_state \<Rightarrow> fold_state res" where
  "fold_json_chunk chunk st = (if is_obj chunk then fold_chunk (jfields chunk) st else Inl AttributeError)"

definition fold_import :: "string \<Rightarrow> obj \<Rightarrow> ui_message res" where
  "fold_import rid record =
     rbind (index_key record ''parts'') (\<lambda>parts. rbind (iterate parts) (\<lambda>chunks.
       rbind (rfold fold_json_chunk chunks empty_fold) (finish_fold rid)))"

definition imported :: "response_row \<Rightarrow> obj option" where
  "imported r = (case r_import_record r of Some (kv # d) \<Rightarrow> Some (kv # d) | _ \<Rightarrow> None)"

record fold_reading =
  fr_folds :: folds
  fr_folded :: "(string, ui_message) dict"
  fr_waiting :: "(string, nat) dict"
  fr_unbuilt :: "(string, int) dict"

definition take_import :: "response_row \<Rightarrow> fold_reading \<Rightarrow> fold_reading res" where
  "take_import r fr =
     (case imported r of
        None \<Rightarrow> Inr fr
      | Some record \<Rightarrow> rbind (fold_import (r_response_id r) record) (\<lambda>m.
          Inr (fr\<lparr>fr_folded := dict_set (r_response_id r) m (fr_folded fr)\<rparr>)))"

definition join_build :: "string \<Rightarrow> string \<Rightarrow> int \<Rightarrow> fold_reading \<Rightarrow> fold_reading" where
  "join_build sid rid n fr =
     (case map_of (fo_building (fr_folds fr)) (sid, rid, n) of
        Some t \<Rightarrow> fr\<lparr>fr_waiting := dict_set rid t (fr_waiting fr)\<rparr>
      | None \<Rightarrow> fr\<lparr>fr_unbuilt := dict_set rid n (fr_unbuilt fr)\<rparr>)"

definition take_logged :: "string \<Rightarrow> (string, int) dict \<Rightarrow> string \<Rightarrow> fold_reading \<Rightarrow> fold_reading res" where
  "take_logged sid last_seqs rid fr =
     (case map_of last_seqs rid of
        None \<Rightarrow> rbind (fold_message rid []) (\<lambda>m. Inr (fr\<lparr>fr_folded := dict_set rid m (fr_folded fr)\<rparr>))
      | Some n \<Rightarrow>
          (case map_of (fo_kept (fr_folds fr)) (sid, rid) of
             Some k \<Rightarrow>
               if k_last_seq k = n
               then Inr (fr\<lparr>fr_folds := move_to_end (sid, rid) (fr_folds fr),
                            fr_folded := dict_set rid (k_message k) (fr_folded fr)\<rparr>)
               else Inr (join_build sid rid n fr)
           | None \<Rightarrow> Inr (join_build sid rid n fr)))"

definition start_build :: "string \<Rightarrow> fold_reading \<Rightarrow> fold_reading" where
  "start_build sid fr =
     (if fr_unbuilt fr = [] then fr
      else
        let st = fr_folds fr; t = length (fo_tasks st);
            task = \<lparr>tk_session_id = sid, tk_want = fr_unbuilt fr, tk_result = None\<rparr>
        in fr\<lparr>fr_folds := st\<lparr>fo_tasks := fo_tasks st @ [task],
                 fo_building := dict_update (fo_building st) (map (\<lambda>(rid, n). ((sid, rid, n), t)) (fr_unbuilt fr))\<rparr>,
              fr_waiting := dict_update (fr_waiting fr) (map (\<lambda>(rid, n). (rid, t)) (fr_unbuilt fr))\<rparr>)"

definition begin_reading :: "folds \<Rightarrow> fold_reading" where
  "begin_reading st = \<lparr>fr_folds = st, fr_folded = [], fr_waiting = [], fr_unbuilt = []\<rparr>"

definition logged_ids :: "response_row list \<Rightarrow> string list" where
  "logged_ids responses = map r_response_id (filter (\<lambda>r. imported r = None) responses)"

text \<open>\<^verbatim>\<open>messages\<close> up to its first wait on a build. \<open>db\<close> is what the position query reads.\<close>

definition read_messages :: "string \<Rightarrow> response_row list \<Rightarrow> int option \<Rightarrow> db \<Rightarrow> folds \<Rightarrow> fold_reading res" where
  "read_messages sid responses through db st =
     rbind (rfold take_import responses (begin_reading st)) (\<lambda>fr.
     rbind (rfold (take_logged sid (last_output_seqs sid (logged_ids responses) through db)) (logged_ids responses) fr) (\<lambda>fr'.
       Inr (start_build sid fr')))"

text \<open>The rest of \<^verbatim>\<open>messages\<close>: \<open>None\<close> while a build it waits for has not ended.\<close>

fun finish_messages :: "(string, nat) dict \<Rightarrow> (string, ui_message) dict \<Rightarrow> folds \<Rightarrow> (string, ui_message) dict res option" where
  "finish_messages [] folded st = Some (Inr folded)"
| "finish_messages ((rid, t) # waiting) folded st =
     (case tk_result (fo_tasks st ! t) of
        None \<Rightarrow> None
      | Some (Inl e) \<Rightarrow> Some (Inl e)
      | Some (Inr built) \<Rightarrow>
          (case map_of built rid of
             None \<Rightarrow> Some (Inl KeyError) | Some m \<Rightarrow> finish_messages waiting (dict_set rid m folded) st))"

section \<open>Building\<close>

definition build_parts :: "string \<Rightarrow> (string, int) dict \<Rightarrow> db \<Rightarrow> string \<times> int \<Rightarrow> obj list" where
  "build_parts sid want db rn =
     map o_part (filter (\<lambda>row. o_response_id row = Some (fst rn) \<and> o_seq row \<le> snd rn)
       (output_for_responses sid (map fst want) (greatest (map snd want)) db))"

definition build :: "string \<Rightarrow> (string, int) dict \<Rightarrow> db \<Rightarrow> (string, ui_message) dict res" where
  "build sid want db =
     rmap (\<lambda>rn. rbind (fold_message (fst rn) (build_parts sid want db rn)) (\<lambda>m. Inr (fst rn, m))) want"

definition new_kept :: "string \<Rightarrow> (string, int) dict \<Rightarrow> string \<times> ui_message \<Rightarrow> fold_key \<times> kept" where
  "new_kept sid want rm =
     ((sid, fst rm), \<lparr>k_last_seq = the (map_of want (fst rm)), k_message = snd rm, k_size = message_size (snd rm)\<rparr>)"

definition end_task :: "nat \<Rightarrow> (string, ui_message) dict res \<Rightarrow> folds \<Rightarrow> folds" where
  "end_task t result st = st\<lparr>fo_tasks := (fo_tasks st)[t := (fo_tasks st ! t)\<lparr>tk_result := Some result\<rparr>]\<rparr>"

definition run_build :: "nat \<Rightarrow> db \<Rightarrow> folds \<Rightarrow> folds" where
  "run_build t db st =
     (let task = fo_tasks st ! t; sid = tk_session_id task; want = tk_want task in
      case build sid want db of
        Inl e \<Rightarrow> end_task t (Inl e) st
      | Inr ms \<Rightarrow>
          (case rfold keep (map (new_kept sid want) ms) st of
             Inl e \<Rightarrow> end_task t (Inl e) st
           | Inr st' \<Rightarrow> end_task t (Inr ms) st'))"

definition built :: "nat \<Rightarrow> folds \<Rightarrow> folds" where
  "built t st =
     (let task = fo_tasks st ! t; keys = map (\<lambda>(rid, n). (tk_session_id task, rid, n)) (tk_want task) in
      st\<lparr>fo_building := filter (\<lambda>kt. \<not> (fst kt \<in> set keys \<and> snd kt = t)) (fo_building st)\<rparr>)"

section \<open>Without the cache\<close>

definition direct_message :: "string \<Rightarrow> int option \<Rightarrow> db \<Rightarrow> response_row \<Rightarrow> ui_message res" where
  "direct_message sid through db r =
     (case imported r of
        Some record \<Rightarrow> fold_import (r_response_id r) record
      | None \<Rightarrow> fold_message (r_response_id r) (parts_through sid (r_response_id r) through db))"

text \<open>The rows of one read are rows of different responses, as a query returns them.\<close>

inductive folds_step :: "db \<times> folds \<Rightarrow> db \<times> folds \<Rightarrow> bool" where
  reads: "distinct (map r_response_id responses) \<Longrightarrow> read_messages sid responses through db st = Inr fr \<Longrightarrow>
    folds_step (db, st) (db, fr_folds fr)"
| builds: "t < length (fo_tasks st) \<Longrightarrow> tk_result (fo_tasks st ! t) = None \<Longrightarrow> folds_step (db, st) (db, run_build t db st)"
| calls_back: "t < length (fo_tasks st) \<Longrightarrow> tk_result (fo_tasks st ! t) \<noteq> None \<Longrightarrow> folds_step (db, st) (db, built t st)"
| log: "log_grows db db' \<Longrightarrow> folds_step (db, st) (db', st)"

inductive_cases folds_stepE: "folds_step (db, st) s'"

abbreviation folds_runs :: "db \<times> folds \<Rightarrow> db \<times> folds \<Rightarrow> bool" where
  "folds_runs \<equiv> folds_step\<^sup>*\<^sup>*"

section \<open>Positions\<close>

lemma greatest_None [simp]: "greatest ns = None \<longleftrightarrow> ns = []"
  by (simp add: greatest_def split: list.splits)

lemma greatest_Some: "greatest ns = Some m \<Longrightarrow> m \<in> set ns \<and> (\<forall>n \<in> set ns. n \<le> m)"
proof (cases ns)
  case (Cons n rest)
  assume "greatest ns = Some m"
  with Cons have "m = fold max rest n" by (simp add: greatest_def)
  also have "\<dots> = Max (set ns)" unfolding Cons by (rule Max.set_eq_fold [symmetric])
  finally have "m = Max (set ns)" .
  moreover have "finite (set ns)" "set ns \<noteq> {}" using Cons by simp_all
  ultimately show ?thesis by (simp only: Max_in) (simp add: Max_ge)
qed (simp add: greatest_def)

lemma map_of_map_filter:
  "map_of (List.map_filter (\<lambda>k. map_option (\<lambda>v. (k, v)) (f k)) ks) k = (if k \<in> set ks then f k else None)"
  by (induction ks) (auto simp: map_filter_simps split: option.splits)

lemma last_seq_of:
  "rid \<in> set rids \<Longrightarrow> map_of (last_output_seqs sid rids through db) rid = greatest (map o_seq (response_rows sid rid through db))"
  by (simp add: last_output_seqs_def map_of_map_filter)

lemma no_last_seq:
  "greatest (map o_seq (response_rows sid rid through db)) = None \<Longrightarrow> parts_through sid rid through db = []"
  by (simp add: parts_through_def order_by_def)

lemma last_seq_covers:
  assumes "greatest (map o_seq (response_rows sid rid through db)) = Some n"
  shows "log_reaches db (sid, rid) n" and "folded_through db (sid, rid) n = fold_message rid (parts_through sid rid through db)"
proof -
  from greatest_Some [OF assms] obtain q where q: "q \<in> set (response_rows sid rid through db)" "o_seq q = n"
    and top: "\<forall>o' \<in> set (response_rows sid rid through db). o_seq o' \<le> n" by auto
  then show "log_reaches db (sid, rid) n" by (auto simp: log_reaches_def response_rows_def)
  have "within through n" using q by (auto simp: response_rows_def)
  then have "within (Some n) (o_seq o') = within through (o_seq o')"
    if "o' \<in> set (session_log sid db)" "o_response_id o' = Some rid" for o'
    using that top by (auto simp: response_rows_def within_def split: option.splits)
  then have "response_rows sid rid (Some n) db = response_rows sid rid through db"
    unfolding response_rows_def by (intro filter_cong) auto
  then show "folded_through db (sid, rid) n = fold_message rid (parts_through sid rid through db)"
    by (simp add: folded_through_def parts_through_def)
qed

lemma build_parts_eq:
  assumes "rn \<in> set want"
  shows "build_parts sid want db rn = parts_through sid (fst rn) (Some (snd rn)) db"
proof -
  from assms obtain top where top: "greatest (map snd want) = Some top" "snd rn \<le> top"
    using greatest_Some [of "map snd want"] by (cases "greatest (map snd want)") auto
  have "want \<noteq> []" and rid: "fst rn \<in> set (map fst want)" using assms by auto
  have "filter (\<lambda>row. o_response_id row = Some (fst rn) \<and> o_seq row \<le> snd rn)
      (filter (\<lambda>o'. of_session sid o' \<and> (case o_response_id o' of None \<Rightarrow> False | Some rid \<Rightarrow> rid \<in> set (map fst want)) \<and>
        (case Some top of None \<Rightarrow> True | Some n \<Rightarrow> o_seq o' \<le> n)) (t_output db)) =
      response_rows sid (fst rn) (Some (snd rn)) db"
    unfolding response_rows_def session_log_def within_def filter_filter using top(2)
    by (intro filter_cong) (auto split: option.splits intro: rid [simplified])
  then have "filter (\<lambda>row. o_response_id row = Some (fst rn) \<and> o_seq row \<le> snd rn)
      (output_for_responses sid (map fst want) (Some top) db) = order_by o_seq (response_rows sid (fst rn) (Some (snd rn)) db)"
    using \<open>want \<noteq> []\<close> by (simp add: output_for_responses_def order_by_def filter_sort)
  then show ?thesis by (simp add: build_parts_def parts_through_def top(1))
qed

lemma build_eq: "build sid want db = rmap (\<lambda>rn. rbind (folded_through db (sid, fst rn) (snd rn)) (\<lambda>m. Inr (fst rn, m))) want"
proof -
  have "rmap f xs = rmap g xs" if "\<And>x. x \<in> set xs \<Longrightarrow> f x = g x" for f g :: "string \<times> int \<Rightarrow> (string \<times> ui_message) res" and xs
    using that by (induction xs) auto
  from this [of want] show ?thesis unfolding build_def by (rule) (simp add: build_parts_eq folded_through_def)
qed

section \<open>The bound\<close>

definition size_sum :: "(fold_key, kept) dict \<Rightarrow> int" where
  "size_sum d = sum_list (map (\<lambda>kv. k_size (snd kv)) d)"

lemma size_sum_simps [simp]: "size_sum [] = 0" "size_sum (kv # d) = k_size (snd kv) + size_sum d"
  "size_sum (d @ e) = size_sum d + size_sum e"
  by (simp_all add: size_sum_def)

definition kept_ok :: "folds \<Rightarrow> bool" where
  "kept_ok st \<longleftrightarrow> 0 \<le> fo_kept_bytes st \<and> distinct (map fst (fo_kept st)) \<and> fo_size st = size_sum (fo_kept st) \<and>
     fo_size st \<le> fo_kept_bytes st \<and> (\<forall>kv \<in> set (fo_kept st). k_size (snd kv) = message_size (k_message (snd kv)))"

lemma size_sum_pop:
  "distinct (map fst d) \<Longrightarrow> size_sum (dict_pop k d) = size_sum d - (case map_of d k of None \<Rightarrow> 0 | Some v \<Rightarrow> k_size v)"
proof (induction d)
  case (Cons kv d)
  show ?case
  proof (cases "fst kv = k")
    case True
    with Cons.prems have "k \<notin> fst ` set d" by simp
    then have "dict_pop k d = d" by (force simp: dict_pop_def filter_id_conv)
    with True show ?thesis by (cases kv) (simp add: dict_pop_def)
  next
    case False
    with Cons show ?thesis by (cases kv) (auto simp: dict_pop_def split: option.splits)
  qed
qed (simp add: dict_pop_def)

lemma evict_ok:
  "0 \<le> limit \<Longrightarrow> \<exists>j. evict limit d (size_sum d) = Inr (drop j d, size_sum (drop j d)) \<and> size_sum (drop j d) \<le> limit"
proof (induction d)
  case (Cons kv d)
  show ?case
  proof (cases "size_sum (kv # d) \<le> limit")
    case True
    then show ?thesis by (intro exI [of _ 0]) simp
  next
    case False
    from Cons obtain j where "evict limit d (size_sum d) = Inr (drop j d, size_sum (drop j d))" "size_sum (drop j d) \<le> limit"
      by blast
    with False show ?thesis by (intro exI [of _ "Suc j"]) simp
  qed
qed simp

lemma keep_ok:
  assumes "kept_ok st" and "k_size (snd kv) = message_size (k_message (snd kv))"
  shows "\<exists>kept size'. keep kv st = Inr (st\<lparr>fo_kept := kept, fo_size := size'\<rparr>) \<and>
    kept_ok (st\<lparr>fo_kept := kept, fo_size := size'\<rparr>) \<and> set kept \<subseteq> insert kv (set (fo_kept st))"
proof -
  let ?without = "dict_pop (fst kv) (fo_kept st)"
  have pop: "size_sum ?without = (case map_of (fo_kept st) (fst kv) of None \<Rightarrow> fo_size st | Some old \<Rightarrow> fo_size st - k_size old)"
    using assms(1) size_sum_pop [of "fo_kept st" "fst kv"] by (auto simp: kept_ok_def split: option.splits)
  have old: "set ?without \<subseteq> set (fo_kept st)" by (auto simp: dict_pop_def)
  have distinct: "distinct (map fst (?without @ [kv]))"
  proof -
    have "distinct (map fst ?without)" using assms(1) by (intro distinct_dict_pop) (simp add: kept_ok_def)
    moreover have "fst kv \<notin> fst ` set ?without" by (simp add: keys_dict_pop)
    ultimately show ?thesis by simp
  qed
  have sizes: "\<forall>q \<in> set (?without @ [kv]). k_size (snd q) = message_size (k_message (snd q))"
    using assms old by (auto simp: kept_ok_def)
  show ?thesis
  proof (cases "fo_kept_bytes st < k_size (snd kv)")
    case True
    have "0 \<le> k_size old" if "map_of (fo_kept st) (fst kv) = Some old" for old
    proof -
      from map_of_SomeD [OF that] assms(1) have "k_size old = message_size (k_message old)" by (force simp: kept_ok_def)
      then show ?thesis by (simp add: message_size_def)
    qed
    then have "size_sum ?without \<le> fo_kept_bytes st"
      using assms(1) unfolding pop kept_ok_def by (cases "map_of (fo_kept st) (fst kv)") fastforce+
    with True distinct sizes assms(1) old pop show ?thesis
      by (intro exI [of _ ?without] exI [of _ "size_sum ?without"]) (auto simp: keep_def kept_ok_def Let_def)
  next
    case False
    from evict_ok [of "fo_kept_bytes st" "?without @ [kv]"] assms(1) obtain j where
      j: "evict (fo_kept_bytes st) (?without @ [kv]) (size_sum (?without @ [kv])) =
        Inr (drop j (?without @ [kv]), size_sum (drop j (?without @ [kv])))"
        "size_sum (drop j (?without @ [kv])) \<le> fo_kept_bytes st"
      by (auto simp: kept_ok_def)
    let ?kept = "drop j (?without @ [kv])"
    have "set ?kept \<subseteq> set (?without @ [kv])" by (rule set_drop_subset)
    moreover have "distinct (map fst ?kept)" using distinct by (metis distinct_drop drop_map)
    moreover have "keep kv st = Inr (st\<lparr>fo_kept := ?kept, fo_size := size_sum ?kept\<rparr>)"
      using False j(1) pop by (simp add: keep_def Let_def)
    ultimately show ?thesis
      using old sizes j(2) assms(1) by (intro exI [of _ ?kept] exI [of _ "size_sum ?kept"]) (auto simp: kept_ok_def)
  qed
qed

lemma keeps_ok:
  assumes "kept_ok st" and "\<forall>kv \<in> set kvs. k_size (snd kv) = message_size (k_message (snd kv))"
  shows "\<exists>kept size'. rfold keep kvs st = Inr (st\<lparr>fo_kept := kept, fo_size := size'\<rparr>) \<and>
    kept_ok (st\<lparr>fo_kept := kept, fo_size := size'\<rparr>) \<and> set kept \<subseteq> set kvs \<union> set (fo_kept st)"
  using assms
proof (induction kvs arbitrary: st)
  case Nil
  then show ?case by (intro exI [of _ "fo_kept st"] exI [of _ "fo_size st"]) simp
next
  case (Cons kv kvs)
  from keep_ok [OF Cons.prems(1), of kv] Cons.prems(2) obtain kept size' where
    one: "keep kv st = Inr (st\<lparr>fo_kept := kept, fo_size := size'\<rparr>)" "kept_ok (st\<lparr>fo_kept := kept, fo_size := size'\<rparr>)"
      "set kept \<subseteq> insert kv (set (fo_kept st))" by auto
  from Cons.IH [OF one(2)] Cons.prems(2) obtain kept' size'' where
    "rfold keep kvs (st\<lparr>fo_kept := kept, fo_size := size'\<rparr>) = Inr (st\<lparr>fo_kept := kept', fo_size := size''\<rparr>)"
    "kept_ok (st\<lparr>fo_kept := kept', fo_size := size''\<rparr>)" "set kept' \<subseteq> set kvs \<union> set kept"
    by auto
  with one show ?case by (intro exI [of _ kept'] exI [of _ size'']) auto
qed

section \<open>Coherence\<close>

definition kept_right :: "db \<Rightarrow> fold_key \<times> kept \<Rightarrow> bool" where
  "kept_right db kv \<longleftrightarrow>
     log_reaches db (fst kv) (k_last_seq (snd kv)) \<and>
     folded_through db (fst kv) (k_last_seq (snd kv)) = Inr (k_message (snd kv))"

definition wanted :: "fold_task \<Rightarrow> db \<Rightarrow> string \<times> int \<Rightarrow> ui_message res" where
  "wanted task db rn = folded_through db (tk_session_id task, fst rn) (snd rn)"

definition task_right :: "db \<Rightarrow> fold_task \<Rightarrow> bool" where
  "task_right db task \<longleftrightarrow>
     distinct (map fst (tk_want task)) \<and>
     (\<forall>rn \<in> set (tk_want task). log_reaches db (tk_session_id task, fst rn) (snd rn)) \<and>
     (case tk_result task of
        None \<Rightarrow> True
      | Some (Inl e) \<Rightarrow> \<exists>rn \<in> set (tk_want task). wanted task db rn = Inl e
      | Some (Inr ms) \<Rightarrow> \<forall>rn \<in> set (tk_want task). \<exists>m. map_of ms (fst rn) = Some m \<and> wanted task db rn = Inr m)"

definition building_right :: "folds \<Rightarrow> (string \<times> string \<times> int) \<times> nat \<Rightarrow> bool" where
  "building_right st kt \<longleftrightarrow>
     (case kt of ((sid, rid, n), t) \<Rightarrow>
        t < length (fo_tasks st) \<and> tk_session_id (fo_tasks st ! t) = sid \<and> (rid, n) \<in> set (tk_want (fo_tasks st ! t)))"

definition folds_ok :: "db \<Rightarrow> folds \<Rightarrow> bool" where
  "folds_ok db st \<longleftrightarrow>
     kept_ok st \<and> list_all (kept_right db) (fo_kept st) \<and> list_all (task_right db) (fo_tasks st) \<and>
     list_all (building_right st) (fo_building st)"

lemma kept_right_grows: "log_grows db db' \<Longrightarrow> kept_right db kv \<Longrightarrow> kept_right db' kv"
  unfolding kept_right_def by (rule output_log.entry_grows)

lemma task_right_grows:
  assumes "log_grows db db'" and "task_right db task"
  shows "task_right db' task"
proof -
  have same: "wanted task db' rn = wanted task db rn" if "rn \<in> set (tk_want task)" for rn
    using assms that by (auto simp: task_right_def wanted_def intro!: output_log.content_grows)
  have "\<forall>rn \<in> set (tk_want task). log_reaches db' (tk_session_id task, fst rn) (snd rn)"
    using assms by (auto simp: task_right_def intro: output_log.stored_grows)
  with assms(2) same show ?thesis by (auto simp: task_right_def split: option.splits sum.splits)
qed

lemma folds_ok_grows: "log_grows db db' \<Longrightarrow> folds_ok db st \<Longrightarrow> folds_ok db' st"
  by (auto simp: folds_ok_def list_all_iff intro: kept_right_grows task_right_grows)

text \<open>Tasks stay what they are: growing a state keeps what earlier reads wait for.\<close>

definition tasks_kept :: "folds \<Rightarrow> folds \<Rightarrow> bool" where
  "tasks_kept st st' \<longleftrightarrow> length (fo_tasks st) \<le> length (fo_tasks st') \<and>
     (\<forall>t < length (fo_tasks st). tk_session_id (fo_tasks st' ! t) = tk_session_id (fo_tasks st ! t) \<and>
        tk_want (fo_tasks st' ! t) = tk_want (fo_tasks st ! t))"

lemma tasks_kept_refl: "fo_tasks st' = fo_tasks st \<Longrightarrow> tasks_kept st st'"
  by (simp add: tasks_kept_def)

lemma tasks_kept_trans: "tasks_kept a b \<Longrightarrow> tasks_kept b c \<Longrightarrow> tasks_kept a c"
  by (simp add: tasks_kept_def)

lemma building_right_kept:
  assumes "tasks_kept st st'" and "building_right st kt"
  shows "building_right st' kt"
proof -
  obtain sid rid n t where kt: "kt = ((sid, rid, n), t)" by (cases kt) auto
  from assms show ?thesis by (auto simp: building_right_def tasks_kept_def kt)
qed

text \<open>A build ends its task rightly.\<close>

lemma build_Inr:
  assumes "build sid want db = Inr ms"
  shows "list_all2 (\<lambda>rn rm. fst rm = fst rn \<and> folded_through db (sid, fst rn) (snd rn) = Inr (snd rm)) want ms"
  using assms unfolding build_eq rmap_Inr_iff by (rule list_all2_mono) (auto simp: rbind_Inr_iff)

lemma rmap_Inl: "rmap f xs = Inl e \<Longrightarrow> \<exists>x \<in> set xs. f x = Inl e"
proof (induction xs)
  case (Cons x xs)
  then show ?case by (cases "f x"; cases "rmap f xs") auto
qed simp

lemma rbind_map_Inl: "rbind m (\<lambda>x. Inr (f x)) = Inl e \<longleftrightarrow> m = Inl e"
  by (cases m) simp_all

lemma list_all2_right: "list_all2 P xs ys \<Longrightarrow> y \<in> set ys \<Longrightarrow> \<exists>x \<in> set xs. P x y"
  by (metis in_set_conv_nth list_all2_conv_all_nth)

lemma build_Inl: "build sid want db = Inl e \<Longrightarrow> \<exists>rn \<in> set want. folded_through db (sid, fst rn) (snd rn) = Inl e"
  unfolding build_eq by (drule rmap_Inl) (simp add: rbind_map_Inl)

lemma all2_lookup:
  assumes "list_all2 (\<lambda>a b. fst b = fst a \<and> P a (snd b)) as bs" and "distinct (map fst as)" and "a \<in> set as"
  shows "\<exists>v. map_of bs (fst a) = Some v \<and> P a v"
  using assms
proof (induction as bs rule: list_all2_induct)
  case (Cons x xs y ys)
  show ?case
  proof (cases "a = x")
    case True
    with Cons.hyps(1) show ?thesis by (cases y) auto
  next
    case False
    with Cons.prems have "a \<in> set xs" "fst a \<noteq> fst x" by (auto simp: image_iff)
    with Cons show ?thesis by (cases y) auto
  qed
qed simp

lemma end_task_ok:
  assumes "folds_ok db st" and "t < length (fo_tasks st)" and "task_right db ((fo_tasks st ! t)\<lparr>tk_result := Some res\<rparr>)"
  shows "folds_ok db (end_task t res st) \<and> tasks_kept st (end_task t res st)"
proof -
  have kept: "tasks_kept st (end_task t res st)"
    using assms(2) by (auto simp: tasks_kept_def end_task_def nth_list_update)
  have "list_all (task_right db) (fo_tasks (end_task t res st))"
    using assms by (auto simp: end_task_def folds_ok_def list_all_length nth_list_update)
  moreover have "list_all (building_right (end_task t res st)) (fo_building (end_task t res st))"
    using assms(1) building_right_kept [OF kept] by (auto simp: folds_ok_def list_all_iff end_task_def)
  moreover have "kept_ok (end_task t res st)" "fo_kept (end_task t res st) = fo_kept st"
    using assms(1) by (simp_all add: folds_ok_def kept_ok_def end_task_def)
  ultimately show ?thesis using assms(1) kept by (simp add: folds_ok_def)
qed

lemma run_build_ok:
  assumes "folds_ok db st" and "t < length (fo_tasks st)"
  shows "folds_ok db (run_build t db st) \<and> tasks_kept st (run_build t db st)"
proof -
  define task where "task = fo_tasks st ! t"
  have task: "task_right db task" using assms by (simp add: folds_ok_def list_all_length task_def)
  then have reached: "distinct (map fst (tk_want task))" "\<forall>rn \<in> set (tk_want task). log_reaches db (tk_session_id task, fst rn) (snd rn)"
    by (simp_all add: task_right_def)
  show ?thesis
  proof (cases "build (tk_session_id task) (tk_want task) db")
    case (Inl e)
    with build_Inl [OF Inl] reached have "task_right db (task\<lparr>tk_result := Some (Inl e)\<rparr>)"
      by (auto simp: task_right_def wanted_def)
    with Inl end_task_ok [OF assms, of "Inl e"] show ?thesis by (simp add: run_build_def task_def Let_def)
  next
    case (Inr ms)
    note all2 = build_Inr [OF Inr]
    have right: "task_right db (task\<lparr>tk_result := Some (Inr ms)\<rparr>)"
      using all2_lookup [where P = "\<lambda>rn m. folded_through db (tk_session_id task, fst rn) (snd rn) = Inr m", OF all2] reached
      by (auto simp: task_right_def wanted_def)
    let ?new = "map (new_kept (tk_session_id task) (tk_want task)) ms"
    have news: "list_all (kept_right db) ?new"
    proof -
      have "kept_right db (new_kept (tk_session_id task) (tk_want task) rm)" if rm: "rm \<in> set ms" for rm
      proof -
        from list_all2_right [OF all2 rm] obtain rn where rn: "rn \<in> set (tk_want task)" "fst rm = fst rn"
          "folded_through db (tk_session_id task, fst rn) (snd rn) = Inr (snd rm)"
          by blast
        moreover have "map_of (tk_want task) (fst rn) = Some (snd rn)"
          using reached(1) rn(1) by (simp add: map_of_eq_Some_iff)
        ultimately show ?thesis using reached(2) by (auto simp: kept_right_def new_kept_def)
      qed
      then show ?thesis by (simp add: list_all_iff)
    qed
    have "kept_ok st" using assms(1) by (simp add: folds_ok_def)
    from keeps_ok [OF this, of ?new] obtain kept size' where
      keeps: "rfold keep ?new st = Inr (st\<lparr>fo_kept := kept, fo_size := size'\<rparr>)"
        "kept_ok (st\<lparr>fo_kept := kept, fo_size := size'\<rparr>)" "set kept \<subseteq> set ?new \<union> set (fo_kept st)"
      by (auto simp: new_kept_def)
    let ?st = "st\<lparr>fo_kept := kept, fo_size := size'\<rparr>"
    have "list_all (kept_right db) kept"
      using keeps(3) news assms(1) unfolding folds_ok_def list_all_iff by blast
    moreover have "list_all (building_right ?st) (fo_building ?st)"
      using assms(1) building_right_kept [OF tasks_kept_refl, of ?st st] by (auto simp: folds_ok_def list_all_iff)
    ultimately have "folds_ok db ?st" using keeps(2) assms(1) by (simp add: folds_ok_def)
    moreover have "task_right db ((fo_tasks ?st ! t)\<lparr>tk_result := Some (Inr ms)\<rparr>)" using right by (simp add: task_def)
    ultimately have "folds_ok db (end_task t (Inr ms) ?st) \<and> tasks_kept ?st (end_task t (Inr ms) ?st)"
      using assms(2) by (intro end_task_ok) simp_all
    moreover have "run_build t db st = end_task t (Inr ms) ?st"
      using Inr keeps(1) by (simp add: run_build_def task_def Let_def)
    ultimately show ?thesis using tasks_kept_trans [OF tasks_kept_refl, of ?st st] by auto
  qed
qed

lemma built_ok: "folds_ok db st \<Longrightarrow> folds_ok db (built t st) \<and> tasks_kept st (built t st)"
  by (auto simp: folds_ok_def built_def kept_ok_def list_all_iff building_right_def tasks_kept_def Let_def split: prod.splits)

section \<open>What a read holds\<close>

definition waits_right :: "string \<Rightarrow> (string \<Rightarrow> ui_message res) \<Rightarrow> db \<Rightarrow> folds \<Rightarrow> string \<times> nat \<Rightarrow> bool" where
  "waits_right sid spec db st rt \<longleftrightarrow>
     snd rt < length (fo_tasks st) \<and> tk_session_id (fo_tasks st ! snd rt) = sid \<and>
     (\<exists>n. (fst rt, n) \<in> set (tk_want (fo_tasks st ! snd rt)) \<and> folded_through db (sid, fst rt) n = spec (fst rt))"

definition reading_right :: "string \<Rightarrow> (string \<Rightarrow> ui_message res) \<Rightarrow> db \<Rightarrow> fold_reading \<Rightarrow> bool" where
  "reading_right sid spec db fr \<longleftrightarrow>
     folds_ok db (fr_folds fr) \<and>
     (\<forall>rid m. map_of (fr_folded fr) rid = Some m \<longrightarrow> spec rid = Inr m) \<and>
     list_all (waits_right sid spec db (fr_folds fr)) (fr_waiting fr) \<and>
     distinct (map fst (fr_unbuilt fr)) \<and>
     (\<forall>rn \<in> set (fr_unbuilt fr). log_reaches db (sid, fst rn) (snd rn) \<and> folded_through db (sid, fst rn) (snd rn) = spec (fst rn))"

definition covered :: "fold_reading \<Rightarrow> string set" where
  "covered fr = fst ` set (fr_folded fr) \<union> fst ` set (fr_waiting fr) \<union> fst ` set (fr_unbuilt fr)"

lemma folded_set:
  assumes "reading_right sid spec db fr" and "spec rid = Inr m"
  shows "reading_right sid spec db (fr\<lparr>fr_folded := dict_set rid m (fr_folded fr)\<rparr>) \<and>
    covered fr \<union> {rid} \<subseteq> covered (fr\<lparr>fr_folded := dict_set rid m (fr_folded fr)\<rparr>)"
  using assms by (auto simp: reading_right_def covered_def keys_dict_set dict_get_set)

lemma move_to_end_ok:
  assumes "folds_ok db st"
  shows "folds_ok db (move_to_end key st) \<and> fo_tasks (move_to_end key st) = fo_tasks st"
proof (cases "map_of (fo_kept st) key")
  case (Some k)
  let ?kept = "dict_pop key (fo_kept st) @ [(key, k)]"
  have old: "distinct (map fst (fo_kept st))" using assms by (simp add: folds_ok_def kept_ok_def)
  have sub: "set ?kept \<subseteq> set (fo_kept st)" using map_of_SomeD [OF Some] by (auto simp: dict_pop_def)
  have "distinct (map fst ?kept)" using distinct_dict_pop [OF old, of key] keys_dict_pop [of key "fo_kept st"] by simp
  moreover have "size_sum ?kept = size_sum (fo_kept st)" using size_sum_pop [OF old, of key] Some by simp
  moreover have "\<forall>kv \<in> set ?kept. k_size (snd kv) = message_size (k_message (snd kv))"
    using assms sub unfolding folds_ok_def kept_ok_def by blast
  moreover have "list_all (kept_right db) ?kept" using assms sub unfolding folds_ok_def list_all_iff by blast
  moreover have "list_all (building_right (move_to_end key st)) (fo_building st)"
    using assms by (simp add: folds_ok_def list_all_iff building_right_def move_to_end_def Some)
  ultimately show ?thesis using Some assms by (simp add: move_to_end_def folds_ok_def kept_ok_def)
qed (use assms in \<open>simp add: move_to_end_def\<close>)

lemma waits_right_tasks: "fo_tasks st' = fo_tasks st \<Longrightarrow> waits_right sid spec db st' = waits_right sid spec db st"
  by (auto simp: waits_right_def fun_eq_iff)

lemma join_build_right:
  assumes "reading_right sid spec db fr" and "log_reaches db (sid, rid) n" and "folded_through db (sid, rid) n = spec rid"
  shows "reading_right sid spec db (join_build sid rid n fr) \<and> covered fr \<union> {rid} \<subseteq> covered (join_build sid rid n fr)"
proof (cases "map_of (fo_building (fr_folds fr)) (sid, rid, n)")
  case (Some t)
  have "building_right (fr_folds fr) ((sid, rid, n), t)"
    using assms(1) map_of_SomeD [OF Some] by (auto simp: reading_right_def folds_ok_def list_all_iff)
  then have "waits_right sid spec db (fr_folds fr) (rid, t)"
    using assms(3) by (auto simp: waits_right_def building_right_def)
  then have "list_all (waits_right sid spec db (fr_folds fr)) (dict_set rid t (fr_waiting fr))"
    using assms(1) set_dict_set [of rid t "fr_waiting fr"] by (auto simp: reading_right_def list_all_iff)
  with Some assms(1) show ?thesis by (auto simp: join_build_def reading_right_def covered_def keys_dict_set)
next
  case None
  have "\<forall>rn \<in> set (dict_set rid n (fr_unbuilt fr)). log_reaches db (sid, fst rn) (snd rn) \<and>
      folded_through db (sid, fst rn) (snd rn) = spec (fst rn)"
    using assms set_dict_set [of rid n "fr_unbuilt fr"] by (auto simp: reading_right_def)
  with None assms(1) show ?thesis
    by (auto simp: join_build_def reading_right_def covered_def keys_dict_set distinct_dict_set)
qed

lemma take_import_right:
  assumes "reading_right sid spec db fr" and "spec (r_response_id r) = direct_message sid through db r"
    and "take_import r fr = Inr fr'"
  shows "reading_right sid spec db fr' \<and> covered fr \<union> (if imported r = None then {} else {r_response_id r}) \<subseteq> covered fr'"
proof (cases "imported r")
  case (Some rec)
  with assms(3) obtain m where "fold_import (r_response_id r) rec = Inr m"
    "fr' = fr\<lparr>fr_folded := dict_set (r_response_id r) m (fr_folded fr)\<rparr>"
    by (auto simp: take_import_def rbind_Inr_iff)
  with folded_set [OF assms(1), of "r_response_id r" m] assms(2) Some show ?thesis by (simp add: direct_message_def)
qed (use assms in \<open>simp add: take_import_def\<close>)

lemma take_logged_right:
  assumes "reading_right sid spec db fr" and "spec rid = fold_message rid (parts_through sid rid through db)" and "rid \<in> set rids"
    and "take_logged sid (last_output_seqs sid rids through db) rid fr = Inr fr'"
  shows "reading_right sid spec db fr' \<and> covered fr \<union> {rid} \<subseteq> covered fr'"
proof (cases "greatest (map o_seq (response_rows sid rid through db))")
  case None
  with assms(3,4) obtain m where "fold_message rid [] = Inr m" "fr' = fr\<lparr>fr_folded := dict_set rid m (fr_folded fr)\<rparr>"
    by (auto simp: take_logged_def last_seq_of rbind_Inr_iff)
  with folded_set [OF assms(1), of rid m] assms(2) no_last_seq [OF None] show ?thesis by simp
next
  case (Some n)
  note pos = last_seq_covers [OF Some]
  have joined: "reading_right sid spec db (join_build sid rid n fr) \<and> covered fr \<union> {rid} \<subseteq> covered (join_build sid rid n fr)"
    using assms(1,2) pos by (intro join_build_right) simp_all
  consider (hit) k where "map_of (fo_kept (fr_folds fr)) (sid, rid) = Some k" "k_last_seq k = n"
      "fr' = fr\<lparr>fr_folds := move_to_end (sid, rid) (fr_folds fr), fr_folded := dict_set rid (k_message k) (fr_folded fr)\<rparr>"
    | (miss) "fr' = join_build sid rid n fr"
  proof (cases "map_of (fo_kept (fr_folds fr)) (sid, rid)")
    case None
    with assms(3,4) Some show ?thesis by (intro miss) (simp add: take_logged_def last_seq_of)
  next
    case k: (Some k)
    show ?thesis
    proof (cases "k_last_seq k = n")
      case True
      with k assms(3,4) Some show ?thesis by (intro hit [of k]) (simp_all add: take_logged_def last_seq_of)
    next
      case False
      with k assms(3,4) Some show ?thesis by (intro miss) (simp add: take_logged_def last_seq_of)
    qed
  qed
  then show ?thesis
  proof cases
    case hit
    have ok: "folds_ok db (fr_folds fr)" using assms(1) by (simp add: reading_right_def)
    with map_of_SomeD [OF hit(1)] have "kept_right db ((sid, rid), k)" by (auto simp: folds_ok_def list_all_iff)
    then have "spec rid = Inr (k_message k)" using hit(2) pos(2) assms(2) by (simp add: kept_right_def)
    moreover have "waits_right sid spec db (move_to_end (sid, rid) (fr_folds fr)) = waits_right sid spec db (fr_folds fr)"
      using move_to_end_ok [OF ok, of "(sid, rid)"] by (intro waits_right_tasks) simp
    with assms(1) move_to_end_ok [OF ok, of "(sid, rid)"]
    have "reading_right sid spec db (fr\<lparr>fr_folds := move_to_end (sid, rid) (fr_folds fr)\<rparr>)"
      by (simp add: reading_right_def)
    ultimately show ?thesis
      using folded_set [of sid spec db "fr\<lparr>fr_folds := move_to_end (sid, rid) (fr_folds fr)\<rparr>" rid "k_message k"]
      by (simp add: hit(3) covered_def)
  qed (use joined in simp)
qed

lemma start_build_right:
  assumes "reading_right sid spec db fr"
  shows "folds_ok db (fr_folds (start_build sid fr)) \<and> tasks_kept (fr_folds fr) (fr_folds (start_build sid fr)) \<and>
    fr_folded (start_build sid fr) = fr_folded fr \<and>
    list_all (waits_right sid spec db (fr_folds (start_build sid fr))) (fr_waiting (start_build sid fr)) \<and>
    covered fr \<subseteq> fst ` set (fr_folded fr) \<union> fst ` set (fr_waiting (start_build sid fr))"
proof (cases "fr_unbuilt fr = []")
  case True
  with assms show ?thesis by (auto simp: start_build_def reading_right_def covered_def tasks_kept_refl)
next
  case False
  define st t where "st = fr_folds fr" and "t = length (fo_tasks (fr_folds fr))"
  define st' where "st' = fr_folds (start_build sid fr)"
  let ?task = "\<lparr>tk_session_id = sid, tk_want = fr_unbuilt fr, tk_result = None\<rparr>"
  let ?keys = "map (\<lambda>(rid, n). ((sid, rid, n), t)) (fr_unbuilt fr)" and ?waits = "map (\<lambda>(rid, n). (rid, t)) (fr_unbuilt fr)"
  have st': "fo_tasks st' = fo_tasks st @ [?task]" "fo_building st' = dict_update (fo_building st) ?keys"
    "fo_kept st' = fo_kept st" "fo_size st' = fo_size st" "fo_kept_bytes st' = fo_kept_bytes st"
    and waiting: "fr_waiting (start_build sid fr) = dict_update (fr_waiting fr) ?waits"
    using False by (simp_all add: st'_def st_def t_def start_build_def Let_def)
  have ok: "folds_ok db st" and unbuilt: "distinct (map fst (fr_unbuilt fr))"
    "\<forall>rn \<in> set (fr_unbuilt fr). log_reaches db (sid, fst rn) (snd rn) \<and> folded_through db (sid, fst rn) (snd rn) = spec (fst rn)"
    using assms by (auto simp: reading_right_def st_def)
  have kept: "tasks_kept st st'" by (auto simp: tasks_kept_def st' nth_append)
  have "list_all (building_right st') (fo_building st')"
  proof -
    have "building_right st' kt" if "kt \<in> set ?keys" for kt
      using that by (auto simp: building_right_def st' t_def st_def)
    moreover have "building_right st' kt" if "kt \<in> set (fo_building st)" for kt
      using ok that building_right_kept [OF kept] by (auto simp: folds_ok_def list_all_iff)
    ultimately show ?thesis using set_dict_update [of "fo_building st" ?keys] unfolding st'(2) list_all_iff by blast
  qed
  moreover have "task_right db ?task" using unbuilt by (auto simp: task_right_def)
  ultimately have "folds_ok db st'" using ok by (simp add: folds_ok_def kept_ok_def st')
  moreover have "list_all (waits_right sid spec db st') (fr_waiting (start_build sid fr))"
  proof -
    have "waits_right sid spec db st' rt" if "rt \<in> set ?waits" for rt
    proof -
      from that obtain rn where "rn \<in> set (fr_unbuilt fr)" "rt = (fst rn, t)" by auto
      with unbuilt(2) show ?thesis
        unfolding waits_right_def by (auto simp: st' t_def st_def intro!: exI [of _ "snd rn"])
    qed
    moreover have "waits_right sid spec db st' rt" if "rt \<in> set (fr_waiting fr)" for rt
      using assms that by (auto simp: reading_right_def list_all_iff waits_right_def st' st_def nth_append)
    ultimately show ?thesis using set_dict_update [of "fr_waiting fr" ?waits] unfolding waiting list_all_iff by blast
  qed
  moreover have "fst ` set (fr_waiting (start_build sid fr)) = fst ` set (fr_waiting fr) \<union> fst ` set (fr_unbuilt fr)"
    by (simp add: waiting keys_dict_update image_image split_beta)
  moreover have "fr_folded (start_build sid fr) = fr_folded fr" by (simp add: start_build_def Let_def)
  ultimately show ?thesis using kept unfolding st'_def [symmetric] st_def by (auto simp: covered_def)
qed

lemma read_messages_right:
  assumes "folds_ok db st" and "\<forall>r \<in> set responses. spec (r_response_id r) = direct_message sid through db r"
    and "read_messages sid responses through db st = Inr fr"
  shows "folds_ok db (fr_folds fr)" and "tasks_kept st (fr_folds fr)"
    and "\<forall>rid m. map_of (fr_folded fr) rid = Some m \<longrightarrow> spec rid = Inr m"
    and "list_all (waits_right sid spec db (fr_folds fr)) (fr_waiting fr)"
    and "r_response_id ` set responses \<subseteq> fst ` set (fr_folded fr) \<union> fst ` set (fr_waiting fr)"
proof -
  let ?logged = "logged_ids responses"
  from assms(3) obtain fr1 fr2 where
    took: "rfold take_import responses (begin_reading st) = Inr fr1"
    and logged: "rfold (take_logged sid (last_output_seqs sid ?logged through db)) ?logged fr1 = Inr fr2"
    and fr: "fr = start_build sid fr2"
    by (auto simp: read_messages_def rbind_Inr_iff)
  have keeps1: "fo_tasks (fr_folds fr') = fo_tasks (fr_folds fr)" if "take_import r fr = Inr fr'" for r fr fr'
    using that by (auto simp: take_import_def rbind_Inr_iff split: option.splits)
  have keeps2: "fo_tasks (fr_folds fr') = fo_tasks (fr_folds fr)" if "take_logged sid seqs rid fr = Inr fr'" for seqs rid fr fr'
    using that by (auto simp: take_logged_def rbind_Inr_iff join_build_def move_to_end_def split: option.splits if_splits)
  have begins: "reading_right sid spec db (begin_reading st)" using assms(1) by (simp add: reading_right_def begin_reading_def)
  have r1: "reading_right sid spec db fr1 \<and>
      covered (begin_reading st) \<union> (\<Union>r \<in> set responses. if imported r = None then {} else {r_response_id r}) \<subseteq> covered fr1"
  proof (rule rfold_collects [OF _ took])
    show "reading_right sid spec db s' \<and> covered s \<union> (if imported r = None then {} else {r_response_id r}) \<subseteq> covered s'"
      if "r \<in> set responses" "reading_right sid spec db s" "take_import r s = Inr s'" for r s s'
      using take_import_right [OF that(2) bspec [OF assms(2) that(1)] that(3)] .
  qed (rule begins)
  have spec: "spec rid = fold_message rid (parts_through sid rid through db)" if "rid \<in> set ?logged" for rid
    using that assms(2) by (auto simp: logged_ids_def direct_message_def split: option.splits)
  have r2: "reading_right sid spec db fr2 \<and> covered fr1 \<union> (\<Union>rid \<in> set ?logged. {rid}) \<subseteq> covered fr2"
  proof (rule rfold_collects [OF _ logged])
    show "reading_right sid spec db s' \<and> covered s \<union> {rid} \<subseteq> covered s'"
      if "rid \<in> set ?logged" "reading_right sid spec db s" "take_logged sid (last_output_seqs sid ?logged through db) rid s = Inr s'" for rid s s'
      using take_logged_right [OF that(2) spec [OF that(1)] that(1) that(3)] .
  qed (use r1 in blast)
  have "fo_tasks (fr_folds fr1) = fo_tasks (fr_folds (begin_reading st))"
    using rfold_frame [where g = "\<lambda>fr. fo_tasks (fr_folds fr)", OF took keeps1] .
  moreover have "fo_tasks (fr_folds fr2) = fo_tasks (fr_folds fr1)"
    using rfold_frame [where g = "\<lambda>fr. fo_tasks (fr_folds fr)", OF logged keeps2] .
  ultimately have "tasks_kept st (fr_folds fr2)" by (intro tasks_kept_refl) (simp add: begin_reading_def)
  with start_build_right [OF conjunct1 [OF r2]] show "folds_ok db (fr_folds fr)" "tasks_kept st (fr_folds fr)"
    "list_all (waits_right sid spec db (fr_folds fr)) (fr_waiting fr)"
    by (auto simp: fr intro: tasks_kept_trans)
  show "\<forall>rid m. map_of (fr_folded fr) rid = Some m \<longrightarrow> spec rid = Inr m"
    using start_build_right [OF conjunct1 [OF r2]] r2 by (simp add: fr reading_right_def)
  have "r_response_id ` set responses \<subseteq> covered fr2"
  proof (intro image_subsetI)
    fix r assume r: "r \<in> set responses"
    show "r_response_id r \<in> covered fr2"
    proof (cases "imported r = None")
      case True
      with r have "r_response_id r \<in> set ?logged" by (simp add: logged_ids_def)
      with r2 show ?thesis by blast
    next
      case False
      with r have "r_response_id r \<in> (\<Union>r \<in> set responses. if imported r = None then {} else {r_response_id r})" by force
      with r1 r2 show ?thesis by blast
    qed
  qed
  then show "r_response_id ` set responses \<subseteq> fst ` set (fr_folded fr) \<union> fst ` set (fr_waiting fr)"
    using start_build_right [OF conjunct1 [OF r2]] by (auto simp: fr)
qed

text \<open>The end of a read.\<close>

definition wait_done :: "string \<Rightarrow> (string \<Rightarrow> ui_message res) \<Rightarrow> db \<Rightarrow> folds \<Rightarrow> string \<times> nat \<Rightarrow> bool" where
  "wait_done sid spec db st rt \<longleftrightarrow>
     (case tk_result (fo_tasks st ! snd rt) of
        None \<Rightarrow> True
      | Some (Inl e) \<Rightarrow> \<exists>rid n. log_reaches db (sid, rid) n \<and> folded_through db (sid, rid) n = Inl e
      | Some (Inr ms) \<Rightarrow> \<exists>m. map_of ms (fst rt) = Some m \<and> spec (fst rt) = Inr m)"

lemma waits_done:
  assumes "folds_ok db st" and "waits_right sid spec db st rt"
  shows "wait_done sid spec db st rt"
proof -
  let ?task = "fo_tasks st ! snd rt"
  from assms(2) obtain n where n: "snd rt < length (fo_tasks st)" "tk_session_id ?task = sid" "(fst rt, n) \<in> set (tk_want ?task)"
    "folded_through db (sid, fst rt) n = spec (fst rt)" by (auto simp: waits_right_def)
  then have right: "task_right db ?task" using assms(1) by (simp add: folds_ok_def list_all_length)
  show ?thesis
  proof (cases "tk_result ?task")
    case (Some res)
    show ?thesis
    proof (cases res)
      case (Inl e)
      with right Some have "\<exists>rn \<in> set (tk_want ?task). log_reaches db (sid, fst rn) (snd rn) \<and> folded_through db (sid, fst rn) (snd rn) = Inl e"
        using n(2) by (auto simp: task_right_def wanted_def)
      with Some Inl show ?thesis unfolding wait_done_def by auto
    next
      case (Inr ms)
      from right Some Inr have "\<forall>rn \<in> set (tk_want ?task). \<exists>m. map_of ms (fst rn) = Some m \<and> wanted ?task db rn = Inr m"
        by (simp add: task_right_def)
      from bspec [OF this n(3)] have "\<exists>m. map_of ms (fst rt) = Some m \<and> spec (fst rt) = Inr m"
        using n(2,4) by (simp add: wanted_def)
      with Some Inr show ?thesis by (simp add: wait_done_def)
    qed
  qed (simp add: wait_done_def)
qed

lemma finish_right:
  assumes "finish_messages waiting folded st = Some res" and "list_all (wait_done sid spec db st) waiting"
    and "\<forall>rid m. map_of folded rid = Some m \<longrightarrow> spec rid = Inr m"
  shows "case res of
      Inr result \<Rightarrow> (\<forall>rid m. map_of result rid = Some m \<longrightarrow> spec rid = Inr m) \<and>
        fst ` set folded \<union> fst ` set waiting \<subseteq> fst ` set result
    | Inl e \<Rightarrow> \<exists>rid n. log_reaches db (sid, rid) n \<and> folded_through db (sid, rid) n = Inl e"
  using assms
proof (induction waiting arbitrary: folded)
  case (Cons rt waiting)
  obtain rid t where rt: "rt = (rid, t)" by (cases rt)
  from Cons.prems(1) rt obtain r where r: "tk_result (fo_tasks st ! t) = Some r" by (cases "tk_result (fo_tasks st ! t)") auto
  from Cons.prems(2) have done': "wait_done sid spec db st rt" by simp
  show ?case
  proof (cases r)
    case (Inl e)
    with done' r rt have "\<exists>rid n. log_reaches db (sid, rid) n \<and> folded_through db (sid, rid) n = Inl e"
      unfolding wait_done_def by simp
    moreover have "res = Inl e" using Cons.prems(1) r rt Inl by simp
    ultimately show ?thesis by simp
  next
    case (Inr ms)
    with done' r rt obtain m where m: "map_of ms rid = Some m" "spec rid = Inr m" by (auto simp: wait_done_def)
    then have "\<forall>rid' m'. map_of (dict_set rid m folded) rid' = Some m' \<longrightarrow> spec rid' = Inr m'"
      using Cons.prems(3) by (auto simp: dict_get_set)
    from Cons.IH [OF _ _ this] Cons.prems(1,2) r Inr m rt show ?thesis
      by (auto simp: keys_dict_set split: sum.splits)
  qed
qed auto

section \<open>Steps\<close>

lemma folds_ok_new: "0 \<le> kept_bytes \<Longrightarrow> folds_ok db (new_folds kept_bytes)"
  by (simp add: folds_ok_def new_folds_def kept_ok_def)

lemma direct_spec:
  assumes "distinct (map r_response_id responses)"
  obtains spec where "\<forall>r \<in> set responses. spec (r_response_id r) = direct_message sid through db r"
proof
  show "\<forall>r \<in> set responses. direct_message sid through db (the (first_row (\<lambda>q. r_response_id q = r_response_id r) responses)) =
      direct_message sid through db r"
    using first_row_unique [OF assms] by simp
qed

lemma read_keeps_limit:
  assumes "read_messages sid responses through db st = Inr fr"
  shows "fo_kept_bytes (fr_folds fr) = fo_kept_bytes st"
proof -
  from assms obtain fr1 fr2 where
    took: "rfold take_import responses (begin_reading st) = Inr fr1"
    and logged: "rfold (take_logged sid (last_output_seqs sid (logged_ids responses) through db)) (logged_ids responses) fr1 = Inr fr2"
    and fr: "fr = start_build sid fr2"
    by (auto simp: read_messages_def rbind_Inr_iff)
  have keeps1: "fo_kept_bytes (fr_folds fr') = fo_kept_bytes (fr_folds fr)" if "take_import r fr = Inr fr'" for r fr fr'
    using that by (auto simp: take_import_def rbind_Inr_iff split: option.splits)
  have keeps2: "fo_kept_bytes (fr_folds fr') = fo_kept_bytes (fr_folds fr)" if "take_logged sid seqs rid fr = Inr fr'" for seqs rid fr fr'
    using that by (auto simp: take_logged_def rbind_Inr_iff join_build_def move_to_end_def split: option.splits if_splits)
  have "fo_kept_bytes (fr_folds fr1) = fo_kept_bytes (fr_folds (begin_reading st))"
    using rfold_frame [where g = "\<lambda>fr. fo_kept_bytes (fr_folds fr)", OF took keeps1] .
  moreover have "fo_kept_bytes (fr_folds fr2) = fo_kept_bytes (fr_folds fr1)"
    using rfold_frame [where g = "\<lambda>fr. fo_kept_bytes (fr_folds fr)", OF logged keeps2] .
  ultimately show ?thesis by (simp add: fr start_build_def begin_reading_def Let_def)
qed

lemma keep_keeps_limit: "keep kv st = Inr st' \<Longrightarrow> fo_kept_bytes st' = fo_kept_bytes st"
  by (auto simp: keep_def Let_def rbind_Inr_iff split: if_splits)

lemma run_build_keeps_limit: "fo_kept_bytes (run_build t db st) = fo_kept_bytes st"
  by (auto simp: run_build_def end_task_def Let_def split: sum.splits
      dest: rfold_frame [where g = fo_kept_bytes, OF _ keep_keeps_limit])

lemma folds_step_ok:
  assumes "folds_step (db, st) (db', st')" and "folds_ok db st"
  shows "folds_ok db' st' \<and> tasks_kept st st' \<and> fo_kept_bytes st' = fo_kept_bytes st" and "log_grows\<^sup>*\<^sup>* db db'"
proof -
  from assms(1) show "folds_ok db' st' \<and> tasks_kept st st' \<and> fo_kept_bytes st' = fo_kept_bytes st"
  proof (cases rule: folds_step.cases)
    case (reads responses sid through fr)
    from reads(3) obtain spec where "\<forall>r \<in> set responses. spec (r_response_id r) = direct_message sid through db r"
      by (rule direct_spec)
    with read_messages_right(1,2) [OF assms(2) this reads(4)] read_keeps_limit [OF reads(4)] reads(1,2) show ?thesis by simp
  next
    case (builds t)
    with run_build_ok [OF assms(2)] run_build_keeps_limit show ?thesis by simp
  next
    case (calls_back t)
    with built_ok [OF assms(2), of t] show ?thesis by (simp add: built_def Let_def)
  next
    case log
    with folds_ok_grows assms(2) show ?thesis by (auto simp: tasks_kept_refl)
  qed
  from assms(1) show "log_grows\<^sup>*\<^sup>* db db'" by (cases rule: folds_step.cases) auto
qed

lemma folds_runs_ok:
  assumes "folds_runs (db, st) (db', st')" and "folds_ok db st"
  shows "folds_ok db' st' \<and> tasks_kept st st' \<and> log_grows\<^sup>*\<^sup>* db db' \<and> fo_kept_bytes st' = fo_kept_bytes st"
  using assms(1)
proof (induction "(db', st')" arbitrary: db' st' rule: rtranclp_induct)
  case base
  with assms(2) show ?case by (simp add: tasks_kept_refl)
next
  case (step s)
  obtain mdb mst where s: "s = (mdb, mst)" by (cases s)
  from step.hyps(3) [OF s] folds_step_ok [of mdb mst db' st'] step.hyps(2) s show ?case
    by (auto intro: tasks_kept_trans rtranclp_trans)
qed

lemma reading_fresh:
  assumes ok: "folds_ok db st" and "distinct (map r_response_id responses)"
    and "read_messages sid responses through db st = Inr fr" and "folds_runs (db, fr_folds fr) (db', st')"
    and "finish_messages (fr_waiting fr) (fr_folded fr) st' = Some res"
  shows "case res of
      Inr result \<Rightarrow> \<forall>r \<in> set responses. \<exists>m. map_of result (r_response_id r) = Some m \<and> direct_message sid through db r = Inr m
    | Inl e \<Rightarrow> \<exists>rid n. log_reaches db' (sid, rid) n \<and> folded_through db' (sid, rid) n = Inl e"
proof -
  from assms(2) obtain spec where spec: "\<forall>r \<in> set responses. spec (r_response_id r) = direct_message sid through db r"
    by (rule direct_spec)
  note reading = read_messages_right [OF ok spec assms(3)]
  from folds_runs_ok [OF assms(4) reading(1)] have ends: "folds_ok db' st'" "tasks_kept (fr_folds fr) st'" "log_grows\<^sup>*\<^sup>* db db'"
    by simp_all
  have "waits_right sid spec db' st' rt" if rt: "rt \<in> set (fr_waiting fr)" for rt
  proof -
    from rt reading(4) have "waits_right sid spec db (fr_folds fr) rt" by (simp add: list_all_iff)
    then obtain n where n: "snd rt < length (fo_tasks (fr_folds fr))" "tk_session_id (fo_tasks (fr_folds fr) ! snd rt) = sid"
      "(fst rt, n) \<in> set (tk_want (fo_tasks (fr_folds fr) ! snd rt))" "folded_through db (sid, fst rt) n = spec (fst rt)"
      by (auto simp: waits_right_def)
    then have "task_right db (fo_tasks (fr_folds fr) ! snd rt)" using reading(1) by (simp add: folds_ok_def list_all_length)
    with n have "log_reaches db (sid, fst rt) n" by (force simp: task_right_def)
    then have "folded_through db' (sid, fst rt) n = spec (fst rt)"
      using output_log.content_runs [OF ends(3)] n(4) by simp
    with n ends(2) show ?thesis by (auto simp: waits_right_def tasks_kept_def)
  qed
  then have waits: "list_all (wait_done sid spec db' st') (fr_waiting fr)"
    using waits_done [OF ends(1)] by (simp add: list_all_iff)
  show ?thesis
  proof (cases res)
    case (Inr result)
    with finish_right [OF assms(5) waits reading(3)] reading(5)
    have right: "\<forall>rid m. map_of result rid = Some m \<longrightarrow> spec rid = Inr m" "r_response_id ` set responses \<subseteq> fst ` set result"
      by (simp_all add: order_trans)
    have "\<exists>m. map_of result (r_response_id r) = Some m \<and> direct_message sid through db r = Inr m" if r: "r \<in> set responses" for r
    proof -
      from r right(2) have "map_of result (r_response_id r) \<noteq> None" by (auto simp: map_of_eq_None_iff)
      then obtain m where "map_of result (r_response_id r) = Some m" by blast
      with right(1) spec r show ?thesis by metis
    qed
    with Inr show ?thesis by simp
  next
    case (Inl e)
    with finish_right [OF assms(5) waits reading(3)] show ?thesis by simp
  qed
qed

section \<open>A whole read\<close>

text \<open>
  \<^verbatim>\<open>messages\<close> from start to end when no other task of the process runs in between but the builds it
  waits for and their callbacks.
\<close>

definition await_build :: "db \<Rightarrow> nat \<Rightarrow> folds \<Rightarrow> folds" where
  "await_build db t st = built t (if tk_result (fo_tasks st ! t) = None then run_build t db st else st)"

definition messages :: "string \<Rightarrow> response_row list \<Rightarrow> int option \<Rightarrow> db \<Rightarrow> folds \<Rightarrow> (string, ui_message) dict res \<times> folds" where
  "messages sid responses through db st =
     (case read_messages sid responses through db st of
        Inl e \<Rightarrow> (Inl e, st)
      | Inr fr \<Rightarrow>
          let st' = fold (await_build db) (map snd (fr_waiting fr)) (fr_folds fr) in
          (case finish_messages (fr_waiting fr) (fr_folded fr) st' of None \<Rightarrow> Inl RuntimeError | Some res \<Rightarrow> res, st'))"

lemma fo_tasks_keep: "rfold keep kvs st = Inr st' \<Longrightarrow> fo_tasks st' = fo_tasks st"
  by (rule rfold_frame [where g = fo_tasks]) (auto simp: keep_def Let_def rbind_Inr_iff split: if_splits)

lemma run_build_result:
  assumes "t < length (fo_tasks st)"
  shows "tk_result (fo_tasks (run_build t db st) ! t) \<noteq> None"
    and "u \<noteq> t \<Longrightarrow> fo_tasks (run_build t db st) ! u = fo_tasks st ! u"
    and "length (fo_tasks (run_build t db st)) = length (fo_tasks st)"
  using assms by (auto simp: run_build_def end_task_def Let_def fo_tasks_keep split: sum.splits)

lemma await_build_result:
  assumes "t < length (fo_tasks st)"
  shows "tk_result (fo_tasks (await_build db t st) ! t) \<noteq> None"
    and "tk_result (fo_tasks st ! u) \<noteq> None \<Longrightarrow> tk_result (fo_tasks (await_build db t st) ! u) \<noteq> None"
    and "length (fo_tasks (await_build db t st)) = length (fo_tasks st)"
  using run_build_result [OF assms] assms by (auto simp: await_build_def built_def Let_def) (cases "u = t"; simp)

lemma await_build_runs:
  assumes "t < length (fo_tasks st)"
  shows "folds_runs (db, st) (db, await_build db t st)"
proof -
  let ?mid = "if tk_result (fo_tasks st ! t) = None then run_build t db st else st"
  have "folds_runs (db, st) (db, ?mid)" using folds_step.builds [OF assms] by auto
  moreover have "folds_step (db, ?mid) (db, built t ?mid)"
    using run_build_result [OF assms] assms by (intro folds_step.calls_back) auto
  ultimately show ?thesis unfolding await_build_def by (rule rtranclp.rtrancl_into_rtrancl)
qed

lemma await_builds:
  assumes "\<forall>t \<in> set ts. t < length (fo_tasks st)"
  shows "folds_runs (db, st) (db, fold (await_build db) ts st)"
    and "(\<forall>t \<in> set ts. tk_result (fo_tasks (fold (await_build db) ts st) ! t) \<noteq> None) \<and>
      (\<forall>u. tk_result (fo_tasks st ! u) \<noteq> None \<longrightarrow> tk_result (fo_tasks (fold (await_build db) ts st) ! u) \<noteq> None)"
  using assms
proof (induction ts arbitrary: st)
  case (Cons t ts)
  {
    case 1
    then have "folds_runs (db, await_build db t st) (db, fold (await_build db) ts (await_build db t st))"
      by (intro Cons.IH) (simp add: await_build_result)
    with await_build_runs [of t st db] 1 show ?case by auto
  next
    case 2
    then have t: "t < length (fo_tasks st)" by simp
    from Cons.IH(2) [of "await_build db t st"] 2 t await_build_result [OF t, where db = db] show ?case by auto
  }
qed simp_all

lemma finish_messages_ends:
  "\<forall>rt \<in> set waiting. tk_result (fo_tasks st ! snd rt) \<noteq> None \<Longrightarrow> \<exists>res. finish_messages waiting folded st = Some res"
  by (induction waiting folded st rule: finish_messages.induct) (auto split: option.splits sum.splits)

lemma fold_message_empty: "\<exists>m. fold_message rid [] = Inr m"
  by (simp add: fold_message_def empty_fold_def finish_fold_def retracted_ids_def Let_def)

lemma read_messages_Inl:
  assumes "read_messages sid responses through db st = Inl e"
  shows "\<exists>r \<in> set responses. direct_message sid through db r = Inl e"
proof -
  have "take_logged sid seqs rid fr \<noteq> Inl e" for seqs rid fr
    using fold_message_empty [of rid] by (auto simp: take_logged_def split: option.splits)
  with assms obtain fr where "rfold take_import responses fr = Inl e"
    by (auto simp: read_messages_def rbind_def split: sum.splits dest!: rfold_Inl)
  from rfold_Inl [OF this] obtain r fr where r: "r \<in> set responses" "take_import r fr = Inl e" by blast
  then have "direct_message sid through db r = Inl e"
    by (auto simp: take_import_def direct_message_def rbind_map_Inl split: option.splits)
  with r(1) show ?thesis by blast
qed

text \<open>What the rest of the platform may rely on: a read answers like a direct fold, and keeps the cache right.\<close>

lemma messages_fresh:
  assumes ok: "folds_ok db st" and "distinct (map r_response_id responses)"
    and "messages sid responses through db st = (res, st')"
  shows "folds_runs (db, st) (db, st')"
    and "case res of
        Inr result \<Rightarrow> \<forall>r \<in> set responses. \<exists>m. map_of result (r_response_id r) = Some m \<and> direct_message sid through db r = Inr m
      | Inl e \<Rightarrow> (\<exists>r \<in> set responses. direct_message sid through db r = Inl e) \<or>
          (\<exists>rid n. log_reaches db (sid, rid) n \<and> folded_through db (sid, rid) n = Inl e)"
proof -
  have both: "folds_runs (db, st) (db, st') \<and> (case res of
        Inr result \<Rightarrow> \<forall>r \<in> set responses. \<exists>m. map_of result (r_response_id r) = Some m \<and> direct_message sid through db r = Inr m
      | Inl e \<Rightarrow> (\<exists>r \<in> set responses. direct_message sid through db r = Inl e) \<or>
          (\<exists>rid n. log_reaches db (sid, rid) n \<and> folded_through db (sid, rid) n = Inl e))"
  proof (cases "read_messages sid responses through db st")
    case (Inl e)
    with assms(3) read_messages_Inl [OF Inl] show ?thesis by (auto simp: messages_def)
  next
    case (Inr fr)
    from assms(2) obtain spec where spec: "\<forall>r \<in> set responses. spec (r_response_id r) = direct_message sid through db r"
      by (rule direct_spec)
    from read_messages_right(4) [OF ok spec Inr] have "\<forall>t \<in> set (map snd (fr_waiting fr)). t < length (fo_tasks (fr_folds fr))"
      by (auto simp: list_all_iff waits_right_def)
    note awaited = await_builds [OF this, of db]
    let ?fin = "fold (await_build db) (map snd (fr_waiting fr)) (fr_folds fr)"
    from awaited(2) have "\<forall>rt \<in> set (fr_waiting fr). tk_result (fo_tasks ?fin ! snd rt) \<noteq> None" by auto
    from finish_messages_ends [OF this] obtain res' where fin: "finish_messages (fr_waiting fr) (fr_folded fr) ?fin = Some res'" by blast
    with Inr assms(3) have "res = res'" "st' = ?fin" by (simp_all add: messages_def Let_def)
    moreover have "folds_step (db, st) (db, fr_folds fr)" using folds_step.reads [OF assms(2) Inr] .
    ultimately show ?thesis using reading_fresh [OF ok assms(2) Inr awaited(1) fin] awaited(1)
      by (auto split: sum.splits intro: converse_rtranclp_into_rtranclp)
  qed
  from both show "folds_runs (db, st) (db, st')" by simp
  from both show "case res of
        Inr result \<Rightarrow> \<forall>r \<in> set responses. \<exists>m. map_of result (r_response_id r) = Some m \<and> direct_message sid through db r = Inr m
      | Inl e \<Rightarrow> (\<exists>r \<in> set responses. direct_message sid through db r = Inl e) \<or>
          (\<exists>rid n. log_reaches db (sid, rid) n \<and> folded_through db (sid, rid) n = Inl e)" by simp
qed

section \<open>Properties\<close>

text \<open>
  C14. A history read from the cache is the history in the log. Start with an empty cache and let
  reads, builds, their callbacks and growth of the output log interleave in any way. When a
  read that began at some moment ends, each response's message is the one folded directly
  from its parts through the position asked for, as the log was when the read began; a read
  fails only with an error that folding a stored response of the session raises.
\<close>

theorem cached_history_is_fresh:
  assumes "folds_runs (db0, new_folds kept_bytes) (db, st)" and "0 \<le> kept_bytes" and "distinct (map r_response_id responses)"
    and "read_messages sid responses through db st = Inr fr" and "folds_runs (db, fr_folds fr) (db', st')"
    and "finish_messages (fr_waiting fr) (fr_folded fr) st' = Some res"
  shows "case res of
      Inr result \<Rightarrow> \<forall>r \<in> set responses. \<exists>m. map_of result (r_response_id r) = Some m \<and> direct_message sid through db r = Inr m
    | Inl e \<Rightarrow> \<exists>rid n. log_reaches db' (sid, rid) n \<and> folded_through db' (sid, rid) n = Inl e"
proof -
  have "folds_ok db st" using folds_runs_ok [OF assms(1) folds_ok_new [OF assms(2)]] by simp
  from reading_fresh [OF this assms(3-6)] show ?thesis .
qed

text \<open>
  C38. The cache stays within its size. However reads and builds interleave, the serialized sizes
  of the messages kept add up to the size the cache counts, which never exceeds its limit;
  no response is kept twice, and evicting never runs out of messages to evict.
\<close>

theorem kept_bytes_bounded:
  assumes "folds_runs (db0, new_folds kept_bytes) (db, st)" and "0 \<le> kept_bytes"
  shows "fo_size st = (\<Sum>kv \<leftarrow> fo_kept st. message_size (k_message (snd kv))) \<and> fo_size st \<le> kept_bytes \<and>
    distinct (map fst (fo_kept st)) \<and>
    (\<exists>st'. keep (key, \<lparr>k_last_seq = n, k_message = m, k_size = message_size m\<rparr>) st = Inr st')"
proof -
  have ok: "kept_ok st" "fo_kept_bytes st = kept_bytes"
    using folds_runs_ok [OF assms(1) folds_ok_new [OF assms(2)]] by (simp_all add: folds_ok_def new_folds_def)
  then have "map (\<lambda>kv. k_size (snd kv)) (fo_kept st) = map (\<lambda>kv. message_size (k_message (snd kv))) (fo_kept st)"
    by (simp add: kept_ok_def)
  moreover have "fo_size st = sum_list (map (\<lambda>kv. k_size (snd kv)) (fo_kept st))" using ok by (simp add: kept_ok_def size_sum_def)
  ultimately have "fo_size st = (\<Sum>kv \<leftarrow> fo_kept st. message_size (k_message (snd kv)))" by (simp only:)
  moreover have "fo_size st \<le> kept_bytes" "distinct (map fst (fo_kept st))" using ok by (simp_all add: kept_ok_def)
  moreover from keep_ok [OF ok(1), of "(key, \<lparr>k_last_seq = n, k_message = m, k_size = message_size m\<rparr>)"]
  have "\<exists>st'. keep (key, \<lparr>k_last_seq = n, k_message = m, k_size = message_size m\<rparr>) st = Inr st'" by auto
  ultimately show ?thesis by blast
qed

text \<open>The sample response read twice, the second time from the cache.\<close>

definition sample_response :: response_row where
  "sample_response = hd (t_responses sample_recorded)"

definition sample_first_read :: fold_reading where
  "sample_first_read =
     (case read_messages ''s'' [sample_response] (Some 2) sample_recorded (new_folds 1000) of
        Inr fr \<Rightarrow> fr | Inl e \<Rightarrow> begin_reading (new_folds 1000))"

definition sample_built :: folds where
  "sample_built = run_build 0 sample_recorded (fr_folds sample_first_read)"

lemma sample_read: "read_messages ''s'' [sample_response] (Some 2) sample_recorded (new_folds 1000) = Inr sample_first_read"
proof -
  have "\<not> isl (read_messages ''s'' [sample_response] (Some 2) sample_recorded (new_folds 1000))" by code_simp
  then show ?thesis by (auto simp: sample_first_read_def split: sum.splits)
qed

lemma sample_build: "folds_runs (sample_recorded, fr_folds sample_first_read) (sample_recorded, sample_built)"
proof (rule r_into_rtranclp)
  have "0 < length (fo_tasks (fr_folds sample_first_read))" "tk_result (fo_tasks (fr_folds sample_first_read) ! 0) = None"
    by code_simp+
  then show "folds_step (sample_recorded, fr_folds sample_first_read) (sample_recorded, sample_built)"
    unfolding sample_built_def by (rule folds_step.builds)
qed

lemma sample_folds: "folds_runs (sample_recorded, new_folds 1000) (sample_recorded, sample_built)"
proof -
  have "folds_step (sample_recorded, new_folds 1000) (sample_recorded, fr_folds sample_first_read)"
    using sample_read by (intro folds_step.reads) simp_all
  with sample_build show ?thesis by (meson converse_rtranclp_into_rtranclp)
qed

theorem cached_history_is_fresh_witness:
  "\<exists>m. finish_messages (fr_waiting sample_first_read) (fr_folded sample_first_read) sample_built = Some (Inr [(''r'', m)]) \<and>
     direct_message ''s'' (Some 2) sample_recorded sample_response = Inr m"
proof -
  let ?res = "finish_messages (fr_waiting sample_first_read) (fr_folded sample_first_read) sample_built"
  have shape: "(case ?res of Some (Inr [(rid, m)]) \<Rightarrow> rid = ''r'' | _ \<Rightarrow> False)" by code_simp
  then obtain m where m: "?res = Some (Inr [(''r'', m)])"
    by (auto split: option.splits sum.splits list.splits prod.splits)
  have "r_response_id sample_response = ''r''" by code_simp
  with cached_history_is_fresh [OF rtranclp.rtrancl_refl _ _ sample_read sample_build m] m show ?thesis by auto
qed

theorem kept_bytes_bounded_witness:
  "map fst (fo_kept sample_built) = [(''s'', ''r'')] \<and> 0 < fo_size sample_built \<and> fo_size sample_built \<le> 1000"
proof -
  have "fo_size sample_built \<le> 1000" using kept_bytes_bounded [OF sample_folds, of undefined 0 undefined] by (simp only:) simp
  moreover have "map fst (fo_kept sample_built) = [(''s'', ''r'')]" "0 < fo_size sample_built" by code_simp+
  ultimately show ?thesis by simp
qed

end
