(* ===== verification/HistoryBlocks.thy ===== *)
theory HistoryBlocks
  imports Folds
begin

text \<open>
  A history page with the work of each ended response folded behind headers,
  \<^verbatim>\<open>session_runtime/history_blocks.py\<close>: the grouping of a message's parts and the fold
  (\<^verbatim>\<open>fold_parts\<close>), the cursors that pin a read to a position of the output log, the page
  (\<^verbatim>\<open>load_history_page\<close>) and the parts behind one header (\<^verbatim>\<open>load_block_parts\<close>). The messages come from
  the fold cache; its state is passed along with the database.
\<close>

section \<open>Kinds of parts\<close>

definition PROCESS_BLOCK_PART :: string where
  "PROCESS_BLOCK_PART = ''data-process-block''"

definition standalone_parts :: "string list" where
  "standalone_parts = [''data-result'', ''data-raw-event'', ''data-api-retry'', ''data-interaction'', ''data-tool-card'',
     ''data-input-consumed'', PROCESS_BLOCK_PART]"

definition alert_parts :: "string list" where
  "alert_parts = [''data-result'', ''data-raw-event'', ''data-api-retry'', ''data-interaction'', ''data-input-consumed'']"

definition failed_tool_states :: "string list" where
  "failed_tool_states = [''output-error'', ''output-denied'']"

definition unfinished_tool_states :: "string list" where
  "unfinished_tool_states = [''input-streaming'', ''input-available'', ''approval-requested'', ''approval-responded'']"

definition type_of :: "obj \<Rightarrow> string" where
  "type_of part = str_or (get part ''type'')"

definition is_tool :: "obj \<Rightarrow> bool" where
  "is_tool part = (let kind = type_of part in kind = ''dynamic-tool'' \<or> startswith ''tool-'' kind)"

definition tool_state :: "obj \<Rightarrow> string" where
  "tool_state part = str_or (get part ''state'')"

definition tool_failed :: "obj \<Rightarrow> bool" where
  "tool_failed part =
     (let approval = get part ''approval'' in
      tool_state part \<in> set failed_tool_states \<or>
      tool_state part = ''approval-responded'' \<and> is_obj approval \<and> get (jfields approval) ''approved'' = JBool False)"

definition is_process :: "obj \<Rightarrow> bool" where
  "is_process part \<longleftrightarrow> type_of part = ''reasoning'' \<or> is_tool part \<and> tool_state part = ''output-available''"

definition is_carried :: "obj \<Rightarrow> bool" where
  "is_carried part =
     (let kind = type_of part in kind = ''step-start'' \<or> startswith ''data-'' kind \<and> kind \<notin> set standalone_parts)"

definition is_blank_text :: "obj \<Rightarrow> bool" where
  "is_blank_text part \<longleftrightarrow> type_of part = ''text'' \<and> strip (str_or (get part ''text'')) = []"

section \<open>Groups\<close>

record group =
  g_indexes :: "nat list"
  g_process :: bool

definition add_to_groups :: "nat \<times> obj \<Rightarrow> group list \<Rightarrow> group list" where
  "add_to_groups entry gs =
     (case entry of (index, part) \<Rightarrow>
        if is_carried part \<or> is_blank_text part then gs
        else if is_process part \<and> gs \<noteq> [] \<and> g_process (List.last gs)
        then butlast gs @ [(List.last gs)\<lparr>g_indexes := g_indexes (List.last gs) @ [index]\<rparr>]
        else gs @ [\<lparr>g_indexes = [index], g_process = is_process part\<rparr>])"

definition groups :: "obj list \<Rightarrow> group list" where
  "groups parts = fold add_to_groups (enumerate 0 parts) []"

section \<open>The fold\<close>

record response_fold =
  rf_parts :: "obj list"
  rf_details :: "(string, obj list) dict"
  rf_summary_text :: "string option"
  rf_response_completed :: bool

text \<open>\<open>alert\<close>: whether a group holds a part that stays in view. \<open>quiet\<close> is \<^verbatim>\<open>completed and conclusion\<close>.\<close>

definition alert :: "obj list \<Rightarrow> bool \<Rightarrow> group \<Rightarrow> bool" where
  "alert parts quiet g =
     list_ex (\<lambda>i. let part = parts ! i in
        type_of part \<in> set alert_parts \<or>
        is_tool part \<and> (tool_state part \<in> set unfinished_tool_states \<or> \<not> quiet \<and> tool_failed part)) (g_indexes g)"

definition block_id :: "string \<Rightarrow> nat list \<Rightarrow> string" where
  "block_id message_id indexes = message_id @ '':p'' @ str_nat (hd indexes)"

definition header_part :: "string \<Rightarrow> string \<Rightarrow> string \<Rightarrow> obj list \<Rightarrow> nat list \<times> bool \<Rightarrow> obj" where
  "header_part message_id sid cursor parts h =
     (case h of (indexes, summarize) \<Rightarrow>
        let bid = block_id message_id indexes in
        [(''type'', JStr PROCESS_BLOCK_PART), (''id'', JStr bid),
         (''data'', JObj [(''block_id'', JStr bid), (''cursor'', JStr cursor), (''session_id'', JStr sid),
            (''message_id'', JStr message_id),
            (''tool_count'', JInt (int (length (filter (\<lambda>i. is_tool (parts ! i)) indexes)))),
            (''summarize'', JBool summarize), (''summary'', JNull)])])"

text \<open>The index after the last group with a tool call; 0 when there is none (\<^verbatim>\<open>last_tool + 1\<close>).\<close>

definition work_end :: "obj list \<Rightarrow> group list \<Rightarrow> nat" where
  "work_end parts gs =
     (case filter (\<lambda>(n, g). list_ex (\<lambda>i. is_tool (parts ! i)) (g_indexes g)) (enumerate 0 gs) of
        [] \<Rightarrow> 0 | found \<Rightarrow> Suc (fst (List.last found)))"

definition headers :: "obj list \<Rightarrow> json \<Rightarrow> (nat list \<times> bool) list" where
  "headers parts outcome =
     (let completed = (outcome = JStr ''completed'');
          stopped = (outcome = JStr ''failed'' \<or> outcome = JStr ''cancelled'');
          gs = groups parts; n = work_end parts gs;
          conclusion = list_ex (\<lambda>g. type_of (parts ! hd (g_indexes g)) = ''text'') (drop n gs);
          waiting = list_ex (\<lambda>part. is_tool part \<and> tool_state part = ''approval-requested'') parts;
          folded = filter (\<lambda>g. \<not> alert parts (completed \<and> conclusion) g) (take n gs);
          boundary = list_ex (\<lambda>part. type_of part = ''data-input-consumed'') parts
      in if 0 < n \<and> \<not> waiting \<and> folded \<noteq> [] \<and> \<not> boundary \<and> (completed \<and> conclusion \<or> stopped)
         then [(sort (concat (map g_indexes folded)), True)]
         else if completed \<or> stopped then map (\<lambda>g. (g_indexes g, False)) (filter g_process gs)
         else [])"

definition show_part :: "(nat, obj) dict \<Rightarrow> nat set \<Rightarrow> nat \<times> obj \<Rightarrow> obj list" where
  "show_part header_at hidden entry =
     (case map_of header_at (fst entry) of None \<Rightarrow> [] | Some h \<Rightarrow> [h]) @
     (if fst entry \<in> hidden then [] else [snd entry])"

definition fold_parts :: "obj list \<Rightarrow> json \<Rightarrow> string \<Rightarrow> string \<Rightarrow> string \<Rightarrow> response_fold" where
  "fold_parts parts outcome message_id sid cursor =
     (let hs = headers parts outcome in
      if hs = [] then \<lparr>rf_parts = parts, rf_details = [], rf_summary_text = None, rf_response_completed = False\<rparr>
      else
        let details = dict_update [] (map (\<lambda>h. (block_id message_id (fst h), map ((!) parts) (fst h))) hs);
            header_at = dict_update [] (map (\<lambda>h. (hd (fst h), header_part message_id sid cursor parts h)) hs);
            hidden = set (concat (map fst hs))
        in \<lparr>rf_parts = concat (map (show_part header_at hidden) (enumerate 0 parts)), rf_details = details,
            rf_summary_text =
              (if snd (hd hs)
               then Some (dumps '', '' '': '' False (JList (map JObj (filter (\<lambda>part. type_of part = ''text'' \<or> is_tool part)
                      (the (map_of details (block_id message_id (fst (hd hs)))))))))
               else None),
            rf_response_completed = (outcome = JStr ''completed'')\<rparr>)"

section \<open>Cursors\<close>

definition CURSOR_VERSION :: int where
  "CURSOR_VERSION = 2"

text \<open>The payload's keys as \<^verbatim>\<open>sort_keys\<close> orders them.\<close>

definition cursor_payload :: "int \<Rightarrow> entry_key option \<Rightarrow> json" where
  "cursor_payload through_seq before =
     JObj ((case before of None \<Rightarrow> []
            | Some (phase, position, kind, seq) \<Rightarrow> [(''before'', JList [JInt phase, JInt position, JInt kind, JInt seq])]) @
           [(''through_seq'', JInt through_seq), (''v'', JInt CURSOR_VERSION)])"

definition encode_cursor :: "int \<Rightarrow> entry_key option \<Rightarrow> string" where
  "encode_cursor through_seq before =
     rstrip_char (CHR ''='') (b64encode True (encode_ascii (compact (cursor_payload through_seq before))))"

definition cursor_error :: "'a res \<Rightarrow> 'a res" where
  "cursor_error m = (case m of Inl e \<Rightarrow> Inl HistoryCursorError | Inr x \<Rightarrow> Inr x)"

definition decode_before :: "json \<Rightarrow> entry_key option res" where
  "decode_before before =
     (if before = JNull then Inr None
      else cursor_error (rbind (iterate before) (\<lambda>items.
        case items of
          [phase, position, kind, seq] \<Rightarrow>
            rbind (py_int phase) (\<lambda>p. rbind (py_int position) (\<lambda>q. rbind (py_int kind) (\<lambda>k. rbind (py_int seq) (\<lambda>s.
              Inr (Some (p, q, k, s))))))
        | _ \<Rightarrow> Inl ValueError)))"

definition decode_cursor :: "string \<Rightarrow> (int \<times> entry_key option) res" where
  "decode_cursor value =
     (let token = strip value in
      if token = [] then Inl HistoryCursorError
      else rbind (cursor_error (rbind (urlsafe_b64decode (repad token)) json_loads_bytes)) (\<lambda>payload.
        if \<not> is_obj payload \<or> \<not> py_eq (get (jfields payload) ''v'') (JInt CURSOR_VERSION) then Inl HistoryCursorError
        else case get (jfields payload) ''through_seq'' of
          JInt n \<Rightarrow>
            if n < 0 then Inl HistoryCursorError
            else rbind (decode_before (get (jfields payload) ''before'')) (\<lambda>before. Inr (n, before))
        | _ \<Rightarrow> Inl HistoryCursorError))"

section \<open>Reads\<close>

record history_page_result =
  pg_messages :: "ui_message list"
  pg_has_more :: bool
  pg_through_seq :: int
  pg_next_cursor :: "string option"
  pg_labelled :: "(string, json) dict"

text \<open>\<^verbatim>\<open>labelled\<close>: the data of the first header on the page's message.\<close>

definition first_header_data :: "obj list \<Rightarrow> json res" where
  "first_header_data parts =
     (case first_row (\<lambda>part. type_of part = PROCESS_BLOCK_PART) parts of
        None \<Rightarrow> Inl RuntimeError | Some part \<Rightarrow> index_key part ''data'')"

definition page_message :: "string \<Rightarrow> string \<Rightarrow> string list \<Rightarrow> ui_message \<Rightarrow> ui_message list \<times> (string, json) dict \<Rightarrow>
    (ui_message list \<times> (string, json) dict) res" where
  "page_message sid checkpoint ended message acc =
     (if um_role message = ''assistant'' \<and> str_or (get (um_metadata message) ''response_id'') \<in> set ended then
        let rf = fold_parts (um_parts message) (get (um_metadata message) ''outcome'') (um_id message) sid checkpoint;
            shown = message\<lparr>um_parts := rf_parts rf\<rparr>
        in if rf_summary_text rf = None then Inr (fst acc @ [shown], snd acc)
           else rbind (first_header_data (rf_parts rf)) (\<lambda>data.
             Inr (fst acc @ [shown], dict_set (um_id message) data (snd acc)))
      else Inr (fst acc @ [message], snd acc))"

text \<open>
  The responses of a page that had ended and whose last stored part the position covers; \<^verbatim>\<open>last_seqs\<close>
  is read without a bound.
\<close>

definition ended_by :: "string \<Rightarrow> int \<Rightarrow> db \<Rightarrow> response_row list \<Rightarrow> string list" where
  "ended_by sid through db rows =
     (let last_seqs = last_output_seqs sid (map r_response_id rows) None db in
      map r_response_id (filter (\<lambda>r. r_status r = Ended \<and> coalesce (map_of last_seqs (r_response_id r)) 0 \<le> through) rows))"

definition page_position :: "string \<Rightarrow> string option \<Rightarrow> db \<Rightarrow> (int \<times> entry_key option) res" where
  "page_position sid cursor db =
     (case cursor of
        None \<Rightarrow> Inr (fst (resume_point sid db), None)
      | Some c \<Rightarrow> rbind (decode_cursor c) (\<lambda>(through, before).
          if before = None then Inl HistoryCursorError else Inr (through, before)))"

definition page_cursor_token :: "int \<Rightarrow> history_page_view \<Rightarrow> string option" where
  "page_cursor_token through page =
     (case hp_before page of
        Some before \<Rightarrow> if hp_has_more page then Some (encode_cursor through (Some before)) else None
      | None \<Rightarrow> None)"

definition load_history_page :: "string \<Rightarrow> string option \<Rightarrow> nat \<Rightarrow> db \<times> folds \<Rightarrow>
    history_page_result res \<times> db \<times> folds" where
  "load_history_page sid cursor limit w =
     (case w of (db, st) \<Rightarrow>
        case page_position sid cursor db of
          Inl e \<Rightarrow> (Inl e, db, st)
        | Inr (through, before) \<Rightarrow>
            (case history_page sid before limit (Some through) db of
               (Inl e, db') \<Rightarrow> (Inl e, db', st)
             | (Inr page, db') \<Rightarrow>
                 (case messages sid (hp_responses page) (Some through) db' st of
                    (Inl e, st') \<Rightarrow> (Inl e, db', st')
                  | (Inr folded, st') \<Rightarrow>
                      (rbind (history_messages page (\<lambda>_. []) folded
                                (response_interactions sid (map r_response_id (hp_responses page)) db')) (\<lambda>ms.
                       rbind (rfold (page_message sid (encode_cursor through None)
                                (ended_by sid through db' (hp_responses page))) ms ([], [])) (\<lambda>(shown, labelled).
                         Inr \<lparr>pg_messages = shown, pg_has_more = hp_has_more page, pg_through_seq = through,
                              pg_next_cursor = page_cursor_token through page, pg_labelled = labelled\<rparr>)), db', st'))))"

record loaded_response =
  lr_row :: response_row
  lr_message :: ui_message
  lr_fold :: "response_fold option"
  lr_last_seq :: int

definition single_page :: "response_row \<Rightarrow> history_page_view" where
  "single_page row =
     \<lparr>hp_entries = [(MResponse, r_seq row)], hp_inputs = [], hp_responses = [row], hp_links = [], hp_has_more = False,
      hp_before = None\<rparr>"

definition load_response :: "string \<Rightarrow> string \<Rightarrow> int option \<Rightarrow> db \<times> folds \<Rightarrow> loaded_response option res \<times> db \<times> folds" where
  "load_response sid rid through w =
     (case w of (db, st) \<Rightarrow>
        case get_response sid rid db of
          None \<Rightarrow> (Inr None, db, st)
        | Some row \<Rightarrow>
            (case messages sid [row] through db st of
               (Inl e, st') \<Rightarrow> (Inl e, db, st')
             | (Inr folded, st') \<Rightarrow>
                 (rbind (history_messages (single_page row) (\<lambda>_. []) folded (response_interactions sid [rid] db)) (\<lambda>ms.
                  let message = hd ms; last_seq = coalesce (map_of (last_output_seqs sid [rid] None db) rid) 0 in
                  Inr (Some \<lparr>lr_row = row, lr_message = message,
                    lr_fold =
                      (if r_status row = Ended \<and> within through last_seq
                       then Some (fold_parts (um_parts message) (opt_json (\<lambda>oc. JStr (outcome_name oc)) (r_outcome row))
                              (um_id message) sid (encode_cursor (coalesce through last_seq) None))
                       else None),
                    lr_last_seq = last_seq\<rparr>)), db, st')))"

definition load_block_parts :: "string \<Rightarrow> string \<Rightarrow> string \<Rightarrow> db \<times> folds \<Rightarrow>
    (loaded_response \<times> obj list) option res \<times> db \<times> folds" where
  "load_block_parts sid bid cursor w =
     (case decode_cursor cursor of
        Inl e \<Rightarrow> (Inl e, w)
      | Inr (through, before) \<Rightarrow>
          if before \<noteq> None then (Inl HistoryCursorError, w)
          else case rpartition_str '':p'' bid of
            None \<Rightarrow> (Inr None, w)
          | Some (rid, index) \<Rightarrow>
              if rid = [] then (Inr None, w)
              else case load_response sid rid (Some through) w of
                (Inl e, w') \<Rightarrow> (Inl e, w')
              | (Inr None, w') \<Rightarrow> (Inr None, w')
              | (Inr (Some loaded), w') \<Rightarrow>
                  (Inr (case lr_fold loaded of
                          None \<Rightarrow> None
                        | Some rf \<Rightarrow> map_option (\<lambda>parts. (loaded, parts)) (map_of (rf_details rf) bid)), w'))"

section \<open>A cursor reads back\<close>

lemma decode_encode:
  assumes "0 \<le> through"
  shows "decode_cursor (encode_cursor through before) = Inr (through, before)"
proof -
  let ?payload = "cursor_payload through before"
  let ?bytes = "encode_ascii (compact ?payload)"
  have ok: "json_ok ?payload" by (cases before) (auto simp: cursor_payload_def)
  have some: "?bytes \<noteq> []" by (cases before) (auto simp: encode_ascii_def compact_def cursor_payload_def)
  note trip = b64_round_trip [OF encode_ascii_bytes [of "compact ?payload"]]
  have "decode_before (get (jfields ?payload) ''before'') = Inr before"
    by (cases before) (auto simp: cursor_payload_def decode_before_def cursor_error_def)
  moreover have "get (jfields ?payload) ''through_seq'' = JInt through" "is_obj ?payload"
    "py_eq (get (jfields ?payload) ''v'') (JInt CURSOR_VERSION)"
    by (cases before; auto simp: cursor_payload_def py_eq.simps)+
  ultimately show ?thesis using assms
    by (simp add: decode_cursor_def encode_cursor_def trip some json_loads_bytes_compact [OF ok] cursor_error_def)
qed

section \<open>Groups cover the parts\<close>

lemma enumerate_nth: "enumerate 0 xs = map (\<lambda>i. (i, xs ! i)) [0..<length xs]"
  by (rule nth_equalityI) (simp_all add: nth_enumerate_eq)

lemma g_indexes_add:
  "concat (map g_indexes (add_to_groups (i, part) gs)) =
     concat (map g_indexes gs) @ (if is_carried part \<or> is_blank_text part then [] else [i])"
proof (cases "gs = []")
  case False
  then obtain hs h where "gs = hs @ [h]" by (metis rev_exhaust)
  then show ?thesis by (simp add: add_to_groups_def)
qed (simp add: add_to_groups_def)

lemma g_indexes_fold:
  "concat (map g_indexes (fold add_to_groups entries gs)) =
     concat (map g_indexes gs) @ map fst (filter (\<lambda>(i, part). \<not> is_carried part \<and> \<not> is_blank_text part) entries)"
  by (induction entries arbitrary: gs) (auto simp: g_indexes_add split: prod.splits)

definition group_ok :: "obj list \<Rightarrow> group \<Rightarrow> bool" where
  "group_ok parts g \<longleftrightarrow> g_indexes g \<noteq> [] \<and> (g_process g \<longrightarrow> list_all (\<lambda>i. is_process (parts ! i)) (g_indexes g))"

lemma group_ok_add:
  assumes "list_all (group_ok parts) gs" and "part = parts ! i"
  shows "list_all (group_ok parts) (add_to_groups (i, part) gs)"
proof (cases "gs = []")
  case False
  then obtain hs h where "gs = hs @ [h]" by (metis rev_exhaust)
  with assms show ?thesis by (simp add: add_to_groups_def group_ok_def)
qed (use assms in \<open>simp add: add_to_groups_def group_ok_def\<close>)

lemma groups_ok: "list_all (group_ok parts) (groups parts)"
proof -
  have "list_all (group_ok parts) (fold add_to_groups entries gs)"
    if "list_all (group_ok parts) gs" "\<forall>(i, part) \<in> set entries. part = parts ! i" for entries gs
    using that
  proof (induction entries arbitrary: gs)
    case (Cons e entries)
    then show ?case by (cases e) (simp add: group_ok_add)
  qed simp
  moreover have "\<forall>(i, part) \<in> set (enumerate 0 parts). part = parts ! i" by (auto simp: in_set_enumerate_eq)
  ultimately show ?thesis by (simp add: groups_def)
qed

lemma groups_indexes:
  "concat (map g_indexes (groups parts)) = filter (\<lambda>i. \<not> is_carried (parts ! i) \<and> \<not> is_blank_text (parts ! i)) [0..<length parts]"
proof -
  have "map fst (filter (\<lambda>(i, part). P part) (enumerate 0 parts)) = filter (\<lambda>i. P (parts ! i)) [0..<length parts]" for P
    by (simp add: enumerate_nth filter_map o_def)
  from this [of "\<lambda>part. \<not> is_carried part \<and> \<not> is_blank_text part"] show ?thesis by (simp add: groups_def g_indexes_fold)
qed

section \<open>Headers\<close>

text \<open>What a fold hides: parts the reader need not act on, each behind one header.\<close>

definition foldable :: "json \<Rightarrow> obj \<Rightarrow> bool" where
  "foldable outcome part \<longleftrightarrow>
     \<not> is_carried part \<and> \<not> is_blank_text part \<and> type_of part \<notin> set alert_parts \<and>
     (is_tool part \<longrightarrow> tool_state part \<notin> set unfinished_tool_states \<and> (tool_failed part \<longrightarrow> outcome = JStr ''completed''))"

lemma process_foldable:
  assumes "is_process part" and "\<not> is_carried part" and "\<not> is_blank_text part"
  shows "foldable outcome part"
proof -
  have "type_of part \<notin> set alert_parts"
  proof
    assume "type_of part \<in> set alert_parts"
    with assms(1) show False by (auto simp: alert_parts_def is_process_def is_tool_def startswith_def Let_def)
  qed
  moreover have "is_tool part \<Longrightarrow> tool_state part = ''output-available''"
    using assms(1) by (auto simp: is_process_def is_tool_def startswith_def Let_def)
  ultimately show ?thesis using assms
    by (auto simp: foldable_def unfinished_tool_states_def tool_failed_def failed_tool_states_def Let_def)
qed

lemma alert_foldable:
  assumes "\<not> alert parts quiet g" and "i \<in> set (g_indexes g)" and "\<not> is_carried (parts ! i)" "\<not> is_blank_text (parts ! i)"
    and "quiet \<Longrightarrow> outcome = JStr ''completed''"
  shows "foldable outcome (parts ! i)"
  using assms by (auto simp: alert_def list_ex_iff foldable_def Let_def)

lemma sorted_concat_heads:
  "sorted_wrt (<) (concat ls) \<Longrightarrow> [] \<notin> set ls \<Longrightarrow> sorted_wrt (<) (map hd (ls :: nat list list))"
proof (induction ls)
  case (Cons l ls)
  have "hd l < hd m" if m: "m \<in> set ls" for m
  proof -
    from m Cons.prems(2) have "l \<noteq> []" "m \<noteq> []" by auto
    with m have "hd l \<in> set l" "hd m \<in> set (concat ls)" by (auto intro!: bexI [of _ m])
    moreover have "\<forall>x \<in> set l. \<forall>y \<in> set (concat ls). x < y" using Cons.prems(1) by (simp add: sorted_wrt_append)
    ultimately show ?thesis by blast
  qed
  with Cons show ?case by (simp add: sorted_wrt_append)
qed simp

lemma sorted_concat_filter:
  "sorted_wrt (<) (concat (map f gs)) \<Longrightarrow> sorted_wrt (<) (concat (map f (filter P gs)) :: nat list)"
  by (induction gs) (auto simp: sorted_wrt_append)

lemma headers_ok:
  assumes "hs = headers parts outcome"
  shows "sorted_wrt (<) (concat (map fst hs))" and "[] \<notin> set (map fst hs)"
    and "\<forall>i \<in> set (concat (map fst hs)). i < length parts \<and> foldable outcome (parts ! i)"
    and "outcome \<notin> {JStr ''completed'', JStr ''failed'', JStr ''cancelled''} \<Longrightarrow> hs = []"
proof -
  let ?gs = "groups parts" and ?n = "work_end parts (groups parts)"
  define quiet where "quiet \<longleftrightarrow> outcome = JStr ''completed'' \<and>
     list_ex (\<lambda>g. type_of (parts ! hd (g_indexes g)) = ''text'') (drop ?n ?gs)"
  let ?folded = "filter (\<lambda>g. \<not> alert parts quiet g) (take ?n ?gs)"
  have all: "sorted_wrt (<) (concat (map g_indexes ?gs))"
    by (simp add: groups_indexes sorted_wrt_filter strict_sorted_iff flip: strict_sorted_iff)
  have in_parts: "i < length parts \<and> \<not> is_carried (parts ! i) \<and> \<not> is_blank_text (parts ! i)"
    if "g \<in> set ?gs" "i \<in> set (g_indexes g)" for g i
  proof -
    from that have "i \<in> set (concat (map g_indexes ?gs))" by auto
    then show ?thesis by (simp add: groups_indexes)
  qed
  have nonempty: "g_indexes g \<noteq> []" if "g \<in> set ?gs" for g
    using that groups_ok [of parts] by (auto simp: list_all_iff group_ok_def)
  from assms consider
      (one) "hs = [(sort (concat (map g_indexes ?folded)), True)]" "?folded \<noteq> []"
    | (each) "hs = map (\<lambda>g. (g_indexes g, False)) (filter g_process ?gs)"
    | (none) "hs = []"
    unfolding headers_def quiet_def Let_def by (auto split: if_splits)
  then have "sorted_wrt (<) (concat (map fst hs)) \<and> [] \<notin> set (map fst hs) \<and>
      (\<forall>i \<in> set (concat (map fst hs)). i < length parts \<and> foldable outcome (parts ! i))"
  proof cases
    case one
    have "sorted_wrt (<) (concat (map g_indexes (take ?n ?gs)))"
      using all by (metis append_take_drop_id concat_append map_append sorted_wrt_append)
    then have sorted: "sorted_wrt (<) (concat (map g_indexes ?folded))" by (rule sorted_concat_filter)
    then have "sort (concat (map g_indexes ?folded)) = concat (map g_indexes ?folded)"
      by (simp add: sort_key_id_if_sorted strict_sorted_iff)
    moreover obtain g where "g \<in> set ?folded" using one(2) by (metis last_in_set)
    moreover have "concat (map g_indexes ?folded) \<noteq> []"
      using \<open>g \<in> set ?folded\<close> nonempty [of g] by (auto dest: in_set_takeD)
    moreover have "foldable outcome (parts ! i) \<and> i < length parts" if "g \<in> set ?folded" "i \<in> set (g_indexes g)" for g i
      using that in_parts [of g i] alert_foldable [of parts quiet g i outcome] by (auto simp: quiet_def dest: in_set_takeD)
    ultimately show ?thesis using sorted one(1) by auto
  next
    case each
    have "sorted_wrt (<) (concat (map g_indexes (filter g_process ?gs)))" using all by (rule sorted_concat_filter)
    moreover have "foldable outcome (parts ! i)" if "g \<in> set ?gs" "g_process g" "i \<in> set (g_indexes g)" for g i
      using that in_parts [of g i] groups_ok [of parts] by (intro process_foldable) (auto simp: list_all_iff group_ok_def)
    moreover have "[] \<notin> g_indexes ` set ?gs" using nonempty by force
    ultimately show ?thesis using in_parts by (auto simp: each o_def)
  qed simp
  then show "sorted_wrt (<) (concat (map fst hs))" "[] \<notin> set (map fst hs)"
    "\<forall>i \<in> set (concat (map fst hs)). i < length parts \<and> foldable outcome (parts ! i)" by blast+
  show "hs = []" if "outcome \<notin> {JStr ''completed'', JStr ''failed'', JStr ''cancelled''}"
    using that by (simp add: assms headers_def Let_def)
qed

lemma block_id_inj: "block_id mid is = block_id mid js \<Longrightarrow> hd is = hd js"
  by (auto simp: block_id_def dest: str_nat_inj)

lemma sorted_lookup:
  fixes kvs :: "(nat, 'v) dict"
  assumes "sorted_wrt (<) (map fst kvs)" and "\<forall>k \<in> fst ` set kvs. k < n"
  shows "concat (map (\<lambda>i. case map_of kvs i of None \<Rightarrow> [] | Some v \<Rightarrow> [v]) [0..<n]) = map snd kvs"
proof -
  have dist: "distinct (map fst kvs)" "sorted (map fst kvs)" using assms(1) by (simp_all add: strict_sorted_iff)
  have "concat (map (\<lambda>i. case map_of kvs i of None \<Rightarrow> [] | Some v \<Rightarrow> [v]) is) =
      map (\<lambda>i. the (map_of kvs i)) (filter (\<lambda>i. i \<in> fst ` set kvs) is)" for "is"
    by (induction "is") (auto simp: map_of_eq_None_iff split: option.splits dest: map_of_SomeD intro: rev_image_eqI)
  moreover have "filter (\<lambda>i. i \<in> fst ` set kvs) [0..<n] = map fst kvs"
    using dist assms(2) by (intro sorted_distinct_set_unique) (auto intro: sorted_wrt_filter)
  moreover have "map (\<lambda>i. the (map_of kvs i)) (map fst kvs) = map snd kvs" using dist(1) by (auto simp: map_of_is_SomeI)
  ultimately show ?thesis by simp
qed

lemma type_header: "type_of (header_part mid sid cur parts h) = PROCESS_BLOCK_PART"
  by (simp add: header_part_def type_of_def PROCESS_BLOCK_PART_def Let_def split: prod.splits)

lemma id_header: "get (header_part mid sid cur parts h) ''id'' = JStr (block_id mid (fst h))"
  by (simp add: header_part_def Let_def split: prod.splits)

lemma filter_concat_map: "filter P (concat (map f xs)) = concat (map (\<lambda>x. filter P (f x)) xs)"
  by (induction xs) simp_all

lemma concat_map_if: "concat (map (\<lambda>x. if P x then [] else [f x]) xs) = map f (filter (\<lambda>x. \<not> P x) xs)"
  by (induction xs) simp_all

lemma header_heads:
  assumes "hs = headers parts outcome"
  shows "sorted_wrt (<) (map (\<lambda>h. hd (fst h)) hs)" and "distinct (map (\<lambda>h. hd (fst h)) hs)"
proof -
  show "sorted_wrt (<) (map (\<lambda>h. hd (fst h)) hs)"
    using sorted_concat_heads [OF headers_ok(1,2) [OF assms]] by (simp add: o_def)
  then show "distinct (map (\<lambda>h. hd (fst h)) hs)" by (simp only: strict_sorted_iff)
qed

lemma fold_parts_details:
  assumes hs: "hs = headers parts outcome"
  shows "rf_details (fold_parts parts outcome mid sid cur) = map (\<lambda>h. (block_id mid (fst h), map ((!) parts) (fst h))) hs"
    and "distinct (map fst (rf_details (fold_parts parts outcome mid sid cur)))"
proof -
  let ?details = "map (\<lambda>h. (block_id mid (fst h), map ((!) parts) (fst h))) hs"
  have dist: "distinct (map fst ?details)"
    using header_heads(2) [OF hs] by (auto simp: distinct_map inj_on_def dest: block_id_inj)
  then have "dict_update [] ?details = ?details" using dict_update_new [of "[]" ?details] by simp
  then show details: "rf_details (fold_parts parts outcome mid sid cur) = ?details"
    by (simp add: fold_parts_def Let_def flip: hs)
  show "distinct (map fst (rf_details (fold_parts parts outcome mid sid cur)))" using dist by (simp only: details)
qed

lemma fold_parts_shape:
  assumes hs: "hs = headers parts outcome" and own: "\<forall>part \<in> set parts. type_of part \<noteq> PROCESS_BLOCK_PART"
    and rf: "rf = fold_parts parts outcome mid sid cur"
  shows "filter (\<lambda>part. type_of part \<noteq> PROCESS_BLOCK_PART) (rf_parts rf) =
      map ((!) parts) (filter (\<lambda>i. i \<notin> set (concat (map fst hs))) [0..<length parts])"
    and "filter (\<lambda>part. type_of part = PROCESS_BLOCK_PART) (rf_parts rf) = map (header_part mid sid cur parts) hs"
proof -
  note ok = headers_ok [OF hs] and heads = header_heads [OF hs]
  let ?at = "map (\<lambda>h. (hd (fst h), header_part mid sid cur parts h)) hs" and ?hidden = "set (concat (map fst hs))"
  have at: "dict_update [] ?at = ?at" using dict_update_new [of "[]" ?at] heads(2) by (simp add: o_def)
  have shown: "rf_parts rf = concat (map (\<lambda>i. show_part ?at ?hidden (i, parts ! i)) [0..<length parts])"
  proof (cases "hs = []")
    case True
    then have "rf_parts rf = parts" by (simp add: rf fold_parts_def flip: hs)
    with True show ?thesis by (simp add: show_part_def map_nth)
  next
    case False
    then show ?thesis by (simp add: rf fold_parts_def Let_def at enumerate_nth o_def flip: hs)
  qed
  have types: "type_of h = PROCESS_BLOCK_PART" if "map_of ?at i = Some h" for i h
    using map_of_SomeD [OF that] by (auto simp: type_header)
  have "filter (\<lambda>part. type_of part \<noteq> PROCESS_BLOCK_PART) (show_part ?at ?hidden (i, parts ! i)) =
      (if i \<in> ?hidden then [] else [parts ! i])" if "i < length parts" for i
    using own that types by (auto simp: show_part_def split: option.splits)
  then have "filter (\<lambda>part. type_of part \<noteq> PROCESS_BLOCK_PART) (rf_parts rf) =
      concat (map (\<lambda>i. if i \<in> ?hidden then [] else [parts ! i]) [0..<length parts])"
    unfolding shown filter_concat_map by (intro arg_cong [of _ _ concat] map_cong) auto
  also have "\<dots> = map ((!) parts) (filter (\<lambda>i. i \<notin> ?hidden) [0..<length parts])"
    by (rule concat_map_if)
  finally show "filter (\<lambda>part. type_of part \<noteq> PROCESS_BLOCK_PART) (rf_parts rf) =
      map ((!) parts) (filter (\<lambda>i. i \<notin> ?hidden) [0..<length parts])" .
  have "filter (\<lambda>part. type_of part = PROCESS_BLOCK_PART) (show_part ?at ?hidden (i, parts ! i)) =
      (case map_of ?at i of None \<Rightarrow> [] | Some h \<Rightarrow> [h])" if "i < length parts" for i
    using own that types by (auto simp: show_part_def split: option.splits)
  then have "filter (\<lambda>part. type_of part = PROCESS_BLOCK_PART) (rf_parts rf) =
      concat (map (\<lambda>i. case map_of ?at i of None \<Rightarrow> [] | Some h \<Rightarrow> [h]) [0..<length parts])"
    unfolding shown filter_concat_map by (intro arg_cong [of _ _ concat] map_cong) auto
  also have "\<dots> = map snd ?at"
  proof (rule sorted_lookup)
    show "sorted_wrt (<) (map fst ?at)" using heads(1) by (simp add: o_def)
    show "\<forall>k \<in> fst ` set ?at. k < length parts"
    proof
      fix k assume "k \<in> fst ` set ?at"
      then obtain h where h: "h \<in> set hs" "k = hd (fst h)" by auto
      then have "fst h \<noteq> []" using ok(2) by (metis image_eqI list.set_map)
      with h have "k \<in> ?hidden" by (auto intro!: bexI [of _ h])
      with ok(3) show "k < length parts" by blast
    qed
  qed
  finally show "filter (\<lambda>part. type_of part = PROCESS_BLOCK_PART) (rf_parts rf) = map (header_part mid sid cur parts) hs"
    by (simp add: o_def)
qed

lemma last_seq_within:
  assumes "0 \<le> through" and "\<forall>o' \<in> set (response_rows sid rid None db). o_seq o' \<le> through" and "rid \<in> set rids"
  shows "coalesce (map_of (last_output_seqs sid rids None db) rid) 0 \<le> through"
proof (cases "greatest (map o_seq (response_rows sid rid None db))")
  case None
  with assms(1,3) show ?thesis by (simp only: last_seq_of) (simp add: coalesce_def)
next
  case (Some n)
  with assms(2) greatest_Some [OF Some] show ?thesis by (auto simp: last_seq_of [OF assms(3)] coalesce_def)
qed

end
