(* ===== verification/Blocks.thy ===== *)
theory Blocks
  imports HistoryBlocks
begin

text \<open>
  Correctness of the folded history (\<^verbatim>\<open>session_runtime/history_blocks.py\<close>): folding hides nothing a
  header does not open to, a cursor reads back as the position it was issued for, and the
  header of a page opens to exactly the parts that page folded.
\<close>

section \<open>One response's message\<close>

text \<open>The interactions a part refers to: the one a tool call awaits approval of, the one it shows.\<close>

definition names_interaction :: "obj \<Rightarrow> string \<Rightarrow> bool" where
  "names_interaction part xid \<longleftrightarrow>
     is_obj (get part ''approval'') \<and> xid = str_or (get (jfields (get part ''approval'')) ''id'') \<or>
     get part ''type'' = JStr ''data-interaction'' \<and> xid = py_str (jfield (get part ''data'') ''interaction_id'')"

lemma rmap_cong: "(\<And>x. x \<in> set xs \<Longrightarrow> f x = g x) \<Longrightarrow> rmap f xs = rmap g xs"
  by (induction xs) auto

lemma apply_decision_cong:
  assumes "\<And>xid. names_interaction part xid \<Longrightarrow> map_of s xid = map_of s' xid"
  shows "apply_decision s part = apply_decision s' part"
proof (cases "is_obj (get part ''approval'')")
  case True
  then have "decision_of s (str_or (get (jfields (get part ''approval'')) ''id'')) =
      decision_of s' (str_or (get (jfields (get part ''approval'')) ''id''))"
    using assms by (simp add: decision_of_def names_interaction_def)
  then show ?thesis unfolding apply_decision_def Let_def by simp
qed (simp add: apply_decision_def)

lemma apply_decision_fields:
  assumes "k \<notin> {''approval'', ''state''}"
  shows "get (apply_decision s part) k = get part k"
  using assms by (auto simp: apply_decision_def Let_def split: option.splits)

lemma settle_part_cong:
  assumes "\<And>xid. names_interaction part xid \<Longrightarrow> map_of s xid = map_of s' xid"
  shows "settle_part s (apply_decision s part) = settle_part s' (apply_decision s' part)"
proof -
  have same: "apply_decision s part = apply_decision s' part" using assms by (rule apply_decision_cong)
  show ?thesis
  proof (cases "get part ''type'' = JStr ''data-interaction''")
    case True
    have "index_json d k = Inr v \<Longrightarrow> jfield d k = v" for d k v
      by (cases d) (auto simp: index_json_def index_key_def get_def split: option.splits if_splits)
    then have "map_of s (py_str v) = map_of s' (py_str v)" if "index_json (get part ''data'') ''interaction_id'' = Inr v" for v
      using assms that True by (simp add: names_interaction_def)
    then show ?thesis
      by (auto simp: same settle_part_def apply_decision_fields rbind_def split: sum.splits)
  qed (simp add: same settle_part_def apply_decision_fields)
qed

lemma response_message_cong:
  assumes "\<And>part xid. part \<in> set (um_parts message) \<Longrightarrow> names_interaction part xid \<Longrightarrow> map_of s xid = map_of s' xid"
  shows "response_message s r message = response_message s' r message"
proof -
  have "rmap (settle_part s) (map (apply_decision s) (um_parts message)) =
      rmap (settle_part s') (map (apply_decision s') (um_parts message))"
  proof -
    have map: "rmap f (map g xs) = rmap (\<lambda>x. f (g x)) xs" for f g and xs :: "obj list" by (induction xs) simp_all
    show ?thesis unfolding map by (rule rmap_cong) (auto intro!: settle_part_cong assms)
  qed
  then show ?thesis by (simp add: response_message_def)
qed

text \<open>The metadata of a response's message is its row's.\<close>

lemma get_dict_update: "distinct (map fst kvs) \<Longrightarrow> (k, v) \<in> set kvs \<Longrightarrow> get (dict_update d kvs) k = v"
proof (induction kvs arbitrary: d)
  case (Cons kv kvs)
  have absent: "k \<notin> fst ` set kvs \<Longrightarrow> get (dict_update d kvs) k = get d k" for d k and kvs :: obj
    by (induction kvs arbitrary: d) auto
  obtain k' v' where kv: "kv = (k', v')" by (cases kv)
  show ?case
  proof (cases "k = k'")
    case True
    with Cons.prems kv have "v = v'" "k \<notin> fst ` set kvs" by force+
    with kv True absent show ?thesis by simp
  next
    case False
    with Cons kv show ?thesis by auto
  qed
qed simp

lemma response_message_metadata:
  assumes "response_message s r message = Inr m"
  shows "um_id m = um_id message" and "um_role m = um_role message"
    and "get (um_metadata m) ''response_id'' = JStr (r_response_id r)"
    and "get (um_metadata m) ''outcome'' = opt_json (\<lambda>oc. JStr (outcome_name oc)) (r_outcome r)"
proof -
  have dist: "distinct (map fst (response_metadata r))" by (simp add: response_metadata_def)
  have "get (dict_update d (response_metadata r)) ''response_id'' = JStr (r_response_id r)"
    "get (dict_update d (response_metadata r)) ''outcome'' = opt_json (\<lambda>oc. JStr (outcome_name oc)) (r_outcome r)" for d
    by (rule get_dict_update [OF dist], simp add: response_metadata_def)+
  with assms show "um_id m = um_id message" "um_role m = um_role message"
    "get (um_metadata m) ''response_id'' = JStr (r_response_id r)"
    "get (um_metadata m) ''outcome'' = opt_json (\<lambda>oc. JStr (outcome_name oc)) (r_outcome r)"
    unfolding response_message_def Let_def
    by (auto simp: rbind_Inr_iff split: option.splits if_splits)
qed

lemma direct_message_id:
  assumes "direct_message sid through db r = Inr m"
  shows "um_id m = r_response_id r" and "um_role m = ''assistant''"
proof -
  have "finish_fold mid st = Inr m \<Longrightarrow> um_id m = mid \<and> um_role m = ''assistant''" for mid st
    by (auto simp: finish_fold_def rbind_Inr_iff Let_def)
  with assms show "um_id m = r_response_id r" "um_role m = ''assistant''"
    by (auto simp: direct_message_def fold_import_def fold_message_def rbind_Inr_iff split: option.splits)
qed

section \<open>The page's messages\<close>

lemma log_grows_same: "t_output db' = t_output db \<Longrightarrow> log_grows db db'"
  by (simp add: log_grows_def session_log_def)

definition shown_message :: "string \<Rightarrow> string \<Rightarrow> string list \<Rightarrow> ui_message \<Rightarrow> ui_message" where
  "shown_message sid checkpoint ended message =
     (if um_role message = ''assistant'' \<and> str_or (get (um_metadata message) ''response_id'') \<in> set ended
      then message\<lparr>um_parts := rf_parts (fold_parts (um_parts message) (get (um_metadata message) ''outcome'') (um_id message) sid checkpoint)\<rparr>
      else message)"

lemma page_messages_shown:
  assumes "rfold (page_message sid checkpoint ended) ms acc = Inr out"
  shows "fst out = fst acc @ map (shown_message sid checkpoint ended) ms"
  using assms
proof (induction ms arbitrary: acc)
  case (Cons m ms)
  then obtain acc' where acc': "page_message sid checkpoint ended m acc = Inr acc'" "rfold (page_message sid checkpoint ended) ms acc' = Inr out"
    by (auto simp: rbind_Inr_iff)
  have "fst acc' = fst acc @ [shown_message sid checkpoint ended m]"
    using acc'(1) by (auto simp: page_message_def shown_message_def Let_def rbind_Inr_iff split: if_splits)
  with Cons.IH [OF acc'(2)] show ?case by simp
qed simp

lemma load_history_page_parts:
  assumes "load_history_page sid cursor limit (db, st) = (Inr page, db1, st1)"
  obtains through before pv folded ms where
    "page_position sid cursor db = Inr (through, before)"
    "history_page sid before limit (Some through) db = (Inr pv, db1)"
    "messages sid (hp_responses pv) (Some through) db1 st = (Inr folded, st1)"
    "history_messages pv (\<lambda>_. []) folded (response_interactions sid (map r_response_id (hp_responses pv)) db1) = Inr ms"
    "pg_messages page = map (shown_message sid (encode_cursor through None) (ended_by sid through db1 (hp_responses pv))) ms"
    "pg_through_seq page = through"
proof -
  from assms obtain through before pv folded ms shown labelled where load:
    "page_position sid cursor db = Inr (through, before)"
    "history_page sid before limit (Some through) db = (Inr pv, db1)"
    "messages sid (hp_responses pv) (Some through) db1 st = (Inr folded, st1)"
    "history_messages pv (\<lambda>_. []) folded (response_interactions sid (map r_response_id (hp_responses pv)) db1) = Inr ms"
    and shown: "rfold (page_message sid (encode_cursor through None) (ended_by sid through db1 (hp_responses pv))) ms ([], []) = Inr (shown, labelled)"
    and page: "pg_messages page = shown" "pg_through_seq page = through"
    by (auto simp: load_history_page_def rbind_Inr_iff split: prod.splits sum.splits)
  from page_messages_shown [OF shown] page(1)
  have "pg_messages page = map (shown_message sid (encode_cursor through None) (ended_by sid through db1 (hp_responses pv))) ms" by simp
  from that [OF load this page(2)] show thesis .
qed

text \<open>The rows of a page are rows of the session, one per response.\<close>

lemma history_page_rows:
  assumes "history_page sid before limit through db = (Inr pv, db1)" and "keys_ok db"
  shows "set (hp_responses pv) \<subseteq> {r \<in> set (t_responses db1). r_session_id r = sid}"
    and "distinct (map r_response_id (hp_responses pv))" and "keys_ok db1"
    and "t_output db1 = t_output db"
proof -
  from assms(1) have index: "index_recorded_messages sid db = Inr db1" and page: "pv = read_page sid before limit through db1"
    by (auto simp: history_page_def transaction_def rbind_Inr_iff split: sum.splits prod.splits)
  from page have pv: "hp_responses pv = order_by r_seq (filter (\<lambda>r. r_session_id r = sid \<and>
      r_seq r \<in> set (map key_seq (filter (\<lambda>k. key_kind k = 1) (page_keys sid before limit through db1)))) (t_responses db1))"
    by (simp add: read_page_def Let_def)
  show keys: "keys_ok db1" using index assms(2) by (rule keys_ok_index)
  show "t_output db1 = t_output db" using index_frame [OF index] by simp
  show "set (hp_responses pv) \<subseteq> {r \<in> set (t_responses db1). r_session_id r = sid}" by (auto simp: pv)
  have "inj_on r_response_id {r \<in> set (t_responses db1). r_session_id r = sid}"
    using keys_ok_responses [OF keys] by (auto simp: distinct_map inj_on_def response_key_def)
  moreover have "distinct (t_responses db1)" using keys_ok_responses [OF keys] by (simp add: distinct_map)
  ultimately show "distinct (map r_response_id (hp_responses pv))"
    unfolding pv distinct_map_order_by by (auto simp: distinct_map intro: inj_on_subset)
qed

lemma settlements_of:
  assumes "keys_ok db" and "rid \<in> set rids"
    and "\<And>x. x \<in> set (t_interactions db) \<Longrightarrow> x_session_id x = sid \<Longrightarrow> x_interaction_id x = xid \<Longrightarrow> x_response_id x = rid"
  shows "map_of (dict_update [] (response_interactions sid rids db)) xid =
    map_of (dict_update [] (response_interactions sid [rid] db)) xid"
proof -
  have "inj_on x_interaction_id {x \<in> set (t_interactions db). x_session_id x = sid}" "distinct (t_interactions db)"
    using keys_ok_interactions [OF assms(1)] by (auto simp: distinct_map inj_on_def interaction_key_def)
  then have "distinct (map fst (response_interactions sid rs db))" for rs
    by (auto simp: response_interactions_def distinct_map o_def inj_on_def)
  then have whole: "dict_update [] (response_interactions sid rs db) = response_interactions sid rs db" for rs
    using dict_update_new [of "[]" "response_interactions sid rs db"] by simp
  have "map_of (map (\<lambda>x. (x_interaction_id x, v x)) (filter (\<lambda>x. x_session_id x = sid \<and> x_response_id x \<in> set rids) xs)) xid =
      map_of (map (\<lambda>x. (x_interaction_id x, v x)) (filter (\<lambda>x. x_session_id x = sid \<and> x_response_id x \<in> {rid}) xs)) xid"
    if "set xs \<subseteq> set (t_interactions db)" for v :: "interaction_row \<Rightarrow> settlement" and xs
    using that assms(2,3) by (induction xs) auto
  from this [of "t_interactions db" "\<lambda>x. (x_status x, x_answer x)"] assms(2) show ?thesis
    unfolding whole by (auto simp: response_interactions_def)
qed

lemma page_message_source:
  assumes "m \<in> set (map (shown_message sid c ended) ms)" and "um_role m = ''assistant''"
    and "history_messages pv (\<lambda>_. []) folded inters = Inr ms"
    and "\<forall>r \<in> set (hp_responses pv). \<exists>message. map_of folded (r_response_id r) = Some message \<and>
      direct_message sid (Some through) db1 r = Inr message"
  obtains r message m0 where "r \<in> set (hp_responses pv)" "direct_message sid (Some through) db1 r = Inr message"
    "response_message (dict_update [] inters) r message = Inr m0" "m = shown_message sid c ended m0" "um_id m0 = r_response_id r"
    "um_role m0 = ''assistant''"
proof -
  from assms(1) obtain m0 where m0: "m0 \<in> set ms" "m = shown_message sid c ended m0" by auto
  have role: "um_role m0 = ''assistant''" using assms(2) m0(2) by (auto simp: shown_message_def split: if_splits)
  from rmap_mem [OF assms(3) [unfolded history_messages_def] m0(1)] obtain entry where
    entry: "entry_message pv (\<lambda>_. []) folded (dict_update [] inters) entry = Inr m0" by blast
  obtain kind seq where ks: "entry = (kind, seq)" by (cases entry)
  have "kind = MResponse"
  proof (rule ccontr)
    assume "kind \<noteq> MResponse"
    with entry ks have "\<exists>i. m0 = input_message i []" by (cases kind) (auto simp: entry_message_def split: option.splits)
    with role show False by (auto simp: input_message_def Let_def)
  qed
  with entry ks obtain r message where r: "first_row (\<lambda>r. r_seq r = seq) (hp_responses pv) = Some r"
    "map_of folded (r_response_id r) = Some message" "response_message (dict_update [] inters) r message = Inr m0"
    by (auto simp: entry_message_def split: option.splits)
  from first_row_Some [OF r(1)] have row: "r \<in> set (hp_responses pv)" by simp
  with assms(4) r(2) have direct: "direct_message sid (Some through) db1 r = Inr message" by fastforce
  have "um_id m0 = r_response_id r"
    using response_message_metadata(1) [OF r(3)] direct_message_id(1) [OF direct] by simp
  from that [OF row direct r(3) m0(2) this role] show thesis .
qed

lemma position_nonneg:
  assumes "page_position sid cursor db = Inr (through, before)" and "contiguous sid db"
  shows "0 \<le> through"
proof (cases cursor)
  case None
  with assms show ?thesis by (auto simp: page_position_def resume_point_def max_seq_contiguous split: option.splits)
next
  case (Some c)
  have "0 \<le> n" if "decode_cursor c = Inr (n, b)" for n b
    using that by (auto simp: decode_cursor_def Let_def rbind_Inr_iff split: if_splits json.splits)
  with assms(1) Some show ?thesis by (auto simp: page_position_def rbind_Inr_iff split: if_splits)
qed

text \<open>Opening a header, given the message its response has.\<close>

lemma load_block_opens:
  assumes "folds_ok db st" and "0 \<le> through" and "r_response_id r \<noteq> []"
    and "get_response sid (r_response_id r) db = Some r" and "r_status r = Ended"
    and "\<forall>o' \<in> set (response_rows sid (r_response_id r) None db). o_seq o' \<le> through"
    and "direct_message sid (Some through) db r = Inr message"
    and "response_message (dict_update [] (response_interactions sid [r_response_id r] db)) r message = Inr m0"
    and "(bid, parts) \<in> set (rf_details (fold_parts (um_parts m0) (opt_json (\<lambda>oc. JStr (outcome_name oc)) (r_outcome r))
      (r_response_id r) sid (encode_cursor through None)))"
  shows "case fst (load_block_parts sid bid (encode_cursor through None) (db, st)) of
      Inr found \<Rightarrow> \<exists>loaded. found = Some (loaded, parts) \<and> lr_message loaded = m0
    | Inl e \<Rightarrow> \<exists>rid n. log_reaches db (sid, rid) n \<and> folded_through db (sid, rid) n = Inl e"
proof -
  let ?rid = "r_response_id r" and ?outcome = "opt_json (\<lambda>oc. JStr (outcome_name oc)) (r_outcome r)"
  let ?rf = "fold_parts (um_parts m0) ?outcome ?rid sid (encode_cursor through None)"
  have ids: "um_id m0 = ?rid" using response_message_metadata(1) [OF assms(8)] direct_message_id(1) [OF assms(7)] by simp
  from assms(9) obtain h where "bid = block_id ?rid (fst h)" by (auto simp: fold_parts_details(1) [OF refl])
  then have bid: "bid = ?rid @ (CHR '':'' # ''p'') @ str_nat (hd (fst h))" by (simp add: block_id_def)
  have "CHR '':'' \<notin> set (str_nat n)" for n
    using str_nat_digits [of n] by (auto simp: list_all_iff is_digit_def)
  then have split: "rpartition_str '':p'' bid = Some (?rid, str_nat (hd (fst h)))"
    unfolding bid by (intro rpartition_str_split) simp_all
  have "distinct (map fst (rf_details ?rf))" by (rule fold_parts_details(2)) (rule refl)
  with assms(9) have found: "map_of (rf_details ?rf) bid = Some parts" by (simp add: map_of_eq_Some_iff)
  have last: "within (Some through) (coalesce (map_of (last_output_seqs sid [?rid] None db) ?rid) 0)"
    using last_seq_within [OF assms(2,6), of "[?rid]"] by (simp add: within_def)
  obtain res st' where call: "messages sid [r] (Some through) db st = (res, st')" by (cases "messages sid [r] (Some through) db st")
  have fresh: "case res of
        Inr result \<Rightarrow> map_of result ?rid = Some message
      | Inl e \<Rightarrow> \<exists>rid n. log_reaches db (sid, rid) n \<and> folded_through db (sid, rid) n = Inl e"
    using messages_fresh(2) [OF assms(1) _ call] assms(7) by (auto split: sum.splits)
  show ?thesis
  proof (cases res)
    case (Inl e)
    with fresh show ?thesis
      by (simp add: load_block_parts_def decode_encode [OF assms(2)] split assms(3,4) load_response_def call)
  next
    case (Inr folded)
    with fresh have "map_of folded ?rid = Some message" by simp
    then have "history_messages (single_page r) (\<lambda>_. []) folded (response_interactions sid [?rid] db) = Inr [m0]"
      by (simp add: history_messages_def single_page_def entry_message_def assms(8))
    with Inr found last show ?thesis
      by (simp add: load_block_parts_def decode_encode [OF assms(2)] split assms(3-5) load_response_def call Let_def ids coalesce_def [of "Some through"])
  qed
qed

lemma get_response_row:
  assumes "keys_ok db" and "get_response sid rid db = Some r"
    and "r' \<in> set (t_responses db)" and "r_session_id r' = sid" and "r_response_id r' = rid"
  shows "r' = r"
proof -
  from assms(2) have "r \<in> set (t_responses db)" "response_key r = (sid, rid)"
    by (auto simp: get_response_def of_response_def response_key_def dest!: first_row_Some)
  with assms(3-5) show ?thesis using unique_row [OF keys_ok_responses [OF assms(1)]] by (metis response_key_def)
qed

text \<open>The message of an ended response on a page is the fold of its parts at the page's position.\<close>

lemma page_shows_fold:
  assumes "folds_ok db st" and "keys_ok db" and "contiguous sid db"
    and "load_history_page sid cursor limit (db, st) = (Inr page, db1, st1)"
    and "m \<in> set (pg_messages page)" and "um_role m = ''assistant''"
    and "get_response sid (um_id m) db1 = Some r" and "r_status r = Ended"
    and "\<forall>o' \<in> set (response_rows sid (um_id m) None db1). o_seq o' \<le> pg_through_seq page"
  obtains rids message m0 where "folds_ok db1 st1" "keys_ok db1" "0 \<le> pg_through_seq page" "um_id m = r_response_id r" "um_id m \<in> set rids"
    "direct_message sid (Some (pg_through_seq page)) db1 r = Inr message"
    "response_message (dict_update [] (response_interactions sid rids db1)) r message = Inr m0"
    "um_parts m = rf_parts (fold_parts (um_parts m0) (opt_json (\<lambda>oc. JStr (outcome_name oc)) (r_outcome r)) (um_id m) sid
       (encode_cursor (pg_through_seq page) None))"
proof -
  from load_history_page_parts [OF assms(4)] obtain through before pv folded ms where
    pos: "page_position sid cursor db = Inr (through, before)"
    and page: "history_page sid before limit (Some through) db = (Inr pv, db1)"
    and read: "messages sid (hp_responses pv) (Some through) db1 st = (Inr folded, st1)"
    and ms: "history_messages pv (\<lambda>_. []) folded (response_interactions sid (map r_response_id (hp_responses pv)) db1) = Inr ms"
    and shown: "pg_messages page = map (shown_message sid (encode_cursor through None) (ended_by sid through db1 (hp_responses pv))) ms"
    and through: "pg_through_seq page = through" by blast
  note rows = history_page_rows [OF page assms(2)]
  have ok: "folds_ok db1 st" using folds_ok_grows [OF log_grows_same [OF rows(4)] assms(1)] .
  note fresh = messages_fresh [OF ok rows(2) read, simplified]
  have ok1: "folds_ok db1 st1" using folds_runs_ok [OF fresh(1) ok] by simp
  have pos0: "0 \<le> through" using position_nonneg [OF pos assms(3)] .
  from page_message_source [OF assms(5) [unfolded shown] assms(6) ms fresh(2)] obtain r' message m0 where
    r': "r' \<in> set (hp_responses pv)" and direct: "direct_message sid (Some through) db1 r' = Inr message"
    and m0: "response_message (dict_update [] (response_interactions sid (map r_response_id (hp_responses pv)) db1)) r' message = Inr m0"
    and m: "m = shown_message sid (encode_cursor through None) (ended_by sid through db1 (hp_responses pv)) m0"
    and ids: "um_id m0 = r_response_id r'" and role: "um_role m0 = ''assistant''" .
  have mid: "um_id m = r_response_id r'" using m ids by (simp add: shown_message_def)
  have "r' \<in> set (t_responses db1)" "r_session_id r' = sid" using subsetD [OF rows(1) r'] by simp_all
  from get_response_row [OF rows(3) assms(7) this mid [symmetric]] have same: "r' = r" .
  note mid = mid [unfolded same] and direct = direct [unfolded same] and m0 = m0 [unfolded same]
  have "r_response_id r \<in> set (ended_by sid through db1 (hp_responses pv))"
    using last_seq_within [OF pos0, of sid "um_id m" db1 "map r_response_id (hp_responses pv)"] assms(8,9) r'
    by (auto simp: ended_by_def Let_def through mid same)
  then have parts: "um_parts m = rf_parts (fold_parts (um_parts m0) (opt_json (\<lambda>oc. JStr (outcome_name oc)) (r_outcome r)) (um_id m) sid
      (encode_cursor through None))"
    using response_message_metadata [OF m0] role by (simp add: m shown_message_def ids same)
  have rids: "um_id m \<in> set (map r_response_id (hp_responses pv))" using r' same mid by simp
  show thesis by (rule that [OF ok1 rows(3) pos0 [folded through] mid rids direct [folded through] m0 parts [folded through]])
qed

text \<open>A response whose row, interactions and parts stay keeps its message.\<close>

lemma message_later:
  assumes "keys_ok db1" and "um_id m \<in> set rids"
    and own: "\<forall>part \<in> set (um_parts message). \<forall>x \<in> set (t_interactions db1). x_session_id x = sid \<longrightarrow>
      names_interaction part (x_interaction_id x) \<longrightarrow> x_response_id x = um_id m"
    and rid: "r_response_id r = um_id m"
    and "direct_message sid (Some through) db1 r = Inr message"
    and "response_message (dict_update [] (response_interactions sid rids db1)) r message = Inr m0"
    and "response_interactions sid [um_id m] db2 = response_interactions sid [um_id m] db1"
    and "response_rows sid (um_id m) None db2 = response_rows sid (um_id m) None db1"
  shows "direct_message sid (Some through) db2 r = Inr message"
    and "response_message (dict_update [] (response_interactions sid [r_response_id r] db2)) r message = Inr m0"
proof -
  have "response_rows sid (um_id m) (Some through) d = filter (\<lambda>o'. within (Some through) (o_seq o')) (response_rows sid (um_id m) None d)" for d
    by (auto simp: response_rows_def within_def intro: filter_cong)
  with assms(5,8) show "direct_message sid (Some through) db2 r = Inr message"
    by (simp add: direct_message_def parts_through_def rid split: option.splits)
  have "response_message (dict_update [] (response_interactions sid [um_id m] db1)) r message =
      response_message (dict_update [] (response_interactions sid rids db1)) r message"
  proof (rule response_message_cong)
    fix part xid assume "part \<in> set (um_parts message)" "names_interaction part xid"
    with own have "x \<in> set (t_interactions db1) \<Longrightarrow> x_session_id x = sid \<Longrightarrow> x_interaction_id x = xid \<Longrightarrow> x_response_id x = um_id m" for x
      by blast
    then show "map_of (dict_update [] (response_interactions sid [um_id m] db1)) xid =
        map_of (dict_update [] (response_interactions sid rids db1)) xid"
      using settlements_of [OF assms(1,2), of sid xid] by simp
  qed
  with assms(6,7) show "response_message (dict_update [] (response_interactions sid [r_response_id r] db2)) r message = Inr m0"
    by (simp add: rid)
qed

section \<open>Properties\<close>

text \<open>
  C15. Folding a response hides nothing. Whatever the parts of a message and however its response
  ended, the parts left in view are, in their order, those at the places outside a set of
  hidden places, and the parts behind the headers, header by header and in order, are those
  at the hidden places: every part is in view or behind exactly one header. Each header in
  view names one entry of the details, in order. Hidden are only parts a reader need not act
  on: no carried data, no outcome, decision or retry, no unfinished tool call, and no failed
  one unless the response completed. A response without a recorded outcome is not folded.
\<close>

theorem folding_hides_nothing:
  assumes "\<forall>part \<in> set parts. type_of part \<noteq> PROCESS_BLOCK_PART" and "rf = fold_parts parts outcome mid sid cur"
  shows "\<exists>hidden. sorted_wrt (<) hidden \<and> (\<forall>i \<in> set hidden. i < length parts \<and> foldable outcome (parts ! i)) \<and>
    filter (\<lambda>part. type_of part \<noteq> PROCESS_BLOCK_PART) (rf_parts rf) =
      map ((!) parts) (filter (\<lambda>i. i \<notin> set hidden) [0..<length parts]) \<and>
    concat (map snd (rf_details rf)) = map ((!) parts) hidden \<and>
    map (\<lambda>h. get h ''id'') (filter (\<lambda>part. type_of part = PROCESS_BLOCK_PART) (rf_parts rf)) = map (\<lambda>d. JStr (fst d)) (rf_details rf) \<and>
    (outcome \<notin> {JStr ''completed'', JStr ''failed'', JStr ''cancelled''} \<longrightarrow> rf_parts rf = parts)"
proof (intro exI conjI impI)
  let ?hs = "headers parts outcome"
  note shape = fold_parts_shape [OF refl assms] and ok = headers_ok [OF refl, where parts = parts and outcome = outcome]
  have details: "rf_details rf = map (\<lambda>h. (block_id mid (fst h), map ((!) parts) (fst h))) ?hs"
    unfolding assms(2) by (rule fold_parts_details) (rule refl)
  show "sorted_wrt (<) (concat (map fst ?hs))" by (rule ok)
  show "\<forall>i \<in> set (concat (map fst ?hs)). i < length parts \<and> foldable outcome (parts ! i)" by (rule ok)
  show "filter (\<lambda>part. type_of part \<noteq> PROCESS_BLOCK_PART) (rf_parts rf) =
      map ((!) parts) (filter (\<lambda>i. i \<notin> set (concat (map fst ?hs))) [0..<length parts])" by (rule shape)
  show "concat (map snd (rf_details rf)) = map ((!) parts) (concat (map fst ?hs))"
    by (simp add: details o_def map_concat)
  show "map (\<lambda>h. get h ''id'') (filter (\<lambda>part. type_of part = PROCESS_BLOCK_PART) (rf_parts rf)) = map (\<lambda>d. JStr (fst d)) (rf_details rf)"
    by (simp add: shape(2) details id_header o_def)
  show "rf_parts rf = parts" if "outcome \<notin> {JStr ''completed'', JStr ''failed'', JStr ''cancelled''}"
    using ok(4) [OF that] by (simp add: assms(2) fold_parts_def)
qed

definition sample_work :: "obj list" where
  "sample_work =
     [[(''type'', JStr ''reasoning''), (''text'', JStr ''hm'')],
      [(''type'', JStr ''tool-Write''), (''state'', JStr ''output-available'')],
      [(''type'', JStr ''data-file-changes'')],
      [(''type'', JStr ''tool-Run''), (''state'', JStr ''input-available'')],
      [(''type'', JStr ''text''), (''text'', JStr ''ok'')]]"

theorem folding_hides_nothing_witness:
  "\<exists>hidden. concat (map snd (rf_details (fold_parts sample_work (JStr ''failed'') ''r'' ''s'' ''c''))) = map ((!) sample_work) hidden \<and>
     sorted_wrt (<) hidden \<and> length (concat (map snd (rf_details (fold_parts sample_work (JStr ''failed'') ''r'' ''s'' ''c'')))) = 2 \<and>
     length (rf_parts (fold_parts sample_work (JStr ''failed'') ''r'' ''s'' ''c'')) = 4"
proof -
  have "\<forall>part \<in> set sample_work. type_of part \<noteq> PROCESS_BLOCK_PART" by code_simp
  from folding_hides_nothing [OF this refl, of "JStr ''failed''" "''r''" "''s''" "''c''"] obtain hidden where
    "concat (map snd (rf_details (fold_parts sample_work (JStr ''failed'') ''r'' ''s'' ''c''))) = map ((!) sample_work) hidden"
    "sorted_wrt (<) hidden" by blast
  moreover have "length (concat (map snd (rf_details (fold_parts sample_work (JStr ''failed'') ''r'' ''s'' ''c'')))) = 2"
    "length (rf_parts (fold_parts sample_work (JStr ''failed'') ''r'' ''s'' ''c'')) = 4" by code_simp+
  ultimately show ?thesis by blast
qed

text \<open>
  The message of a response at a position of the log, folded afresh from its stored parts with
  the decisions on its interactions: what a page or an opened header is to show the work of.
\<close>

definition response_shown :: "string \<Rightarrow> int \<Rightarrow> db \<Rightarrow> response_row \<Rightarrow> ui_message res" where
  "response_shown sid through db r =
     rbind (direct_message sid (Some through) db r)
       (response_message (dict_update [] (response_interactions sid [r_response_id r] db)) r)"

definition row_outcome :: "response_row \<Rightarrow> json" where
  "row_outcome r = opt_json (\<lambda>oc. JStr (outcome_name oc)) (r_outcome r)"

text \<open>
  C16. A header opens to exactly the work its page folded. Let a page be read through a cache that
  reads and builds have used in any way, and take on it the message of a response that had
  ended with all its parts stored by the page's position. That message shows the fold of the
  response's message at that position, folded afresh from the stored parts; its headers name
  the blocks of that fold, one each. As long as the response's row, its interactions and its
  stored parts stay as they are, however the log, the cache and the rest of the database go
  on, opening any of these headers with the page's position returns the parts the fold put
  behind it and the same message; it fails only with an error that folding a stored response
  of the session raises. (The parts of a response name its own interactions, and the engine
  stores no part of the header's type.)
\<close>

theorem header_opens_to_its_work:
  assumes "folds_runs (db0, new_folds kept_bytes) (db, st)" and "0 \<le> kept_bytes" and "keys_ok db" and "contiguous sid db"
    and "load_history_page sid cursor limit (db, st) = (Inr page, db1, st1)"
    and "m \<in> set (pg_messages page)" and "um_role m = ''assistant''" and "um_id m \<noteq> []"
    and "get_response sid (um_id m) db1 = Some r" and "r_status r = Ended"
    and "\<forall>o' \<in> set (response_rows sid (um_id m) None db1). o_seq o' \<le> pg_through_seq page"
    and "\<forall>message part x. direct_message sid (Some (pg_through_seq page)) db1 r = Inr message \<longrightarrow> part \<in> set (um_parts message) \<longrightarrow>
      x \<in> set (t_interactions db1) \<longrightarrow> x_session_id x = sid \<longrightarrow> names_interaction part (x_interaction_id x) \<longrightarrow> x_response_id x = um_id m"
    and "folds_runs (db1, st1) (db2, st2)" and "get_response sid (um_id m) db2 = Some r"
    and "response_interactions sid [um_id m] db2 = response_interactions sid [um_id m] db1"
    and "response_rows sid (um_id m) None db2 = response_rows sid (um_id m) None db1"
  shows "\<exists>m0. response_shown sid (pg_through_seq page) db1 r = Inr m0 \<and>
    (let checkpoint = encode_cursor (pg_through_seq page) None;
         rf = fold_parts (um_parts m0) (row_outcome r) (um_id m) sid checkpoint in
     um_parts m = rf_parts rf \<and>
     ((\<forall>part \<in> set (um_parts m0). type_of part \<noteq> PROCESS_BLOCK_PART) \<longrightarrow>
        map (\<lambda>h. get h ''id'') (filter (\<lambda>part. type_of part = PROCESS_BLOCK_PART) (um_parts m)) =
          map (\<lambda>d. JStr (fst d)) (rf_details rf)) \<and>
     (\<forall>bid parts. (bid, parts) \<in> set (rf_details rf) \<longrightarrow>
        (case fst (load_block_parts sid bid checkpoint (db2, st2)) of
           Inr found \<Rightarrow> \<exists>loaded. found = Some (loaded, parts) \<and> lr_message loaded = m0
         | Inl e \<Rightarrow> \<exists>rid n. log_reaches db2 (sid, rid) n \<and> folded_through db2 (sid, rid) n = Inl e)))"
proof -
  let ?through = "pg_through_seq page" and ?outcome = "row_outcome r"
  have "folds_ok db st" using folds_runs_ok [OF assms(1) folds_ok_new [OF assms(2)]] by simp
  from page_shows_fold [OF this assms(3-7) assms(9-11), folded row_outcome_def] obtain rids message m0 where
    ok: "folds_ok db1 st1" and keys: "keys_ok db1" and pos: "0 \<le> ?through" and mid: "um_id m = r_response_id r" and rids: "um_id m \<in> set rids"
    and direct: "direct_message sid (Some ?through) db1 r = Inr message"
    and m0: "response_message (dict_update [] (response_interactions sid rids db1)) r message = Inr m0"
    and parts: "um_parts m = rf_parts (fold_parts (um_parts m0) ?outcome (um_id m) sid (encode_cursor ?through None))" .
  have own: "\<forall>part \<in> set (um_parts message). \<forall>x \<in> set (t_interactions db1). x_session_id x = sid \<longrightarrow>
      names_interaction part (x_interaction_id x) \<longrightarrow> x_response_id x = um_id m"
    using assms(12) direct by blast
  note later = message_later [OF keys rids own mid [symmetric] direct m0 assms(15,16)]
  have covered: "\<forall>o' \<in> set (response_rows sid (r_response_id r) None db2). o_seq o' \<le> ?through"
    using assms(11,16) by (simp add: mid)
  have "folds_ok db2 st2" using folds_runs_ok [OF assms(13) ok] by simp
  note opens = load_block_opens [OF this pos assms(8) [unfolded mid] assms(14) [unfolded mid] assms(10) covered later, folded row_outcome_def]
  note now = message_later [OF keys rids own mid [symmetric] direct m0 refl refl]
  show ?thesis
  proof (intro exI, unfold Let_def, intro conjI allI impI)
    show "response_shown sid ?through db1 r = Inr m0" using now by (simp add: response_shown_def)
    show "map (\<lambda>h. get h ''id'') (filter (\<lambda>part. type_of part = PROCESS_BLOCK_PART) (um_parts m)) =
        map (\<lambda>d. JStr (fst d)) (rf_details (fold_parts (um_parts m0) ?outcome (um_id m) sid (encode_cursor ?through None)))"
      if own: "\<forall>part \<in> set (um_parts m0). type_of part \<noteq> PROCESS_BLOCK_PART"
      unfolding parts by (simp add: fold_parts_shape(2) [OF refl own refl] fold_parts_details(1) [OF refl] id_header o_def)
    show "um_parts m = rf_parts (fold_parts (um_parts m0) ?outcome (um_id m) sid (encode_cursor ?through None))" by (rule parts)
    fix bid parts assume "(bid, parts) \<in> set (rf_details (fold_parts (um_parts m0) ?outcome (um_id m) sid (encode_cursor ?through None)))"
    from opens [OF this [unfolded mid]] show "case fst (load_block_parts sid bid (encode_cursor ?through None) (db2, st2)) of
          Inr found \<Rightarrow> \<exists>loaded. found = Some (loaded, parts) \<and> lr_message loaded = m0
        | Inl e \<Rightarrow> \<exists>rid n. log_reaches db2 (sid, rid) n \<and> folded_through db2 (sid, rid) n = Inl e"
      by (auto split: sum.splits)
  qed
qed

text \<open>A session whose response thought and then named a source, read as a page and opened.\<close>

definition sample_output :: "int \<Rightarrow> obj \<Rightarrow> output_row" where
  "sample_output n part = \<lparr>o_session_id = ''s'', o_seq = n, o_response_id = Some ''r'', o_part = part, o_created_at = 12\<rparr>"

definition sample_ended_row :: response_row where
  "sample_ended_row = (new_response ''s'' ''r'' OriginEngine 1 11)\<lparr>r_status := Ended, r_outcome := Some Completed,
     r_ended_at := Some 13, r_conversation_order := Some 1\<rparr>"

definition sample_ended :: db where
  "sample_ended =
     sample_db\<lparr>t_responses := [sample_ended_row], t_next_response_seq := 2,
       t_output := [sample_output 1 [(''type'', JStr ''reasoning-start''), (''id'', JStr ''t'')],
         sample_output 2 [(''type'', JStr ''reasoning-delta''), (''id'', JStr ''t''), (''delta'', JStr ''hm'')],
         sample_output 3 [(''type'', JStr ''reasoning-end''), (''id'', JStr ''t'')],
         sample_output 4 [(''type'', JStr ''source-url''), (''url'', JStr ''u'')]]\<rparr>"

definition sample_parts :: "obj list" where
  "sample_parts =
     [[(''type'', JStr ''reasoning''), (''text'', JStr ''hm''), (''state'', JStr ''done'')],
      [(''type'', JStr ''source-url''), (''url'', JStr ''u'')]]"

definition sample_view :: history_page_view where
  "sample_view = read_page ''s'' None 10 (Some 4) sample_ended"

definition sample_read_folds :: "(string, ui_message) dict res \<times> folds" where
  "sample_read_folds = messages ''s'' [sample_ended_row] (Some 4) sample_ended (new_folds 1000)"

definition sample_folded :: ui_message where
  "sample_folded = \<lparr>um_id = ''r'', um_role = ''assistant'', um_parts = sample_parts, um_metadata = []\<rparr>"

definition sample_message :: ui_message where
  "sample_message = sample_folded\<lparr>um_metadata := response_metadata sample_ended_row\<rparr>"

lemma sample_read_once: "messages ''s'' [sample_ended_row] (Some 4) sample_ended (new_folds 1000) = (Inr [(''r'', sample_folded)], snd sample_read_folds)"
proof -
  have "fst sample_read_folds = Inr [(''r'', sample_folded)]" by code_simp
  then show ?thesis by (simp add: sample_read_folds_def prod_eq_iff)
qed

lemma sample_view_read: "history_page ''s'' None 10 (Some 4) sample_ended = (Inr sample_view, sample_ended)"
proof -
  have "index_recorded_messages ''s'' sample_ended = Inr sample_ended" by code_simp
  then show ?thesis by (simp add: history_page_def transaction_def sample_view_def)
qed

lemma sample_view_responses: "hp_responses sample_view = [sample_ended_row]"
  by code_simp

lemma sample_messages_read: "history_messages sample_view (\<lambda>_. []) [(''r'', sample_folded)] [] = Inr [sample_message]"
  by code_simp

lemma sample_shown:
  "page_message ''s'' c [''r''] sample_message acc =
     Inr (fst acc @ [sample_message\<lparr>um_parts := rf_parts (fold_parts sample_parts (JStr ''completed'') ''r'' ''s'' c)\<rparr>], snd acc)"
proof -
  have "headers sample_parts (JStr ''completed'') = [([0], False)]" by code_simp
  then have "rf_summary_text (fold_parts sample_parts (JStr ''completed'') ''r'' ''s'' c) = None" by (simp add: fold_parts_def Let_def)
  moreover have "get (um_metadata sample_message) ''outcome'' = JStr ''completed''"
    "str_or (get (um_metadata sample_message) ''response_id'') \<in> set [''r'']" "um_role sample_message = ''assistant''" "um_id sample_message = ''r''"
    "um_parts sample_message = sample_parts" by code_simp+
  ultimately show ?thesis by (simp add: page_message_def Let_def)
qed

text \<open>No prefix of the sample's log raises when folded.\<close>

definition plain_chunk :: "obj \<Rightarrow> bool" where
  "plain_chunk chunk \<longleftrightarrow> (\<forall>st. \<exists>st'. fold_chunk chunk st = Inr st' \<and> f_metadata st' = f_metadata st)"

lemma plain_fold:
  assumes "list_all plain_chunk chunks"
  shows "\<exists>m. fold_message rid chunks = Inr m"
proof -
  have "\<exists>st'. rfold fold_chunk chunks st = Inr st' \<and> f_metadata st' = f_metadata st" for st
    using assms
  proof (induction chunks arbitrary: st)
    case (Cons chunk chunks)
    then obtain st1 where st1: "fold_chunk chunk st = Inr st1" "f_metadata st1 = f_metadata st" by (auto simp: plain_chunk_def)
    from Cons.IH [of st1] Cons.prems st1 show ?case by auto
  qed simp
  from this [of empty_fold] obtain st where "rfold fold_chunk chunks empty_fold = Inr st" "f_metadata st = []" by (auto simp: empty_fold_def)
  then show ?thesis by (simp add: fold_message_def finish_fold_def retracted_ids_def Let_def)
qed

lemma sample_plain: "list_all (plain_chunk \<circ> o_part) (t_output sample_ended)"
  by (simp add: sample_ended_def sample_output_def plain_chunk_def fold_chunk_def is_claude_diagnostic_part_def Let_def
      start_text_def in_lane_def add_part_def update_part_def split: option.splits)

lemma sample_folds_fine: "folded_through sample_ended key n \<noteq> Inl e"
proof -
  have "list_all plain_chunk (parts_through (fst key) (snd key) (Some n) sample_ended)"
    using sample_plain by (auto simp: parts_through_def response_rows_def session_log_def list_all_iff)
  from plain_fold [OF this, of "snd key"] show ?thesis by (auto simp: folded_through_def)
qed

lemma sample_page_read:
  "load_history_page ''s'' None 10 (sample_ended, new_folds 1000) =
     (Inr \<lparr>pg_messages = [sample_message\<lparr>um_parts := rf_parts (fold_parts sample_parts (JStr ''completed'') ''r'' ''s'' (encode_cursor 4 None))\<rparr>],
        pg_has_more = hp_has_more sample_view, pg_through_seq = 4, pg_next_cursor = page_cursor_token 4 sample_view, pg_labelled = []\<rparr>,
      sample_ended, snd sample_read_folds)"
proof -
  have "page_position ''s'' None sample_ended = Inr (4, None)" "ended_by ''s'' 4 sample_ended [sample_ended_row] = [''r'']"
    "response_interactions ''s'' [r_response_id sample_ended_row] sample_ended = []" by code_simp+
  then show ?thesis
    by (simp add: load_history_page_def sample_view_read sample_view_responses sample_read_once sample_messages_read sample_shown)
qed

theorem header_opens_to_its_work_witness:
  "\<exists>loaded. fst (load_block_parts ''s'' (block_id ''r'' [0]) (encode_cursor 4 None) (sample_ended, snd sample_read_folds)) =
     Inr (Some (loaded, [hd sample_parts]))"
proof -
  let ?m = "sample_message\<lparr>um_parts := rf_parts (fold_parts sample_parts (JStr ''completed'') ''r'' ''s'' (encode_cursor 4 None))\<rparr>"
  have facts: "keys_ok sample_ended" "contiguous ''s'' sample_ended" "get_response ''s'' ''r'' sample_ended = Some sample_ended_row"
    "r_status sample_ended_row = Ended" "\<forall>o' \<in> set (response_rows ''s'' ''r'' None sample_ended). o_seq o' \<le> 4"
    "t_interactions sample_ended = []" "um_role sample_message = ''assistant''" "um_id sample_message = ''r''"
    "row_outcome sample_ended_row = JStr ''completed''"
    by code_simp+
  have id: "um_id ?m = ''r''" "um_role ?m = ''assistant''" using facts by simp_all
  have shown: "map_sum (\<lambda>e. ()) um_parts (response_shown ''s'' 4 sample_ended sample_ended_row) = Inr sample_parts" by code_simp
  have heads: "headers sample_parts (JStr ''completed'') = [([0], False)]" by code_simp
  from header_opens_to_its_work [OF rtranclp.rtrancl_refl _ facts(1,2) sample_page_read, of ?m sample_ended_row sample_ended "snd sample_read_folds"]
  have "\<exists>m0. response_shown ''s'' 4 sample_ended sample_ended_row = Inr m0 \<and>
    (\<forall>bid parts. (bid, parts) \<in> set (rf_details (fold_parts (um_parts m0) (JStr ''completed'') ''r'' ''s'' (encode_cursor 4 None))) \<longrightarrow>
       (case fst (load_block_parts ''s'' bid (encode_cursor 4 None) (sample_ended, snd sample_read_folds)) of
          Inr found \<Rightarrow> \<exists>loaded. found = Some (loaded, parts) \<and> lr_message loaded = m0
        | Inl e \<Rightarrow> \<exists>rid n. log_reaches sample_ended (''s'', rid) n \<and> folded_through sample_ended (''s'', rid) n = Inl e))"
    using facts id by (auto simp: Let_def)
  then obtain m0 where m0: "response_shown ''s'' 4 sample_ended sample_ended_row = Inr m0"
    and opens: "\<And>bid parts. (bid, parts) \<in> set (rf_details (fold_parts (um_parts m0) (JStr ''completed'') ''r'' ''s'' (encode_cursor 4 None))) \<Longrightarrow>
       (case fst (load_block_parts ''s'' bid (encode_cursor 4 None) (sample_ended, snd sample_read_folds)) of
          Inr found \<Rightarrow> \<exists>loaded. found = Some (loaded, parts) \<and> lr_message loaded = m0
        | Inl e \<Rightarrow> \<exists>rid n. log_reaches sample_ended (''s'', rid) n \<and> folded_through sample_ended (''s'', rid) n = Inl e)"
    by blast
  from shown m0 have "um_parts m0 = sample_parts" by simp
  then have "(block_id ''r'' [0], [hd sample_parts]) \<in> set (rf_details (fold_parts (um_parts m0) (JStr ''completed'') ''r'' ''s'' (encode_cursor 4 None)))"
    by (simp add: fold_parts_details(1) [OF refl] heads) (simp add: sample_parts_def)
  from opens [OF this] sample_folds_fine show ?thesis by (auto split: sum.splits)
qed

text \<open>
  C39. A history cursor reads back as the position it was issued for, the oldest entry shown
  included, and a cursor that decodes at all names a position of the log. So an older page
  continues exactly where the page before it ended, pinned to the same position.
\<close>

theorem history_cursor_round_trip:
  "(0 \<le> through \<longrightarrow> decode_cursor (encode_cursor through before) = Inr (through, before)) \<and>
   (decode_cursor value = Inr (n, entry) \<longrightarrow> 0 \<le> n) \<and>
   (load_history_page sid cursor limit (db, st) = (Inr page, db', st') \<longrightarrow> pg_next_cursor page = Some next \<longrightarrow> 0 \<le> pg_through_seq page \<longrightarrow>
      (\<exists>start oldest. page_position sid cursor db = Inr (pg_through_seq page, start) \<and>
         page_cursor sid start limit (Some (pg_through_seq page)) db' = Some oldest \<and>
         page_position sid (Some next) db'' = Inr (pg_through_seq page, Some oldest)))"
proof (intro conjI impI)
  show "0 \<le> through \<Longrightarrow> decode_cursor (encode_cursor through before) = Inr (through, before)" by (rule decode_encode)
  show "decode_cursor value = Inr (n, entry) \<Longrightarrow> 0 \<le> n"
    by (auto simp: decode_cursor_def Let_def rbind_Inr_iff split: if_splits json.splits)
  assume page: "load_history_page sid cursor limit (db, st) = (Inr page, db', st')" "pg_next_cursor page = Some next" "0 \<le> pg_through_seq page"
  then obtain start oldest pv where pv: "page_position sid cursor db = Inr (pg_through_seq page, start)"
    "history_page sid start limit (Some (pg_through_seq page)) db = (Inr pv, db')"
    "hp_before pv = Some oldest" "next = encode_cursor (pg_through_seq page) (Some oldest)"
    by (auto simp: load_history_page_def page_cursor_token_def rbind_Inr_iff split: prod.splits sum.splits option.splits if_splits)
  have "page_cursor sid start limit (Some (pg_through_seq page)) db' = Some oldest"
    using pv(2,3) by (auto simp: history_page_def read_page_def Let_def split: prod.splits sum.splits)
  moreover have "page_position sid (Some next) db'' = Inr (pg_through_seq page, Some oldest)"
    using decode_encode [OF page(3)] by (cases oldest) (simp add: page_position_def pv(4))
  ultimately show "\<exists>start oldest. page_position sid cursor db = Inr (pg_through_seq page, start) \<and>
      page_cursor sid start limit (Some (pg_through_seq page)) db' = Some oldest \<and>
      page_position sid (Some next) db'' = Inr (pg_through_seq page, Some oldest)" using pv(1) by blast
qed

theorem history_cursor_round_trip_witness:
  "decode_cursor (encode_cursor 4 (Some (1, 2, 0, 7))) = Inr (4, Some (1, 2, 0, 7)) \<and> encode_cursor 4 None \<noteq> []"
proof -
  have "decode_cursor (encode_cursor 4 before) = Inr (4, before)" for before using history_cursor_round_trip by simp
  moreover have "decode_cursor [] \<noteq> Inr (4, None)" by (simp add: decode_cursor_def)
  ultimately show ?thesis by (metis (no_types, lifting))
qed

end
