(* ===== verification/Runtime.thy ===== *)
theory Runtime
  imports Recording
begin

text \<open>
  The contract between the platform and one agent runtime: the cursor, the events and the
  runtime's own account of itself (\<^verbatim>\<open>engine/runtime.py\<close>), and the classifier of translated frames
  (\<^verbatim>\<open>engine/emissions.py\<close>). A cursor of the code is a generation and an opaque position.
\<close>

section \<open>Cursors\<close>

record runtime_cursor =
  cu_generation :: string
  cu_position :: obj

definition cursor_as_json :: "runtime_cursor \<Rightarrow> json" where
  "cursor_as_json c = JObj [(''generation'', JStr (cu_generation c)), (''position'', JObj (cu_position c))]"

text \<open>\<^verbatim>\<open>from_json\<close> of a stored value: \<^verbatim>\<open>None\<close> or an object, which is what the cursor column holds.\<close>

definition cursor_from_json :: "json option \<Rightarrow> runtime_cursor option res" where
  "cursor_from_json value =
     (case value of
        None \<Rightarrow> Inr None
      | Some v \<Rightarrow>
          if \<not> truthy v then Inr None
          else
            let generation = strip (str_or (jfield v ''generation'')); position = jfield v ''position'' in
            if generation = [] \<or> \<not> is_obj position then Inl ValueError
            else Inr (Some \<lparr>cu_generation = generation, cu_position = jfields position\<rparr>))"

section \<open>Frames\<close>

definition copied_frame :: "obj \<Rightarrow> obj res" where
  "copied_frame frame =
     (let frame_type = strip (str_or (get frame ''type'')) in
      if frame_type = [] then Inl ValueError else Inr (dict_set ''type'' (JStr frame_type) frame))"

definition tool_input_types :: "string list" where
  "tool_input_types = [''tool-input-start'', ''tool-input-available'', ''tool-input-error'']"

definition public_ui_frame :: "obj \<Rightarrow> obj res" where
  "public_ui_frame frame =
     rbind (copied_frame frame) (\<lambda>copied.
       Inr (if text_of (get copied ''type'') \<in> set tool_input_types
            then dict_set ''dynamic'' (JBool True) copied else copied))"

section \<open>Events\<close>

datatype runtime_event =
    InputAdmitted "runtime_cursor option" string
  | InputMessageObserved "runtime_cursor option" string
  | InputRefused "runtime_cursor option" string obj
  | ResponseStarted "runtime_cursor option" string origin "string list"
  | ResponseOutput "runtime_cursor option" "string option" obj
  | InteractionOpened "runtime_cursor option" string string obj
  | InteractionClosed "runtime_cursor option" string interaction_status
  | ResponseEnded "runtime_cursor option" string outcome "string option" "json option" "json option"
  | StatusChanged "runtime_cursor option" string
  | RuntimeDiagnostic "runtime_cursor option" string json

fun event_cursor :: "runtime_event \<Rightarrow> runtime_cursor option" where
  "event_cursor (InputAdmitted c iid) = c"
| "event_cursor (InputMessageObserved c iid) = c"
| "event_cursor (InputRefused c iid failure) = c"
| "event_cursor (ResponseStarted c rid origin iids) = c"
| "event_cursor (ResponseOutput c rid frame) = c"
| "event_cursor (InteractionOpened c rid xid contract) = c"
| "event_cursor (InteractionClosed c xid reason) = c"
| "event_cursor (ResponseEnded c rid oc reason usage err) = c"
| "event_cursor (StatusChanged c status) = c"
| "event_cursor (RuntimeDiagnostic c kind raw) = c"

text \<open>
  Constructing a \<^verbatim>\<open>ResponseOutput\<close> (its \<^verbatim>\<open>__post_init__\<close>): the frame is normalised, so that its
  type is a non-empty text, and an output kept out of channels says so in its metadata.
\<close>

definition silenced :: "obj \<Rightarrow> obj res" where
  "silenced frame =
     (case map_of frame ''messageMetadata'' of
        None \<Rightarrow> Inr (dict_set ''messageMetadata'' (JObj [(''channel_delivery'', JBool False)]) frame)
      | Some (JObj meta) \<Rightarrow>
          Inr (dict_set ''messageMetadata'' (JObj (dict_set ''channel_delivery'' (JBool False) meta)) frame)
      | Some _ \<Rightarrow> Inl TypeError)"

definition response_output :: "runtime_cursor option \<Rightarrow> string option \<Rightarrow> obj \<Rightarrow> bool \<Rightarrow> runtime_event res" where
  "response_output cursor rid frame channel_delivery =
     rbind (public_ui_frame frame) (\<lambda>public.
     rbind (if channel_delivery then Inr public
            else if get public ''type'' \<noteq> JStr ''start'' then Inl ValueError
            else silenced public) (\<lambda>final.
     Inr (ResponseOutput cursor rid final)))"

section \<open>The runtime's account of itself\<close>

record runtime_input =
  ru_input_id :: string
  ru_content :: string
  ru_content_blocks :: "json list"
  ru_permission_mode :: "string option"

record open_response =
  or_response_id :: string
  or_origin :: origin
  or_input_ids :: "string list"

record pending_interaction =
  pi_response_id :: string
  pi_interaction_id :: string
  pi_contract :: obj

record runtime_state =
  rs_status :: string
  rs_open_responses :: "open_response list"
  rs_pending_interactions :: "pending_interaction list"
  rs_queued_input_ids :: "string list"
  rs_admitted_input_ids :: "string list"
  rs_cursor :: "runtime_cursor option"
  rs_closed_interactions :: "(string \<times> interaction_status) list"
  rs_refused_inputs :: "(string \<times> obj) list"

section \<open>Emissions\<close>

datatype emission =
    PublicUIFrame obj
  | InputConsumed obj string string string
  | InteractionRequested obj string obj
  | ChildResourceFact obj
  | BackgroundTasksOpened obj obj string
  | ResponseCompleted obj obj
  | TurnTerminal obj outcome string "obj option" "obj option" "string option" "obj option" bool
  | PrivateDiagnostic obj string string json

definition platform_envelopes :: "(string, string) dict" where
  "platform_envelopes =
     [(''data-raw-event'', ''private_diagnostic''), (''data-input-consumed'', ''input_consumed''),
      (''interaction.request'', ''interaction_requested''),
      (''background-tasks-opened'', ''background_tasks_opened''),
      (''response-result'', ''response_completed''), (''result'', ''turn_terminal'')]"

definition session_scoped :: "obj \<Rightarrow> bool" where
  "session_scoped frame \<longleftrightarrow> strip (str_or (get frame ''__engine_frame_scope'')) = ''session''"

definition emission_category :: "obj \<Rightarrow> string" where
  "emission_category copied =
     (if session_scoped copied then ''child_resource''
      else coalesce (map_of platform_envelopes (text_of (get copied ''type''))) ''public_ui'')"

definition or_default :: "json \<Rightarrow> string \<Rightarrow> string" where
  "or_default j d = (if truthy j then py_str j else d)"

definition private_diagnostic :: "obj \<Rightarrow> emission res" where
  "private_diagnostic copied =
     (let data = jfields (get copied ''data'') in
      rbind (copied_frame copied) (\<lambda>frame.
      Inr (PrivateDiagnostic frame (or_default (get data ''event_type'') ''engine'')
             (or_default (get data ''subtype'') ''unknown'') (get data ''raw''))))"

definition input_consumed :: "obj \<Rightarrow> emission res" where
  "input_consumed copied =
     (let data = get copied ''data'';
          input_id = strip (str_or (jfield data ''inputId''));
          response_message_id = strip (str_or (jfield data ''responseMessageId''));
          content = jfield data ''content'' in
      if \<not> is_obj data \<or> input_id = [] \<or> response_message_id = [] \<or> \<not> is_str content then Inl ValueError
      else rbind (copied_frame copied) (\<lambda>frame.
        Inr (InputConsumed frame input_id response_message_id (text_of content))))"

definition interaction_requested :: "obj \<Rightarrow> emission res" where
  "interaction_requested copied =
     (let contract = get copied ''payload'' in
      if \<not> is_obj contract then Inl ValueError
      else rbind (copied_frame copied) (\<lambda>frame.
        Inr (InteractionRequested frame (strip (str_or (get copied ''interactionId''))) (jfields contract))))"

definition background_tasks_opened :: "obj \<Rightarrow> emission res" where
  "background_tasks_opened copied =
     (let manifest = get copied ''manifest''; manifest_id = strip (str_or (get copied ''manifest_id'')) in
      if \<not> is_obj manifest \<or> strip manifest_id = [] then Inl ValueError
      else rbind (copied_frame copied) (\<lambda>frame.
        Inr (BackgroundTasksOpened frame (jfields manifest) manifest_id)))"

definition response_completed :: "obj \<Rightarrow> emission res" where
  "response_completed copied =
     (let data = get copied ''data'' in
      if \<not> is_obj data then Inl ValueError
      else rbind (copied_frame copied) (\<lambda>frame. Inr (ResponseCompleted frame (jfields data))))"

definition finish_outcomes :: "(string, outcome) dict" where
  "finish_outcomes = [(''stop'', Completed), (''error'', OutcomeFailed), (''cancelled'', Cancelled)]"

definition some_obj :: "json \<Rightarrow> obj option" where
  "some_obj j = (if is_obj j then Some (jfields j) else None)"

definition nonempty_option :: "'a list \<Rightarrow> 'a list option" where
  "nonempty_option xs = (if xs = [] then None else Some xs)"

definition turn_terminal :: "obj \<Rightarrow> emission res" where
  "turn_terminal copied =
     (let finish_reason = lower (strip (str_or (get copied ''finishReason'')));
          private_data = filter (\<lambda>kv. fst kv \<notin> {''type'', ''finishReason'', ''usage'', ''error''} \<and>
                                      \<not> startswith ''__'' (fst kv)) copied in
      case map_of finish_outcomes finish_reason of
        None \<Rightarrow> Inl ValueError
      | Some outcome \<Rightarrow>
          rbind (copied_frame copied) (\<lambda>frame.
          Inr (TurnTerminal frame outcome finish_reason (some_obj (get copied ''usage''))
                 (some_obj (get copied ''error''))
                 (nonempty_option (strip (str_or (get copied ''__engine_terminal_reason''))))
                 (nonempty_option private_data) (get copied ''__interaction_closed'' = JBool True))))"

definition emission_from_translated_frame :: "obj \<Rightarrow> emission res" where
  "emission_from_translated_frame frame =
     rbind (copied_frame frame) (\<lambda>copied.
     let category = emission_category copied in
     if category = ''child_resource'' then rbind (copied_frame copied) (\<lambda>f. Inr (ChildResourceFact f))
     else if category = ''private_diagnostic'' then private_diagnostic copied
     else if category = ''input_consumed'' then input_consumed copied
     else if category = ''interaction_requested'' then interaction_requested copied
     else if category = ''background_tasks_opened'' then background_tasks_opened copied
     else if category = ''response_completed'' then response_completed copied
     else if category = ''turn_terminal'' then turn_terminal copied
     else rbind (public_ui_frame copied) (\<lambda>f. Inr (PublicUIFrame f)))"

section \<open>Properties\<close>

lemma copied_frame_Inr:
  "copied_frame frame = Inr copied \<longleftrightarrow>
     strip (str_or (get frame ''type'')) \<noteq> [] \<and>
     copied = dict_set ''type'' (JStr (strip (str_or (get frame ''type'')))) frame"
  by (auto simp: copied_frame_def Let_def)

lemma copied_frame_again: "copied_frame frame = Inr copied \<Longrightarrow> copied_frame copied = Inr copied"
  by (simp add: copied_frame_Inr) (auto simp: dict_set_same)

text \<open>
  A cursor survives the store. Writing a runtime cursor to the session's cursor column and
  reading it back gives the same cursor, for every generation name without surrounding white
  space.
\<close>

lemma cursor_round_trip:
  assumes "strip (cu_generation c) = cu_generation c" and "cu_generation c \<noteq> []"
  shows "cursor_from_json (Some (cursor_as_json c)) = Inr (Some c)"
  using assms by (simp add: cursor_from_json_def cursor_as_json_def Let_def)

definition sample_cursor :: runtime_cursor where
  "sample_cursor = \<lparr>cu_generation = ''g1'', cu_position = [(''n'', JInt 7)]\<rparr>"

lemma session_scoped_type: "session_scoped (dict_set ''type'' v frame) = session_scoped frame"
  by (simp add: session_scoped_def)

lemma category_public:
  "emission_category copied \<notin> {''child_resource'', ''private_diagnostic'', ''input_consumed'',
      ''interaction_requested'', ''background_tasks_opened'', ''response_completed'', ''turn_terminal''} \<longleftrightarrow>
   \<not> session_scoped copied \<and> text_of (get copied ''type'') \<notin> fst ` set platform_envelopes"
  by (simp add: emission_category_def platform_envelopes_def coalesce_def)

lemma private_emissions:
  "private_diagnostic d \<noteq> Inr (PublicUIFrame f)" "input_consumed d \<noteq> Inr (PublicUIFrame f)"
  "interaction_requested d \<noteq> Inr (PublicUIFrame f)" "background_tasks_opened d \<noteq> Inr (PublicUIFrame f)"
  "response_completed d \<noteq> Inr (PublicUIFrame f)" "turn_terminal d \<noteq> Inr (PublicUIFrame f)"
  by (simp_all add: private_diagnostic_def input_consumed_def interaction_requested_def
      background_tasks_opened_def response_completed_def turn_terminal_def rbind_Inr_iff Let_def
      split: option.split)

lemma public_emission:
  assumes "copied_frame frame = Inr copied"
  shows "emission_from_translated_frame frame = Inr (PublicUIFrame public) \<longleftrightarrow>
    \<not> session_scoped copied \<and> text_of (get copied ''type'') \<notin> fst ` set platform_envelopes \<and>
    public_ui_frame copied = Inr public"
  unfolding emission_from_translated_frame_def assms rbind_Inr Let_def
  using category_public [of copied]
  by (cases "session_scoped copied \<or> text_of (get copied ''type'') \<in> fst ` set platform_envelopes")
     (auto simp: private_emissions rbind_Inr_iff)

text \<open>
  Only a frame the adapter translated as browser output becomes public. If a frame is
  classified as a public UI frame, its type is none of the platform's envelopes and it is not
  scoped to the session's child resources, so a raw diagnostic, a control fact or a terminal
  judgement is never public, whatever fields a vendor adds. Every other frame becomes
  public with its fields as they were, but for the type, which is stripped, and the mark of
  a dynamic tool.
\<close>

theorem only_translated_frames_are_public:
  assumes "frame_type = strip (str_or (get frame ''type''))" and "frame_type \<noteq> []"
  shows "if session_scoped frame \<or> frame_type \<in> fst ` set platform_envelopes
    then \<forall>public. emission_from_translated_frame frame \<noteq> Inr (PublicUIFrame public)
    else \<exists>public. emission_from_translated_frame frame = Inr (PublicUIFrame public) \<and>
      get public ''type'' = JStr frame_type \<and>
      (\<forall>k. k \<noteq> ''type'' \<longrightarrow> k \<noteq> ''dynamic'' \<longrightarrow> get public k = get frame k)"
proof -
  let ?copied = "dict_set ''type'' (JStr frame_type) frame"
  have copied: "copied_frame frame = Inr ?copied" using assms by (simp add: copied_frame_Inr)
  then have again: "copied_frame ?copied = Inr ?copied" by (rule copied_frame_again)
  show ?thesis
    using public_emission [OF copied]
    by (auto simp: session_scoped_type public_ui_frame_def again)
qed

theorem only_translated_frames_are_public_witness:
  "\<exists>public. emission_from_translated_frame [(''type'', JStr '' text-delta''), (''delta'', JStr ''hi'')] =
       Inr (PublicUIFrame public) \<and> get public ''type'' = JStr ''text-delta'' \<and> get public ''delta'' = JStr ''hi''"
proof -
  let ?frame = "[(''type'', JStr '' text-delta''), (''delta'', JStr ''hi'')]"
  have "''text-delta'' = strip (str_or (get ?frame ''type''))" by code_simp
  moreover have "\<not> (session_scoped ?frame \<or> ''text-delta'' \<in> fst ` set platform_envelopes)" by code_simp
  ultimately show ?thesis using only_translated_frames_are_public [of "''text-delta''" ?frame] by auto
qed

end
