(* ===== verification/Reader.thy ===== *)
theory Reader
  imports Runtime Feed History Commit "HOL-Library.List_Lexorder" "HOL-Library.Char_ord"
begin

text \<open>
  The one process that reads a session's runtime, \<^verbatim>\<open>session_runtime/reader.py\<close>: how runtime
  events become numbered parts and facts (\<^verbatim>\<open>_take\<close>, \<^verbatim>\<open>_reconcile\<close>), how batches are committed
  (\<^verbatim>\<open>_commit_now\<close>, \<^verbatim>\<open>_publish_platform\<close>) and how people's requests are handed to the runtime
  (\<^verbatim>\<open>_deliver_pending\<close>, \<^verbatim>\<open>_deliver_answers\<close>, \<^verbatim>\<open>_apply_controls\<close>).

  The runtime client and the hooks are code of other components; their answers are
  arguments. Their calls are collected in order in \<open>rw_calls\<close>. Log lines, the delay stamp
  \<^verbatim>\<open>_texted\<close> and the fault barriers of test deployments are left out.
\<close>

section \<open>Parts the platform adds\<close>

text \<open>\<^verbatim>\<open>str.upper\<close> on the ASCII letters; the reasons it is applied to are ASCII names.\<close>

definition upper_char :: "char \<Rightarrow> char" where
  "upper_char c = (let n = of_char c :: nat in if 97 \<le> n \<and> n \<le> 122 then char_of (n - 32) else c)"

definition upper :: "string \<Rightarrow> string" where
  "upper s = map upper_char s"

definition lost_response_message :: "string \<Rightarrow> string" where
  "lost_response_message reason =
     ''The agent runtime stopped before this response finished ('' @ reason @ '').''"

definition lost_response_error :: "string \<Rightarrow> obj" where
  "lost_response_error reason =
     [(''code'', JStr (upper reason)), (''message'', JStr (lost_response_message reason))]"

definition lost_response_parts :: "string \<Rightarrow> string \<Rightarrow> obj list" where
  "lost_response_parts rid reason =
     [[(''type'', JStr ''start''), (''messageId'', JStr rid),
       (''messageMetadata'', JObj [(''channel_delivery'', JBool False)])],
      [(''type'', JStr ''error''), (''errorText'', JStr (lost_response_message reason))],
      [(''type'', JStr ''finish''),
       (''messageMetadata'', JObj [(''response_id'', JStr rid), (''outcome'', JStr ''failed'')])]]"

definition input_failed_part :: "string \<Rightarrow> obj \<Rightarrow> obj" where
  "input_failed_part iid failure =
     [(''type'', JStr ''data-input-failed''),
      (''data'', JObj (dict_update [(''input_id'', JStr iid)] failure))]"

section \<open>The reader's state\<close>

text \<open>
  \<open>re_inflight\<close> is the batch a commit has taken and not yet recorded, the local variable of
  \<^verbatim>\<open>_commit_now\<close> while it holds the commit lock.
\<close>

record reader =
  re_lease :: reader_lease
  re_seq :: int
  re_batch :: fact_batch
  re_inflight :: "fact_batch option"
  re_positioned :: "string list"
  re_dirty :: bool
  re_urgent :: bool
  re_closing :: bool
  re_protocol_error :: bool
  re_permission_failure :: "obj option"

abbreviation re_sid :: "reader \<Rightarrow> string" where
  "re_sid r \<equiv> l_session_id (re_lease r)"

definition new_reader :: "reader_lease \<Rightarrow> reader" where
  "new_reader lease =
     \<lparr>re_lease = lease, re_seq = 0, re_batch = empty_batch, re_inflight = None, re_positioned = [],
      re_dirty = False, re_urgent = False, re_closing = False, re_protocol_error = False,
      re_permission_failure = None\<rparr>"

text \<open>The start of \<^verbatim>\<open>run\<close>: numbers continue where the log ends, events where the cursor is.\<close>

definition start_reader :: "reader_lease \<Rightarrow> db \<Rightarrow> (reader \<times> runtime_cursor option) res" where
  "start_reader lease db =
     (case resume_point (l_session_id lease) db of
        (seq, cursor) \<Rightarrow> rbind (cursor_from_json cursor) (\<lambda>c.
          Inr (new_reader lease\<lparr>re_seq := seq\<rparr>, c)))"

section \<open>Reading\<close>

definition add_fact :: "fact \<Rightarrow> reader \<Rightarrow> reader" where
  "add_fact f r = r\<lparr>re_batch := re_batch r\<lparr>b_facts := b_facts (re_batch r) @ [f]\<rparr>\<rparr>"

definition add_output :: "output_part \<Rightarrow> reader \<Rightarrow> reader" where
  "add_output p r = r\<lparr>re_batch := re_batch r\<lparr>b_output := b_output (re_batch r) @ [p]\<rparr>\<rparr>"

definition next_seq :: "reader \<Rightarrow> reader" where
  "next_seq r = r\<lparr>re_seq := re_seq r + 1\<rparr>"

definition message_position :: "message_kind \<Rightarrow> string \<Rightarrow> reader \<Rightarrow> reader" where
  "message_position kind mid r = add_fact (MessagePosition kind mid (re_seq r + 1)) (next_seq r)"

definition reader_close_interaction :: "string \<Rightarrow> interaction_status \<Rightarrow> reader \<Rightarrow> reader" where
  "reader_close_interaction xid status r =
     add_fact (InteractionClose xid status (Some (re_seq r + 1))) (next_seq r)"

definition silent_types :: "json list" where
  "silent_types = [JStr ''start'', JStr ''message-metadata'', JStr ''data-input-consumed'']"

text \<open>
  Whether a part is the first content of its response this reader sees. Frames have a text
  as their type (\<^const>\<open>response_output\<close>).
\<close>

definition opens_response :: "string option \<Rightarrow> obj \<Rightarrow> reader \<Rightarrow> bool" where
  "opens_response rid frame r \<longleftrightarrow>
     rid \<noteq> None \<and> rid \<noteq> Some [] \<and> the rid \<notin> set (re_positioned r) \<and>
     get frame ''type'' \<notin> set silent_types \<and> get frame ''transient'' \<noteq> JBool True"

definition position_response :: "string option \<Rightarrow> obj \<Rightarrow> reader \<Rightarrow> reader" where
  "position_response rid frame r =
     (if opens_response rid frame r
      then message_position MResponse (the rid) (r\<lparr>re_positioned := re_positioned r @ [the rid]\<rparr>)
      else r)"

definition take_output :: "string option \<Rightarrow> obj \<Rightarrow> reader \<times> session_feed \<Rightarrow> reader \<times> session_feed" where
  "take_output rid frame rf =
     (let r1 = position_response rid frame (fst rf); seq = re_seq r1 + 1 in
      (add_output \<lparr>p_seq = seq, p_response_id = rid, p_part = frame\<rparr> (next_seq r1),
       publish_live (re_sid r1) (LivePart seq rid frame) (snd rf)))"

definition finish_take :: "runtime_cursor option \<Rightarrow> bool \<Rightarrow> reader \<Rightarrow> reader" where
  "finish_take cursor urgent r =
     r\<lparr>re_batch := (case cursor of None \<Rightarrow> re_batch r
                     | Some c \<Rightarrow> re_batch r\<lparr>b_cursor := Some (cursor_as_json c)\<rparr>),
       re_dirty := True, re_urgent := re_urgent r \<or> urgent\<rparr>"

definition on_reader :: "(reader \<Rightarrow> reader) \<Rightarrow> reader \<times> session_feed \<Rightarrow> reader \<times> session_feed" where
  "on_reader f rf = (f (fst rf), snd rf)"

fun take_event :: "runtime_event \<Rightarrow> reader \<times> session_feed \<Rightarrow> reader \<times> session_feed" where
  "take_event (ResponseOutput c rid frame) rf = on_reader (finish_take c False) (take_output rid frame rf)"
| "take_event (InputMessageObserved c iid) rf = on_reader (finish_take c True \<circ> message_position MInput iid) rf"
| "take_event (ResponseStarted c rid origin iids) rf =
     on_reader (finish_take c True \<circ> add_fact (ResponseStart rid origin iids)) rf"
| "take_event (ResponseEnded c rid oc reason usage err) rf =
     on_reader (finish_take c True \<circ> add_fact (ResponseEnd rid oc reason usage err)) rf"
| "take_event (InteractionOpened c rid xid contract) rf =
     on_reader (finish_take c True \<circ> add_fact (InteractionOpen rid xid contract)) rf"
| "take_event (InteractionClosed c xid reason) rf =
     on_reader (finish_take c True \<circ> reader_close_interaction xid reason) rf"
| "take_event (InputAdmitted c iid) rf = on_reader (finish_take c False \<circ> add_fact (InputsAdmitted [iid])) rf"
| "take_event (InputRefused c iid failure) rf =
     on_reader (finish_take c True)
       (on_reader (finish_take c False)
         (take_output None (input_failed_part iid failure)
           (on_reader (add_fact (InputsFailed [iid] (JObj failure))) rf)))"
| "take_event (StatusChanged c status) rf =
     on_reader (finish_take c True \<circ> (\<lambda>r. r\<lparr>re_batch := re_batch r\<lparr>b_status := Some status\<rparr>\<rparr>)) rf"
| "take_event (RuntimeDiagnostic c kind raw) rf = on_reader (finish_take c False) rf"

text \<open>
  One turn of the loop in \<^verbatim>\<open>_read_events\<close>: a tool result is followed by the cards the platform
  recorded for it (\<open>cards\<close>, the lookup of \<^verbatim>\<open>tool_cards.card_parts\<close>).
\<close>

fun cards_of :: "(obj \<Rightarrow> obj list) \<Rightarrow> runtime_event \<Rightarrow> runtime_event list" where
  "cards_of cards (ResponseOutput c rid frame) =
     (if get frame ''type'' = JStr ''tool-output-available'' then map (ResponseOutput c rid) (cards frame) else [])"
| "cards_of cards _ = []"

definition read_event :: "(obj \<Rightarrow> obj list) \<Rightarrow> runtime_event \<Rightarrow> reader \<times> session_feed \<Rightarrow> reader \<times> session_feed" where
  "read_event cards event rf = fold take_event (cards_of cards event) (take_event event rf)"

text \<open>\<^verbatim>\<open>_read\<close> when the event stream cannot be read: the fault is recorded with the batch.\<close>

definition protocol_fault :: "string \<Rightarrow> reader \<Rightarrow> reader" where
  "protocol_fault message r =
     r\<lparr>re_protocol_error := True, re_batch := re_batch r\<lparr>b_protocol_error := Some message\<rparr>\<rparr>"

section \<open>Committing\<close>

definition begin_commit :: "reader \<Rightarrow> reader" where
  "begin_commit r =
     r\<lparr>re_batch := empty_batch, re_dirty := False, re_urgent := False,
       re_inflight := (if batch_nonempty (re_batch r) then Some (re_batch r) else None)\<rparr>"

datatype reader_call =
    CommittedCursor runtime_cursor
  | StatusHook string
  | CommittedHook fact_batch
  | PrepareInput runtime_input
  | SubmitInput runtime_input
  | AnswerInteraction string obj
  | InterruptRuntime
  | StopChildRun string

datatype stopped = LeaseLost | Crashed error

record rworld =
  rw_reader :: reader
  rw_feed :: session_feed
  rw_db :: db
  rw_calls :: "reader_call list"

type_synonym rstep = "rworld \<Rightarrow> rworld \<times> stopped option"

definition calls :: "reader_call list \<Rightarrow> rworld \<Rightarrow> rworld" where
  "calls cs w = w\<lparr>rw_calls := rw_calls w @ cs\<rparr>"

definition upd_reader :: "(reader \<Rightarrow> reader) \<Rightarrow> rworld \<Rightarrow> rworld" where
  "upd_reader f w = w\<lparr>rw_reader := f (rw_reader w)\<rparr>"

definition upd_db :: "(db \<Rightarrow> db) \<Rightarrow> rworld \<Rightarrow> rworld" where
  "upd_db f w = w\<lparr>rw_db := f (rw_db w)\<rparr>"

definition commit_report :: "fact_batch \<Rightarrow> reader_call list res" where
  "commit_report batch =
     rbind (cursor_from_json (b_cursor batch)) (\<lambda>cursor.
       Inr ((case cursor of None \<Rightarrow> [] | Some c \<Rightarrow> [CommittedCursor c]) @
            (case b_status batch of None \<Rightarrow> [] | Some s \<Rightarrow> [StatusHook s])))"

text \<open>
  The rest of \<^verbatim>\<open>_commit_now\<close>: record the batch taken, then report it. \<^verbatim>\<open>record\<close> has written the
  stored output into the batch the hook receives.
\<close>

definition LEASE_TTL_S :: time where
  "LEASE_TTL_S = 30"

definition end_commit :: "time \<Rightarrow> rstep" where
  "end_commit now w =
     (case re_inflight (rw_reader w) of
        None \<Rightarrow> (w, None)
      | Some batch \<Rightarrow>
          case record_batch (re_lease (rw_reader w)) batch LEASE_TTL_S now (rw_db w) of
            (Inl e, db') \<Rightarrow> (w\<lparr>rw_db := db'\<rparr>, Some (Crashed e))
          | (Inr None, db') \<Rightarrow> (w\<lparr>rw_db := db'\<rparr>, Some LeaseLost)
          | (Inr (Some out), db') \<Rightarrow>
              let w' = upd_reader (\<lambda>r. r\<lparr>re_inflight := None\<rparr>) (w\<lparr>rw_db := db'\<rparr>) in
              (case commit_report batch of
                 Inl e \<Rightarrow> (w', Some (Crashed e))
               | Inr cs \<Rightarrow> (calls (cs @ [CommittedHook (batch\<lparr>b_output := out\<rparr>)]) w', None)))"

definition commit_now :: "time \<Rightarrow> rstep" where
  "commit_now now w = end_commit now (upd_reader begin_commit w)"

definition then_step :: "rstep \<Rightarrow> rstep \<Rightarrow> rstep" where
  "then_step f g w = (case f w of (w', Some s) \<Rightarrow> (w', Some s) | (w', None) \<Rightarrow> g w')"

fun each_step :: "('x \<Rightarrow> rstep) \<Rightarrow> 'x list \<Rightarrow> rstep" where
  "each_step f [] w = (w, None)"
| "each_step f (x # xs) w = then_step (f x) (each_step f xs) w"

text \<open>\<^verbatim>\<open>_publish_platform\<close>: number the parts, commit, publish what was committed.\<close>

fun number_parts :: "string option \<Rightarrow> obj list \<Rightarrow> int \<Rightarrow> output_part list" where
  "number_parts rid [] seq = []"
| "number_parts rid (part # parts) seq =
     \<lparr>p_seq = seq + 1, p_response_id = rid, p_part = part\<rparr> # number_parts rid parts (seq + 1)"

definition add_numbered :: "output_part list \<Rightarrow> reader \<Rightarrow> reader" where
  "add_numbered ps r =
     r\<lparr>re_seq := re_seq r + int (length ps),
       re_batch := re_batch r\<lparr>b_output := b_output (re_batch r) @ ps\<rparr>\<rparr>"

definition live_part :: "output_part \<Rightarrow> feed_item" where
  "live_part p = LivePart (p_seq p) (p_response_id p) (p_part p)"

definition publish_parts :: "string \<Rightarrow> output_part list \<Rightarrow> session_feed \<Rightarrow> session_feed" where
  "publish_parts sid ps feed = fold (\<lambda>p. publish_live sid (live_part p)) ps feed"

definition publish_world :: "output_part list \<Rightarrow> rworld \<Rightarrow> rworld" where
  "publish_world ps w = w\<lparr>rw_feed := publish_parts (re_sid (rw_reader w)) ps (rw_feed w)\<rparr>"

definition publish_platform :: "string option \<Rightarrow> obj list \<Rightarrow> time \<Rightarrow> rstep" where
  "publish_platform rid parts now w =
     (let ps = number_parts rid parts (re_seq (rw_reader w)) in
      then_step (commit_now now) (\<lambda>w'. (publish_world ps w', None)) (upd_reader (add_numbered ps) w))"

section \<open>Reconciling\<close>

text \<open>
  \<^verbatim>\<open>_reconcile\<close> after its reads: the facts that align the record with the runtime's own account.
  The second component collects the parts that close lost responses; they join the batch
  after everything else and are published once committed.
\<close>

definition sorted_ids :: "string list \<Rightarrow> string list" where
  "sorted_ids xs = order_by id (remdups xs)"

type_synonym reconciling = "reader \<times> output_part list"

definition reconcile_fact :: "fact \<Rightarrow> reconciling \<Rightarrow> reconciling" where
  "reconcile_fact f rp = (add_fact f (fst rp), snd rp)"

definition reconcile_close :: "interaction_status \<Rightarrow> string \<Rightarrow> reconciling \<Rightarrow> reconciling" where
  "reconcile_close status xid rp = (reader_close_interaction xid status (fst rp), snd rp)"

definition lose_response :: "string \<Rightarrow> reconciling \<Rightarrow> reconciling" where
  "lose_response rid rp =
     (let r = add_fact (ResponseEnd rid OutcomeFailed (Some ''runtime_lost'') None
                  (Some (JObj (lost_response_error ''runtime_lost'')))) (fst rp);
          ps = number_parts (Some rid) (lost_response_parts rid ''runtime_lost'') (re_seq r)
      in (r\<lparr>re_seq := re_seq r + int (length ps)\<rparr>, snd rp @ ps))"

definition open_responses_of :: "runtime_state \<Rightarrow> (string, open_response) dict" where
  "open_responses_of state = dict_update [] (map (\<lambda>o'. (or_response_id o', o')) (rs_open_responses state))"

definition pending_of :: "runtime_state \<Rightarrow> (string, pending_interaction) dict" where
  "pending_of state = dict_update [] (map (\<lambda>p. (pi_interaction_id p, p)) (rs_pending_interactions state))"

definition closed_of :: "runtime_state \<Rightarrow> (string, interaction_status) dict" where
  "closed_of state = dict_update [] (rs_closed_interactions state)"

definition reconcile_facts :: "string list \<Rightarrow> string list \<Rightarrow> runtime_state \<Rightarrow> reader \<Rightarrow> reconciling" where
  "reconcile_facts recorded_open recorded_interactions state r =
     (let runtime_open = open_responses_of state; pending = pending_of state; closed = closed_of state;
          s1 = fold (\<lambda>xid. reconcile_close (the (map_of closed xid)) xid)
                 (sorted_ids (filter (\<lambda>xid. xid \<in> fst ` set closed) recorded_interactions)) (r, []);
          s2 = fold lose_response
                 (sorted_ids (filter (\<lambda>rid. rid \<notin> fst ` set runtime_open) recorded_open)) s1;
          s3 = fold (\<lambda>(rid, o'). reconcile_fact (ResponseStart rid (or_origin o') (or_input_ids o')))
                 (filter (\<lambda>ro. fst ro \<notin> set recorded_open) runtime_open) s2;
          s4 = fold (reconcile_close IExpired)
                 (sorted_ids (filter (\<lambda>xid. xid \<notin> fst ` set pending \<and> xid \<notin> fst ` set closed)
                    recorded_interactions)) s3;
          s5 = fold (\<lambda>(xid, p). reconcile_fact (InteractionOpen (pi_response_id p) xid (pi_contract p)))
                 (filter (\<lambda>xp. fst xp \<notin> set recorded_interactions) pending) s4;
          s6 = (if rs_admitted_input_ids state = [] then s5
                else reconcile_fact (InputsAdmitted (rs_admitted_input_ids state)) s5);
          s7 = fold (\<lambda>(iid, failure). reconcile_fact (InputsFailed [iid] (JObj failure)))
                 (rs_refused_inputs state) s6
      in s7)"

definition reconciled :: "runtime_state \<Rightarrow> reconciling \<Rightarrow> reader" where
  "reconciled state rp =
     (fst rp)\<lparr>re_batch := re_batch (fst rp)\<lparr>
        b_output := b_output (re_batch (fst rp)) @ snd rp, b_status := Some (rs_status state),
        b_cursor := map_option cursor_as_json (rs_cursor state)\<rparr>\<rparr>"

definition reconcile :: "runtime_state \<Rightarrow> time \<Rightarrow> rstep" where
  "reconcile state now w =
     (let sid = re_sid (rw_reader w);
          rp = reconcile_facts (open_response_ids sid (rw_db w)) (open_interaction_ids sid (rw_db w)) state (rw_reader w)
      in then_step (commit_now now) (\<lambda>w'. (publish_world (snd rp) w', None))
           (upd_reader (\<lambda>_. reconciled state rp) w))"

text \<open>
  \<^verbatim>\<open>_open_events\<close> when the cursor cannot be resumed: inputs the earlier runtime received go back,
  then the record is aligned with \<open>state\<close>.
\<close>

definition resume_expired :: "runtime_state \<Rightarrow> time \<Rightarrow> rstep" where
  "resume_expired state now w =
     (case reclaim_unadmitted (re_sid (rw_reader w)) (rw_db w) of
        (n, db') \<Rightarrow>
          reconcile state now
            (w\<lparr>rw_db := db', rw_feed := (if n \<noteq> 0 then wake (re_sid (rw_reader w)) (rw_feed w) else rw_feed w)\<rparr>))"

section \<open>Delivering\<close>

datatype prepare_result = Prepared | PrepareRefused obj | PrepareFailed error
datatype submit_result = Submitted | SubmitRefused string string nat | SubmitFailed error
datatype answer_result = AnswerTaken | AnswerNotOpen | AnswerFailed error

record runtime_client =
  cl_engine_kind :: string
  cl_prepare :: "runtime_input \<Rightarrow> prepare_result"
  cl_submit :: "runtime_input \<Rightarrow> submit_result"
  cl_answer :: "string \<Rightarrow> obj \<Rightarrow> answer_result"
  cl_interrupt :: "string option"
  cl_stop_child :: "(string \<Rightarrow> string option) option"

definition refuse :: "string \<Rightarrow> obj \<Rightarrow> time \<Rightarrow> rstep" where
  "refuse iid failure now w =
     publish_platform None [input_failed_part iid failure] now (upd_db (mark_failed iid (JObj failure)) w)"

text \<open>The input handed over; the inputs table has no permission mode to read.\<close>

definition runtime_input_of :: "input_row \<Rightarrow> runtime_input" where
  "runtime_input_of row =
     \<lparr>ru_input_id = i_input_id row, ru_content = i_content row,
      ru_content_blocks = coalesce (i_content_blocks row) [], ru_permission_mode = None\<rparr>"

definition refusal :: "string \<Rightarrow> string \<Rightarrow> nat \<Rightarrow> obj" where
  "refusal code message status =
     [(''code'', JStr code), (''message'', JStr message), (''status_code'', JInt (int status))]"

definition deliver_input :: "runtime_client \<Rightarrow> time \<Rightarrow> input_row \<Rightarrow> rstep" where
  "deliver_input client now row w =
     (case re_permission_failure (rw_reader w) of
        Some failure \<Rightarrow> refuse (i_input_id row) failure now w
      | None \<Rightarrow>
          let item = runtime_input_of row; w1 = calls [PrepareInput item] w in
          case cl_prepare client item of
            PrepareFailed e \<Rightarrow> (w1, Some (Crashed e))
          | PrepareRefused failure \<Rightarrow> refuse (i_input_id row) failure now w1
          | Prepared \<Rightarrow>
              let w2 = calls [SubmitInput item] w1 in
              case cl_submit client item of
                SubmitFailed e \<Rightarrow> (w2, Some (Crashed e))
              | SubmitRefused code message status \<Rightarrow> refuse (i_input_id row) (refusal code message status) now w2
              | Submitted \<Rightarrow> (upd_db (mark_delivered [i_input_id row] now) w2, None))"

definition deliver_pending :: "runtime_client \<Rightarrow> time \<Rightarrow> rstep" where
  "deliver_pending client now w =
     each_step (deliver_input client now) (undelivered_inputs (re_sid (rw_reader w)) (rw_db w)) w"

definition deliver_answer :: "runtime_client \<Rightarrow> time \<Rightarrow> interaction_row \<Rightarrow> rstep" where
  "deliver_answer client now x w =
     (let xid = x_interaction_id x; answer = coalesce (x_answer x) []; w1 = calls [AnswerInteraction xid answer] w in
      case cl_answer client xid answer of
        AnswerFailed e \<Rightarrow> (w1, Some (Crashed e))
      | AnswerNotOpen \<Rightarrow> commit_now now (upd_reader (reader_close_interaction xid IExpired) w1)
      | AnswerTaken \<Rightarrow> commit_now now (upd_reader (reader_close_interaction xid IAnswered) w1))"

definition deliver_answers :: "runtime_client \<Rightarrow> time \<Rightarrow> rstep" where
  "deliver_answers client now w =
     each_step (deliver_answer client now) (pending_answers (re_sid (rw_reader w)) (rw_db w)) w"

text \<open>
  One control: what the runtime says and how the request is settled. \<^verbatim>\<open>str(None)\<close> is the
  target of a stop without one.
\<close>

definition control_outcome :: "runtime_client \<Rightarrow> control_row \<Rightarrow> reader_call list \<times> string option" where
  "control_outcome client c =
     (if c_kind c = ''interrupt'' then ([InterruptRuntime], cl_interrupt client)
      else if c_kind c = ''stop_child'' then
        (let target = coalesce (c_target c) ''None'' in
         case cl_stop_child client of
           None \<Rightarrow> ([], Some (''the '' @ cl_engine_kind client @ '' runtime cannot stop a sub-agent''))
         | Some stop \<Rightarrow> ([StopChildRun target], stop target))
      else ([], Some (''unknown control '' @ repr_str (c_kind c))))"

definition apply_control :: "runtime_client \<Rightarrow> time \<Rightarrow> control_row \<Rightarrow> rstep" where
  "apply_control client now c w =
     (case control_outcome client c of
        (cs, err) \<Rightarrow>
          (upd_db (settle_control (c_control_id c) (if err = None then CDone else CFailed) err now) (calls cs w), None))"

definition apply_controls :: "runtime_client \<Rightarrow> time \<Rightarrow> rstep" where
  "apply_controls client now w =
     each_step (apply_control client now) (pending_controls (re_lease (rw_reader w)) (rw_db w)) w"

text \<open>\<^verbatim>\<open>_sync_permission_mode\<close>; \<open>refused\<close> is the code and message of a refusal.\<close>

definition sync_permission_mode :: "(string \<times> string) option \<Rightarrow> rstep" where
  "sync_permission_mode refused w =
     (upd_reader (\<lambda>r. r\<lparr>re_permission_failure := map_option (\<lambda>(code, message). refusal code message 409) refused\<rparr>) w,
      None)"

definition start_delivering :: "runtime_client \<Rightarrow> (string \<times> string) option \<Rightarrow> time \<Rightarrow> rstep" where
  "start_delivering client refused now w =
     then_step (sync_permission_mode refused)
       (then_step (apply_controls client now)
         (then_step (deliver_pending client now) (deliver_answers client now)))
       (upd_db (expire_controls (re_sid (rw_reader w)) (l_generation (re_lease (rw_reader w)))) w)"

fun deliver_item :: "runtime_client \<Rightarrow> (string \<times> string) option \<Rightarrow> time \<Rightarrow> feed_item \<Rightarrow> rstep" where
  "deliver_item client refused now Resync w =
     then_step (deliver_pending client now) (then_step (deliver_answers client now) (apply_controls client now)) w"
| "deliver_item client refused now (Notice kind seq) w =
     (if kind = NInput then deliver_pending client now w
      else if kind = NAnswer then deliver_answers client now w
      else if kind = NControl then apply_controls client now w
      else if kind = NPermission then sync_permission_mode refused w
      else (w, None))"
| "deliver_item client refused now (LivePart seq rid part) w = (w, None)"

section \<open>The loops\<close>

text \<open>
  One turn of \<^verbatim>\<open>_commit_loop\<close>: \<open>timed_out\<close> is a wait of a third of the lease time without
  anything to commit. The result says whether the loop goes on.
\<close>

definition commit_turn :: "bool \<Rightarrow> time \<Rightarrow> rworld \<Rightarrow> (rworld \<times> stopped option) \<times> bool" where
  "commit_turn timed_out now w =
     (if timed_out
      then (case renew_reader (re_lease (rw_reader w)) LEASE_TTL_S now (rw_db w) of
              (held, db') \<Rightarrow> ((w\<lparr>rw_db := db'\<rparr>, if held then None else Some LeaseLost), held))
      else (let res = commit_now now w in (res, snd res = None \<and> \<not> re_closing (rw_reader w))))"

datatype reader_exit = StreamEnded | ExitLeaseLost | ProtocolError

definition exit_of :: "reader \<Rightarrow> bool \<Rightarrow> reader_exit" where
  "exit_of r lost = (if lost then ExitLeaseLost else if re_protocol_error r then ProtocolError else StreamEnded)"

end
