(* ===== verification/Numbering.thy ===== *)
theory Numbering
  imports Reader Follow "HOL-Library.Multiset"
begin

text \<open>
  How a reader numbers what it records. Every event, request and platform part takes the next
  numbers of the session's log; the batch a commit has taken and the batch being filled hold
  exactly the numbers after the log's last one, each once. From that: commits leave the log
  without gaps, and what was published live is what the log will hold under its number.
\<close>

section \<open>The numbers a batch uses\<close>

lemma set_batch_numbers: "set (batch_numbers b) = batch_seqs b"
  by (simp add: batch_numbers_def batch_seqs_def)

lemma batch_numbers_empty [simp]: "batch_numbers empty_batch = []"
  by (simp add: batch_numbers_def empty_batch_def)

lemma batch_numbers_other [simp]:
  "batch_numbers (b\<lparr>b_cursor := c\<rparr>) = batch_numbers b" "batch_numbers (b\<lparr>b_status := s\<rparr>) = batch_numbers b"
  "batch_numbers (b\<lparr>b_protocol_error := e\<rparr>) = batch_numbers b"
  by (simp_all add: batch_numbers_def)

lemma mset_batch_facts:
  "mset (batch_numbers (b\<lparr>b_facts := b_facts b @ [f]\<rparr>)) = mset (batch_numbers b) + mset (reserved_list f)"
  by (simp add: batch_numbers_def)

lemma mset_batch_output:
  "mset (batch_numbers (b\<lparr>b_output := b_output b @ ps\<rparr>)) = mset (batch_numbers b) + mset (map p_seq ps)"
  by (simp add: batch_numbers_def)

section \<open>Taking the next numbers\<close>

text \<open>
  \<open>extends ps r r'\<close>: from \<open>r\<close> to \<open>r'\<close> the batch gained the next numbers, each once, and the
  output parts \<open>ps\<close>.
\<close>

definition extends :: "output_part list \<Rightarrow> reader \<Rightarrow> reader \<Rightarrow> bool" where
  "extends ps r r' \<longleftrightarrow>
     re_lease r' = re_lease r \<and> re_inflight r' = re_inflight r \<and> re_seq r \<le> re_seq r' \<and>
     b_output (re_batch r') = b_output (re_batch r) @ ps \<and>
     mset (batch_numbers (re_batch r')) = mset (batch_numbers (re_batch r)) + mset [re_seq r + 1..re_seq r']"

lemma mset_upto_append: "a \<le> b \<Longrightarrow> b \<le> c \<Longrightarrow> mset [a + 1..b] + mset [b + 1..c] = mset [a + 1..c::int]"
  using upto_append [of "a + 1" b c] by (metis add.commute mset_append add_right_mono)

lemma extends_refl [simp]: "extends [] r r"
  by (simp add: extends_def)

lemma extends_trans:
  assumes "extends ps r r'" and "extends qs r' r''"
  shows "extends (ps @ qs) r r''"
  using assms mset_upto_append [of "re_seq r" "re_seq r'" "re_seq r''"]
  by (auto simp: extends_def add.assoc)

lemma extends_same:
  "re_lease r' = re_lease r \<Longrightarrow> re_inflight r' = re_inflight r \<Longrightarrow> re_seq r' = re_seq r \<Longrightarrow>
     b_output (re_batch r') = b_output (re_batch r) \<Longrightarrow> b_facts (re_batch r') = b_facts (re_batch r) \<Longrightarrow> extends [] r r'"
  by (simp add: extends_def batch_numbers_def)

lemma extends_add_fact: "reserved_list f = [] \<Longrightarrow> extends [] r (add_fact f r)"
  by (simp add: extends_def add_fact_def mset_batch_facts)

lemma extends_reserving: "reserved_list f = [re_seq r + 1] \<Longrightarrow> extends [] r (add_fact f (next_seq r))"
  by (simp add: extends_def add_fact_def next_seq_def mset_batch_facts)

lemma extends_position: "extends [] r (message_position kind mid r)"
  by (simp add: message_position_def extends_reserving)

lemma extends_close: "extends [] r (reader_close_interaction xid status r)"
  by (simp add: reader_close_interaction_def extends_reserving)

lemma extends_position_response: "extends [] r (position_response rid frame r)"
proof (cases "opens_response rid frame r")
  case True
  have "extends [] r (r\<lparr>re_positioned := re_positioned r @ [the rid]\<rparr>)" by (rule extends_same) simp_all
  from extends_trans [OF this extends_position] True show ?thesis by (simp add: position_response_def)
qed (simp add: position_response_def)

lemma number_parts_seqs: "map p_seq (number_parts rid parts seq) = [seq + 1..seq + int (length parts)]"
  by (induction parts arbitrary: seq) (simp_all add: upto_rec1 algebra_simps)

lemma length_number_parts [simp]: "length (number_parts rid parts seq) = length parts"
  by (induction parts arbitrary: seq) simp_all

lemma extends_add_numbered:
  "map p_seq ps = [re_seq r + 1..re_seq r + int (length ps)] \<Longrightarrow> extends ps r (add_numbered ps r)"
  by (simp add: extends_def add_numbered_def mset_batch_output)

lemma extends_next_output:
  "p_seq p = re_seq r + 1 \<Longrightarrow> extends [p] r (add_output p (next_seq r))"
  by (simp add: extends_def add_output_def next_seq_def mset_batch_output)

text \<open>The part an output event is recorded and published as.\<close>

definition taken_part :: "string option \<Rightarrow> obj \<Rightarrow> reader \<Rightarrow> output_part" where
  "taken_part rid frame r =
     \<lparr>p_seq = re_seq (position_response rid frame r) + 1, p_response_id = rid, p_part = frame\<rparr>"

lemma extends_lease: "extends ps r r' \<Longrightarrow> re_lease r' = re_lease r"
  by (simp add: extends_def)

lemma take_output_eq:
  "take_output rid frame (r, feed) =
     (add_output (taken_part rid frame r) (next_seq (position_response rid frame r)),
      publish_live (re_sid r) (live_part (taken_part rid frame r)) feed)"
  using extends_lease [OF extends_position_response [of r rid frame]]
  by (simp add: take_output_def taken_part_def live_part_def Let_def)

lemma extends_take_output: "extends [taken_part rid frame r] r (fst (take_output rid frame (r, feed)))"
  using extends_trans [OF extends_position_response [of r rid frame] extends_next_output
      [of "taken_part rid frame r" "position_response rid frame r"]]
  by (simp add: take_output_eq taken_part_def)

lemma extends_finish: "extends [] r (finish_take c urgent r)"
  by (rule extends_same) (simp_all add: finish_take_def split: option.split)

text \<open>Taking an event: some parts join the batch and exactly these are published.\<close>

lemma take_event_extends:
  "\<exists>ps. extends ps r (fst (take_event event (r, feed))) \<and>
     snd (take_event event (r, feed)) = publish_parts (re_sid r) ps feed"
proof -
  have plain: "\<exists>ps. extends ps r (fst (on_reader (finish_take c urgent \<circ> f) (r, feed))) \<and>
      snd (on_reader (finish_take c urgent \<circ> f) (r, feed)) = publish_parts (re_sid r) ps feed"
    if "extends [] r (f r)" for f c urgent
    using extends_trans [OF that extends_finish]
    by (intro exI [of _ "[]"]) (simp add: on_reader_def publish_parts_def)
  have status: "extends [] r (r\<lparr>re_batch := re_batch r\<lparr>b_status := Some s\<rparr>\<rparr>)" for s
    by (rule extends_same) simp_all
  show ?thesis
  proof (cases event)
    case (ResponseOutput c rid frame)
    from extends_trans [OF extends_take_output [of rid frame r feed] extends_finish [of _ c False]]
    show ?thesis
      by (intro exI [of _ "[taken_part rid frame r]"])
         (simp add: ResponseOutput on_reader_def take_output_eq publish_parts_def)
  next
    case (InputRefused c iid failure)
    let ?r1 = "add_fact (InputsFailed [iid] (JObj failure)) r" and ?frame = "input_failed_part iid failure"
    have "extends [] r ?r1" by (simp add: extends_add_fact)
    from extends_trans [OF extends_trans [OF extends_trans [OF this extends_take_output [of None ?frame ?r1 feed]]
          extends_finish [of _ c False]] extends_finish [of _ c True]]
    show ?thesis
      by (intro exI [of _ "[taken_part None ?frame ?r1]"])
         (simp add: InputRefused on_reader_def take_output_eq publish_parts_def add_fact_def)
  next
    case (RuntimeDiagnostic c kind raw)
    then show ?thesis using plain [of id c False] by (simp add: o_def id_def)
  qed (simp_all add: plain extends_position extends_close extends_add_fact status del: o_apply)
qed

lemma publish_parts_append: "publish_parts sid (ps @ qs) feed = publish_parts sid qs (publish_parts sid ps feed)"
  by (simp add: publish_parts_def)

lemma take_events_extends:
  "\<exists>ps. extends ps r (fst (fold take_event events (r, feed))) \<and>
     snd (fold take_event events (r, feed)) = publish_parts (re_sid r) ps feed"
proof (induction events arbitrary: r feed)
  case Nil
  then show ?case by (intro exI [of _ "[]"]) (simp add: publish_parts_def)
next
  case (Cons event events)
  obtain r1 feed1 where step: "take_event event (r, feed) = (r1, feed1)" by (cases "take_event event (r, feed)")
  with take_event_extends [of r event feed] obtain ps where
    ps: "extends ps r r1" "feed1 = publish_parts (re_sid r) ps feed" by auto
  from Cons.IH [of r1 feed1] obtain qs where
    qs: "extends qs r1 (fst (fold take_event events (r1, feed1)))"
      "snd (fold take_event events (r1, feed1)) = publish_parts (re_sid r1) qs feed1" by blast
  from extends_trans [OF ps(1) qs(1)] qs(2) ps show ?case
    by (intro exI [of _ "ps @ qs"]) (simp add: step publish_parts_append extends_lease)
qed

lemma read_event_extends:
  "\<exists>ps. extends ps r (fst (read_event cards event (r, feed))) \<and>
     snd (read_event cards event (r, feed)) = publish_parts (re_sid r) ps feed"
  using take_events_extends [of r "event # cards_of cards event" feed] by (simp add: read_event_def)

section \<open>Reconciling\<close>

lemma fold_keeps: "P s \<Longrightarrow> (\<And>x s. P s \<Longrightarrow> P (f x s)) \<Longrightarrow> P (fold f xs s)"
  by (induction xs arbitrary: s) simp_all

definition reconciling_ok :: "reader \<Rightarrow> reconciling \<Rightarrow> bool" where
  "reconciling_ok r rp \<longleftrightarrow>
     re_lease (fst rp) = re_lease r \<and> re_inflight (fst rp) = re_inflight r \<and> re_seq r \<le> re_seq (fst rp) \<and>
     b_output (re_batch (fst rp)) = b_output (re_batch r) \<and>
     mset (batch_numbers (re_batch (fst rp))) + mset (map p_seq (snd rp)) =
       mset (batch_numbers (re_batch r)) + mset [re_seq r + 1..re_seq (fst rp)]"

lemma joined_numbers: "a' = a + d \<Longrightarrow> a + p = b + c \<Longrightarrow> c + d = e \<Longrightarrow> a' + p = b + e"
  for a :: "'a multiset"
  by (metis add.assoc add.commute)

lemma reconciling_extends:
  assumes "reconciling_ok r (q, ps)" and "extends [] q q'"
  shows "reconciling_ok r (q', ps)"
proof -
  have le: "re_seq r \<le> re_seq q" "re_seq q \<le> re_seq q'"
    using assms by (simp_all add: reconciling_ok_def extends_def)
  have "mset (batch_numbers (re_batch q')) + mset (map p_seq ps) =
      mset (batch_numbers (re_batch r)) + mset [re_seq r + 1..re_seq q']"
  proof (rule joined_numbers [OF _ _ mset_upto_append [OF le]])
    show "mset (batch_numbers (re_batch q')) = mset (batch_numbers (re_batch q)) + mset [re_seq q + 1..re_seq q']"
      using assms(2) by (simp add: extends_def)
    show "mset (batch_numbers (re_batch q)) + mset (map p_seq ps) =
        mset (batch_numbers (re_batch r)) + mset [re_seq r + 1..re_seq q]"
      using assms(1) by (simp add: reconciling_ok_def)
  qed
  with assms le show ?thesis by (simp add: reconciling_ok_def extends_def)
qed

lemma reconciling_fact: "reserved_list f = [] \<Longrightarrow> reconciling_ok r rp \<Longrightarrow> reconciling_ok r (reconcile_fact f rp)"
  by (cases rp) (auto simp: reconcile_fact_def intro: reconciling_extends extends_add_fact)

lemma reconciling_close: "reconciling_ok r rp \<Longrightarrow> reconciling_ok r (reconcile_close status xid rp)"
  by (cases rp) (auto simp: reconcile_close_def intro: reconciling_extends extends_close)

lemma reconciling_lose: "reconciling_ok r rp \<Longrightarrow> reconciling_ok r (lose_response rid rp)"
proof -
  assume ok: "reconciling_ok r rp"
  obtain q ps where rp: "rp = (q, ps)" by (cases rp)
  define f where "f = ResponseEnd rid OutcomeFailed (Some ''runtime_lost'') None
    (Some (JObj (lost_response_error ''runtime_lost'')))"
  define n where "n = re_seq q"
  define new where "new = number_parts (Some rid) (lost_response_parts rid ''runtime_lost'') n"
  have seqs: "map p_seq new = [n + 1..n + int (length new)]" by (simp add: new_def number_parts_seqs)
  have q: "reconciling_ok r (add_fact f q, ps)"
    using ok unfolding rp by (rule reconciling_extends) (simp add: f_def extends_add_fact)
  have lose: "lose_response rid rp = ((add_fact f q)\<lparr>re_seq := n + int (length new)\<rparr>, ps @ new)"
    by (simp add: lose_response_def rp f_def n_def new_def Let_def add_fact_def)
  have le: "re_seq r \<le> n" using q by (simp add: reconciling_ok_def n_def add_fact_def)
  have "mset (map p_seq (ps @ new)) + mset (batch_numbers (re_batch (add_fact f q))) =
      mset (batch_numbers (re_batch r)) + mset [re_seq r + 1..n + int (length new)]"
  proof (rule joined_numbers [OF _ _ mset_upto_append [OF le]])
    show "mset (map p_seq (ps @ new)) = mset (map p_seq ps) + mset [n + 1..n + int (length new)]"
      by (simp only: map_append mset_append seqs)
    show "mset (map p_seq ps) + mset (batch_numbers (re_batch (add_fact f q))) =
        mset (batch_numbers (re_batch r)) + mset [re_seq r + 1..n]"
      using q by (simp add: reconciling_ok_def n_def add_fact_def add.commute)
  qed simp
  with q le show ?thesis by (simp add: lose reconciling_ok_def n_def add_fact_def add.commute)
qed

lemma reconcile_facts_ok: "reconciling_ok r (reconcile_facts ro rx state r)"
proof -
  have start: "reconciling_ok r (r, [])" by (simp add: reconciling_ok_def)
  show ?thesis
    unfolding reconcile_facts_def Let_def
    by (intro fold_keeps [where P = "reconciling_ok r"] start)
       (auto simp: start intro!: fold_keeps [where P = "reconciling_ok r"] reconciling_fact reconciling_close
         reconciling_lose split: prod.splits)
qed

lemma extends_reconciled: "extends (snd rp) r (reconciled state rp)" if "reconciling_ok r rp"
proof -
  have "mset (batch_numbers (re_batch (reconciled state rp))) =
      mset (batch_numbers (re_batch (fst rp))) + mset (map p_seq (snd rp))"
    by (simp add: reconciled_def batch_numbers_def)
  with that show ?thesis by (simp add: reconciling_ok_def extends_def) (simp add: reconciled_def)
qed

section \<open>Numbers and the log\<close>

definition inflight_numbers :: "reader \<Rightarrow> int list" where
  "inflight_numbers r = (case re_inflight r of None \<Rightarrow> [] | Some b \<Rightarrow> batch_numbers b)"

definition numbering_ok :: "db \<Rightarrow> reader \<Rightarrow> bool" where
  "numbering_ok db r \<longleftrightarrow>
     contiguous (re_sid r) db \<and>
     (\<exists>m. max_seq (re_sid r) db \<le> m \<and> m \<le> re_seq r \<and>
        mset (inflight_numbers r) = mset [max_seq (re_sid r) db + 1..m] \<and>
        mset (batch_numbers (re_batch r)) = mset [m + 1..re_seq r])"

lemma numbering_extends: "extends ps r r' \<Longrightarrow> numbering_ok db r \<Longrightarrow> numbering_ok db r'"
  unfolding numbering_ok_def extends_def inflight_numbers_def
  using mset_upto_append order_trans by (metis (no_types, lifting))

lemma numbering_begin:
  assumes "numbering_ok db r" and "re_inflight r = None"
  shows "numbering_ok db (begin_commit r)"
proof -
  from assms obtain m where m: "max_seq (re_sid r) db \<le> m" "m \<le> re_seq r" "contiguous (re_sid r) db"
    "mset [] = mset [max_seq (re_sid r) db + 1..m]" "mset (batch_numbers (re_batch r)) = mset [m + 1..re_seq r]"
    by (auto simp: numbering_ok_def inflight_numbers_def)
  then have top: "m = max_seq (re_sid r) db" by simp
  have "inflight_numbers (begin_commit r) = batch_numbers (re_batch r)"
    by (auto simp: inflight_numbers_def begin_commit_def batch_nonempty_def batch_numbers_def)
  with m top show ?thesis
    by (auto simp: numbering_ok_def begin_commit_def intro!: exI [of _ "re_seq r"])
qed

lemma numbering_start: "contiguous (l_session_id lease) db \<Longrightarrow>
    exists_row (\<lambda>s. s_session_id s = l_session_id lease) (t_sessions db) \<Longrightarrow>
    start_reader lease db = Inr (r, cursor) \<Longrightarrow> numbering_ok db r"
  by (auto simp: start_reader_def resume_point_def numbering_ok_def new_reader_def inflight_numbers_def
      rbind_Inr_iff exists_row_iff first_row_None_iff split: option.splits)

section \<open>What a commit stores\<close>

lemma mset_upto_distinct: "mset xs = mset [a..b::int] \<Longrightarrow> distinct xs \<and> set xs = {a..b}"
  by (metis mset_eq_imp_distinct_iff mset_eq_setD distinct_upto set_upto)

lemma record_numbers:
  assumes "record_batch lease b ttl now db = (Inr (Some out), db')"
    and "contiguous (l_session_id lease) db"
    and "mset (batch_numbers b) = mset [max_seq (l_session_id lease) db + 1..m]"
    and "max_seq (l_session_id lease) db \<le> m"
  shows "contiguous (l_session_id lease) db' \<and> max_seq (l_session_id lease) db' = m \<and>
    (\<exists>out'. session_log (l_session_id lease) db' =
       session_log (l_session_id lease) db @ map (output_row_of (l_session_id lease) now) out' \<and>
       set (b_output b) \<subseteq> set out')"
proof -
  let ?sid = "l_session_id lease"
  note nums = mset_upto_distinct [OF assms(3)]
  show ?thesis
  proof (cases "batch_nonempty b")
    case False
    then have "b_output b = []" "batch_numbers b = []"
      by (simp_all add: batch_nonempty_def batch_numbers_def)
    moreover have "db' = snd (renew_reader lease ttl now db)"
      using assms(1) False by (auto simp: record_batch_def split: prod.splits if_splits)
    moreover have "session_log ?sid db' = session_log ?sid db" using calculation by (simp add: session_log_def)
    moreover have "m = max_seq ?sid db" using assms(3,4) calculation by simp
    ultimately show ?thesis using assms(2) by (auto simp: contiguous_def max_seq_def)
  next
    case True
    with assms(1) have work: "record_work lease b ttl now db = Inr (Some out, db')"
      by (simp add: record_batch_def transaction_commit)
    then obtain db3 where out: "rendered_output ?sid db3 b = Inr out" by (rule record_work_Some) blast
    have "contiguous ?sid db'" "max_seq ?sid db' = m"
      using record_contiguous [OF work assms(2), of m] nums assms(4) by (simp_all add: set_batch_numbers)
    moreover have "session_log ?sid db' = session_log ?sid db @ map (output_row_of ?sid now) out"
      using record_output(1) [OF work]
      by (simp add: session_log_def of_session_def output_row_of_def o_def filter_map)
    ultimately show ?thesis using rendered_keeps [OF out] nums by blast
  qed
qed

section \<open>What is published is what is stored\<close>

definition stored_part :: "string \<Rightarrow> db \<Rightarrow> int \<Rightarrow> obj option" where
  "stored_part sid db n = map_option o_part (first_row (\<lambda>o'. o_seq o' = n) (session_log sid db))"

definition pending_parts :: "reader \<Rightarrow> output_part list" where
  "pending_parts r = (case re_inflight r of None \<Rightarrow> [] | Some b \<Rightarrow> b_output b) @ b_output (re_batch r)"

text \<open>The part a number stands for: stored, or waiting in the reader to be stored.\<close>

definition backed :: "rworld \<Rightarrow> int \<Rightarrow> obj \<Rightarrow> bool" where
  "backed w n part \<longleftrightarrow>
     stored_part (re_sid (rw_reader w)) (rw_db w) n = Some part \<or>
     (\<exists>p \<in> set (pending_parts (rw_reader w)). p_seq p = n \<and> p_part p = part)"

definition content_of :: "rworld \<Rightarrow> int \<Rightarrow> obj" where
  "content_of w n =
     (case stored_part (re_sid (rw_reader w)) (rw_db w) n of
        Some part \<Rightarrow> part
      | None \<Rightarrow> (case first_row (\<lambda>p. p_seq p = n) (pending_parts (rw_reader w)) of Some p \<Rightarrow> p_part p | None \<Rightarrow> []))"

lemma stored_part_append:
  "session_log sid db' = session_log sid db @ rows \<Longrightarrow> stored_part sid db n = Some part \<Longrightarrow> stored_part sid db' n = Some part"
  by (auto simp: stored_part_def first_row_append split: option.split)

lemma log_seqs: "contiguous sid db \<Longrightarrow> o' \<in> set (session_log sid db) \<Longrightarrow> o_seq o' \<le> max_seq sid db"
proof -
  assume c: "contiguous sid db" and "o' \<in> set (session_log sid db)"
  then have "o_seq o' \<in> set (map o_seq (session_log sid db))" by simp
  also have "\<dots> = {1..max_seq sid db}" using c by (simp only: contiguous_def max_seq_contiguous [OF c] set_upto)
  finally show ?thesis by simp
qed

lemma distinct_log: "contiguous sid db \<Longrightarrow> distinct (map o_seq (session_log sid db))"
  by (simp add: contiguous_def)

lemma stored_part_mem:
  assumes "contiguous sid db" and "o' \<in> set (session_log sid db)"
  shows "stored_part sid db (o_seq o') = Some (o_part o')"
  using first_row_unique [OF distinct_log [OF assms(1)] assms(2) refl] by (simp add: stored_part_def)

lemma pending_numbers:
  assumes "numbering_ok db r"
  shows "distinct (map p_seq (pending_parts r))" and "p \<in> set (pending_parts r) \<Longrightarrow> max_seq (re_sid r) db < p_seq p"
proof -
  from assms obtain m where "max_seq (re_sid r) db \<le> m"
    "mset (inflight_numbers r) = mset [max_seq (re_sid r) db + 1..m]" "mset (batch_numbers (re_batch r)) = mset [m + 1..re_seq r]"
    by (auto simp: numbering_ok_def)
  then have "distinct (inflight_numbers r)" "set (inflight_numbers r) = {max_seq (re_sid r) db + 1..m}"
    "distinct (batch_numbers (re_batch r))" "set (batch_numbers (re_batch r)) = {m + 1..re_seq r}"
    by (simp_all add: mset_upto_distinct)
  moreover have "p_seq ` set (case re_inflight r of None \<Rightarrow> [] | Some b \<Rightarrow> b_output b) \<subseteq> set (inflight_numbers r)"
    and "p_seq ` set (b_output (re_batch r)) \<subseteq> set (batch_numbers (re_batch r))"
    by (auto simp: inflight_numbers_def batch_numbers_def split: option.splits)
  moreover have "distinct (map p_seq (case re_inflight r of None \<Rightarrow> [] | Some b \<Rightarrow> b_output b))"
    using calculation(1) by (auto simp: inflight_numbers_def batch_numbers_def split: option.splits)
  ultimately show "distinct (map p_seq (pending_parts r))"
    and "p \<in> set (pending_parts r) \<Longrightarrow> max_seq (re_sid r) db < p_seq p"
    using \<open>max_seq (re_sid r) db \<le> m\<close> by (fastforce simp: pending_parts_def batch_numbers_def)+
qed

lemma backed_content:
  assumes "numbering_ok (rw_db w) (rw_reader w)" and "backed w n part"
  shows "content_of w n = part"
  using assms(2) unfolding backed_def
proof
  assume "stored_part (re_sid (rw_reader w)) (rw_db w) n = Some part"
  then show ?thesis by (simp add: content_of_def)
next
  assume "\<exists>p \<in> set (pending_parts (rw_reader w)). p_seq p = n \<and> p_part p = part"
  then obtain p where p: "p \<in> set (pending_parts (rw_reader w))" "p_seq p = n" "p_part p = part" by blast
  from pending_numbers(2) [OF assms(1) p(1)] p(2) log_seqs
  have "stored_part (re_sid (rw_reader w)) (rw_db w) n = None"
    using assms(1) by (fastforce simp: stored_part_def first_row_None_iff numbering_ok_def)
  moreover have "first_row (\<lambda>x. p_seq x = n) (pending_parts (rw_reader w)) = Some p"
    using first_row_unique [OF pending_numbers(1) [OF assms(1)] p(1,2)] .
  ultimately show ?thesis using p by (simp add: content_of_def)
qed

text \<open>Live parts that wait in the subscriptions of a session.\<close>

definition live_items :: "string \<Rightarrow> session_feed \<Rightarrow> (int \<times> obj) set" where
  "live_items sid feed =
     {(n, part). \<exists>h sub rid. (h, sub) \<in> set (fd_subscribers feed) \<and> sb_session_id sub = sid \<and>
        LivePart n rid part \<in> set (sb_queue sub)}"

lemma put_live_items: "x \<in> set (sb_queue (put_live item sub)) \<Longrightarrow> x = item \<or> x = Resync \<or> x \<in> set (sb_queue sub)"
  by (auto simp: put_live_def put_nowait_def split: if_splits)

lemma put_live_session [simp]: "sb_session_id (put_live item sub) = sb_session_id sub"
  by (simp add: put_live_def put_nowait_def)

lemma live_items_publish:
  "live_items sid (publish_live sid' (live_part p) feed) \<subseteq> insert (p_seq p, p_part p) (live_items sid feed)"
  by (auto simp: live_items_def publish_live_def each_subscriber_def live_part_def split: if_splits
      dest!: put_live_items)

lemma live_items_publish_parts:
  "live_items sid (publish_parts sid' ps feed) \<subseteq> (\<lambda>p. (p_seq p, p_part p)) ` set ps \<union> live_items sid feed"
proof (induction ps arbitrary: feed)
  case Nil
  then show ?case by (simp add: publish_parts_def)
next
  case (Cons p ps)
  from Cons [of "publish_live sid' (live_part p) feed"] live_items_publish [of sid sid' p feed]
  show ?case by (auto simp: publish_parts_def)
qed

section \<open>A reader at work\<close>

text \<open>
  What can happen while one reader runs, in any order: its read, commit and deliver loops, the
  rest of the platform writing to the store (never to this session's log while the lease is
  held), and pages taking from their queues. The second component holds the platform's
  parts that are numbered but not yet published; publishing one waits for the commit it is
  in, after which it is pending no more.
\<close>

type_synonym running = "rworld \<times> output_part list"

inductive reader_step :: "running \<Rightarrow> running \<Rightarrow> bool" where
  reads: "read_event cards event (rw_reader w, rw_feed w) = (r, feed) \<Longrightarrow>
    reader_step (w, aw) (w\<lparr>rw_reader := r, rw_feed := feed\<rparr>, aw)"
| closes: "reader_step (w, aw) (upd_reader (reader_close_interaction xid status) w, aw)"
| faults: "reader_step (w, aw) (upd_reader (protocol_fault message) w, aw)"
| reconciles: "reconcile_facts ro rx state (rw_reader w) = rp \<Longrightarrow>
    reader_step (w, aw) (upd_reader (\<lambda>_. reconciled state rp) w, aw @ snd rp)"
| numbers: "number_parts rid parts (re_seq (rw_reader w)) = ps \<Longrightarrow>
    reader_step (w, aw) (upd_reader (add_numbered ps) w, aw @ ps)"
| begins: "re_inflight (rw_reader w) = None \<Longrightarrow> reader_step (w, aw) (upd_reader begin_commit w, aw)"
| ends: "end_commit now w = (w', None) \<Longrightarrow> reader_step (w, aw) (w', aw)"
| publishes: "p \<in> set aw \<Longrightarrow> p \<notin> set (pending_parts (rw_reader w)) \<Longrightarrow>
    reader_step (w, aw) (publish_world [p] w, remove1 p aw)"
| permission: "reader_step (w, aw) (fst (sync_permission_mode refused w), aw)"
| called: "reader_step (w, aw) (calls cs w, aw)"
| elsewhere: "session_log (re_sid (rw_reader w)) db = session_log (re_sid (rw_reader w)) (rw_db w) \<Longrightarrow>
    reader_step (w, aw) (w\<lparr>rw_db := db\<rparr>, aw)"
| taken: "live_items (re_sid (rw_reader w)) feed \<subseteq> live_items (re_sid (rw_reader w)) (rw_feed w) \<Longrightarrow>
    reader_step (w, aw) (w\<lparr>rw_feed := feed\<rparr>, aw)"

inductive_cases reader_stepE [elim!]: "reader_step (w, aw) s'"

definition run_ok :: "running \<Rightarrow> bool" where
  "run_ok s \<longleftrightarrow>
     numbering_ok (rw_db (fst s)) (rw_reader (fst s)) \<and>
     (\<forall>(n, part) \<in> live_items (re_sid (rw_reader (fst s))) (rw_feed (fst s)). backed (fst s) n part) \<and>
     (\<forall>p \<in> set (snd s). backed (fst s) (p_seq p) (p_part p))"

text \<open>Two worlds whose readers only grew, on the same log.\<close>

lemma pending_extends: "extends ps r r' \<Longrightarrow> set (pending_parts r') = set (pending_parts r) \<union> set ps"
  by (auto simp: extends_def pending_parts_def)

lemma backed_extends:
  assumes "extends ps (rw_reader w) (rw_reader w')" and "rw_db w' = rw_db w"
  shows "backed w n part \<Longrightarrow> backed w' n part" and "p \<in> set ps \<Longrightarrow> backed w' (p_seq p) (p_part p)"
  using assms pending_extends [OF assms(1)] by (auto simp: backed_def extends_def)

lemma backed_same:
  "rw_reader w' = rw_reader w \<Longrightarrow> session_log (re_sid (rw_reader w)) (rw_db w') = session_log (re_sid (rw_reader w)) (rw_db w) \<Longrightarrow>
     backed w' n part = backed w n part"
  by (simp add: backed_def stored_part_def)

lemma run_ok_extends:
  assumes ok: "run_ok (w, aw)" and grown: "extends ps (rw_reader w) (rw_reader w')" "rw_db w' = rw_db w"
    and feed: "live_items (re_sid (rw_reader w)) (rw_feed w') \<subseteq>
      (\<lambda>p. (p_seq p, p_part p)) ` set ps \<union> live_items (re_sid (rw_reader w)) (rw_feed w)"
    and waits: "set aw' \<subseteq> set aw \<union> set ps"
  shows "run_ok (w', aw')"
proof -
  have "numbering_ok (rw_db w') (rw_reader w')"
    using ok grown numbering_extends by (simp add: run_ok_def)
  moreover have "re_sid (rw_reader w') = re_sid (rw_reader w)" using extends_lease [OF grown(1)] by simp
  moreover have "backed w' n part" if "(n, part) \<in> live_items (re_sid (rw_reader w)) (rw_feed w')" for n part
  proof -
    from that feed consider p where "p \<in> set ps" "n = p_seq p" "part = p_part p"
      | "(n, part) \<in> live_items (re_sid (rw_reader w)) (rw_feed w)" by blast
    then show ?thesis using ok backed_extends [OF grown] by cases (auto simp: run_ok_def)
  qed
  moreover have "backed w' (p_seq p) (p_part p)" if "p \<in> set aw'" for p
    using that waits ok backed_extends [OF grown] by (auto simp: run_ok_def)
  ultimately show ?thesis by (auto simp: run_ok_def)
qed

lemma run_ok_reader:
  "run_ok (w, aw) \<Longrightarrow> extends [] (rw_reader w) (f (rw_reader w)) \<Longrightarrow> run_ok (upd_reader f w, aw)"
  by (rule run_ok_extends [of w aw "[]"]) (auto simp: upd_reader_def)

text \<open>Commits.\<close>

lemma pending_begin: "re_inflight r = None \<Longrightarrow> set (pending_parts (begin_commit r)) = set (pending_parts r)"
  by (auto simp: pending_parts_def begin_commit_def batch_nonempty_def empty_batch_def)

lemma end_commit_cases:
  assumes "end_commit now w = (w', None)"
  obtains (nothing) "re_inflight (rw_reader w) = None" "w' = w"
  | (stored) b out db' cs where "re_inflight (rw_reader w) = Some b"
      "record_batch (re_lease (rw_reader w)) b LEASE_TTL_S now (rw_db w) = (Inr (Some out), db')"
      "w' = calls cs (upd_reader (\<lambda>r. r\<lparr>re_inflight := None\<rparr>) (w\<lparr>rw_db := db'\<rparr>))"
  using assms unfolding end_commit_def
  by (auto simp: Let_def split: option.splits prod.splits sum.splits)

lemma end_commit_ok:
  assumes "numbering_ok (rw_db w) (rw_reader w)" and "end_commit now w = (w', None)"
  shows "numbering_ok (rw_db w') (rw_reader w') \<and> re_lease (rw_reader w') = re_lease (rw_reader w) \<and>
    rw_feed w' = rw_feed w \<and> (\<forall>n part. backed w n part \<longrightarrow> backed w' n part)"
  using assms(2)
proof (cases rule: end_commit_cases)
  case nothing
  with assms(1) show ?thesis by simp
next
  case (stored b out db' cs)
  let ?r = "rw_reader w" and ?sid = "re_sid (rw_reader w)"
  from assms(1) obtain m where m: "contiguous ?sid (rw_db w)" "max_seq ?sid (rw_db w) \<le> m" "m \<le> re_seq ?r"
    "mset (batch_numbers b) = mset [max_seq ?sid (rw_db w) + 1..m]"
    "mset (batch_numbers (re_batch ?r)) = mset [m + 1..re_seq ?r]"
    by (auto simp: numbering_ok_def inflight_numbers_def stored(1))
  from record_numbers [OF stored(2) m(1,4,2)] obtain out' where
    log: "contiguous ?sid db'" "max_seq ?sid db' = m" "set (b_output b) \<subseteq> set out'"
      "session_log ?sid db' = session_log ?sid (rw_db w) @ map (output_row_of ?sid now) out'"
    by blast
  have "numbering_ok (rw_db w') (rw_reader w')"
    using log m(3,5)
    by (auto simp: stored(3) numbering_ok_def calls_def upd_reader_def inflight_numbers_def intro!: exI [of _ m])
  moreover have "backed w' n part" if "backed w n part" for n part
    using that unfolding backed_def
  proof
    assume "stored_part ?sid (rw_db w) n = Some part"
    then show "stored_part (re_sid (rw_reader w')) (rw_db w') n = Some part \<or>
        (\<exists>p \<in> set (pending_parts (rw_reader w')). p_seq p = n \<and> p_part p = part)"
      using stored_part_append [OF log(4)] by (simp add: stored(3) calls_def upd_reader_def)
  next
    assume "\<exists>p \<in> set (pending_parts ?r). p_seq p = n \<and> p_part p = part"
    then obtain p where p: "p \<in> set (b_output b) \<or> p \<in> set (b_output (re_batch ?r))" "p_seq p = n" "p_part p = part"
      by (auto simp: pending_parts_def stored(1))
    from p(1) show "stored_part (re_sid (rw_reader w')) (rw_db w') n = Some part \<or>
        (\<exists>p \<in> set (pending_parts (rw_reader w')). p_seq p = n \<and> p_part p = part)"
    proof
      assume "p \<in> set (b_output b)"
      then have "output_row_of ?sid now p \<in> set (session_log ?sid db')" using log(3,4) by auto
      from stored_part_mem [OF log(1) this] p show ?thesis
        by (simp add: stored(3) calls_def upd_reader_def output_row_of_def)
    next
      assume "p \<in> set (b_output (re_batch ?r))"
      with p show ?thesis by (auto simp: stored(3) calls_def upd_reader_def pending_parts_def)
    qed
  qed
  ultimately show ?thesis by (simp add: stored(3) calls_def upd_reader_def)
qed

text \<open>Every step keeps the invariant, and what is backed stays so.\<close>

definition keeps :: "running \<Rightarrow> running \<Rightarrow> bool" where
  "keeps s s' \<longleftrightarrow>
     run_ok s' \<and> re_lease (rw_reader (fst s')) = re_lease (rw_reader (fst s)) \<and>
     (\<forall>n part. backed (fst s) n part \<longrightarrow> backed (fst s') n part)"

lemma keeps_extends:
  assumes "run_ok (w, aw)" and "extends ps (rw_reader w) (rw_reader w')" and "rw_db w' = rw_db w"
    and "live_items (re_sid (rw_reader w)) (rw_feed w') \<subseteq>
      (\<lambda>p. (p_seq p, p_part p)) ` set ps \<union> live_items (re_sid (rw_reader w)) (rw_feed w)"
    and "set aw' \<subseteq> set aw \<union> set ps"
  shows "keeps (w, aw) (w', aw')"
  using run_ok_extends [OF assms] extends_lease [OF assms(2)] backed_extends(1) [OF assms(2,3)]
  by (simp add: keeps_def)

lemma keeps_reader: "run_ok (w, aw) \<Longrightarrow> extends ps (rw_reader w) (f (rw_reader w)) \<Longrightarrow> set aw' \<subseteq> set aw \<union> set ps \<Longrightarrow>
    keeps (w, aw) (upd_reader f w, aw')"
  by (erule keeps_extends) (auto simp: upd_reader_def)

lemma keeps_same_reader:
  assumes "run_ok (w, aw)" and "rw_reader w' = rw_reader w"
    and "session_log (re_sid (rw_reader w)) (rw_db w') = session_log (re_sid (rw_reader w)) (rw_db w)"
    and "\<And>n part. (n, part) \<in> live_items (re_sid (rw_reader w)) (rw_feed w') \<Longrightarrow> backed w n part"
    and "set aw' \<subseteq> set aw"
  shows "keeps (w, aw) (w', aw')"
proof -
  have "contiguous (re_sid (rw_reader w)) (rw_db w') = contiguous (re_sid (rw_reader w)) (rw_db w)"
    and "max_seq (re_sid (rw_reader w)) (rw_db w') = max_seq (re_sid (rw_reader w)) (rw_db w)"
    by (simp_all add: contiguous_def max_seq_def assms(3))
  then have "numbering_ok (rw_db w') (rw_reader w')"
    using assms(1,2) by (simp add: run_ok_def numbering_ok_def)
  moreover have same: "backed w' n part = backed w n part" for n part using backed_same [OF assms(2,3)] .
  ultimately show ?thesis using assms by (auto simp: keeps_def run_ok_def)
qed

lemma step_keeps:
  assumes "reader_step s s'" and "run_ok s"
  shows "keeps s s'"
  using assms
proof (induction rule: reader_step.induct)
  case (reads cards event w r feed aw)
  from read_event_extends [of "rw_reader w" cards event "rw_feed w"] reads(1) obtain ps where
    ps: "extends ps (rw_reader w) r" "feed = publish_parts (re_sid (rw_reader w)) ps (rw_feed w)" by auto
  show ?case
    using reads(2) ps(1) live_items_publish_parts [of "re_sid (rw_reader w)" "re_sid (rw_reader w)" ps "rw_feed w"]
    by (intro keeps_extends [of w aw ps]) (simp_all add: ps(2))
next
  case (closes w aw xid status)
  then show ?case by (rule keeps_reader) (rule extends_close, simp)
next
  case (faults w aw message)
  have "extends [] (rw_reader w) (protocol_fault message (rw_reader w))"
    by (rule extends_same) (simp_all add: protocol_fault_def)
  with faults show ?case by (rule keeps_reader) simp
next
  case (reconciles ro rx state w rp aw)
  have "extends (snd rp) (rw_reader w) (reconciled state rp)"
    using reconcile_facts_ok [of "rw_reader w" ro rx state] reconciles(1) by (intro extends_reconciled) simp
  with reconciles(2) show ?case by (rule keeps_reader) simp
next
  case (numbers rid parts w ps aw)
  have "extends ps (rw_reader w) (add_numbered ps (rw_reader w))"
    using number_parts_seqs [of rid parts "re_seq (rw_reader w)"] numbers(1)
    by (intro extends_add_numbered) auto
  with numbers(2) show ?case by (rule keeps_reader) simp
next
  case (begins w aw)
  have "numbering_ok (rw_db w) (begin_commit (rw_reader w))"
    using begins by (intro numbering_begin) (simp_all add: run_ok_def)
  moreover have "backed (upd_reader begin_commit w) n part = backed w n part" for n part
    using pending_begin [OF begins(1)] by (simp add: backed_def upd_reader_def begin_commit_def)
  ultimately show ?case
    using begins(2) by (auto simp: keeps_def run_ok_def upd_reader_def begin_commit_def)
next
  case (ends now w w' aw)
  with end_commit_ok [OF _ ends(1)] show ?case by (auto simp: keeps_def run_ok_def)
next
  case (publishes p aw w)
  have "backed w n part" if "(n, part) \<in> live_items (re_sid (rw_reader w)) (rw_feed (publish_world [p] w))" for n part
    using that live_items_publish_parts [of "re_sid (rw_reader w)" "re_sid (rw_reader w)" "[p]" "rw_feed w"] publishes
    by (auto simp: publish_world_def run_ok_def)
  with publishes(3) set_remove1_subset [of p aw] show ?case
    by (intro keeps_same_reader) (simp_all add: publish_world_def)
next
  case (permission w aw refused)
  have "extends [] (rw_reader w) ((rw_reader w)\<lparr>re_permission_failure := f\<rparr>)" for f
    by (rule extends_same) simp_all
  with permission show ?case
    by (auto simp: sync_permission_mode_def intro!: keeps_reader)
next
  case (called w aw cs)
  then show ?case by (intro keeps_same_reader) (auto simp: calls_def run_ok_def)
next
  case (elsewhere w db aw)
  then show ?case by (intro keeps_same_reader) (auto simp: run_ok_def)
next
  case (taken w feed aw)
  then show ?case by (intro keeps_same_reader) (auto simp: run_ok_def)
qed

lemma keeps_refl: "run_ok s \<Longrightarrow> keeps s s"
  by (simp add: keeps_def)

lemma keeps_trans: "keeps s s' \<Longrightarrow> keeps s' s'' \<Longrightarrow> keeps s s''"
  by (auto simp: keeps_def)

abbreviation reader_runs :: "running \<Rightarrow> running \<Rightarrow> bool" where
  "reader_runs \<equiv> rtranclp reader_step"

lemma runs_keep: "reader_runs s s' \<Longrightarrow> run_ok s \<Longrightarrow> keeps s s'"
proof (induction rule: rtranclp_induct)
  case base
  then show ?case by (rule keeps_refl)
next
  case (step s' s'')
  then have "keeps s s'" by simp
  moreover from this have "keeps s' s''" using step by (intro step_keeps) (simp_all add: keeps_def)
  ultimately show ?case by (rule keeps_trans)
qed

lemma run_ok_start:
  assumes "contiguous (l_session_id lease) db" and "exists_row (\<lambda>s. s_session_id s = l_session_id lease) (t_sessions db)"
    and "start_reader lease db = Inr (r, cursor)" and "live_items (l_session_id lease) feed = {}"
  shows "run_ok (\<lparr>rw_reader = r, rw_feed = feed, rw_db = db, rw_calls = cs\<rparr>, [])"
proof -
  have "re_lease r = lease"
    using assms(3) by (auto simp: start_reader_def new_reader_def rbind_Inr_iff split: prod.splits)
  with numbering_start [OF assms(1-3)] assms(4) show ?thesis by (simp add: run_ok_def)
qed

section \<open>Pages beside a reader\<close>

text \<open>What a page can meet while the reader goes from \<open>s\<close> to \<open>s'\<close>.\<close>

definition visited_db :: "running \<Rightarrow> running \<Rightarrow> db \<Rightarrow> bool" where
  "visited_db s s' db \<longleftrightarrow> (\<exists>t. reader_runs s t \<and> reader_runs t s' \<and> db = rw_db (fst t))"

definition visited_item :: "running \<Rightarrow> running \<Rightarrow> feed_item \<Rightarrow> bool" where
  "visited_item s s' item \<longleftrightarrow>
     (case item of
        LivePart n rid part \<Rightarrow> (\<exists>t. reader_runs s t \<and> reader_runs t s' \<and>
          (n, part) \<in> live_items (re_sid (rw_reader (fst t))) (rw_feed (fst t)))
      | _ \<Rightarrow> True)"

lemma visited_db_agrees:
  assumes "run_ok s" and "visited_db s s' db"
  shows "log_agrees (re_sid (rw_reader (fst s))) (content_of (fst s')) db"
proof -
  from assms(2) obtain t where t: "reader_runs s t" "reader_runs t s'" "db = rw_db (fst t)"
    by (auto simp: visited_db_def)
  from runs_keep [OF t(1) assms(1)] have lt: "re_sid (rw_reader (fst t)) = re_sid (rw_reader (fst s))" and okt: "run_ok t"
    by (simp_all add: keeps_def)
  from runs_keep [OF t(2) okt] have ok': "run_ok s'" and kept: "\<And>n part. backed (fst t) n part \<Longrightarrow> backed (fst s') n part"
    by (simp_all add: keeps_def)
  have cont: "contiguous (re_sid (rw_reader (fst s))) db" using okt lt by (simp add: run_ok_def numbering_ok_def t(3))
  have "o_part row = content_of (fst s') (o_seq row)"
    if "row \<in> set (session_log (re_sid (rw_reader (fst s))) db)" for row
  proof -
    from stored_part_mem [OF cont that] have "backed (fst t) (o_seq row) (o_part row)" by (simp add: backed_def lt t(3))
    then have "content_of (fst s') (o_seq row) = o_part row"
      using ok' by (intro backed_content kept) (simp_all add: run_ok_def)
    then show ?thesis by simp
  qed
  with cont show ?thesis by (simp add: log_agrees_def list_all_iff)
qed

lemma visited_item_agrees:
  assumes "run_ok s" and "visited_item s s' item"
  shows "item_agrees (content_of (fst s')) item"
proof (cases item)
  case (LivePart n rid part)
  with assms(2) obtain t where t: "reader_runs s t" "reader_runs t s'"
    "(n, part) \<in> live_items (re_sid (rw_reader (fst t))) (rw_feed (fst t))"
    by (auto simp: visited_item_def)
  have okt: "run_ok t" using runs_keep [OF t(1) assms(1)] by (simp add: keeps_def)
  with t(3) have "backed (fst t) n part" by (auto simp: run_ok_def)
  with runs_keep [OF t(2) okt] have "content_of (fst s') n = part"
    by (intro backed_content) (simp_all add: keeps_def run_ok_def)
  then show ?thesis by (simp add: LivePart)
qed simp_all

section \<open>Properties\<close>

text \<open>
  C4. While a reader runs, the session's log has no gaps and no number is used twice. Let it start
  on a log without gaps and with no live part of the session queued. From then on, however reading, committing, delivering, publishing, the rest of the platform and
  the pages interleave, the log is numbered 1, 2, ... in order; the batch a commit has taken
  and the one being filled hold exactly the numbers that follow, up to the last one given
  out; and every live part queued for a page is the part stored, or waiting to be stored,
  under its number.
\<close>

theorem reader_numbers_without_gaps:
  assumes "contiguous (l_session_id lease) db" and "exists_row (\<lambda>s. s_session_id s = l_session_id lease) (t_sessions db)"
    and "start_reader lease db = Inr (r, cursor)" and "live_items (l_session_id lease) feed = {}"
    and "reader_runs (\<lparr>rw_reader = r, rw_feed = feed, rw_db = db, rw_calls = []\<rparr>, []) (w, aw)"
  shows "contiguous (l_session_id lease) (rw_db w) \<and>
    mset (map o_seq (session_log (l_session_id lease) (rw_db w)) @ inflight_numbers (rw_reader w) @
      batch_numbers (re_batch (rw_reader w))) = mset [1..re_seq (rw_reader w)] \<and>
    (\<forall>(n, part) \<in> live_items (l_session_id lease) (rw_feed w). backed w n part)"
proof -
  let ?s = "(\<lparr>rw_reader = r, rw_feed = feed, rw_db = db, rw_calls = []\<rparr>, [])"
  have "re_lease r = lease"
    using assms(3) by (auto simp: start_reader_def new_reader_def rbind_Inr_iff split: prod.splits)
  with runs_keep [OF assms(5) run_ok_start [OF assms(1-4)]]
  have ok: "run_ok (w, aw)" and lease: "re_lease (rw_reader w) = lease" by (simp_all add: keeps_def)
  then obtain m where m: "contiguous (l_session_id lease) (rw_db w)" "max_seq (l_session_id lease) (rw_db w) \<le> m"
    "m \<le> re_seq (rw_reader w)" "mset (inflight_numbers (rw_reader w)) = mset [max_seq (l_session_id lease) (rw_db w) + 1..m]"
    "mset (batch_numbers (re_batch (rw_reader w))) = mset [m + 1..re_seq (rw_reader w)]"
    by (auto simp: run_ok_def numbering_ok_def)
  have log: "map o_seq (session_log (l_session_id lease) (rw_db w)) = [0 + 1..max_seq (l_session_id lease) (rw_db w)]"
    using m(1) by (simp add: contiguous_def max_seq_contiguous)
  have "0 \<le> max_seq (l_session_id lease) (rw_db w)" using m(1) by (simp add: max_seq_contiguous)
  then have "mset (map o_seq (session_log (l_session_id lease) (rw_db w)) @ inflight_numbers (rw_reader w) @
      batch_numbers (re_batch (rw_reader w))) = mset [0 + 1..re_seq (rw_reader w)]"
    unfolding mset_append log m(4,5) using m(2,3) by (simp add: mset_upto_append del: add_0)
  with ok m(1) lease show ?thesis by (simp add: run_ok_def)
qed

text \<open>A sample run: one page subscribed, one part of a response read and committed.\<close>

definition sample_feed :: session_feed where
  "sample_feed = snd (subscribe ''s'' empty_feed)"

definition sample_reader :: reader where
  "sample_reader = new_reader (sample_lease ''p1'' 1)"

definition sample_world :: rworld where
  "sample_world = \<lparr>rw_reader = sample_reader, rw_feed = sample_feed, rw_db = sample_claimed, rw_calls = []\<rparr>"

definition sample_event :: runtime_event where
  "sample_event = ResponseOutput (Some sample_cursor) (Some ''r'') sample_part"

definition sample_read :: rworld where
  "sample_read =
     (let rf = read_event (\<lambda>_. []) sample_event (rw_reader sample_world, rw_feed sample_world)
      in sample_world\<lparr>rw_reader := fst rf, rw_feed := snd rf\<rparr>)"

lemma sample_started: "start_reader (sample_lease ''p1'' 1) sample_claimed = Inr (sample_reader, None)"
  by code_simp

lemma sample_feed_quiet: "live_items ''s'' sample_feed = {}"
  by (auto simp: live_items_def sample_feed_def subscribe_def empty_feed_def new_subscription_def)

lemma sample_run: "reader_runs (sample_world, []) (sample_read, [])"
proof (rule r_into_rtranclp)
  have "read_event (\<lambda>_. []) sample_event (rw_reader sample_world, rw_feed sample_world) =
      (rw_reader sample_read, rw_feed sample_read)"
    by (simp add: sample_read_def Let_def prod_eq_iff)
  from reader_step.reads [of "\<lambda>_. []" sample_event sample_world, OF this]
  show "reader_step (sample_world, []) (sample_read, [])" by (simp add: sample_read_def Let_def)
qed

theorem reader_numbers_without_gaps_witness:
  "mset (batch_numbers (re_batch (rw_reader sample_read))) = mset [1, 2]"
proof -
  have sid: "l_session_id (sample_lease ''p1'' 1) = ''s''" by (simp add: sample_lease_def)
  have "contiguous ''s'' sample_claimed" by code_simp
  moreover have "exists_row (\<lambda>s. s_session_id s = ''s'') (t_sessions sample_claimed)" by code_simp
  ultimately have "mset (map o_seq (session_log ''s'' (rw_db sample_read)) @ inflight_numbers (rw_reader sample_read) @
      batch_numbers (re_batch (rw_reader sample_read))) = mset [1..re_seq (rw_reader sample_read)]"
    using reader_numbers_without_gaps [of "sample_lease ''p1'' 1", unfolded sid, OF _ _ sample_started sample_feed_quiet
        sample_run [unfolded sample_world_def]] by blast
  moreover have "re_seq (rw_reader sample_read) = 2" "map o_seq (session_log ''s'' (rw_db sample_read)) = []"
    "inflight_numbers (rw_reader sample_read) = []" "[1..2::int] = [1, 2]"
    by code_simp+
  ultimately show ?thesis by simp
qed

text \<open>
  C5. A page beside a running reader shows the conversation exactly. Let a reader run from its
  start, on a log without gaps and with no live part of the session queued, to some state, and let a page follow the session meanwhile: its log reads find the
  store as it was at any moments of the run, and the live parts it receives were queued for
  it during the run. Then the page shows exactly the visible parts of the numbers after
  \<open>after_seq\<close>, each once, in order, with the content the run's last state has stored or is
  about to store under them.
\<close>

theorem page_follows_reader:
  assumes "contiguous (l_session_id lease) db" and "exists_row (\<lambda>s. s_session_id s = l_session_id lease) (t_sessions db)"
    and "start_reader lease db = Inr (r, cursor)" and "live_items (l_session_id lease) feed = {}"
    and "s = (\<lparr>rw_reader = r, rw_feed = feed, rw_db = db, rw_calls = []\<rparr>, [])"
    and "list_all (visited_db s s') dbs"
    and "list_all (\<lambda>event. visited_item s s' (fst event) \<and> list_all (visited_db s s') (snd event)) events"
    and "0 \<le> after_seq" and "follow_output (l_session_id lease) after_seq dbs events = (ys, end)"
  shows "\<exists>n \<ge> after_seq. from_the_log ys = shown_from (content_of (fst s')) after_seq n"
proof -
  have ok: "run_ok s" unfolding assms(5) by (rule run_ok_start [OF assms(1-4)])
  have lease: "re_sid (rw_reader (fst s)) = l_session_id lease"
    using assms(3) by (auto simp: assms(5) start_reader_def new_reader_def rbind_Inr_iff split: prod.splits)
  note agrees = visited_db_agrees [OF ok, unfolded lease] visited_item_agrees [OF ok]
  have "list_all (log_agrees (l_session_id lease) (content_of (fst s'))) dbs"
    using assms(6) agrees(1) by (auto simp: list_all_iff)
  moreover have "list_all (event_agrees (l_session_id lease) (content_of (fst s'))) events"
    using assms(7) agrees by (auto simp: list_all_iff event_agrees_def)
  ultimately show ?thesis using follow_output_shown [OF _ _ assms(8,9)] by blast
qed

theorem page_follows_reader_witness:
  "\<exists>n \<ge> 0. from_the_log (fst (follow_output ''s'' 0 [sample_claimed] [(LivePart 2 (Some ''r'') sample_part, [])])) =
     shown_from (content_of sample_read) 0 n"
proof -
  have sid: "l_session_id (sample_lease ''p1'' 1) = ''s''" by (simp add: sample_lease_def)
  have start: "contiguous ''s'' sample_claimed" "exists_row (\<lambda>s. s_session_id s = ''s'') (t_sessions sample_claimed)"
    by code_simp+
  have "visited_db (sample_world, []) (sample_read, []) sample_claimed"
  proof -
    have "rw_db sample_world = sample_claimed" by (simp add: sample_world_def)
    with sample_run show ?thesis
      unfolding visited_db_def by (intro exI [of _ "(sample_world, [])"]) simp
  qed
  moreover have "visited_item (sample_world, []) (sample_read, []) (LivePart 2 (Some ''r'') sample_part)"
  proof -
    have "fd_subscribers (rw_feed sample_read) = [(0, \<lparr>sb_session_id = ''s'',
        sb_queue = [LivePart 2 (Some ''r'') sample_part], sb_live = 1, sb_dropped = False\<rparr>)]"
      and "re_sid (rw_reader sample_read) = ''s''"
      by code_simp+
    then have "(2, sample_part) \<in> live_items (re_sid (rw_reader sample_read)) (rw_feed sample_read)"
      by (auto simp: live_items_def)
    with sample_run show ?thesis by (auto simp: visited_item_def)
  qed
  ultimately show ?thesis
    using page_follows_reader [of "sample_lease ''p1'' 1", unfolded sid, OF start sample_started sample_feed_quiet
        sample_world_def [THEN arg_cong [of _ _ "\<lambda>w. (w, [])"]],
        of "(sample_read, [])" "[sample_claimed]" "[(LivePart 2 (Some ''r'') sample_part, [])]" 0
        "fst (follow_output ''s'' 0 [sample_claimed] [(LivePart 2 (Some ''r'') sample_part, [])])"
        "snd (follow_output ''s'' 0 [sample_claimed] [(LivePart 2 (Some ''r'') sample_part, [])])"]
    by simp
qed

section \<open>A takeover\<close>

text \<open>
  A reader that takes over numbers the same event differently. A reader that has positioned
  a response gives that response's next content part the next number; a reader that resumes
  at the same place has not positioned the response, so it first reserves a number for the
  position again and the same part gets the number after it.
\<close>

theorem takeover_renumbers:
  assumes "rid \<noteq> []" and "get frame ''type'' \<notin> set silent_types" and "get frame ''transient'' \<noteq> JBool True"
    and "rid \<in> set (re_positioned r)"
    and "start_reader lease db = Inr (r', cursor')" and "re_seq r' = re_seq r"
  shows "map p_seq (b_output (re_batch (fst (take_event (ResponseOutput c (Some rid) frame) (r, feed))))) =
      map p_seq (b_output (re_batch r)) @ [re_seq r + 1] \<and>
    map p_seq (b_output (re_batch (fst (take_event (ResponseOutput c (Some rid) frame) (r', feed))))) = [re_seq r + 2]"
proof -
  have r': "re_positioned r' = []" "b_output (re_batch r') = []"
    using assms(5) by (auto simp: start_reader_def new_reader_def empty_batch_def rbind_Inr_iff split: prod.splits)
  have "position_response (Some rid) frame r = r"
    using assms(4) by (simp add: position_response_def opens_response_def)
  moreover have "re_seq (position_response (Some rid) frame r') = re_seq r + 1"
    and "b_output (re_batch (position_response (Some rid) frame r')) = []"
    using assms(1-3,6) r'
    by (simp_all add: position_response_def opens_response_def message_position_def add_fact_def next_seq_def)
  ultimately show ?thesis
    by (simp add: on_reader_def finish_take_def take_output_eq taken_part_def add_output_def next_seq_def split: option.split)
qed

text \<open>The sample reader commits its first part, reads a second one live, and is taken over.\<close>

definition sample_started_response :: rworld where
  "sample_started_response =
     (let rf = read_event (\<lambda>_. []) (ResponseStarted None ''r'' OriginEngine []) (rw_reader sample_world, rw_feed sample_world)
      in sample_world\<lparr>rw_reader := fst rf, rw_feed := snd rf\<rparr>)"

definition sample_committed :: rworld where
  "sample_committed =
     (let w = sample_started_response; rf = read_event (\<lambda>_. []) sample_event (rw_reader w, rw_feed w)
      in fst (commit_now 12 (w\<lparr>rw_reader := fst rf, rw_feed := snd rf\<rparr>)))"

definition sample_second :: runtime_event where
  "sample_second = ResponseOutput (Some (sample_cursor\<lparr>cu_position := [(''n'', JInt 8)]\<rparr>)) (Some ''r'')
     [(''type'', JStr ''text-delta''), (''delta'', JStr ''there'')]"

definition sample_after_takeover :: "reader \<times> runtime_cursor option" where
  "sample_after_takeover =
     (case start_reader (sample_lease ''p2'' 2) (snd (claim_reader ''prod'' ''s'' ''p2'' 30 100 (rw_db sample_committed))) of
        Inr x \<Rightarrow> x | Inl e \<Rightarrow> (sample_reader, None))"

theorem takeover_renumbers_witness:
  "map p_seq (b_output (re_batch (fst (take_event sample_second (rw_reader sample_committed, empty_feed))))) = [3] \<and>
   map p_seq (b_output (re_batch (fst (take_event sample_second (fst sample_after_takeover, empty_feed))))) = [4] \<and>
   snd sample_after_takeover = Some sample_cursor"
proof -
  let ?db = "snd (claim_reader ''prod'' ''s'' ''p2'' 30 100 (rw_db sample_committed))"
  have start: "start_reader (sample_lease ''p2'' 2) ?db = Inr (fst sample_after_takeover, snd sample_after_takeover)"
    by code_simp
  have facts: "''r'' \<in> set (re_positioned (rw_reader sample_committed))"
    "re_seq (fst sample_after_takeover) = re_seq (rw_reader sample_committed)"
    "re_seq (rw_reader sample_committed) = 2" "b_output (re_batch (rw_reader sample_committed)) = []"
    "snd sample_after_takeover = Some sample_cursor"
    by code_simp+
  have "get [(''type'', JStr ''text-delta''), (''delta'', JStr ''there'')] ''type'' \<notin> set silent_types"
    by (simp add: silent_types_def)
  from takeover_renumbers [OF _ this _ facts(1) start facts(2), of "Some (sample_cursor\<lparr>cu_position := [(''n'', JInt 8)]\<rparr>)"
      empty_feed] facts
  show ?thesis by (simp add: sample_second_def)
qed

end
