(* ===== verification/Delivery.thy ===== *)
theory Delivery
  imports Numbering
begin

text \<open>
  What delivering and reconciling leave behind: after a pass over the undelivered inputs none is
  undelivered, after a pass over the answers none is waiting, after a pass over the controls
  none is pending, and after reconciling the recorded open responses and interactions are
  the runtime's.
\<close>

section \<open>What facts open and close\<close>

definition selected :: "('r \<Rightarrow> bool) \<Rightarrow> ('r \<Rightarrow> 'k) \<Rightarrow> 'r list \<Rightarrow> 'k set" where
  "selected p key rows = key ` {r \<in> set rows. p r}"

lemma selected_update:
  assumes "\<And>r. q r \<Longrightarrow> key (f r) = key r" and "\<And>r. q r \<Longrightarrow> p (f r) \<Longrightarrow> p r \<and> key r \<notin> M"
    and "\<And>r. \<not> q r \<Longrightarrow> p r \<Longrightarrow> key r \<notin> M"
  shows "selected p key (update_where q f rows) \<subseteq> selected p key rows - M"
  using assms by (auto simp: selected_def set_update_where)

lemma selected_update_same:
  assumes "\<And>r. q r \<Longrightarrow> key (f r) = key r" and "\<And>r. q r \<Longrightarrow> p (f r) \<Longrightarrow> p r"
  shows "selected p key (update_where q f rows) \<subseteq> selected p key rows"
  using selected_update [of q key f p "{}" rows] assms by simp

lemma selected_append: "selected p key (rows @ [r]) \<subseteq> insert (key r) (selected p key rows)"
  by (auto simp: selected_def)

lemma selected_append_none: "\<not> p r \<Longrightarrow> selected p key (rows @ [r]) = selected p key rows"
  by (auto simp: selected_def)

lemma selected_map:
  "map (\<lambda>r. (key r, p r)) rows = map (\<lambda>r. (key r, p r)) rows' \<Longrightarrow> selected p key rows = selected p key rows'"
proof -
  assume eq: "map (\<lambda>r. (key r, p r)) rows = map (\<lambda>r. (key r, p r)) rows'"
  have "selected p key rows = fst ` {kp \<in> set (map (\<lambda>r. (key r, p r)) rows). snd kp}" for rows
    by (force simp: selected_def)
  then show ?thesis by (simp only: eq)
qed

abbreviation unended :: "string \<Rightarrow> response_row \<Rightarrow> bool" where
  "unended sid r \<equiv> r_session_id r = sid \<and> r_status r \<noteq> Ended"

abbreviation unclosed :: "string \<Rightarrow> interaction_row \<Rightarrow> bool" where
  "unclosed sid x \<equiv> x_session_id x = sid \<and> x_status x = IOpen"

abbreviation untaken :: "string \<Rightarrow> interaction_row \<Rightarrow> bool" where
  "untaken sid x \<equiv> x_session_id x = sid \<and> x_status x = IOpen \<and> x_answer x \<noteq> None"

abbreviation undelivered :: "string \<Rightarrow> input_row \<Rightarrow> bool" where
  "undelivered sid i \<equiv> i_session_id i = sid \<and> i_state i = Pending"

definition open_rids :: "string \<Rightarrow> db \<Rightarrow> string set" where
  "open_rids sid db = selected (unended sid) r_response_id (t_responses db)"

definition open_xids :: "string \<Rightarrow> db \<Rightarrow> string set" where
  "open_xids sid db = selected (unclosed sid) x_interaction_id (t_interactions db)"

definition answered_xids :: "string \<Rightarrow> db \<Rightarrow> string set" where
  "answered_xids sid db = selected (untaken sid) x_interaction_id (t_interactions db)"

definition waiting_iids :: "string \<Rightarrow> db \<Rightarrow> string set" where
  "waiting_iids sid db = selected (undelivered sid) i_input_id (t_inputs db)"

lemma open_rids_eq: "set (open_response_ids sid db) = open_rids sid db"
  by (simp add: open_response_ids_def open_rids_def selected_def)

lemma open_xids_eq: "set (open_interaction_ids sid db) = open_xids sid db"
  by (simp add: open_interaction_ids_def open_xids_def selected_def)

lemma answered_xids_eq: "x_interaction_id ` set (pending_answers sid db) = answered_xids sid db"
  by (simp add: pending_answers_def answered_xids_def selected_def)

lemma waiting_iids_eq: "i_input_id ` set (undelivered_inputs sid db) = waiting_iids sid db"
  by (simp add: undelivered_inputs_def waiting_iids_def selected_def)

fun starts_of :: "fact \<Rightarrow> string set" where
  "starts_of (ResponseStart rid origin iids) = {rid}" | "starts_of _ = {}"

fun ends_of :: "fact \<Rightarrow> string set" where
  "ends_of (ResponseEnd rid oc reason usage err) = {rid}" | "ends_of _ = {}"

fun opens_of :: "fact \<Rightarrow> string set" where
  "opens_of (InteractionOpen rid xid contract) = {xid}" | "opens_of _ = {}"

fun closes_of :: "fact \<Rightarrow> string set" where
  "closes_of (InteractionClose xid status seq) = (if status = IOpen then {} else {xid})" | "closes_of _ = {}"

text \<open>Responses: what starts, what ends.\<close>

lemma end_response_rids: "open_rids sid (end_response now sid rid oc reason usage err db) \<subseteq> open_rids sid db - {rid}"
  unfolding open_rids_def end_response_def
  by (simp, rule selected_update) (auto simp: of_response_def)

lemma add_response_rids: "open_rids sid (add_response now sid rid origin db) \<subseteq> insert rid (open_rids sid db)"
  using selected_append [of "unended sid" r_response_id "t_responses db" "new_response sid rid origin (t_next_response_seq db) now"]
  by (auto simp: open_rids_def add_response_def new_response_def)

lemma resume_rids: "open_rids sid (resume_response sid' rid db) \<subseteq> open_rids sid db"
  unfolding open_rids_def resume_response_def by (simp, rule selected_update_same) auto

lemma open_interaction_rids: "open_rids sid (open_interaction now sid' rid xid contract db) \<subseteq> open_rids sid db"
  unfolding open_rids_def open_interaction_def by (simp, rule selected_update_same) auto

lemma close_rids: "open_rids sid (close_interaction now sid' xid status db) \<subseteq> open_rids sid db"
proof (cases "first_row (\<lambda>x. of_interaction sid' xid x \<and> x_status x = IOpen) (t_interactions db)")
  case (Some x)
  have "open_rids sid (db\<lparr>t_interactions := rows\<rparr>) = open_rids sid db" for rows by (simp add: open_rids_def)
  with Some resume_rids [of sid sid' "x_response_id x"] show ?thesis by (fastforce simp: close_interaction_def)
qed (simp add: close_interaction_def)

lemma position_rids: "open_rids sid (position_message sid' kind mid seq db) \<subseteq> open_rids sid db"
proof (cases kind)
  case MResponse
  have "selected (unended sid) r_response_id (update_where q (\<lambda>r. r\<lparr>r_conversation_order := n\<rparr>) rows) \<subseteq>
      selected (unended sid) r_response_id rows" for q n rows
    by (rule selected_update_same) simp_all
  with MResponse show ?thesis by (simp add: open_rids_def position_message_def)
qed (simp add: position_message_def open_rids_def)

lemma open_rids_fact:
  assumes "apply_fact now sid f db = Inr db'"
  shows "open_rids sid db' \<subseteq> (open_rids sid db \<union> starts_of f) - ends_of f"
proof (cases f)
  case (ResponseStart rid origin iids)
  with assms have "open_rids sid db' = open_rids sid (add_response now sid rid origin db)"
    by (auto simp: link_inputs_def open_rids_def split: if_splits)
  with ResponseStart add_response_rids show ?thesis by fastforce
next
  case (ResponseEnd rid oc reason usage err)
  with assms end_response_rids show ?thesis by fastforce
next
  case (InteractionOpen rid xid contract)
  with assms open_interaction_rids show ?thesis by fastforce
next
  case (InteractionClose xid status seq)
  with assms close_rids show ?thesis by fastforce
next
  case (MessagePosition kind mid seq)
  with assms position_rids show ?thesis by fastforce
next
  case (InputsAdmitted iids)
  with assms show ?thesis by (auto simp: admit_inputs_def open_rids_def split: if_splits)
next
  case (InputsFailed iids failure)
  with assms show ?thesis by (auto simp: fail_inputs_def open_rids_def split: if_splits)
qed

text \<open>Interactions: what opens, what closes.\<close>

lemma close_selected:
  assumes "\<And>x. p x \<Longrightarrow> x_session_id x = sid \<and> x_status x = IOpen" and "status \<noteq> IOpen"
  shows "selected p x_interaction_id (t_interactions (close_interaction now sid xid status db)) \<subseteq>
    selected p x_interaction_id (t_interactions db) - {xid}"
proof (cases "first_row (\<lambda>x. of_interaction sid xid x \<and> x_status x = IOpen) (t_interactions db)")
  case None
  then have "xid \<notin> selected p x_interaction_id (t_interactions db)"
    using assms(1) by (auto simp: selected_def first_row_None_iff of_interaction_def)
  with None show ?thesis by (auto simp: close_interaction_def)
next
  case (Some x)
  show ?thesis
    using assms Some
    by (simp add: close_interaction_def resume_response_def, intro selected_update)
       (auto simp: of_interaction_def dest!: assms(1))
qed

lemma withdraw_selected:
  assumes "\<And>x. p x \<Longrightarrow> x_status x = IOpen"
  shows "selected p x_interaction_id (t_interactions (end_response now sid rid oc reason usage err db)) \<subseteq>
    selected p x_interaction_id (t_interactions db)"
  by (simp add: end_response_def, rule selected_update_same) (auto dest!: assms)

lemma open_selected:
  "selected p x_interaction_id (t_interactions (open_interaction now sid rid xid contract db)) \<subseteq>
     selected p x_interaction_id (t_interactions db) \<union> (if p (new_interaction sid xid rid contract now) then {xid} else {})"
  by (auto simp: open_interaction_def insert_absent_def selected_def new_interaction_def)

lemma interactions_fact:
  assumes "apply_fact now sid f db = Inr db'" and "\<And>x. p x \<Longrightarrow> x_session_id x = sid \<and> x_status x = IOpen"
    and "\<And>x t. p (x\<lparr>x_status := IOpen, x_closed_at := t\<rparr>) \<Longrightarrow> x_status x = IOpen \<Longrightarrow> p x"
    and "\<And>rid xid contract. f = InteractionOpen rid xid contract \<Longrightarrow> p (new_interaction sid xid rid contract now) \<Longrightarrow> xid \<in> new"
  shows "selected p x_interaction_id (t_interactions db') \<subseteq>
    (selected p x_interaction_id (t_interactions db) \<union> new) - closes_of f"
proof (cases f)
  case (ResponseStart rid origin iids)
  with assms(1) show ?thesis by (auto simp: link_inputs_def add_response_def split: if_splits)
next
  case (ResponseEnd rid oc reason usage err)
  with assms(1) withdraw_selected [of p now sid rid oc reason usage err db] assms(2) show ?thesis by auto
next
  case (InteractionOpen rid xid contract)
  with assms(1,4) open_selected [of p now sid rid xid contract db] show ?thesis by (auto split: if_splits)
next
  case (InteractionClose xid status seq)
  show ?thesis
  proof (cases "status = IOpen")
    case True
    have "selected p x_interaction_id (t_interactions (close_interaction now sid xid IOpen db)) \<subseteq>
        selected p x_interaction_id (t_interactions db)"
    proof (cases "first_row (\<lambda>x. of_interaction sid xid x \<and> x_status x = IOpen) (t_interactions db)")
      case (Some x)
      then show ?thesis
        by (simp add: close_interaction_def resume_response_def, intro selected_update_same) (auto dest: assms(3))
    qed (simp add: close_interaction_def)
    with True assms(1) InteractionClose show ?thesis by auto
  next
    case False
    have "selected p x_interaction_id (t_interactions (close_interaction now sid xid status db)) \<subseteq>
        selected p x_interaction_id (t_interactions db) - {xid}"
      using assms(2) False by (rule close_selected)
    with assms(1) InteractionClose False show ?thesis by auto
  qed
next
  case (MessagePosition kind mid seq)
  with assms(1) show ?thesis by (cases kind) (auto simp: position_message_def)
next
  case (InputsAdmitted iids)
  with assms(1) show ?thesis by (auto simp: admit_inputs_def split: if_splits)
next
  case (InputsFailed iids failure)
  with assms(1) show ?thesis by (auto simp: fail_inputs_def split: if_splits)
qed

lemma open_xids_fact:
  "apply_fact now sid f db = Inr db' \<Longrightarrow> open_xids sid db' \<subseteq> (open_xids sid db \<union> opens_of f) - closes_of f"
  unfolding open_xids_def by (rule interactions_fact) (auto simp: new_interaction_def)

lemma answered_xids_fact:
  "apply_fact now sid f db = Inr db' \<Longrightarrow> answered_xids sid db' \<subseteq> (answered_xids sid db \<union> {}) - closes_of f"
  unfolding answered_xids_def by (rule interactions_fact) (auto simp: new_interaction_def)

text \<open>Inputs: none becomes undelivered.\<close>

lemma update_waiting:
  assumes "t_inputs db' = update_where q f (t_inputs db)"
    and "\<And>i. q i \<Longrightarrow> i_input_id (f i) = i_input_id i \<and> i_session_id (f i) = i_session_id i"
    and "\<And>i. q i \<Longrightarrow> i_state (f i) = Pending \<Longrightarrow> i_state i = Pending"
  shows "waiting_iids sid db' \<subseteq> waiting_iids sid db"
  unfolding waiting_iids_def assms(1) by (rule selected_update_same) (auto simp: assms(2) assms(3))

lemma waiting_iids_fact:
  assumes "apply_fact now sid f db = Inr db'"
  shows "waiting_iids sid db' \<subseteq> (waiting_iids sid db \<union> {}) - {}"
proof -
  have same: "waiting_iids sid db' \<subseteq> waiting_iids sid db" if "t_inputs db' = t_inputs db"
    using that by (simp add: waiting_iids_def)
  have "waiting_iids sid db' \<subseteq> waiting_iids sid db"
  proof (cases f)
    case (ResponseStart rid origin iids)
    with assms consider "t_inputs db' = t_inputs db"
      | "t_inputs db' = update_where (\<lambda>i. i_session_id i = sid \<and> i_input_id i \<in> set iids)
          (\<lambda>i. i\<lparr>i_response_id := Some rid\<rparr>) (t_inputs db)"
      by (auto simp: link_inputs_def add_response_def split: if_splits)
    then show ?thesis
    proof cases
      case 2
      then show ?thesis by (rule update_waiting) simp_all
    qed (rule same)
  next
    case (MessagePosition kind mid seq)
    show ?thesis
    proof (cases kind)
      case MInput
      with assms MessagePosition
      have "t_inputs db' = update_where (\<lambda>i. i_session_id i = sid \<and> i_input_id i = mid \<and> i_conversation_order i = None)
          (\<lambda>i. i\<lparr>i_conversation_order := Some (seq * 2)\<rparr>) (t_inputs db)"
        by (auto simp: position_message_def)
      then show ?thesis by (rule update_waiting) simp_all
    next
      case MResponse
      with assms MessagePosition show ?thesis by (intro same) (auto simp: position_message_def)
    qed
  next
    case (InputsAdmitted iids)
    show ?thesis
    proof (cases "iids = []")
      case False
      with assms InputsAdmitted have "t_inputs db' = update_where (held_input sid iids)
          (\<lambda>i. i\<lparr>i_state := Admitted, i_admitted_at := Some now\<rparr>) (t_inputs db)"
        by (auto simp: admit_inputs_def)
      then show ?thesis by (rule update_waiting) simp_all
    qed (use assms InputsAdmitted in \<open>auto simp: admit_inputs_def intro: same\<close>)
  next
    case (InputsFailed iids failure)
    show ?thesis
    proof (cases "iids = []")
      case False
      with assms InputsFailed have "t_inputs db' = update_where (held_input sid iids)
          (\<lambda>i. i\<lparr>i_state := Failed, i_failure := Some failure\<rparr>) (t_inputs db)"
        by (auto simp: fail_inputs_def)
      then show ?thesis by (rule update_waiting) simp_all
    qed (use assms InputsFailed in \<open>auto simp: fail_inputs_def intro: same\<close>)
  qed (use assms in \<open>auto simp: waiting_iids_def end_response_def open_interaction_def close_interaction_def resume_response_def
        split: option.splits\<close>)
  then show ?thesis by simp
qed

section \<open>What a commit leaves open\<close>

lemma rfold_selected:
  assumes "rfold g fs db = Inr db'"
    and step: "\<And>f db db'. g f db = Inr db' \<Longrightarrow> A db' \<subseteq> (A db \<union> new f) - gone f"
  shows "A db' \<subseteq> A db \<union> (\<Union>f \<in> set fs. new f)"
  using assms(1)
proof (induction fs arbitrary: db)
  case (Cons f fs)
  then obtain mid where "g f db = Inr mid" "rfold g fs mid = Inr db'" by (auto simp: rbind_Inr_iff)
  with Cons.IH [of mid] step [of f db mid] show ?case by auto
qed simp

lemma rfold_gone:
  assumes "rfold g fs db = Inr db'"
    and step: "\<And>f db db'. g f db = Inr db' \<Longrightarrow> A db' \<subseteq> (A db \<union> new f) - gone f"
    and "f \<in> set fs" and "x \<in> gone f" and "\<forall>f \<in> set fs. x \<notin> new f"
  shows "x \<notin> A db'"
  using assms(1,3,5)
proof (induction fs arbitrary: db)
  case (Cons h fs)
  then obtain mid where mid: "g h db = Inr mid" "rfold g fs mid = Inr db'" by (auto simp: rbind_Inr_iff)
  show ?case
  proof (cases "f \<in> set fs")
    case True
    with Cons mid(2) show ?thesis by auto
  next
    case False
    with Cons.prems assms(4) have "x \<notin> A mid" using step [OF mid(1)] by auto
    with rfold_selected [of g fs mid db' A new gone, OF mid(2) step] Cons.prems(3) show ?thesis by auto
  qed
qed simp

lemma rfold_net:
  assumes "rfold g fs db = Inr db'"
    and step: "\<And>f db db'. g f db = Inr db' \<Longrightarrow> A db' \<subseteq> (A db \<union> new f) - gone f"
    and "(\<Union>f \<in> set fs. new f) \<inter> (\<Union>f \<in> set fs. gone f) = {}"
  shows "A db' \<subseteq> A db \<union> (\<Union>f \<in> set fs. new f) - (\<Union>f \<in> set fs. gone f)"
proof
  fix x assume x: "x \<in> A db'"
  have "x \<notin> gone f" if f: "f \<in> set fs" for f
  proof
    assume gone: "x \<in> gone f"
    with f assms(3) have "\<forall>f \<in> set fs. x \<notin> new f" by blast
    from rfold_gone [where A = A and new = new and gone = gone, OF assms(1) step f gone this] x show False by simp
  qed
  with rfold_selected [where A = A and new = new and gone = gone, OF assms(1) step] x
  show "x \<in> A db \<union> (\<Union>f \<in> set fs. new f) - (\<Union>f \<in> set fs. gone f)" by blast
qed

text \<open>Filling display positions changes none of these sets.\<close>

lemma index_selected:
  assumes "index_recorded_messages sid' db = Inr db'"
  shows "open_rids sid db' = open_rids sid db" and "waiting_iids sid db' = waiting_iids sid db"
    and "open_xids sid db' = open_xids sid db" and "answered_xids sid db' = answered_xids sid db"
proof -
  have "map (\<lambda>r. (r_response_id r, unended sid r)) (t_responses db') = map (\<lambda>r. (r_response_id r, unended sid r)) (t_responses db)"
    using assms
    by (auto simp: index_recorded_messages_def rbind_Inr_iff fill_response_def elim!: rmap_map_eq split: if_splits)
  then show "open_rids sid db' = open_rids sid db" unfolding open_rids_def by (rule selected_map)
  have "map (\<lambda>i. (i_input_id i, undelivered sid i)) (t_inputs db') = map (\<lambda>i. (i_input_id i, undelivered sid i)) (t_inputs db)"
    using assms
    by (auto simp: index_recorded_messages_def rbind_Inr_iff fill_input_def elim!: rmap_map_eq split: if_splits)
  then show "waiting_iids sid db' = waiting_iids sid db" unfolding waiting_iids_def by (rule selected_map)
  show "open_xids sid db' = open_xids sid db" and "answered_xids sid db' = answered_xids sid db"
    using index_frame(4) [OF assms] by (simp_all add: open_xids_def answered_xids_def)
qed

lemma record_facts:
  assumes "record_batch lease b ttl now db = (Inr (Some out), db')" and "batch_nonempty b"
  obtains db2 db3 where "rfold (apply_fact now (l_session_id lease)) (b_facts b) db2 = Inr db3"
    and "open_rids (l_session_id lease) db2 = open_rids (l_session_id lease) db"
    and "open_xids (l_session_id lease) db2 = open_xids (l_session_id lease) db"
    and "answered_xids (l_session_id lease) db2 = answered_xids (l_session_id lease) db"
    and "waiting_iids (l_session_id lease) db2 = waiting_iids (l_session_id lease) db"
    and "t_responses db' = t_responses db3" and "t_interactions db' = t_interactions db3" and "t_inputs db' = t_inputs db3"
proof -
  from assms have "record_work lease b ttl now db = Inr (Some out, db')"
    by (simp add: record_batch_def transaction_commit)
  then obtain db2 db3 db4 where
    index: "(if list_ex is_position (b_facts b)
      then index_recorded_messages (l_session_id lease) (snd (renew_reader lease ttl now db))
      else Inr (snd (renew_reader lease ttl now db))) = Inr db2"
    and facts: "rfold (apply_fact now (l_session_id lease)) (b_facts b) db2 = Inr db3"
    and ins: "insert_output (l_session_id lease) now out db3 = Inr db4"
    and db': "db' = update_session (l_session_id lease) now b out db4"
    by (rule record_work_Some)
  have renew: "open_rids sid (snd (renew_reader lease ttl now db)) = open_rids sid db"
    "open_xids sid (snd (renew_reader lease ttl now db)) = open_xids sid db"
    "answered_xids sid (snd (renew_reader lease ttl now db)) = answered_xids sid db"
    "waiting_iids sid (snd (renew_reader lease ttl now db)) = waiting_iids sid db" for sid
    by (simp_all add: open_rids_def open_xids_def answered_xids_def waiting_iids_def)
  have "t_responses db4 = t_responses db3" "t_interactions db4 = t_interactions db3" "t_inputs db4 = t_inputs db3"
    using ins by (auto simp: insert_output_Inr)
  with facts index renew that [of db2 db3] show thesis
    by (auto simp: db' index_selected split: if_splits)
qed

lemma record_leaves:
  assumes "record_batch lease b ttl now db = (Inr (Some out), db')"
  shows "waiting_iids (l_session_id lease) db' \<subseteq> waiting_iids (l_session_id lease) db"
    and "answered_xids (l_session_id lease) db' \<subseteq> answered_xids (l_session_id lease) db - (\<Union>f \<in> set (b_facts b). closes_of f)"
proof -
  let ?sid = "l_session_id lease"
  have "waiting_iids ?sid db' \<subseteq> waiting_iids ?sid db \<and>
      answered_xids ?sid db' \<subseteq> answered_xids ?sid db - (\<Union>f \<in> set (b_facts b). closes_of f)"
  proof (cases "batch_nonempty b")
    case False
    then have "db' = snd (renew_reader lease ttl now db)" "b_facts b = []"
      using assms by (auto simp: record_batch_def batch_nonempty_def split: prod.splits if_splits)
    then show ?thesis by (simp add: waiting_iids_def answered_xids_def)
  next
    case True
    from assms True obtain db2 db3 where
      facts: "rfold (apply_fact now ?sid) (b_facts b) db2 = Inr db3"
      and same: "answered_xids ?sid db2 = answered_xids ?sid db" "waiting_iids ?sid db2 = waiting_iids ?sid db"
        "t_interactions db' = t_interactions db3" "t_inputs db' = t_inputs db3"
      by (rule record_facts)
    have "waiting_iids ?sid db3 \<subseteq> waiting_iids ?sid db2"
      using rfold_selected [where A = "waiting_iids ?sid" and new = "\<lambda>_. {}" and gone = "\<lambda>_. {}", OF facts waiting_iids_fact]
      by simp
    moreover have "answered_xids ?sid db3 \<subseteq> answered_xids ?sid db2"
      using rfold_selected [where A = "answered_xids ?sid" and new = "\<lambda>_. {}" and gone = closes_of, OF facts answered_xids_fact]
      by simp
    moreover have "x \<notin> answered_xids ?sid db3" if "f \<in> set (b_facts b)" "x \<in> closes_of f" for f x
      using rfold_gone [where A = "answered_xids ?sid" and new = "\<lambda>_. {}" and gone = closes_of, OF facts answered_xids_fact that]
      by simp
    moreover have "waiting_iids ?sid db' = waiting_iids ?sid db3" "answered_xids ?sid db' = answered_xids ?sid db3"
      using same by (simp_all add: waiting_iids_def answered_xids_def)
    ultimately show ?thesis using same by auto
  qed
  then show "waiting_iids ?sid db' \<subseteq> waiting_iids ?sid db"
    and "answered_xids ?sid db' \<subseteq> answered_xids ?sid db - (\<Union>f \<in> set (b_facts b). closes_of f)" by simp_all
qed

section \<open>A pass over the answers\<close>

abbreviation w_sid :: "rworld \<Rightarrow> string" where
  "w_sid w \<equiv> re_sid (rw_reader w)"

lemma commit_now_cases:
  assumes "commit_now now w = (w', None)"
  obtains (nothing) "\<not> batch_nonempty (re_batch (rw_reader w))" "w' = upd_reader begin_commit w"
  | (stored) out db' cs where "batch_nonempty (re_batch (rw_reader w))"
      "record_batch (re_lease (rw_reader w)) (re_batch (rw_reader w)) LEASE_TTL_S now (rw_db w) = (Inr (Some out), db')"
      "w' = calls cs (upd_reader (\<lambda>r. r\<lparr>re_inflight := None\<rparr>) ((upd_reader begin_commit w)\<lparr>rw_db := db'\<rparr>))"
  using assms unfolding commit_now_def
  by (cases rule: end_commit_cases) (auto simp: upd_reader_def begin_commit_def split: if_splits)

lemma commit_now_lease: "commit_now now w = (w', None) \<Longrightarrow> re_lease (rw_reader w') = re_lease (rw_reader w)"
  by (erule commit_now_cases) (simp_all add: calls_def upd_reader_def begin_commit_def)

lemma commit_now_leaves:
  assumes "commit_now now w = (w', None)"
  shows "waiting_iids (w_sid w) (rw_db w') \<subseteq> waiting_iids (w_sid w) (rw_db w)"
    and "answered_xids (w_sid w) (rw_db w') \<subseteq>
      answered_xids (w_sid w) (rw_db w) - (\<Union>f \<in> set (b_facts (re_batch (rw_reader w))). closes_of f)"
proof -
  have "waiting_iids (w_sid w) (rw_db w') \<subseteq> waiting_iids (w_sid w) (rw_db w) \<and>
      answered_xids (w_sid w) (rw_db w') \<subseteq>
        answered_xids (w_sid w) (rw_db w) - (\<Union>f \<in> set (b_facts (re_batch (rw_reader w))). closes_of f)"
    using assms
  proof (cases rule: commit_now_cases)
    case nothing
    then have "rw_db w' = rw_db w" "b_facts (re_batch (rw_reader w)) = []"
      by (simp_all add: upd_reader_def batch_nonempty_def)
    then show ?thesis by simp
  next
    case (stored out db' cs)
    then have "rw_db w' = db'" by (simp add: calls_def upd_reader_def)
    with record_leaves [OF stored(2)] show ?thesis by simp
  qed
  then show "waiting_iids (w_sid w) (rw_db w') \<subseteq> waiting_iids (w_sid w) (rw_db w)"
    and "answered_xids (w_sid w) (rw_db w') \<subseteq>
      answered_xids (w_sid w) (rw_db w) - (\<Union>f \<in> set (b_facts (re_batch (rw_reader w))). closes_of f)" by simp_all
qed

lemma deliver_answer_closes:
  assumes "deliver_answer client now x w = (w', None)"
  shows "re_lease (rw_reader w') = re_lease (rw_reader w) \<and>
    answered_xids (w_sid w) (rw_db w') \<subseteq> answered_xids (w_sid w) (rw_db w) - {x_interaction_id x}"
proof -
  define w1 where "w1 = calls [AnswerInteraction (x_interaction_id x) (coalesce (x_answer x) [])] w"
  from assms obtain status where status: "status \<noteq> IOpen"
    "commit_now now (upd_reader (reader_close_interaction (x_interaction_id x) status) w1) = (w', None)"
    by (auto simp: deliver_answer_def w1_def Let_def split: answer_result.splits)
  let ?w = "upd_reader (reader_close_interaction (x_interaction_id x) status) w1"
  have "InteractionClose (x_interaction_id x) status (Some (re_seq (rw_reader w) + 1)) \<in> set (b_facts (re_batch (rw_reader ?w)))"
    by (simp add: w1_def calls_def upd_reader_def reader_close_interaction_def add_fact_def next_seq_def)
  with commit_now_leaves(2) [OF status(2)] status(1)
  have "answered_xids (w_sid ?w) (rw_db w') \<subseteq> answered_xids (w_sid ?w) (rw_db ?w) - {x_interaction_id x}"
    by fastforce
  moreover have "re_lease (rw_reader ?w) = re_lease (rw_reader w)" "rw_db ?w = rw_db w"
    by (simp_all add: w1_def calls_def upd_reader_def reader_close_interaction_def add_fact_def next_seq_def)
  ultimately show ?thesis using commit_now_lease [OF status(2)] by simp
qed

text \<open>
  One answer as the world outside sees it: the runtime is asked to take the stored answer, and
  the commit reported next closes the interaction as the runtime replied.
\<close>

definition closes_as :: "runtime_client \<Rightarrow> string \<Rightarrow> obj \<Rightarrow> interaction_status" where
  "closes_as client xid answer = (case cl_answer client xid answer of AnswerTaken \<Rightarrow> IAnswered | _ \<Rightarrow> IExpired)"

definition handed_over :: "runtime_client \<Rightarrow> interaction_row \<Rightarrow> reader_call list \<Rightarrow> bool" where
  "handed_over client x cs \<longleftrightarrow>
     (\<exists>answer reports b n. x_answer x = Some answer \<and>
        cs = AnswerInteraction (x_interaction_id x) answer # reports @ [CommittedHook b] \<and>
        (\<forall>call \<in> set reports. (\<exists>c. call = CommittedCursor c) \<or> (\<exists>s. call = StatusHook s)) \<and>
        InteractionClose (x_interaction_id x) (closes_as client (x_interaction_id x) answer) n \<in> set (b_facts b))"

lemma commit_now_calls:
  assumes "commit_now now w = (w', None)" and "batch_nonempty (re_batch (rw_reader w))"
  shows "\<exists>reports b. rw_calls w' = rw_calls w @ reports @ [CommittedHook b] \<and> b_facts b = b_facts (re_batch (rw_reader w)) \<and>
    (\<forall>call \<in> set reports. (\<exists>c. call = CommittedCursor c) \<or> (\<exists>s. call = StatusHook s))"
proof -
  have report: "\<forall>call \<in> set cs. (\<exists>c. call = CommittedCursor c) \<or> (\<exists>s. call = StatusHook s)" if "commit_report b = Inr cs" for b cs
    using that by (auto simp: commit_report_def rbind_Inr_iff split: option.splits)
  from assms obtain out cs where report_b: "commit_report (re_batch (rw_reader w)) = Inr cs"
    and w': "rw_calls w' = rw_calls w @ cs @ [CommittedHook ((re_batch (rw_reader w))\<lparr>b_output := out\<rparr>)]"
    by (auto simp: commit_now_def end_commit_def upd_reader_def begin_commit_def calls_def Let_def
        split: option.splits sum.splits prod.splits)
  with report [OF report_b] show ?thesis by (intro exI [of _ cs] exI [of _ "(re_batch (rw_reader w))\<lparr>b_output := out\<rparr>"]) simp
qed

lemma deliver_answer_calls:
  assumes "deliver_answer client now x w = (w', None)" and "x_answer x \<noteq> None"
  shows "\<exists>cs. rw_calls w' = rw_calls w @ cs \<and> handed_over client x cs"
proof -
  let ?xid = "x_interaction_id x"
  from assms(2) obtain answer where answer: "x_answer x = Some answer" by blast
  define w1 where "w1 = upd_reader (reader_close_interaction ?xid (closes_as client ?xid answer))
    (calls [AnswerInteraction ?xid answer] w)"
  have facts: "InteractionClose ?xid (closes_as client ?xid answer) (Some (re_seq (rw_reader w) + 1)) \<in> set (b_facts (re_batch (rw_reader w1)))"
    by (simp add: w1_def calls_def upd_reader_def reader_close_interaction_def add_fact_def next_seq_def)
  then have nonempty: "batch_nonempty (re_batch (rw_reader w1))" by (auto simp: batch_nonempty_def)
  have "commit_now now w1 = (w', None)"
    using assms(1) answer by (auto simp: deliver_answer_def w1_def closes_as_def coalesce_def Let_def split: answer_result.splits)
  from commit_now_calls [OF this nonempty] obtain reports b where
    "rw_calls w' = rw_calls w1 @ reports @ [CommittedHook b]" "b_facts b = b_facts (re_batch (rw_reader w1))"
    "\<forall>call \<in> set reports. (\<exists>c. call = CommittedCursor c) \<or> (\<exists>s. call = StatusHook s)" by blast
  with facts answer show ?thesis
    by (intro exI [of _ "AnswerInteraction ?xid answer # reports @ [CommittedHook b]"])
       (auto simp: handed_over_def w1_def calls_def upd_reader_def)
qed

lemma each_step_calls:
  assumes "each_step f xs w = (w', None)"
    and "\<And>x w w'. x \<in> set xs \<Longrightarrow> f x w = (w', None) \<Longrightarrow> \<exists>cs. rw_calls w' = rw_calls w @ cs \<and> P x cs"
  shows "\<exists>css. rw_calls w' = rw_calls w @ concat css \<and> list_all2 P xs css"
  using assms
proof (induction xs arbitrary: w)
  case (Cons x xs)
  from Cons.prems(1) obtain w1 where w1: "f x w = (w1, None)" "each_step f xs w1 = (w', None)"
    by (auto simp: then_step_def split: prod.splits option.splits)
  obtain cs where cs: "rw_calls w1 = rw_calls w @ cs" "P x cs" using Cons.prems(2) w1(1) by fastforce
  from Cons.IH [OF w1(2)] Cons.prems(2) obtain css where "rw_calls w' = rw_calls w1 @ concat css" "list_all2 P xs css" by fastforce
  with cs show ?case by (intro exI [of _ "cs # css"]) simp
qed simp

lemma each_step_closes:
  assumes "each_step f xs w = (w', None)"
    and "\<And>x w w'. f x w = (w', None) \<Longrightarrow> re_lease (rw_reader w') = re_lease (rw_reader w) \<and> A (re_lease (rw_reader w)) (rw_db w') \<subseteq> A (re_lease (rw_reader w)) (rw_db w) - {key x}"
  shows "re_lease (rw_reader w') = re_lease (rw_reader w) \<and>
    A (re_lease (rw_reader w)) (rw_db w') \<subseteq> A (re_lease (rw_reader w)) (rw_db w) - key ` set xs"
  using assms(1)
proof (induction xs arbitrary: w)
  case (Cons x xs)
  then obtain w1 where w1: "f x w = (w1, None)" "each_step f xs w1 = (w', None)"
    by (auto simp: then_step_def split: prod.splits option.splits)
  from Cons.IH [OF w1(2)] assms(2) [OF w1(1)] show ?case by auto
qed simp

section \<open>Publishing what the platform adds\<close>

text \<open>
  A reader with nothing pending and its lease: what it needs to hand inputs over without
  failing on the way. \<open>delivers\<close> collects what a step of the pass leaves as it was.
\<close>

definition quiet :: "rworld \<Rightarrow> bool" where
  "quiet w \<longleftrightarrow>
     re_batch (rw_reader w) = empty_batch \<and> re_inflight (rw_reader w) = None \<and>
     numbering_ok (rw_db w) (rw_reader w) \<and> holds_lease (rw_db w) (re_lease (rw_reader w)) \<and> keys_ok (rw_db w)"

definition submitted :: "rworld \<Rightarrow> runtime_input list" where
  "submitted w = List.map_filter (\<lambda>c. case c of SubmitInput item \<Rightarrow> Some item | _ \<Rightarrow> None) (rw_calls w)"

lemma order_by_seqs: "sorted_wrt (<) (map p_seq ps) \<Longrightarrow> order_by p_seq ps = ps"
  by (intro order_by_id) (simp add: strict_sorted_iff)

lemma numbered_output_ascending:
  assumes "distinct (map p_seq ps)"
  shows "numbered_output ps = map (\<lambda>p. (p_seq p, p)) ps"
proof -
  have "dict_update d kvs = d @ kvs" if "distinct (map fst (d @ kvs))" for d kvs :: "(int, output_part) dict"
    using that
  proof (induction kvs arbitrary: d)
    case (Cons kv kvs)
    have "dict_set (fst kv) (snd kv) d = d @ [kv]" if "fst kv \<notin> fst ` set d" for d
      using that by (induction d) (auto simp: dict_set_def)
    with Cons show ?case by (cases kv) (auto simp: dict_update_def)
  qed (simp add: dict_update_def)
  from this [of "[]" "map (\<lambda>p. (p_seq p, p)) ps"] assms show ?thesis by (simp add: numbered_output_def o_def)
qed

lemma holds_lease_renewed: "holds_lease db lease \<Longrightarrow> holds_lease (snd (renew_reader lease ttl now db)) lease"
proof -
  assume "holds_lease db lease"
  then obtain r where r: "r \<in> set (t_readers db)" "holds lease r" by blast
  then have "r\<lparr>rd_expires_at := now + ttl\<rparr> \<in> set (t_readers (snd (renew_reader lease ttl now db)))"
    by (auto simp: renew_reader_def set_update_where)
  moreover have "holds lease (r\<lparr>rd_expires_at := now + ttl\<rparr>)" using r(2) by (simp add: holds_def)
  ultimately show ?thesis by blast
qed

text \<open>
  A batch without display positions and closed interactions is stored as it is: the holder of
  the lease whose numbers follow the log cannot fail.
\<close>

fun plain_fact :: "fact \<Rightarrow> bool" where
  "plain_fact (ResponseEnd rid oc reason usage err) = True"
| "plain_fact (InputsFailed iids failure) = True"
| "plain_fact _ = False"

lemma plain_facts_apply: "list_all plain_fact fs \<Longrightarrow> \<exists>db'. rfold (apply_fact now sid) fs db = Inr db'"
proof (induction fs arbitrary: db)
  case (Cons f fs)
  then obtain db1 where "apply_fact now sid f db = Inr db1" by (cases f) simp_all
  with Cons show ?case by simp
qed simp

lemma plain_facts_render: "list_all plain_fact fs \<Longrightarrow> rfold (render_fact sid db) fs out = Inr out"
proof (induction fs)
  case (Cons f fs)
  then show ?case by (cases f) simp_all
qed simp

lemma plain_facts_reserve: "list_all plain_fact fs \<Longrightarrow> concat (map reserved_list fs) = [] \<and> \<not> list_ex is_position fs"
proof (induction fs)
  case (Cons f fs)
  then show ?case by (cases f) simp_all
qed simp

lemma fresh_output_keys:
  assumes "keys_ok db" and "contiguous sid db" and "map p_seq ps = [max_seq sid db + 1..n]"
  shows "distinct (map output_key (t_output db @ map (output_row_of sid now) ps))"
proof -
  have keys: "map output_key (map (output_row_of sid now) ps) = map (\<lambda>n. (sid, n)) (map p_seq ps)"
    by (simp add: output_key_def output_row_of_def)
  have old: "o_seq o' \<le> max_seq sid db" if "o' \<in> set (t_output db)" "o_session_id o' = sid" for o'
    using log_seqs [OF assms(2)] that by (simp add: session_log_def of_session_def)
  have new: "max_seq sid db < n" if "n \<in> set (map p_seq ps)" for n using that unfolding assms(3) by simp
  have "output_key o' \<noteq> (sid, n)" if "o' \<in> set (t_output db)" "n \<in> set (map p_seq ps)" for o' n
    using old [OF that(1)] new [OF that(2)] by (auto simp: output_key_def)
  then have "set (map output_key (t_output db)) \<inter> set (map (\<lambda>n. (sid, n)) (map p_seq ps)) = {}" by fastforce
  moreover have "distinct (map p_seq ps)" by (simp only: assms(3)) simp
  then have "distinct (map (\<lambda>n. (sid, n)) (map p_seq ps))" by (simp add: distinct_map inj_on_def)
  moreover have "distinct (map output_key (t_output db))" using assms(1) by (simp add: keys_ok_def)
  ultimately show ?thesis unfolding map_append distinct_append keys by blast
qed

lemma record_plain:
  assumes "holds_lease db lease" and "keys_ok db" and "contiguous (l_session_id lease) db"
    and "list_all plain_fact (b_facts b)" and "map p_seq (b_output b) = [max_seq (l_session_id lease) db + 1..n]"
    and "max_seq (l_session_id lease) db \<le> n" and "batch_nonempty b"
  obtains db' db3 where "record_batch lease b ttl now db = (Inr (Some (b_output b)), db')"
    and "rfold (apply_fact now (l_session_id lease)) (b_facts b) (snd (renew_reader lease ttl now db)) = Inr db3"
    and "t_inputs db' = t_inputs db3" and "t_responses db' = t_responses db3" and "t_interactions db' = t_interactions db3"
    and "holds_lease db' lease" and "keys_ok db'" and "contiguous (l_session_id lease) db'"
    and "max_seq (l_session_id lease) db' = n"
proof -
  let ?sid = "l_session_id lease" and ?db1 = "snd (renew_reader lease ttl now db)" and ?ps = "b_output b"
  have asc: "sorted_wrt (<) (map p_seq ?ps)" by (simp only: assms(5)) (simp add: strict_sorted_iff)
  then have dist: "distinct (map p_seq ?ps)" by (simp add: strict_sorted_iff)
  from plain_facts_apply [OF assms(4)] obtain db3 where
    facts: "rfold (apply_fact now ?sid) (b_facts b) ?db1 = Inr db3" by blast
  have out: "rendered_output ?sid db3 b = Inr ?ps"
    using numbered_output_ascending [OF dist] plain_facts_render [OF assms(4)] order_by_seqs [OF asc]
    by (simp add: rendered_output_def o_def)
  have log: "t_output db3 = t_output db" using apply_facts_frame [OF facts] by simp
  have "distinct (map output_key (t_output db3 @ map (output_row_of ?sid now) ?ps))"
    unfolding log using assms(2,3,5) by (rule fresh_output_keys)
  then have ins: "insert_output ?sid now ?ps db3 = Inr (db3\<lparr>t_output := t_output db3 @ map (output_row_of ?sid now) ?ps\<rparr>)"
    by (simp add: insert_output_Inr)
  define db' where "db' = update_session ?sid now b ?ps (db3\<lparr>t_output := t_output db3 @ map (output_row_of ?sid now) ?ps\<rparr>)"
  have held: "fst (renew_reader lease ttl now db)" using assms(1) by (simp add: renew_reader_def)
  have work: "record_work lease b ttl now db = Inr (Some ?ps, db')"
    using held facts out ins plain_facts_reserve [OF assms(4)]
    by (simp add: record_work_def case_prod_beta Let_def db'_def)
  then have rec: "record_batch lease b ttl now db = (Inr (Some ?ps), db')"
    using assms(7) by (simp add: record_batch_def)
  have "batch_numbers b = [max_seq ?sid db + 1..n]"
    using assms(5) plain_facts_reserve [OF assms(4)] by (simp add: batch_numbers_def)
  with record_numbers [OF rec assms(3) _ assms(6)] have "contiguous ?sid db'" "max_seq ?sid db' = n" by simp_all
  moreover have "keys_ok db'" using keys_ok_record [OF assms(2), of lease b ttl now] rec by simp
  moreover have "holds_lease db' lease"
    using record_readers [OF work] holds_lease_renewed [OF assms(1)] by simp
  moreover have "t_inputs db' = t_inputs db3" "t_responses db' = t_responses db3" "t_interactions db' = t_interactions db3"
    by (simp_all add: db'_def)
  ultimately show thesis using rec facts that by blast
qed

lemma record_output_only:
  assumes "holds_lease db lease" and "keys_ok db" and "contiguous (l_session_id lease) db"
    and "map p_seq ps = [max_seq (l_session_id lease) db + 1..n]" and "ps \<noteq> []"
  shows "\<exists>db'. record_batch lease (empty_batch\<lparr>b_output := ps\<rparr>) ttl now db = (Inr (Some ps), db') \<and>
    holds_lease db' lease \<and> keys_ok db' \<and> t_inputs db' = t_inputs db"
proof -
  let ?b = "empty_batch\<lparr>b_output := ps\<rparr>"
  have le: "max_seq (l_session_id lease) db \<le> n" using assms(4,5) by (cases ps) (auto simp: upto.simps split: if_splits)
  have b: "list_all plain_fact (b_facts ?b)" "map p_seq (b_output ?b) = [max_seq (l_session_id lease) db + 1..n]" "batch_nonempty ?b"
    using assms(4,5) by (simp_all add: empty_batch_def batch_nonempty_def)
  show ?thesis
  proof (rule record_plain [OF assms(1-3) b(1,2) le b(3), of ttl now])
    fix db' db3
    assume "record_batch lease ?b ttl now db = (Inr (Some (b_output ?b)), db')"
      and "rfold (apply_fact now (l_session_id lease)) (b_facts ?b) (snd (renew_reader lease ttl now db)) = Inr db3"
      and "t_inputs db' = t_inputs db3" and "holds_lease db' lease" and "keys_ok db'"
    moreover from this(2) have "t_inputs db3 = t_inputs db" by (auto simp: empty_batch_def)
    ultimately show ?thesis by (intro exI [of _ db']) simp
  qed
qed

text \<open>What publishing for the platform leaves as it was.\<close>

definition same_work :: "rworld \<Rightarrow> rworld \<Rightarrow> bool" where
  "same_work w w' \<longleftrightarrow>
     quiet w' \<and> re_lease (rw_reader w') = re_lease (rw_reader w) \<and>
     re_permission_failure (rw_reader w') = re_permission_failure (rw_reader w)"

lemma quiet_seq: "quiet w \<Longrightarrow> re_seq (rw_reader w) = max_seq (w_sid w) (rw_db w) \<and> contiguous (w_sid w) (rw_db w)"
  by (auto simp: quiet_def numbering_ok_def inflight_numbers_def)

lemma submitted_calls:
  "submitted (calls cs w) = submitted w @ List.map_filter (\<lambda>c. case c of SubmitInput item \<Rightarrow> Some item | _ \<Rightarrow> None) cs"
  by (simp add: submitted_def calls_def)

lemma publish_quiet:
  assumes "quiet w" and "parts \<noteq> []"
  shows "\<exists>w'. publish_platform rid parts now w = (w', None) \<and> same_work w w' \<and>
    t_inputs (rw_db w') = t_inputs (rw_db w) \<and> submitted w' = submitted w"
proof -
  let ?r = "rw_reader w" and ?lease = "re_lease (rw_reader w)"
  define ps where "ps = number_parts rid parts (re_seq ?r)"
  define w1 where "w1 = upd_reader (add_numbered ps) w"
  define w2 where "w2 = upd_reader begin_commit w1"
  have seqs: "map p_seq ps = [max_seq (w_sid w) (rw_db w) + 1..re_seq ?r + int (length parts)]" and ps: "ps \<noteq> []"
    using quiet_seq [OF assms(1)] assms(2) by (auto simp: ps_def number_parts_seqs dest: arg_cong [of _ _ length])
  have batch: "re_batch (rw_reader w1) = empty_batch\<lparr>b_output := ps\<rparr>"
    using assms(1) by (simp add: w1_def upd_reader_def add_numbered_def quiet_def empty_batch_def)
  then have inflight: "re_inflight (rw_reader w2) = Some (empty_batch\<lparr>b_output := ps\<rparr>)"
    using ps by (simp add: w2_def upd_reader_def begin_commit_def batch_nonempty_def)
  from record_output_only [OF _ _ _ seqs ps, where ttl = LEASE_TTL_S and now = now] assms(1) quiet_seq [OF assms(1)]
  obtain db' where db': "record_batch ?lease (empty_batch\<lparr>b_output := ps\<rparr>) LEASE_TTL_S now (rw_db w) = (Inr (Some ps), db')"
    "holds_lease db' ?lease" "keys_ok db'" "t_inputs db' = t_inputs (rw_db w)"
    by (auto simp: quiet_def)
  define w3 where "w3 = calls [CommittedHook (empty_batch\<lparr>b_output := ps\<rparr>)]
    (upd_reader (\<lambda>r. r\<lparr>re_inflight := None\<rparr>) (w2\<lparr>rw_db := db'\<rparr>))"
  have lease2: "re_lease (rw_reader w2) = ?lease" "rw_db w2 = rw_db w"
    by (simp_all add: w2_def w1_def upd_reader_def begin_commit_def add_numbered_def)
  have ended: "end_commit now w2 = (w3, None)"
    using db'(1) by (simp add: end_commit_def inflight lease2 w3_def commit_report_def cursor_from_json_def Let_def empty_batch_def)
  have "extends ps ?r (rw_reader w1)"
    using seqs quiet_seq [OF assms(1)] by (simp add: w1_def upd_reader_def extends_add_numbered ps_def)
  then have "numbering_ok (rw_db w1) (rw_reader w1)"
    using assms(1) numbering_extends by (simp add: quiet_def w1_def upd_reader_def)
  then have "numbering_ok (rw_db w2) (rw_reader w2)"
    using assms(1) numbering_begin [of "rw_db w1" "rw_reader w1"]
    by (simp add: w2_def w1_def upd_reader_def quiet_def add_numbered_def)
  with end_commit_ok [OF _ ended] have "numbering_ok (rw_db w3) (rw_reader w3)" by simp
  then have "same_work w (publish_world ps w3)"
    using db' lease2
    by (simp add: same_work_def quiet_def publish_world_def w3_def calls_def upd_reader_def)
       (simp add: w2_def w1_def upd_reader_def begin_commit_def add_numbered_def)
  moreover have "publish_platform rid parts now w = (publish_world ps w3, None)"
    using ended by (simp add: publish_platform_def then_step_def commit_now_def w2_def w1_def ps_def Let_def)
  moreover have "t_inputs (rw_db (publish_world ps w3)) = t_inputs (rw_db w)"
    using db'(4) by (simp add: publish_world_def w3_def calls_def upd_reader_def)
  moreover have "submitted (publish_world ps w3) = submitted w"
    by (simp add: submitted_def publish_world_def w3_def calls_def upd_reader_def w2_def w1_def map_filter_simps)
  ultimately show ?thesis by blast
qed

section \<open>A pass over the inputs\<close>

definition state_of :: "string \<Rightarrow> db \<Rightarrow> input_state option" where
  "state_of iid db = map_option i_state (first_row (\<lambda>i. i_input_id i = iid) (t_inputs db))"

lemma state_of_update:
  assumes "t_inputs db' = update_where (\<lambda>i. i_input_id i = iid \<and> q (i_state i)) f (t_inputs db)"
    and "\<And>i. i_input_id (f i) = i_input_id i" and "\<And>i. i_state (f i) = st"
  shows "state_of iid' db' = (if iid' = iid then map_option (\<lambda>s. if q s then st else s) (state_of iid db) else state_of iid' db)"
proof -
  have "first_row (\<lambda>i. i_input_id i = iid') (t_inputs db') =
      map_option (\<lambda>i. if i_input_id i = iid \<and> q (i_state i) then f i else i) (first_row (\<lambda>i. i_input_id i = iid') (t_inputs db))"
    unfolding assms(1) using assms(2) by (rule first_row_update_where)
  then show ?thesis
    by (auto simp: state_of_def option.map_comp o_def assms(3) dest!: first_row_Some intro!: option.map_cong split: if_splits)
qed

lemma state_of_failed:
  "state_of iid' (mark_failed iid failure db) =
     (if iid' = iid then map_option (\<lambda>s. if open_input_state s then Failed else s) (state_of iid db) else state_of iid' db)"
  by (rule state_of_update [where f = "\<lambda>i. i\<lparr>i_state := Failed, i_failure := Some failure\<rparr>"])
     (simp_all add: mark_failed_def)

lemma state_of_delivered:
  "state_of iid' (mark_delivered [iid] now db) =
     (if iid' = iid then map_option (\<lambda>s. if s = Pending then Delivered else s) (state_of iid db) else state_of iid' db)"
  by (rule state_of_update [where f = "\<lambda>i. i\<lparr>i_state := Delivered, i_delivered_at := Some now\<rparr>"])
     (simp_all add: mark_delivered_def)

lemma quiet_update:
  assumes "quiet w" and "keys_ok (f (rw_db w))" and "t_output (f (rw_db w)) = t_output (rw_db w)"
    and "t_readers (f (rw_db w)) = t_readers (rw_db w)"
  shows "quiet (upd_db f w)"
proof -
  have "contiguous sid (f (rw_db w)) = contiguous sid (rw_db w)" "max_seq sid (f (rw_db w)) = max_seq sid (rw_db w)" for sid
    by (simp_all add: contiguous_def max_seq_def session_log_def assms(3))
  then have "numbering_ok (f (rw_db w)) (rw_reader w) = numbering_ok (rw_db w) (rw_reader w)"
    by (simp add: numbering_ok_def)
  with assms show ?thesis by (simp add: quiet_def upd_db_def)
qed

definition reaches :: "runtime_client \<Rightarrow> rworld \<Rightarrow> input_row \<Rightarrow> bool" where
  "reaches client w row \<longleftrightarrow>
     re_permission_failure (rw_reader w) = None \<and> cl_prepare client (runtime_input_of row) = Prepared"

definition accepted_by :: "runtime_client \<Rightarrow> rworld \<Rightarrow> input_row \<Rightarrow> bool" where
  "accepted_by client w row \<longleftrightarrow> reaches client w row \<and> cl_submit client (runtime_input_of row) = Submitted"

definition never_crashes :: "runtime_client \<Rightarrow> bool" where
  "never_crashes client \<longleftrightarrow>
     (\<forall>item e. cl_prepare client item \<noteq> PrepareFailed e \<and> cl_submit client item \<noteq> SubmitFailed e)"

text \<open>One input handed over or refused.\<close>

definition handed :: "runtime_client \<Rightarrow> input_row \<Rightarrow> rworld \<Rightarrow> rworld \<Rightarrow> bool" where
  "handed client row w w' \<longleftrightarrow>
     same_work w w' \<and>
     submitted w' = submitted w @ (if reaches client w row then [runtime_input_of row] else []) \<and>
     (state_of (i_input_id row) (rw_db w) = Some Pending \<longrightarrow>
        state_of (i_input_id row) (rw_db w') = Some (if accepted_by client w row then Delivered else Failed)) \<and>
     (\<forall>iid. iid \<noteq> i_input_id row \<longrightarrow> state_of iid (rw_db w') = state_of iid (rw_db w))"

lemma refuse_quiet:
  assumes "quiet w"
  shows "\<exists>w'. refuse iid failure now w = (w', None) \<and> same_work w w' \<and> submitted w' = submitted w \<and>
    (\<forall>iid'. state_of iid' (rw_db w') = state_of iid' (mark_failed iid (JObj failure) (rw_db w)))"
proof -
  let ?w = "upd_db (mark_failed iid (JObj failure)) w"
  have "quiet ?w"
    using assms by (rule quiet_update) (use assms in \<open>auto simp: quiet_def mark_failed_def key_defs intro!: keys_ok_update_inputs\<close>)
  from publish_quiet [OF this, of "[input_failed_part iid failure]" None now] obtain w' where
    w': "publish_platform None [input_failed_part iid failure] now ?w = (w', None)" "same_work ?w w'"
      "t_inputs (rw_db w') = t_inputs (rw_db ?w)" "submitted w' = submitted ?w"
    by auto
  then show ?thesis
    by (intro exI [of _ w']) (auto simp: refuse_def same_work_def upd_db_def submitted_def state_of_def)
qed

lemma deliver_input_hands:
  assumes "quiet w" and "never_crashes client"
  shows "\<exists>w'. deliver_input client now row w = (w', None) \<and> handed client row w w'"
proof -
  let ?item = "runtime_input_of row" and ?iid = "i_input_id row"
  have refused: "\<exists>w'. refuse ?iid failure now (calls cs w) = (w', None) \<and> same_work w w' \<and>
      submitted w' = submitted (calls cs w) \<and>
      (\<forall>iid. state_of iid (rw_db w') = state_of iid (mark_failed ?iid (JObj failure) (rw_db w)))" for failure cs
    using refuse_quiet [of "calls cs w" ?iid failure now] assms(1)
    by (auto simp: calls_def same_work_def quiet_def)
  show ?thesis
  proof (cases "re_permission_failure (rw_reader w)")
    case (Some failure)
    from refused [of failure "[]"] Some show ?thesis
      by (auto simp: deliver_input_def handed_def reaches_def accepted_by_def state_of_failed calls_def)
  next
    case None
    show ?thesis
    proof (cases "cl_prepare client ?item")
      case Prepared
      show ?thesis
      proof (cases "cl_submit client ?item")
        case Submitted
        let ?w' = "upd_db (mark_delivered [?iid] now) (calls [SubmitInput ?item] (calls [PrepareInput ?item] w))"
        have "quiet (calls cs w)" for cs using assms(1) by (simp add: quiet_def calls_def)
        then have "quiet ?w'"
          using assms(1) by (intro quiet_update)
            (auto simp: quiet_def mark_delivered_def key_defs calls_def intro!: keys_ok_update_inputs)
        moreover have "deliver_input client now row w = (?w', None)"
          using None Prepared Submitted by (simp add: deliver_input_def Let_def)
        ultimately show ?thesis
          using None Prepared Submitted
          by (auto simp: handed_def same_work_def reaches_def accepted_by_def upd_db_def calls_def submitted_def
              state_of_delivered map_filter_simps)
      next
        case (SubmitRefused code message status)
        from refused [of "refusal code message status" "[PrepareInput ?item, SubmitInput ?item]"] None Prepared SubmitRefused
        show ?thesis
          by (auto simp: deliver_input_def handed_def reaches_def accepted_by_def state_of_failed calls_def Let_def
              submitted_def map_filter_simps)
      next
        case (SubmitFailed e)
        with assms(2) show ?thesis by (auto simp: never_crashes_def)
      qed
    next
      case (PrepareRefused failure)
      from refused [of failure "[PrepareInput ?item]"] None PrepareRefused show ?thesis
        by (auto simp: deliver_input_def handed_def reaches_def accepted_by_def state_of_failed calls_def Let_def
            submitted_def map_filter_simps)
    next
      case (PrepareFailed e)
      with assms(2) show ?thesis by (auto simp: never_crashes_def)
    qed
  qed
qed

text \<open>The whole pass.\<close>

lemma reaches_same: "same_work w w' \<Longrightarrow> reaches client w' row = reaches client w row"
  by (simp add: same_work_def reaches_def)

lemma same_work_trans: "same_work w w' \<Longrightarrow> same_work w' w'' \<Longrightarrow> same_work w w''"
  by (simp add: same_work_def)

lemma deliver_rows:
  assumes "quiet w" and "never_crashes client" and "distinct (map i_input_id rows)"
    and "\<forall>row \<in> set rows. state_of (i_input_id row) (rw_db w) = Some Pending"
  shows "\<exists>w'. each_step (deliver_input client now) rows w = (w', None) \<and> same_work w w' \<and>
    submitted w' = submitted w @ map runtime_input_of (filter (reaches client w) rows) \<and>
    (\<forall>row \<in> set rows. state_of (i_input_id row) (rw_db w') = Some (if accepted_by client w row then Delivered else Failed)) \<and>
    (\<forall>iid. iid \<notin> i_input_id ` set rows \<longrightarrow> state_of iid (rw_db w') = state_of iid (rw_db w))"
  using assms
proof (induction rows arbitrary: w)
  case Nil
  then show ?case by (simp add: same_work_def)
next
  case (Cons row rows)
  from deliver_input_hands [OF Cons.prems(1,2)] obtain w1 where
    step: "deliver_input client now row w = (w1, None)" and h: "handed client row w w1" by blast
  then have same: "same_work w w1" and quiet: "quiet w1" by (simp_all add: handed_def same_work_def)
  have "\<forall>q \<in> set rows. state_of (i_input_id q) (rw_db w1) = Some Pending"
    using Cons.prems(3,4) h by (auto simp: handed_def image_iff)
  from Cons.IH [OF quiet Cons.prems(2) _ this] Cons.prems(3) obtain w2 where
    rest: "each_step (deliver_input client now) rows w1 = (w2, None)" "same_work w1 w2"
      "submitted w2 = submitted w1 @ map runtime_input_of (filter (reaches client w1) rows)"
      "\<forall>q \<in> set rows. state_of (i_input_id q) (rw_db w2) = Some (if accepted_by client w1 q then Delivered else Failed)"
      "\<forall>iid. iid \<notin> i_input_id ` set rows \<longrightarrow> state_of iid (rw_db w2) = state_of iid (rw_db w1)"
    by auto
  have reaches: "reaches client w1 = reaches client w" "accepted_by client w1 = accepted_by client w"
    using reaches_same [OF same] by (auto simp: accepted_by_def)
  have "i_input_id row \<notin> i_input_id ` set rows" using Cons.prems(3) by simp
  then have "state_of (i_input_id row) (rw_db w2) = Some (if accepted_by client w row then Delivered else Failed)"
    using rest(5) h Cons.prems(4) by (simp add: handed_def)
  with rest h reaches step same_work_trans [OF same rest(2)] show ?case
    by (intro exI [of _ w2]) (auto simp: then_step_def handed_def)
qed

section \<open>What reconciling opens and closes\<close>

definition facts_sel :: "(fact \<Rightarrow> string set) \<Rightarrow> reader \<Rightarrow> string set" where
  "facts_sel g r = (\<Union>f \<in> set (b_facts (re_batch r)). g f)"

lemma facts_sel_add [simp]: "facts_sel g (add_fact f r) = facts_sel g r \<union> g f"
  by (auto simp: facts_sel_def add_fact_def)

lemma facts_sel_seq [simp]: "facts_sel g (next_seq r) = facts_sel g r" "facts_sel g (r\<lparr>re_seq := n\<rparr>) = facts_sel g r"
  by (simp_all add: facts_sel_def next_seq_def)

lemma reconcile_steps_sel:
  "facts_sel g (fst (reconcile_fact f rp)) = facts_sel g (fst rp) \<union> g f"
  "facts_sel g (fst (reconcile_close status xid rp)) =
     facts_sel g (fst rp) \<union> g (InteractionClose xid status (Some (re_seq (fst rp) + 1)))"
  "facts_sel g (fst (lose_response rid rp)) =
     facts_sel g (fst rp) \<union> g (ResponseEnd rid OutcomeFailed (Some ''runtime_lost'') None
       (Some (JObj (lost_response_error ''runtime_lost''))))"
  by (simp_all add: reconcile_fact_def reconcile_close_def reader_close_interaction_def lose_response_def Let_def)

lemma set_sorted_ids [simp]: "set (sorted_ids xs) = set xs"
  by (simp add: sorted_ids_def)

lemma fold_sel:
  assumes "\<And>x rp. facts_sel g (fst (h x rp)) = facts_sel g (fst rp) \<union> k x"
  shows "facts_sel g (fst (fold h xs rp)) = facts_sel g (fst rp) \<union> (\<Union>x \<in> set xs. k x)"
proof (induction xs arbitrary: rp)
  case (Cons x xs)
  then show ?case by (simp add: assms Un_assoc)
qed simp

lemma fold_facts_sel:
  "facts_sel g (fst (fold (\<lambda>x. reconcile_fact (F x)) xs rp)) = facts_sel g (fst rp) \<union> (\<Union>x \<in> set xs. g (F x))"
  "facts_sel g (fst (fold lose_response rids rp)) =
     facts_sel g (fst rp) \<union> (\<Union>rid \<in> set rids. g (ResponseEnd rid OutcomeFailed (Some ''runtime_lost'') None
       (Some (JObj (lost_response_error ''runtime_lost'')))))"
  by (rule fold_sel, simp add: reconcile_steps_sel)+

lemma fold_close_sel:
  assumes "\<And>xid status n. g (InteractionClose xid status (Some n)) = k status xid"
  shows "facts_sel g (fst (fold (\<lambda>xid. reconcile_close (S xid) xid) xids rp)) =
    facts_sel g (fst rp) \<union> (\<Union>xid \<in> set xids. k (S xid) xid)"
  by (rule fold_sel) (simp add: reconcile_steps_sel assms)

text \<open>What the facts of \<^verbatim>\<open>_reconcile\<close> select, for a selection that ignores the numbers reserved.\<close>

lemma reconcile_sel:
  assumes "\<And>xid status n. g (InteractionClose xid status (Some n)) = k status xid"
    and "\<And>iids. g (InputsAdmitted iids) = {}" and "\<And>iids failure. g (InputsFailed iids failure) = {}"
  shows "facts_sel g (fst (reconcile_facts rids xids state r)) = facts_sel g r \<union>
    (\<Union>xid \<in> {xid \<in> set xids. xid \<in> fst ` set (closed_of state)}. k (the (map_of (closed_of state) xid)) xid) \<union>
    (\<Union>rid \<in> {rid \<in> set rids. rid \<notin> fst ` set (open_responses_of state)}.
       g (ResponseEnd rid OutcomeFailed (Some ''runtime_lost'') None (Some (JObj (lost_response_error ''runtime_lost''))))) \<union>
    (\<Union>ro \<in> {ro \<in> set (open_responses_of state). fst ro \<notin> set rids}.
       g (ResponseStart (fst ro) (or_origin (snd ro)) (or_input_ids (snd ro)))) \<union>
    (\<Union>xid \<in> {xid \<in> set xids. xid \<notin> fst ` set (pending_of state) \<and> xid \<notin> fst ` set (closed_of state)}. k IExpired xid) \<union>
    (\<Union>xp \<in> {xp \<in> set (pending_of state). fst xp \<notin> set xids}.
       g (InteractionOpen (pi_response_id (snd xp)) (fst xp) (pi_contract (snd xp))))"
  unfolding reconcile_facts_def Let_def split_beta
  using fold_close_sel [where g = g and k = k and S = "\<lambda>_. IExpired", OF assms(1)]
  by (simp add: fold_facts_sel fold_close_sel [where g = g and k = k, OF assms(1)] reconcile_steps_sel assms(2,3))


lemma reconcile_starts:
  "facts_sel starts_of (fst (reconcile_facts rids xids state r)) =
     facts_sel starts_of r \<union> (or_response_id ` set (rs_open_responses state) - set rids)"
proof -
  have keys: "fst ` set (open_responses_of state) = or_response_id ` set (rs_open_responses state)"
    by (auto simp: open_responses_of_def keys_dict_update image_image)
  have "facts_sel starts_of (fst (reconcile_facts rids xids state r)) =
      facts_sel starts_of r \<union> (\<Union>ro \<in> {ro \<in> set (open_responses_of state). fst ro \<notin> set rids}. {fst ro})"
    by (subst reconcile_sel [where k = "\<lambda>_ _. {}"]) simp_all
  also have "\<dots> = facts_sel starts_of r \<union> (fst ` set (open_responses_of state) - set rids)" by auto
  finally show ?thesis by (simp only: keys)
qed

lemma reconcile_ends:
  "facts_sel ends_of (fst (reconcile_facts rids xids state r)) =
     facts_sel ends_of r \<union> (set rids - or_response_id ` set (rs_open_responses state))"
proof -
  have keys: "fst ` set (open_responses_of state) = or_response_id ` set (rs_open_responses state)"
    by (auto simp: open_responses_of_def keys_dict_update image_image)
  show ?thesis
    by (subst reconcile_sel [where k = "\<lambda>_ _. {}"]) (auto simp: keys)
qed

lemma reconcile_opens:
  "facts_sel opens_of (fst (reconcile_facts rids xids state r)) =
     facts_sel opens_of r \<union> (pi_interaction_id ` set (rs_pending_interactions state) - set xids)"
proof -
  have keys: "fst ` set (pending_of state) = pi_interaction_id ` set (rs_pending_interactions state)"
    by (auto simp: pending_of_def keys_dict_update image_image)
  have "facts_sel opens_of (fst (reconcile_facts rids xids state r)) =
      facts_sel opens_of r \<union> (\<Union>xp \<in> {xp \<in> set (pending_of state). fst xp \<notin> set xids}. {fst xp})"
    by (subst reconcile_sel [where k = "\<lambda>_ _. {}"]) simp_all
  also have "\<dots> = facts_sel opens_of r \<union> (fst ` set (pending_of state) - set xids)" by auto
  finally show ?thesis by (simp only: keys)
qed

lemma map_of_dict_update: "map_of (dict_update d kvs) k = (case map_of (rev kvs) k of None \<Rightarrow> map_of d k | Some v \<Rightarrow> Some v)"
  by (induction kvs arbitrary: d) (auto simp: dict_get_set map_add_def split: option.splits)

lemma reconcile_closes:
  assumes "\<forall>status \<in> snd ` set (rs_closed_interactions state). status \<noteq> IOpen"
  shows "facts_sel closes_of (fst (reconcile_facts rids xids state r)) =
    facts_sel closes_of r \<union>
      {xid \<in> set xids. xid \<in> fst ` set (rs_closed_interactions state) \<or> xid \<notin> pi_interaction_id ` set (rs_pending_interactions state)}"
proof -
  have keys: "fst ` set (pending_of state) = pi_interaction_id ` set (rs_pending_interactions state)"
    "fst ` set (closed_of state) = fst ` set (rs_closed_interactions state)"
    by (auto simp: pending_of_def closed_of_def keys_dict_update image_image)
  have closed: "the (map_of (closed_of state) xid) \<noteq> IOpen" if "xid \<in> fst ` set (rs_closed_interactions state)" for xid
  proof -
    from that have "map_of (rev (rs_closed_interactions state)) xid \<noteq> None" by (simp add: map_of_eq_None_iff)
    then obtain v where v: "map_of (rev (rs_closed_interactions state)) xid = Some v" by blast
    then have "v \<in> snd ` set (rs_closed_interactions state)" by (force dest: map_of_SomeD)
    with assms have "v \<noteq> IOpen" by blast
    with v show ?thesis by (simp add: closed_of_def map_of_dict_update)
  qed
  show ?thesis
    by (subst reconcile_sel [where k = "\<lambda>status xid. if status = IOpen then {} else {xid}"])
       (auto simp: keys closed split: if_splits)
qed


text \<open>Responses stay recorded, and a start records its response.\<close>

definition recorded_rids :: "string \<Rightarrow> db \<Rightarrow> string set" where
  "recorded_rids sid db = selected (\<lambda>r. r_session_id r = sid) r_response_id (t_responses db)"

lemma evolves_recorded: "evolves S db db' \<Longrightarrow> recorded_rids sid db \<subseteq> recorded_rids sid db'"
proof
  fix rid assume ev: "evolves S db db'" and "rid \<in> recorded_rids sid db"
  then obtain r where r: "r \<in> set (t_responses db)" "r_session_id r = sid" "r_response_id r = rid"
    by (auto simp: recorded_rids_def selected_def)
  from ev have "grows (response_step S) (\<lambda>r. r_session_id r \<in> S) (t_responses db) (t_responses db')"
    by (simp add: evolves_def)
  from grows_mem [OF this r(1)] obtain r' where "r' \<in> set (t_responses db')" "response_step S r r'" .
  then have "r' \<in> {r \<in> set (t_responses db'). r_session_id r = sid}" "r_response_id r' = rid"
    using r by (simp_all add: response_step_def)
  then show "rid \<in> recorded_rids sid db'" unfolding recorded_rids_def selected_def by blast
qed

lemma add_response_recorded: "rid \<in> recorded_rids sid (add_response now sid rid origin db)"
proof (cases "exists_row (of_response sid rid) (t_responses db)")
  case True
  then show ?thesis by (auto simp: add_response_def recorded_rids_def selected_def of_response_def exists_row_iff)
next
  case False
  let ?r = "new_response sid rid origin (t_next_response_seq db) now"
  have "?r \<in> set (t_responses (add_response now sid rid origin db))" "r_session_id ?r = sid" "r_response_id ?r = rid"
    using False by (simp_all add: add_response_def new_response_def)
  then show ?thesis by (force simp: recorded_rids_def selected_def)
qed

lemma start_recorded:
  assumes "apply_fact now sid f db = Inr db'"
  shows "starts_of f \<subseteq> recorded_rids sid db'"
proof (cases f)
  case (ResponseStart rid origin iids)
  with assms have "recorded_rids sid db' = recorded_rids sid (add_response now sid rid origin db)"
    by (auto simp: link_inputs_def recorded_rids_def split: if_splits)
  with ResponseStart add_response_recorded show ?thesis by simp
qed simp_all

lemma starts_recorded:
  assumes "rfold (apply_fact now sid) fs db = Inr db'" and "f \<in> set fs"
  shows "starts_of f \<subseteq> recorded_rids sid db'"
  using assms
proof (induction fs arbitrary: db)
  case (Cons h fs)
  then obtain mid where mid: "apply_fact now sid h db = Inr mid" "rfold (apply_fact now sid) fs mid = Inr db'"
    by (auto simp: rbind_Inr_iff)
  with Cons start_recorded [OF mid(1)] evolves_recorded [OF evolves_apply_facts [OF mid(2)]] show ?case by auto
qed simp

lemma record_opens:
  assumes "record_batch lease b ttl now db = (Inr (Some out), db')" and "batch_nonempty b" and "sid = l_session_id lease"
  shows "(\<Union>f \<in> set (b_facts b). starts_of f) \<subseteq> recorded_rids sid db'"
    and "(\<Union>f \<in> set (b_facts b). starts_of f) \<inter> (\<Union>f \<in> set (b_facts b). ends_of f) = {} \<Longrightarrow>
      open_rids sid db' \<subseteq> open_rids sid db \<union> (\<Union>f \<in> set (b_facts b). starts_of f) - (\<Union>f \<in> set (b_facts b). ends_of f)"
    and "(\<Union>f \<in> set (b_facts b). opens_of f) \<inter> (\<Union>f \<in> set (b_facts b). closes_of f) = {} \<Longrightarrow>
      open_xids sid db' \<subseteq> open_xids sid db \<union> (\<Union>f \<in> set (b_facts b). opens_of f) - (\<Union>f \<in> set (b_facts b). closes_of f)"
proof -
  from assms(1,2) obtain db2 db3 where facts: "rfold (apply_fact now sid) (b_facts b) db2 = Inr db3"
    and same: "open_rids sid db2 = open_rids sid db" "open_xids sid db2 = open_xids sid db"
      "t_responses db' = t_responses db3" "t_interactions db' = t_interactions db3"
    unfolding assms(3) by (rule record_facts)
  have sets: "recorded_rids sid db' = recorded_rids sid db3" "open_rids sid db' = open_rids sid db3"
    "open_xids sid db' = open_xids sid db3"
    using same by (simp_all add: recorded_rids_def open_rids_def open_xids_def)
  show "(\<Union>f \<in> set (b_facts b). starts_of f) \<subseteq> recorded_rids sid db'"
    using starts_recorded [OF facts] by (auto simp: sets)
  show "open_rids sid db' \<subseteq> open_rids sid db \<union> (\<Union>f \<in> set (b_facts b). starts_of f) - (\<Union>f \<in> set (b_facts b). ends_of f)"
    if "(\<Union>f \<in> set (b_facts b). starts_of f) \<inter> (\<Union>f \<in> set (b_facts b). ends_of f) = {}"
    unfolding sets same(1,2) [symmetric] using facts open_rids_fact that by (rule rfold_net)
  show "open_xids sid db' \<subseteq> open_xids sid db \<union> (\<Union>f \<in> set (b_facts b). opens_of f) - (\<Union>f \<in> set (b_facts b). closes_of f)"
    if "(\<Union>f \<in> set (b_facts b). opens_of f) \<inter> (\<Union>f \<in> set (b_facts b). closes_of f) = {}"
    unfolding sets same(1,2) [symmetric] using facts open_xids_fact that by (rule rfold_net)
qed

section \<open>Properties\<close>

text \<open>
  C6. Delivering takes every waiting input to an end. A reader with its lease and nothing pending,
  whose runtime client may refuse but does not break, finishes its pass over the undelivered
  inputs (taken as one step: nothing else writes meanwhile): in acceptance order it submits exactly those the permission mode and the
  deployment's preparation let through; afterwards each is delivered if the runtime took it
  and failed otherwise, none is left undelivered, and no other input changed its state.
\<close>

theorem every_input_is_delivered_or_failed:
  assumes "quiet w" and "never_crashes client" and "rows = undelivered_inputs (re_sid (rw_reader w)) (rw_db w)"
  shows "\<exists>w'. deliver_pending client now w = (w', None) \<and> quiet w' \<and>
    submitted w' = submitted w @ map runtime_input_of (filter (reaches client w) rows) \<and>
    (\<forall>row \<in> set rows. state_of (i_input_id row) (rw_db w') = Some (if accepted_by client w row then Delivered else Failed)) \<and>
    (\<forall>iid. iid \<notin> i_input_id ` set rows \<longrightarrow> state_of iid (rw_db w') = state_of iid (rw_db w))"
proof -
  have keys: "keys_ok (rw_db w)" using assms(1) by (simp add: quiet_def)
  have ids: "distinct (map i_input_id (t_inputs (rw_db w)))" using keys by (simp add: keys_ok_def)
  have "distinct (map i_input_id rows)"
    using ids by (simp add: assms(3) undelivered_inputs_def distinct_map_order_by distinct_map_filter)
  moreover have "state_of (i_input_id row) (rw_db w) = Some Pending" if "row \<in> set rows" for row
    using that first_row_unique [OF ids, of row] by (auto simp: assms(3) undelivered_inputs_def state_of_def)
  ultimately have "\<exists>w'. each_step (deliver_input client now) rows w = (w', None) \<and> same_work w w' \<and>
      submitted w' = submitted w @ map runtime_input_of (filter (reaches client w) rows) \<and>
      (\<forall>row \<in> set rows. state_of (i_input_id row) (rw_db w') = Some (if accepted_by client w row then Delivered else Failed)) \<and>
      (\<forall>iid. iid \<notin> i_input_id ` set rows \<longrightarrow> state_of iid (rw_db w') = state_of iid (rw_db w))"
    using assms(1,2) by (intro deliver_rows) simp_all
  then show ?thesis by (auto simp: deliver_pending_def assms(3) same_work_def)
qed

text \<open>A runtime that takes what it is given, except inputs prepared under the id \<open>bad\<close>.\<close>

definition sample_client :: runtime_client where
  "sample_client =
     \<lparr>cl_engine_kind = ''claude'',
      cl_prepare = (\<lambda>item. if ru_input_id item = ''bad'' then PrepareRefused [(''code'', JStr ''NO'')] else Prepared),
      cl_submit = (\<lambda>_. Submitted), cl_answer = (\<lambda>_ _. AnswerTaken), cl_interrupt = None, cl_stop_child = None\<rparr>"

definition sample_waiting :: rworld where
  "sample_waiting = sample_world\<lparr>rw_db := snd (sample_send ''bad'' ''n'' [] (snd (sample_send ''i'' ''m'' [] sample_claimed)))\<rparr>"

lemma sample_client_works: "never_crashes sample_client"
  by (simp add: never_crashes_def sample_client_def)

lemma sample_waiting_quiet: "quiet sample_waiting"
proof -
  have "re_batch (rw_reader sample_waiting) = empty_batch" "re_inflight (rw_reader sample_waiting) = None"
    by (simp_all add: sample_waiting_def sample_world_def sample_reader_def new_reader_def)
  moreover have "re_seq (rw_reader sample_waiting) = max_seq ''s'' (rw_db sample_waiting)" by code_simp
  moreover have "contiguous ''s'' (rw_db sample_waiting)" by code_simp
  moreover have "re_sid (rw_reader sample_waiting) = ''s''" by code_simp
  ultimately have "numbering_ok (rw_db sample_waiting) (rw_reader sample_waiting)"
    unfolding numbering_ok_def
    by (intro conjI exI [of _ "re_seq (rw_reader sample_waiting)"])
       (simp_all add: inflight_numbers_def batch_numbers_def empty_batch_def)
  moreover have "holds_lease (rw_db sample_waiting) (re_lease (rw_reader sample_waiting))" by code_simp
  moreover have "keys_ok (rw_db sample_waiting)"
    by (simp add: sample_waiting_def sample_send_def keys_ok_accept_input)
  ultimately show ?thesis
    by (simp add: quiet_def sample_waiting_def sample_world_def sample_reader_def new_reader_def)
qed

theorem every_input_is_delivered_or_failed_witness:
  "\<exists>w'. deliver_pending sample_client 20 sample_waiting = (w', None) \<and> submitted w' = [runtime_input_of (sample_row ''i'' ''m'' 1)] \<and>
     state_of ''i'' (rw_db w') = Some Delivered \<and> state_of ''bad'' (rw_db w') = Some Failed"
proof -
  let ?rows = "undelivered_inputs (re_sid (rw_reader sample_waiting)) (rw_db sample_waiting)"
  have rows: "?rows = [sample_row ''i'' ''m'' 1, sample_row ''bad'' ''n'' 2]" by code_simp
  have fate: "accepted_by sample_client sample_waiting (sample_row ''i'' ''m'' 1)"
    "\<not> accepted_by sample_client sample_waiting (sample_row ''bad'' ''n'' 2)"
    "reaches sample_client sample_waiting (sample_row ''i'' ''m'' 1)"
    "\<not> reaches sample_client sample_waiting (sample_row ''bad'' ''n'' 2)"
    "submitted sample_waiting = []"
    by code_simp+
  have ids: "i_input_id (sample_row iid cmid n) = iid" for iid cmid n by (simp add: sample_row_def new_input_def)
  from every_input_is_delivered_or_failed [OF sample_waiting_quiet sample_client_works refl, of 20]
  obtain w' where "deliver_pending sample_client 20 sample_waiting = (w', None)"
    and "submitted w' = submitted sample_waiting @ map runtime_input_of (filter (reaches sample_client sample_waiting) ?rows)"
    and "\<forall>row \<in> set ?rows. state_of (i_input_id row) (rw_db w') =
      Some (if accepted_by sample_client sample_waiting row then Delivered else Failed)"
    by blast
  then show ?thesis unfolding rows by (intro exI [of _ w']) (simp add: ids fate)
qed

text \<open>
  C20. Delivering hands over every stored answer. When a pass of \<^verbatim>\<open>_deliver_answers\<close> comes to its
  end, the runtime has been asked, in order, to take the stored answer of every open
  interaction of the session that had one; after each, before the next, a commit closed the
  interaction as answered when the runtime took the answer and as expired when it no longer
  had the interaction open. No answer of the session is left waiting.
\<close>

theorem every_answer_is_handed_over:
  assumes "deliver_answers client now w = (w', None)" and "sid = re_sid (rw_reader w)"
  shows "(\<exists>css. rw_calls w' = rw_calls w @ concat css \<and> list_all2 (handed_over client) (pending_answers sid (rw_db w)) css) \<and>
    pending_answers sid (rw_db w') = []"
proof -
  let ?rows = "pending_answers sid (rw_db w)"
  from assms have steps: "each_step (deliver_answer client now) ?rows w = (w', None)" by (simp add: deliver_answers_def)
  have "x_answer x \<noteq> None" if "x \<in> set ?rows" for x using that by (simp add: pending_answers_def)
  with steps deliver_answer_calls have "\<exists>css. rw_calls w' = rw_calls w @ concat css \<and> list_all2 (handed_over client) ?rows css"
    by (intro each_step_calls) blast+
  moreover from each_step_closes [where A = "\<lambda>lease. answered_xids (l_session_id lease)" and key = x_interaction_id, OF steps
      deliver_answer_closes]
  have "answered_xids sid (rw_db w') \<subseteq> answered_xids sid (rw_db w) - x_interaction_id ` set ?rows" by (simp add: assms(2))
  then have "answered_xids sid (rw_db w') = {}" by (simp add: answered_xids_eq)
  ultimately show ?thesis using answered_xids_eq [of sid "rw_db w'"] by simp
qed

text \<open>The sample response asks, and the answer is stored.\<close>

definition sample_answered :: rworld where
  "sample_answered = sample_world\<lparr>rw_reader := sample_reader\<lparr>re_seq := 2\<rparr>,
     rw_db := snd (request_answer ''s'' ''x'' [(''decision'', JStr ''b'')] ''ann'' 21
       (open_interaction 20 ''s'' ''r'' ''x'' (sample_decision [''a'', ''b'']) sample_recorded))\<rparr>"

theorem every_answer_is_handed_over_witness:
  "pending_answers ''s'' (rw_db (fst (deliver_answers sample_client 22 sample_answered))) = [] \<and>
   AnswerInteraction ''x'' [(''decision'', JStr ''b'')] \<in> set (rw_calls (fst (deliver_answers sample_client 22 sample_answered)))"
proof -
  let ?w = "fst (deliver_answers sample_client 22 sample_answered)"
  have "snd (deliver_answers sample_client 22 sample_answered) = None" by code_simp
  then have "deliver_answers sample_client 22 sample_answered = (?w, None)" by (simp add: prod_eq_iff)
  moreover have "''s'' = re_sid (rw_reader sample_answered)" by code_simp
  ultimately have gone: "pending_answers ''s'' (rw_db ?w) = []" and
    "\<exists>css. rw_calls ?w = rw_calls sample_answered @ concat css \<and>
      list_all2 (handed_over sample_client) (pending_answers ''s'' (rw_db sample_answered)) css"
    using every_answer_is_handed_over [of sample_client 22 sample_answered ?w "''s''"] by blast+
  then obtain css where css: "rw_calls ?w = rw_calls sample_answered @ concat css"
    "list_all2 (handed_over sample_client) (pending_answers ''s'' (rw_db sample_answered)) css" by blast
  have asked: "map (\<lambda>x. (x_interaction_id x, x_answer x)) (pending_answers ''s'' (rw_db sample_answered)) =
      [(''x'', Some [(''decision'', JStr ''b'')])]" by code_simp
  then obtain x where x: "pending_answers ''s'' (rw_db sample_answered) = [x]" "x_interaction_id x = ''x''"
    "x_answer x = Some [(''decision'', JStr ''b'')]" by auto
  with css(2) obtain cs where "css = [cs]" "handed_over sample_client x cs" by (auto simp: list_all2_Cons1)
  with gone css(1) x show ?thesis by (auto simp: handed_over_def)
qed

text \<open>
  C7. Reconciling aligns the record with the runtime. When a reader with nothing else to commit has
  reconciled with the state a runtime reports, every response the session has open is one
  the runtime has open, every interaction it has open is one the runtime is waiting on, and
  every response the runtime has open is recorded. Whatever the runtime lost is closed.
\<close>

theorem reconcile_aligns:
  assumes "reconcile state now w = (w', None)" and "re_batch (rw_reader w) = empty_batch"
    and "\<forall>status \<in> snd ` set (rs_closed_interactions state). status \<noteq> IOpen"
  shows "set (open_response_ids (re_sid (rw_reader w)) (rw_db w')) \<subseteq> or_response_id ` set (rs_open_responses state) \<and>
    set (open_interaction_ids (re_sid (rw_reader w)) (rw_db w')) \<subseteq> pi_interaction_id ` set (rs_pending_interactions state) \<and>
    or_response_id ` set (rs_open_responses state) \<subseteq>
      r_response_id ` {r \<in> set (t_responses (rw_db w')). r_session_id r = re_sid (rw_reader w)}"
proof -
  let ?sid = "re_sid (rw_reader w)"
  define rids xids where ids: "rids = open_response_ids ?sid (rw_db w)" "xids = open_interaction_ids ?sid (rw_db w)"
  define rp where "rp = reconcile_facts rids xids state (rw_reader w)"
  define b where "b = re_batch (reconciled state rp)"
  have sel: "(\<Union>f \<in> set (b_facts b). g f) = facts_sel g (fst rp)" for g
    by (simp add: b_def reconciled_def facts_sel_def)
  have none: "facts_sel g (rw_reader w) = {}" for g by (simp add: facts_sel_def assms(2) empty_batch_def)
  have lease: "re_lease (reconciled state rp) = re_lease (rw_reader w)"
    using reconcile_facts_ok [of "rw_reader w" rids xids state] by (simp add: reconciled_def rp_def reconciling_ok_def)
  from assms(1) obtain w1 where w1: "commit_now now (upd_reader (\<lambda>_. reconciled state rp) w) = (w1, None)" "rw_db w' = rw_db w1"
    by (auto simp: reconcile_def then_step_def rp_def ids Let_def publish_world_def split: prod.splits option.splits)
  have nonempty: "batch_nonempty b" by (simp add: b_def reconciled_def batch_nonempty_def)
  from w1(1) obtain out where rec: "record_batch (re_lease (rw_reader w)) b LEASE_TTL_S now (rw_db w) = (Inr (Some out), rw_db w')"
  proof (cases rule: commit_now_cases)
    case nothing
    with nonempty show ?thesis by (simp add: b_def upd_reader_def)
  next
    case (stored out db' cs)
    with that [of out] show ?thesis by (simp add: b_def upd_reader_def lease w1(2) calls_def)
  qed
  note opens = record_opens [OF rec nonempty refl, unfolded sel, unfolded rp_def reconcile_starts reconcile_ends
      reconcile_opens reconcile_closes [OF assms(3)] none]
  have "open_rids ?sid (rw_db w') \<subseteq> or_response_id ` set (rs_open_responses state)"
    using opens(2) open_rids_eq [of ?sid "rw_db w"] by (auto simp: ids)
  moreover have "open_xids ?sid (rw_db w') \<subseteq> pi_interaction_id ` set (rs_pending_interactions state)"
    using opens(3) open_xids_eq [of ?sid "rw_db w"] by (auto simp: ids)
  moreover have "set rids \<subseteq> recorded_rids ?sid (rw_db w)"
    by (auto simp: ids open_response_ids_def recorded_rids_def selected_def)
  then have "set rids \<subseteq> recorded_rids ?sid (rw_db w')"
    using evolves_recorded [OF evolves_record [of "re_lease (rw_reader w)" "rw_db w" b LEASE_TTL_S now], of ?sid] rec by auto
  with opens(1) have "or_response_id ` set (rs_open_responses state) \<subseteq> recorded_rids ?sid (rw_db w')" by auto
  ultimately show ?thesis by (simp add: open_rids_eq open_xids_eq recorded_rids_def selected_def)
qed

text \<open>A runtime that lost the sample response and runs another one.\<close>

definition sample_state :: runtime_state where
  "sample_state =
     \<lparr>rs_status = ''busy'',
      rs_open_responses = [\<lparr>or_response_id = ''q'', or_origin = OriginEngine, or_input_ids = []\<rparr>],
      rs_pending_interactions = [], rs_queued_input_ids = [], rs_admitted_input_ids = [], rs_cursor = Some sample_cursor,
      rs_closed_interactions = [], rs_refused_inputs = []\<rparr>"

theorem reconcile_aligns_witness:
  "open_response_ids ''s'' (rw_db sample_answered) = [''r''] \<and>
   set (open_response_ids ''s'' (rw_db (fst (reconcile sample_state 30 sample_answered)))) \<subseteq> {''q''} \<and>
   set (open_interaction_ids ''s'' (rw_db (fst (reconcile sample_state 30 sample_answered)))) \<subseteq> {}"
proof -
  let ?w = "fst (reconcile sample_state 30 sample_answered)"
  have "snd (reconcile sample_state 30 sample_answered) = None" by code_simp
  then have "reconcile sample_state 30 sample_answered = (?w, None)" by (simp add: prod_eq_iff)
  moreover have "re_batch (rw_reader sample_answered) = empty_batch"
    by (simp add: sample_answered_def sample_reader_def new_reader_def)
  moreover have "\<forall>status \<in> snd ` set (rs_closed_interactions sample_state). status \<noteq> IOpen" by (simp add: sample_state_def)
  ultimately have "set (open_response_ids (re_sid (rw_reader sample_answered)) (rw_db ?w)) \<subseteq>
      or_response_id ` set (rs_open_responses sample_state) \<and>
    set (open_interaction_ids (re_sid (rw_reader sample_answered)) (rw_db ?w)) \<subseteq>
      pi_interaction_id ` set (rs_pending_interactions sample_state) \<and>
    or_response_id ` set (rs_open_responses sample_state) \<subseteq>
      r_response_id ` {r \<in> set (t_responses (rw_db ?w)). r_session_id r = re_sid (rw_reader sample_answered)}"
    by (rule reconcile_aligns)
  moreover have "re_sid (rw_reader sample_answered) = ''s''" by code_simp
  moreover have "open_response_ids ''s'' (rw_db sample_answered) = [''r'']" by code_simp
  ultimately show ?thesis by (simp add: sample_state_def)
qed

end
