(* ===== verification/Host.thy ===== *)
theory Host
  imports Delivery
begin

text \<open>
  This process's session readers, \<^verbatim>\<open>session_runtime/host.py\<close>: starting a reader unless one runs
  (\<^verbatim>\<open>ensure\<close>), the turns of \<^verbatim>\<open>_serve\<close> around a reader's run, and what is recorded when a runtime
  is confirmed gone (\<^verbatim>\<open>_runtime_gone\<close>, \<^verbatim>\<open>_fail_open_inputs\<close>).

  The connector is code of another component: its answers, and what a replacement writes to
  the store, are arguments. The calls out of the host are collected in \<open>hw_calls\<close>. The host's
  delays are in milliseconds. Cancelling a reader's task (\<^verbatim>\<open>stop\<close>), the sweep's timer, log lines
  and the fault barriers of test deployments are left out.
\<close>

section \<open>A runtime that is gone\<close>

datatype host_call = CommittedFacts fact_batch | ReplaceRuntime | CloseClient | ReleaseRuntime

record hworld =
  hw_db :: db
  hw_feed :: session_feed
  hw_calls :: "host_call list"

definition hcalls :: "host_call list \<Rightarrow> hworld \<Rightarrow> hworld" where
  "hcalls cs w = w\<lparr>hw_calls := hw_calls w @ cs\<rparr>"

text \<open>What the host records for the responses the runtime took with it.\<close>

fun lose_responses :: "string \<Rightarrow> string list \<Rightarrow> int \<Rightarrow> fact_batch \<Rightarrow> fact_batch" where
  "lose_responses reason [] seq b = b"
| "lose_responses reason (rid # rids) seq b =
     (let ps = number_parts (Some rid) (lost_response_parts rid reason) seq in
      lose_responses reason rids (seq + int (length ps))
        (b\<lparr>b_facts := b_facts b @ [ResponseEnd rid OutcomeFailed (Some reason) None (Some (JObj (lost_response_error reason)))],
           b_output := b_output b @ ps\<rparr>))"

text \<open>
  Commit a batch of the host and, when it is stored, publish its parts. The batch in the
  result has the output as it was stored; \<^const>\<open>None\<close> means the lease is lost.
\<close>

definition host_record :: "reader_lease \<Rightarrow> fact_batch \<Rightarrow> time \<Rightarrow> hworld \<Rightarrow> hworld \<times> fact_batch option res" where
  "host_record lease batch now w =
     (case record_batch lease batch LEASE_TTL_S now (hw_db w) of
        (Inl e, db') \<Rightarrow> (w\<lparr>hw_db := db'\<rparr>, Inl e)
      | (Inr None, db') \<Rightarrow> (w\<lparr>hw_db := db'\<rparr>, Inr None)
      | (Inr (Some out), db') \<Rightarrow>
          (w\<lparr>hw_db := db', hw_feed := publish_parts (l_session_id lease) out (hw_feed w)\<rparr>,
           Inr (Some (batch\<lparr>b_output := out\<rparr>))))"

definition fail_open_inputs :: "reader_lease \<Rightarrow> obj \<Rightarrow> time \<Rightarrow> hworld \<Rightarrow> hworld \<times> error option" where
  "fail_open_inputs lease failure now w =
     (let sid = l_session_id lease; iids = open_input_ids sid (hw_db w) in
      if iids = [] then (w, None)
      else
        let seq = fst (resume_point sid (hw_db w));
            batch = empty_batch\<lparr>b_facts := [InputsFailed iids (JObj failure)],
              b_output := number_parts None (map (\<lambda>iid. input_failed_part iid failure) iids) seq\<rparr>
        in case host_record lease batch now w of
             (w', Inl e) \<Rightarrow> (w', Some e)
           | (w', Inr _) \<Rightarrow> (w', None))"

definition conversation_ended :: obj where
  "conversation_ended =
     [(''code'', JStr ''CONVERSATION_ENDED''),
      (''message'', JStr ''the conversation ended before this message was answered'')]"

definition runtime_start_failed :: obj where
  "runtime_start_failed =
     [(''code'', JStr ''RUNTIME_START_FAILED''),
      (''message'', JStr ''the conversation's runtime could not be started; send the message again to retry'')]"

text \<open>
  How a replacement ended: started, refused because a start already failed, waiting on the
  person (with the message and the action \<^verbatim>\<open>validated_user_action\<close> admits), or failed otherwise.
\<close>

datatype replace_result =
    Replaced
  | StartFailed
  | UserActionRequired string "obj option"
  | ReplaceFailed error

definition user_action_failure :: "string \<Rightarrow> obj option \<Rightarrow> obj" where
  "user_action_failure message action =
     [(''code'', JStr ''TURN_PREPARATION_USER_ACTION_REQUIRED''), (''message'', JStr message)] @
     (case action of None \<Rightarrow> [] | Some a \<Rightarrow> [(''user_action'', JObj a)])"

text \<open>
  The rest of \<^verbatim>\<open>_runtime_gone\<close> for a runtime to replace: \<open>answer\<close> is how a replacement ends and
  \<open>effect\<close> what asking for it writes to the store.
\<close>

definition hand_on :: "replace_result \<Rightarrow> (db \<Rightarrow> db) \<Rightarrow> reader_lease \<Rightarrow> time \<Rightarrow> hworld \<Rightarrow> hworld \<times> error option" where
  "hand_on answer effect lease now w =
     (let sid = l_session_id lease; w1 = w\<lparr>hw_db := snd (reclaim_unadmitted sid (hw_db w))\<rparr> in
      if undelivered_inputs sid (hw_db w1) = [] then (w1, None)
      else
        let w2 = hcalls [ReplaceRuntime] (w1\<lparr>hw_db := effect (hw_db w1)\<rparr>) in
        case answer of
          Replaced \<Rightarrow> (w2, None)
        | StartFailed \<Rightarrow> fail_open_inputs lease runtime_start_failed now w2
        | UserActionRequired message action \<Rightarrow>
            fail_open_inputs lease (user_action_failure message action) now w2
        | ReplaceFailed e \<Rightarrow> (w2, Some e))"

definition runtime_gone :: "replace_result \<Rightarrow> (db \<Rightarrow> db) \<Rightarrow> reader_lease \<Rightarrow> string \<Rightarrow> time \<Rightarrow> hworld \<Rightarrow>
    hworld \<times> error option" where
  "runtime_gone answer effect lease reason now w =
     (let sid = l_session_id lease;
          batch = lose_responses reason (open_response_ids sid (hw_db w)) (fst (resume_point sid (hw_db w)))
            (empty_batch\<lparr>b_status := Some ''idle''\<rparr>)
      in case host_record lease batch now w of
           (w1, Inl e) \<Rightarrow> (w1, Some e)
         | (w1, Inr None) \<Rightarrow> (w1, None)
         | (w1, Inr (Some stored)) \<Rightarrow>
             let w2 = hcalls [CommittedFacts stored] w1 in
             if reason = ''conversation_ended'' then fail_open_inputs lease conversation_ended now w2
             else hand_on answer effect lease now w2)"

section \<open>One session\<close>

datatype connect_result =
    Connected
  | NotReady
  | ProtocolIncompatible string
  | Gone string
  | RuntimeEnded
  | ConnectFailed error

datatype serve_next = RunReader | ServeReturns | ServeFails error

definition after_gone :: "hworld \<times> error option \<Rightarrow> hworld \<times> serve_next" where
  "after_gone r = (fst r, case snd r of None \<Rightarrow> ServeReturns | Some e \<Rightarrow> ServeFails e)"

text \<open>A turn of the loop in \<^verbatim>\<open>_serve\<close> up to the reader's run.\<close>

definition serve_connect :: "connect_result \<Rightarrow> replace_result \<Rightarrow> (db \<Rightarrow> db) \<Rightarrow> reader_lease \<Rightarrow> time \<Rightarrow> hworld \<Rightarrow>
    hworld \<times> serve_next" where
  "serve_connect connect answer effect lease now w =
     (case renew_reader lease LEASE_TTL_S now (hw_db w) of
        (held, db1) \<Rightarrow>
          let w1 = w\<lparr>hw_db := db1\<rparr> in
          if \<not> held then (w1, ServeReturns)
          else
            case connect of
              Connected \<Rightarrow> (w1, RunReader)
            | NotReady \<Rightarrow> (w1, ServeReturns)
            | ProtocolIncompatible message \<Rightarrow>
                (case record_batch lease (empty_batch\<lparr>b_protocol_error := Some message\<rparr>) LEASE_TTL_S now (hw_db w1) of
                   (Inl e, db2) \<Rightarrow> (w1\<lparr>hw_db := db2\<rparr>, ServeFails e)
                 | (Inr _, db2) \<Rightarrow> (w1\<lparr>hw_db := db2\<rparr>, ServeReturns))
            | Gone reason \<Rightarrow> after_gone (runtime_gone answer effect lease reason now w1)
            | RuntimeEnded \<Rightarrow> after_gone (runtime_gone answer effect lease ''conversation_ended'' now w1)
            | ConnectFailed e \<Rightarrow> (w1, ServeFails e))"

definition RECONNECT_DELAY_MS :: int where
  "RECONNECT_DELAY_MS = 500"

definition RECONNECT_DELAY_CAP_MS :: int where
  "RECONNECT_DELAY_CAP_MS = 10000"

text \<open>After the run: the delay slept and the next one, or the end of the loop.\<close>

definition serve_after_run :: "reader_exit \<Rightarrow> int \<Rightarrow> hworld \<Rightarrow> hworld \<times> (int \<times> int) option" where
  "serve_after_run ended delay w =
     (hcalls [CloseClient] w,
      if ended = ExitLeaseLost \<or> ended = ProtocolError then None
      else Some (delay, min (delay * 2) RECONNECT_DELAY_CAP_MS))"

section \<open>The host\<close>

text \<open>
  \<open>h_tasks\<close> holds the lease each task of the host serves, and whether the task has ended
  without leaving the table (a task cancelled before its first step).
\<close>

record reader_host =
  h_owner :: string
  h_tasks :: "(string, reader_lease \<times> bool) dict"
  h_claiming :: "string list"

definition new_host :: "string \<Rightarrow> reader_host" where
  "new_host owner = \<lparr>h_owner = owner, h_tasks = [], h_claiming = []\<rparr>"

definition host_reads :: "string \<Rightarrow> reader_host \<Rightarrow> bool" where
  "host_reads sid h = (case map_of (h_tasks h) sid of None \<Rightarrow> False | Some (lease, ended) \<Rightarrow> \<not> ended)"

text \<open>\<^verbatim>\<open>ensure\<close> up to its claim, and from the claim's answer on.\<close>

definition ensure_begin :: "string \<Rightarrow> reader_host \<Rightarrow> reader_host option" where
  "ensure_begin sid h =
     (if host_reads sid h \<or> sid \<in> set (h_claiming h) then None
      else Some (h\<lparr>h_claiming := h_claiming h @ [sid]\<rparr>))"

definition ensure_claimed :: "string \<Rightarrow> reader_lease option \<Rightarrow> reader_host \<Rightarrow> reader_host" where
  "ensure_claimed sid lease h =
     h\<lparr>h_tasks := (case lease of None \<Rightarrow> h_tasks h | Some l \<Rightarrow> dict_set sid (l, False) (h_tasks h)),
       h_claiming := filter (\<lambda>k. k \<noteq> sid) (h_claiming h)\<rparr>"

text \<open>The end of \<^verbatim>\<open>_serve\<close>: the task leaves the table, the runtime and the lease are released.\<close>

definition serve_pop :: "string \<Rightarrow> reader_host \<Rightarrow> reader_host" where
  "serve_pop sid h = h\<lparr>h_tasks := dict_pop sid (h_tasks h)\<rparr>"

definition serve_release :: "bool \<Rightarrow> reader_lease \<Rightarrow> time \<Rightarrow> hworld \<Rightarrow> hworld" where
  "serve_release connected lease now w =
     (let w1 = (if connected then hcalls [ReleaseRuntime] w else w)
      in w1\<lparr>hw_db := release_reader lease now (hw_db w1)\<rparr>)"

section \<open>Lemmas: what a lost runtime leaves\<close>

definition lost_fact :: "string \<Rightarrow> string \<Rightarrow> fact" where
  "lost_fact reason rid =
     ResponseEnd rid OutcomeFailed (Some reason) None (Some (JObj (lost_response_error reason)))"

fun lost_output :: "string \<Rightarrow> string list \<Rightarrow> int \<Rightarrow> output_part list" where
  "lost_output reason [] seq = []"
| "lost_output reason (rid # rids) seq =
     number_parts (Some rid) (lost_response_parts rid reason) seq @ lost_output reason rids (seq + 3)"

lemma lose_responses_eq:
  "lose_responses reason rids seq b =
     b\<lparr>b_facts := b_facts b @ map (lost_fact reason) rids, b_output := b_output b @ lost_output reason rids seq\<rparr>"
  by (induction rids arbitrary: seq b) (simp_all add: lost_fact_def lost_response_parts_def numeral_eq_Suc)

lemma lost_output_seqs: "map p_seq (lost_output reason rids seq) = [seq + 1..seq + 3 * int (length rids)]"
proof (induction rids arbitrary: seq)
  case (Cons rid rids)
  have "map p_seq (number_parts (Some rid) (lost_response_parts rid reason) seq) = [seq + 1..seq + 3]"
    by (simp only: number_parts_seqs) (simp add: lost_response_parts_def)
  moreover have "[seq + 1..seq + 3] @ [seq + 3 + 1..seq + 3 + 3 * int (length rids)] = [seq + 1..seq + 3 + 3 * int (length rids)]"
    using upto_split2 [of "seq + 1" "seq + 3" "seq + 3 + 3 * int (length rids)"] by simp
  ultimately show ?case using Cons by (simp add: algebra_simps)
qed simp


text \<open>Responses lost: inputs stay, every one of them ends, what they asked is withdrawn.\<close>

abbreviation asked_rids :: "string \<Rightarrow> db \<Rightarrow> string set" where
  "asked_rids sid db \<equiv> selected (unclosed sid) x_response_id (t_interactions db)"

lemma lost_facts_apply:
  assumes "rfold (apply_fact now sid) (map (lost_fact reason) rids) db = Inr db'"
  shows "t_inputs db' = t_inputs db \<and> asked_rids sid db' \<subseteq> asked_rids sid db - set rids"
  using assms
proof (induction rids arbitrary: db)
  case (Cons rid rids)
  let ?db1 = "end_response now sid rid OutcomeFailed (Some reason) None (Some (JObj (lost_response_error reason))) db"
  have "t_inputs ?db1 = t_inputs db" by (simp add: end_response_def)
  moreover have "asked_rids sid ?db1 \<subseteq> asked_rids sid db - {rid}"
    by (simp add: end_response_def, rule selected_update) auto
  moreover have "rfold (apply_fact now sid) (map (lost_fact reason) rids) ?db1 = Inr db'"
    using Cons.prems lost_fact_def [of reason rid] by simp
  note Cons.IH [OF this]
  ultimately show ?case by auto
qed simp

lemma record_sessions:
  "map s_session_id (t_sessions (snd (record_batch lease b ttl now db))) = map s_session_id (t_sessions db)"
proof (cases rule: record_batch_cases [of lease b ttl now db])
  case (recorded out db')
  from recorded(2) obtain db2 db3 db4 where
    index: "(if list_ex is_position (b_facts b)
      then index_recorded_messages (l_session_id lease) (snd (renew_reader lease ttl now db))
      else Inr (snd (renew_reader lease ttl now db))) = Inr db2"
    and facts: "rfold (apply_fact now (l_session_id lease)) (b_facts b) db2 = Inr db3"
    and ins: "insert_output (l_session_id lease) now out db3 = Inr db4"
    and db': "db' = update_session (l_session_id lease) now b out db4"
    by (rule record_work_Some)
  have "t_sessions db2 = t_sessions db" using index by (auto dest: index_frame split: if_splits)
  then have "t_sessions db4 = t_sessions db" using apply_facts_frame(2) [OF facts] ins by (simp add: insert_output_Inr)
  then show ?thesis
    by (simp add: recorded(1) db' update_session_def Let_def notify_def map_update_where)
qed simp_all

lemma has_session:
  assumes "map s_session_id (t_sessions db') = map s_session_id (t_sessions db)"
    and "exists_row (\<lambda>s. s_session_id s = sid) (t_sessions db)"
  shows "exists_row (\<lambda>s. s_session_id s = sid) (t_sessions db')"
proof -
  have "sid \<in> set (map s_session_id (t_sessions db))" using assms(2) by (auto simp: exists_row_iff)
  then have "sid \<in> set (map s_session_id (t_sessions db'))" by (simp only: assms(1))
  then show ?thesis by (auto simp: exists_row_iff)
qed

text \<open>What the holder of a session's lease finds in the store.\<close>

definition serving :: "reader_lease \<Rightarrow> db \<Rightarrow> bool" where
  "serving lease db \<longleftrightarrow>
     holds_lease db lease \<and> keys_ok db \<and> contiguous (l_session_id lease) db \<and>
     exists_row (\<lambda>s. s_session_id s = l_session_id lease) (t_sessions db)"

lemma serving_resume: "serving lease db \<Longrightarrow> fst (resume_point (l_session_id lease) db) = max_seq (l_session_id lease) db"
  by (auto simp: serving_def resume_point_def exists_row_iff first_row_None_iff split: option.splits)

lemma host_record_plain:
  assumes "serving lease (hw_db w)" and "list_all plain_fact (b_facts b)" and "batch_nonempty b"
    and "map p_seq (b_output b) = [max_seq (l_session_id lease) (hw_db w) + 1..n]" and "max_seq (l_session_id lease) (hw_db w) \<le> n"
  obtains w' db3 where "host_record lease b now w = (w', Inr (Some b))" and "serving lease (hw_db w')"
    and "rfold (apply_fact now (l_session_id lease)) (b_facts b) (snd (renew_reader lease LEASE_TTL_S now (hw_db w))) = Inr db3"
    and "t_inputs (hw_db w') = t_inputs db3" and "t_responses (hw_db w') = t_responses db3"
    and "t_interactions (hw_db w') = t_interactions db3"
    and "record_batch lease b LEASE_TTL_S now (hw_db w) = (Inr (Some (b_output b)), hw_db w')"
proof (rule record_plain [OF _ _ _ assms(2,4,5,3), of LEASE_TTL_S now])
  show "holds_lease (hw_db w) lease" "keys_ok (hw_db w)" "contiguous (l_session_id lease) (hw_db w)"
    using assms(1) by (simp_all add: serving_def)
  fix db' db3
  assume rec: "record_batch lease b LEASE_TTL_S now (hw_db w) = (Inr (Some (b_output b)), db')"
    and facts: "rfold (apply_fact now (l_session_id lease)) (b_facts b) (snd (renew_reader lease LEASE_TTL_S now (hw_db w))) = Inr db3"
    and same: "t_inputs db' = t_inputs db3" "t_responses db' = t_responses db3" "t_interactions db' = t_interactions db3"
    and ok: "holds_lease db' lease" "keys_ok db'" "contiguous (l_session_id lease) db'"
  define w' where "w' = w\<lparr>hw_db := db', hw_feed := publish_parts (l_session_id lease) (b_output b) (hw_feed w)\<rparr>"
  have db: "hw_db w' = db'" by (simp add: w'_def)
  have "map s_session_id (t_sessions db') = map s_session_id (t_sessions (hw_db w))"
    using record_sessions [of lease b LEASE_TTL_S now "hw_db w"] by (simp add: rec)
  then have "serving lease (hw_db w')"
    using ok has_session assms(1) unfolding db serving_def by blast
  moreover have "host_record lease b now w = (w', Inr (Some b))" by (simp add: host_record_def rec w'_def)
  ultimately show thesis using that facts same rec unfolding db [symmetric] by blast
qed


lemma unended_none: "open_response_ids sid db = [] \<longleftrightarrow> open_rids sid db = {}"
  using open_rids_eq [of sid db] by auto

lemma lost_recorded:
  assumes "serving lease (hw_db w)" and "sid = l_session_id lease" and "rids = open_response_ids sid (hw_db w)"
  obtains w' b where "host_record lease (lose_responses reason rids (fst (resume_point sid (hw_db w)))
      (empty_batch\<lparr>b_status := Some ''idle''\<rparr>)) now w = (w', Inr (Some b))"
    and "serving lease (hw_db w')" and "t_inputs (hw_db w') = t_inputs (hw_db w)"
    and "open_response_ids sid (hw_db w') = []" and "asked_rids sid (hw_db w') \<inter> set rids = {}"
proof -
  let ?seq = "max_seq sid (hw_db w)"
  let ?b = "lose_responses reason rids (fst (resume_point sid (hw_db w))) (empty_batch\<lparr>b_status := Some ''idle''\<rparr>)"
  have b: "?b = empty_batch\<lparr>b_status := Some ''idle'', b_facts := map (lost_fact reason) rids, b_output := lost_output reason rids ?seq\<rparr>"
    using serving_resume [OF assms(1)] by (simp add: lose_responses_eq assms(2) empty_batch_def)
  have nonempty: "batch_nonempty ?b" by (simp add: b batch_nonempty_def)
  have plain: "list_all plain_fact (b_facts ?b)" by (simp add: b list_all_iff lost_fact_def)
  have seqs: "map p_seq (b_output ?b) = [?seq + 1..?seq + 3 * int (length rids)]" by (simp add: b lost_output_seqs)
  show thesis
  proof (rule host_record_plain [OF assms(1) plain nonempty, of "?seq + 3 * int (length rids)" now])
    show "map p_seq (b_output ?b) = [max_seq (l_session_id lease) (hw_db w) + 1..?seq + 3 * int (length rids)]"
      using seqs by (simp add: assms(2))
    show "max_seq (l_session_id lease) (hw_db w) \<le> ?seq + 3 * int (length rids)" by (simp add: assms(2))
    fix w' db3
    assume rec: "host_record lease ?b now w = (w', Inr (Some ?b))" "serving lease (hw_db w')"
      and facts: "rfold (apply_fact now (l_session_id lease)) (b_facts ?b)
        (snd (renew_reader lease LEASE_TTL_S now (hw_db w))) = Inr db3"
      and same: "t_inputs (hw_db w') = t_inputs db3" "t_interactions (hw_db w') = t_interactions db3"
      and stored: "record_batch lease ?b LEASE_TTL_S now (hw_db w) = (Inr (Some (b_output ?b)), hw_db w')"
    have ends: "(\<Union>f \<in> set (b_facts ?b). ends_of f) = set rids" "(\<Union>f \<in> set (b_facts ?b). starts_of f) = {}"
      by (auto simp: b lost_fact_def)
    have "open_rids sid (hw_db w') \<subseteq> open_rids sid (hw_db w) - set rids"
      using record_opens(2) [OF stored nonempty assms(2)] by (simp add: ends)
    then have "open_response_ids sid (hw_db w') = []"
      by (simp add: unended_none assms(3) open_rids_eq)
    moreover have "rfold (apply_fact now sid) (map (lost_fact reason) rids) (snd (renew_reader lease LEASE_TTL_S now (hw_db w))) = Inr db3"
      using facts unfolding b by (simp add: assms(2))
    from lost_facts_apply [OF this] same
    have "t_inputs (hw_db w') = t_inputs (hw_db w)" "asked_rids sid (hw_db w') \<inter> set rids = {}" by auto
    ultimately show thesis using that rec by blast
  qed
qed

text \<open>Inputs failed: all of those still open, and nothing else changes.\<close>

lemma failed_none_open:
  assumes "t_inputs db' = update_where (held_input sid (open_input_ids sid db))
      (\<lambda>i. i\<lparr>i_state := Failed, i_failure := Some failure\<rparr>) (t_inputs db)"
  shows "open_input_ids sid db' = []"
proof -
  have iids: "set (open_input_ids sid db) = i_input_id ` {i \<in> set (t_inputs db). i_session_id i = sid \<and> open_input_state (i_state i)}"
    by (simp add: open_input_ids_def)
  have "\<not> (i_session_id i = sid \<and> open_input_state (i_state i))" if "i \<in> set (t_inputs db')" for i
  proof -
    from that obtain j where j: "j \<in> set (t_inputs db)"
      "i = (if held_input sid (open_input_ids sid db) j then j\<lparr>i_state := Failed, i_failure := Some failure\<rparr> else j)"
      unfolding assms set_update_where by blast
    show ?thesis
    proof (cases "held_input sid (open_input_ids sid db) j")
      case False
      with j show ?thesis unfolding held_input_def iids by auto
    qed (simp add: j(2) open_input_state_iff)
  qed
  then have "filter (\<lambda>i. i_session_id i = sid \<and> open_input_state (i_state i)) (t_inputs db') = []"
    by (simp add: filter_empty_conv)
  then show ?thesis by (simp add: open_input_ids_def order_by_def)
qed

lemma failed_states:
  assumes "t_inputs db' = update_where (held_input sid (open_input_ids sid db))
      (\<lambda>i. i\<lparr>i_state := Failed, i_failure := Some failure\<rparr>) (t_inputs db)"
    and "keys_ok db" and "iid \<in> set (open_input_ids sid db)"
  shows "state_of iid db' = Some Failed"
proof -
  from assms(3) obtain i where i: "i \<in> set (t_inputs db)" "i_input_id i = iid" "held_input sid (open_input_ids sid db) i"
    by (auto simp: open_input_ids_def held_input_def)
  have "first_row (\<lambda>i. i_input_id i = iid) (t_inputs db) = Some i"
    using assms(2) i(1,2) by (intro first_row_unique) (simp_all add: keys_ok_def)
  with i(3) show ?thesis by (simp add: state_of_def assms(1) first_row_update_where)
qed

lemma fail_open_inputs_closes:
  assumes "serving lease (hw_db w)" and "sid = l_session_id lease"
  obtains w' where "fail_open_inputs lease failure now w = (w', None)" and "serving lease (hw_db w')"
    and "t_responses (hw_db w') = t_responses (hw_db w)" and "t_interactions (hw_db w') = t_interactions (hw_db w)"
    and "open_input_ids sid (hw_db w') = []" and "\<forall>iid \<in> set (open_input_ids sid (hw_db w)). state_of iid (hw_db w') = Some Failed"
proof (cases "open_input_ids sid (hw_db w) = []")
  case True
  with assms that [of w] show thesis by (simp add: fail_open_inputs_def)
next
  case False
  let ?iids = "open_input_ids sid (hw_db w)" and ?seq = "max_seq sid (hw_db w)"
  let ?b = "empty_batch\<lparr>b_facts := [InputsFailed ?iids (JObj failure)],
    b_output := number_parts None (map (\<lambda>iid. input_failed_part iid failure) ?iids) ?seq\<rparr>"
  have seqs: "map p_seq (b_output ?b) = [max_seq (l_session_id lease) (hw_db w) + 1..?seq + int (length ?iids)]"
    by (simp add: number_parts_seqs assms(2))
  have le: "max_seq (l_session_id lease) (hw_db w) \<le> ?seq + int (length ?iids)" by (simp add: assms(2))
  have plain: "list_all plain_fact (b_facts ?b)" "batch_nonempty ?b" by (simp_all add: batch_nonempty_def)
  show thesis
  proof (rule host_record_plain [OF assms(1) plain seqs le, of now])
    fix w' db3
    assume rec: "host_record lease ?b now w = (w', Inr (Some ?b))" "serving lease (hw_db w')"
      and facts: "rfold (apply_fact now (l_session_id lease)) (b_facts ?b)
        (snd (renew_reader lease LEASE_TTL_S now (hw_db w))) = Inr db3"
      and same: "t_inputs (hw_db w') = t_inputs db3" "t_responses (hw_db w') = t_responses db3"
        "t_interactions (hw_db w') = t_interactions db3"
    have "fail_open_inputs lease failure now w = (w', None)"
      using False rec(1) serving_resume [OF assms(1)] by (simp add: fail_open_inputs_def assms(2))
    moreover have db3: "db3 = fail_inputs sid ?iids (JObj failure) (snd (renew_reader lease LEASE_TTL_S now (hw_db w)))"
      using facts by (simp add: assms(2))
    have rows: "t_inputs (hw_db w') = update_where (held_input sid ?iids)
        (\<lambda>i. i\<lparr>i_state := Failed, i_failure := Some (JObj failure)\<rparr>) (t_inputs (hw_db w))"
      using False by (simp add: same(1) db3 fail_inputs_def)
    moreover have "t_responses (hw_db w') = t_responses (hw_db w)" "t_interactions (hw_db w') = t_interactions (hw_db w)"
      by (simp_all add: same db3 fail_inputs_def)
    moreover have "keys_ok (hw_db w)" using assms(1) by (simp add: serving_def)
    ultimately show thesis
      using that rec(2) failed_none_open [OF rows] failed_states [OF rows] by blast
  qed
qed


text \<open>What reclaiming and asking for a replacement leave alone.\<close>

definition starts_only :: "(db \<Rightarrow> db) \<Rightarrow> bool" where
  "starts_only effect \<longleftrightarrow>
     (\<forall>db. t_inputs (effect db) = t_inputs db \<and> t_responses (effect db) = t_responses db \<and>
        t_interactions (effect db) = t_interactions db \<and> t_output (effect db) = t_output db \<and>
        t_readers (effect db) = t_readers db \<and> (keys_ok db \<longrightarrow> keys_ok (effect db)) \<and>
        map s_session_id (t_sessions (effect db)) = map s_session_id (t_sessions db))"

lemma serving_same:
  assumes "serving lease db" and "keys_ok db'" and "t_output db' = t_output db" and "t_readers db' = t_readers db"
    and "map s_session_id (t_sessions db') = map s_session_id (t_sessions db)"
  shows "serving lease db'"
proof -
  have "contiguous (l_session_id lease) db' = contiguous (l_session_id lease) db"
    by (simp add: contiguous_def session_log_def assms(3))
  then show ?thesis
    using assms(1,2,4) has_session [OF assms(5)] unfolding serving_def by simp
qed

lemma reclaim_frame:
  "t_responses (snd (reclaim_unadmitted sid db)) = t_responses db"
  "t_interactions (snd (reclaim_unadmitted sid db)) = t_interactions db"
  "t_output (snd (reclaim_unadmitted sid db)) = t_output db"
  "t_readers (snd (reclaim_unadmitted sid db)) = t_readers db"
  "t_sessions (snd (reclaim_unadmitted sid db)) = t_sessions db"
  by (simp_all add: reclaim_unadmitted_def Let_def)

lemma filter_reclaimed_open:
  "map i_input_id (filter (\<lambda>i. i_session_id i = sid \<and> open_input_state (i_state i))
     (update_where (\<lambda>i. i_session_id i = sid \<and> i_state i = Delivered)
        (\<lambda>i. i\<lparr>i_state := Pending, i_delivered_at := None\<rparr>) rows)) =
   map i_input_id (filter (\<lambda>i. i_session_id i = sid \<and> open_input_state (i_state i)) rows)"
  by (induction rows) (auto simp: open_input_state_iff)

lemma reclaim_open:
  assumes "keys_ok db"
  shows "open_input_ids sid (snd (reclaim_unadmitted sid db)) = open_input_ids sid db"
proof -
  have "keys_ok (snd (reclaim_unadmitted sid db))" using assms by blast
  then show ?thesis
    using assms by (simp add: open_input_ids_eq) (simp add: reclaim_unadmitted_def Let_def filter_reclaimed_open)
qed


text \<open>What became of the inputs a lost runtime leaves.\<close>

definition inputs_settled :: "bool \<Rightarrow> string \<Rightarrow> string list \<Rightarrow> db \<Rightarrow> bool" where
  "inputs_settled handed_on sid iids db \<longleftrightarrow>
     (if handed_on then map i_input_id (undelivered_inputs sid db) = iids
      else open_input_ids sid db = [] \<and> (\<forall>iid \<in> set iids. state_of iid db = Some Failed))"

definition goes_on :: "replace_result \<Rightarrow> bool" where
  "goes_on answer \<longleftrightarrow> (case answer of Replaced \<Rightarrow> True | ReplaceFailed e \<Rightarrow> True | _ \<Rightarrow> False)"

definition same_messages :: "db \<Rightarrow> db \<Rightarrow> bool" where
  "same_messages db db' \<longleftrightarrow> t_responses db' = t_responses db \<and> t_interactions db' = t_interactions db"

lemma fail_inputs_settles:
  assumes "serving lease (hw_db w)" and "sid = l_session_id lease"
  shows "\<exists>w'. fail_open_inputs lease failure now w = (w', None) \<and> serving lease (hw_db w') \<and>
    same_messages (hw_db w) (hw_db w') \<and> inputs_settled False sid (open_input_ids sid (hw_db w)) (hw_db w')"
  by (rule fail_open_inputs_closes [OF assms, of failure now]) (auto simp: same_messages_def inputs_settled_def)

lemma no_inputs_settled:
  assumes "keys_ok db" and "open_input_ids sid db = []"
  shows "inputs_settled handed_on sid [] (snd (reclaim_unadmitted sid db))"
  using reclaim_open [OF assms(1), of sid] reclaim_undelivered [OF assms(1), of sid] assms(2)
  by (simp add: inputs_settled_def)

lemma hand_on_settles:
  assumes "serving lease (hw_db w)" and "sid = l_session_id lease" and "starts_only effect"
  shows "\<exists>w' err. hand_on answer effect lease now w = (w', err) \<and> serving lease (hw_db w') \<and>
    same_messages (hw_db w) (hw_db w') \<and> inputs_settled (goes_on answer) sid (open_input_ids sid (hw_db w)) (hw_db w') \<and>
    (\<forall>e. err = Some e \<longrightarrow> answer = ReplaceFailed e)"
proof -
  let ?db = "snd (reclaim_unadmitted sid (hw_db w))" and ?iids = "open_input_ids sid (hw_db w)"
  have keys: "keys_ok (hw_db w)" using assms(1) by (simp add: serving_def)
  then have "keys_ok ?db" by blast
  with assms(1) have serving: "serving lease ?db" by (rule serving_same) (simp_all add: reclaim_frame)
  have msgs: "same_messages (hw_db w) ?db" by (simp add: same_messages_def reclaim_frame)
  have returned: "map i_input_id (undelivered_inputs sid ?db) = ?iids" using keys by (rule reclaim_undelivered)
  show ?thesis
  proof (cases "?iids = []")
    case True
    with returned have "undelivered_inputs sid ?db = []" by simp
    with True serving msgs no_inputs_settled [OF keys True, of "goes_on answer"] show ?thesis
      by (simp add: hand_on_def assms(2) Let_def)
  next
    case False
    define w4 where "w4 = hcalls [ReplaceRuntime] (w\<lparr>hw_db := effect ?db\<rparr>)"
    have db: "hw_db w4 = effect ?db" by (simp add: w4_def hcalls_def)
    have eff: "t_inputs (effect ?db) = t_inputs ?db" "same_messages ?db (effect ?db)"
      using assms(3) by (simp_all add: starts_only_def same_messages_def)
    have serving4: "serving lease (hw_db w4)"
      unfolding db using serving by (rule serving_same) (use assms(3) \<open>keys_ok ?db\<close> in \<open>simp_all add: starts_only_def\<close>)
    have msgs4: "same_messages (hw_db w) (hw_db w4)" using msgs eff(2) by (simp add: db same_messages_def)
    have open4: "open_input_ids sid (hw_db w4) = ?iids"
      using reclaim_open [OF keys, of sid] eff(1) by (simp add: db open_input_ids_def)
    have returned4: "map i_input_id (undelivered_inputs sid (hw_db w4)) = ?iids"
      using returned eff(1) by (simp add: db undelivered_inputs_def)
    have fails: "\<exists>w'. fail_open_inputs lease failure now w4 = (w', None) \<and> serving lease (hw_db w') \<and>
        same_messages (hw_db w) (hw_db w') \<and> inputs_settled False sid ?iids (hw_db w')" for failure
      using fail_inputs_settles [OF serving4 assms(2), of failure now] msgs4 by (auto simp: open4 same_messages_def)
    have "undelivered_inputs sid ?db \<noteq> []" using returned False by auto
    then have "hand_on answer effect lease now w = (case answer of
          Replaced \<Rightarrow> (w4, None)
        | StartFailed \<Rightarrow> fail_open_inputs lease runtime_start_failed now w4
        | UserActionRequired message action \<Rightarrow> fail_open_inputs lease (user_action_failure message action) now w4
        | ReplaceFailed e \<Rightarrow> (w4, Some e))"
      unfolding w4_def by (simp add: hand_on_def assms(2) [symmetric] Let_def)
    moreover have "inputs_settled True sid ?iids (hw_db w4)" using returned4 by (simp add: inputs_settled_def)
    ultimately show ?thesis
      using fails serving4 msgs4 by (cases answer) (fastforce simp: goes_on_def)+
  qed
qed


section \<open>The host among others\<close>

text \<open>
  The host with what its event loop holds: the calls of \<^verbatim>\<open>ensure\<close> that await their claim, those
  whose claim has come back but which have not gone on, and the leases of the reader tasks
  that run, whether the host's table still names them or not.
\<close>

record hosting =
  ho_host :: reader_host
  ho_calls :: "string list"
  ho_answers :: "(string \<times> reader_lease option) list"
  ho_running :: "reader_lease list"
  ho_db :: db

definition new_hosting :: "string \<Rightarrow> db \<Rightarrow> hosting" where
  "new_hosting owner db =
     \<lparr>ho_host = new_host owner, ho_calls = [], ho_answers = [], ho_running = [], ho_db = db\<rparr>"

text \<open>A task that ends without its \<^verbatim>\<open>finally\<close>: cancelled before its first step, it stays in the table as done.\<close>

definition task_ended :: "reader_lease \<Rightarrow> reader_host \<Rightarrow> reader_host" where
  "task_ended l h =
     (if map_of (h_tasks h) (l_session_id l) = Some (l, False)
      then h\<lparr>h_tasks := dict_set (l_session_id l) (l, True) (h_tasks h)\<rparr> else h)"

text \<open>
  The steps of one host between its awaits. A claim that comes back starts the reader
  (\<open>starts\<close>) or is dropped because its call was cancelled; the readers' commits, renewals and
  releases are any under any lease. Others write to the store in between (\<open>runs_other\<close>).
\<close>

inductive host_step :: "string \<Rightarrow> hosting \<Rightarrow> hosting \<Rightarrow> bool" for env where
  begins: "ensure_begin sid (ho_host s) = Some h \<Longrightarrow>
    host_step env s (s\<lparr>ho_host := h, ho_calls := sid # ho_calls s\<rparr>)"
| claims: "sid \<in> set (ho_calls s) \<Longrightarrow>
    claim_reader env sid (h_owner (ho_host s)) LEASE_TTL_S now (ho_db s) = (lease, db') \<Longrightarrow>
    host_step env s (s\<lparr>ho_calls := remove1 sid (ho_calls s), ho_answers := (sid, lease) # ho_answers s, ho_db := db'\<rparr>)"
| claim_fails: "sid \<in> set (ho_calls s) \<Longrightarrow>
    host_step env s (s\<lparr>ho_host := ensure_claimed sid None (ho_host s), ho_calls := remove1 sid (ho_calls s)\<rparr>)"
| starts: "(sid, lease) \<in> set (ho_answers s) \<Longrightarrow>
    host_step env s (s\<lparr>ho_host := ensure_claimed sid lease (ho_host s), ho_answers := remove1 (sid, lease) (ho_answers s),
      ho_running := (case lease of None \<Rightarrow> ho_running s | Some l \<Rightarrow> l # ho_running s)\<rparr>)"
| drops: "(sid, lease) \<in> set (ho_answers s) \<Longrightarrow>
    host_step env s (s\<lparr>ho_host := ensure_claimed sid None (ho_host s), ho_answers := remove1 (sid, lease) (ho_answers s)\<rparr>)"
| renews: "host_step env s (s\<lparr>ho_db := snd (renew_reader lease ttl now (ho_db s))\<rparr>)"
| records: "host_step env s (s\<lparr>ho_db := snd (record_batch lease b ttl now (ho_db s))\<rparr>)"
| releases: "host_step env s (s\<lparr>ho_db := release_reader lease now (ho_db s)\<rparr>)"
| ends: "lease \<in> set (ho_running s) \<Longrightarrow>
    host_step env s (s\<lparr>ho_host := task_ended lease (ho_host s), ho_running := remove1 lease (ho_running s)\<rparr>)"
| pops: "lease \<in> set (ho_running s) \<Longrightarrow>
    host_step env s (s\<lparr>ho_host := serve_pop (l_session_id lease) (ho_host s), ho_running := remove1 lease (ho_running s)\<rparr>)"

inductive host_runs :: "string \<Rightarrow> hosting \<Rightarrow> hosting \<Rightarrow> bool" for env s where
  runs_refl: "host_runs env s s"
| runs_step: "host_runs env s t \<Longrightarrow> host_step env t u \<Longrightarrow> host_runs env s u"
| runs_other: "host_runs env s t \<Longrightarrow> keys_ok db \<Longrightarrow> host_runs env s (t\<lparr>ho_db := db\<rparr>)"

text \<open>
  At every await: each call in progress is marked as claiming, at most one per session, and
  the host reads none of these sessions; each running reader is the one the table names.
\<close>

definition calls_ok :: "hosting \<Rightarrow> bool" where
  "calls_ok s \<longleftrightarrow>
     distinct (ho_calls s @ map fst (ho_answers s)) \<and>
     set (ho_calls s) \<union> fst ` set (ho_answers s) \<subseteq> set (h_claiming (ho_host s)) \<and>
     (\<forall>(sid, lease) \<in> set (ho_answers s). pred_option (\<lambda>l. l_session_id l = sid) lease)"

definition tasks_ok :: "hosting \<Rightarrow> bool" where
  "tasks_ok s \<longleftrightarrow>
     (\<forall>sid \<in> set (h_claiming (ho_host s)). \<not> host_reads sid (ho_host s)) \<and>
     (\<forall>l \<in> set (ho_running s). map_of (h_tasks (ho_host s)) (l_session_id l) = Some (l, False)) \<and>
     distinct (map l_session_id (ho_running s))"

definition host_ok :: "hosting \<Rightarrow> bool" where
  "host_ok s \<longleftrightarrow> calls_ok s \<and> tasks_ok s \<and> keys_ok (ho_db s)"

text \<open>A reader of this host: its task runs, or its claim has come back and will start it.\<close>

definition own_lease :: "hosting \<Rightarrow> reader_lease \<Rightarrow> bool" where
  "own_lease s l \<longleftrightarrow> l \<in> set (ho_running s) \<or> (l_session_id l, Some l) \<in> set (ho_answers s)"

lemma host_reads_claiming [simp]: "host_reads sid (h\<lparr>h_claiming := sids\<rparr>) = host_reads sid h"
  by (simp add: host_reads_def)

lemma ensure_claimed_claiming [simp]: "h_claiming (ensure_claimed sid lease h) = filter (\<lambda>k. k \<noteq> sid) (h_claiming h)"
  by (simp add: ensure_claimed_def)

lemma ensure_claimed_task:
  "map_of (h_tasks (ensure_claimed sid lease h)) k =
     (if k = sid \<and> lease \<noteq> None then map_option (\<lambda>l. (l, False)) lease else map_of (h_tasks h) k)"
  by (auto simp: ensure_claimed_def dict_get_set split: option.splits)

lemma host_reads_claimed:
  "host_reads k (ensure_claimed sid lease h) \<longleftrightarrow> (k = sid \<and> lease \<noteq> None) \<or> host_reads k h"
  by (auto simp: host_reads_def ensure_claimed_task split: option.splits)

lemma running_is_read:
  assumes "tasks_ok s" and "l \<in> set (ho_running s)"
  shows "host_reads (l_session_id l) (ho_host s)" and "l_session_id l \<notin> set (h_claiming (ho_host s))"
  using assms by (auto simp: tasks_ok_def host_reads_def)

text \<open>A session of a call in progress is free: no reader of it runs, no other call is for it.\<close>

lemma call_goes_on:
  assumes "host_ok s" and "(sid, lease) \<in> set (ho_answers s)"
  shows "remove1 (sid, lease) (ho_answers s) = filter (\<lambda>a. fst a \<noteq> sid) (ho_answers s)"
    and "sid \<notin> set (ho_calls s)" and "\<And>l. l \<in> set (ho_running s) \<Longrightarrow> l_session_id l \<noteq> sid"
proof -
  have dist: "distinct (map fst (ho_answers s))" using assms(1) by (simp add: host_ok_def calls_ok_def)
  then have "remove1 (sid, lease) (ho_answers s) = filter (\<lambda>a. (sid, lease) \<noteq> a) (ho_answers s)"
    by (simp add: distinct_map distinct_remove1_removeAll removeAll_filter_not_eq)
  also have "\<dots> = filter (\<lambda>a. fst a \<noteq> sid) (ho_answers s)"
    using dist assms(2) by (intro filter_cong) (auto dest: eq_key_imp_eq_value)
  finally show "remove1 (sid, lease) (ho_answers s) = filter (\<lambda>a. fst a \<noteq> sid) (ho_answers s)" .
  show "sid \<notin> set (ho_calls s)" using assms by (force simp: host_ok_def calls_ok_def)
  have "sid \<in> set (h_claiming (ho_host s))" using assms by (auto simp: host_ok_def calls_ok_def)
  then show "l_session_id l \<noteq> sid" if "l \<in> set (ho_running s)" for l
    using running_is_read(2) [OF _ that] assms(1) by (auto simp: host_ok_def)
qed

lemma claim_keeps_others:
  assumes "keys_ok db" and "claim_reader env sid owner ttl now db = (res, db')" and "holds_lease db lease" and "l_session_id lease \<noteq> sid"
  shows "holds_lease db' lease"
proof -
  from assms(3) obtain r where r: "r \<in> set (t_readers db)" "holds lease r" by blast
  then have "\<not> claimable sid owner now r" using assms(4) by (auto simp: claimable_def holds_def)
  with r(1) have "r \<in> set (update_where (claimable sid owner now) (taken_over owner (now + ttl))
      (insert_absent rd_session_id (seed_reader sid owner (now + ttl)) (t_readers db)))"
    by (force simp: set_update_where insert_absent_def)
  with r assms(1,2) show ?thesis by (auto simp: claim_reader_eq split: if_splits)
qed

lemma record_keeps_holding: "holds_lease db lease \<Longrightarrow> holds_lease (snd (record_batch lease' b ttl now db)) lease"
proof (cases rule: record_batch_cases [of lease' b ttl now db])
  case (recorded out db')
  assume "holds_lease db lease"
  then show ?thesis
    using record_readers [OF recorded(2)] by (simp add: recorded(1) renew_reader_def holds_update_expiry)
qed (simp_all add: renew_reader_def holds_update_expiry)

lemma calls_ok_goes_on:
  assumes "host_ok s" and "(sid, lease) \<in> set (ho_answers s)"
  shows "calls_ok (s\<lparr>ho_host := ensure_claimed sid res (ho_host s), ho_answers := remove1 (sid, lease) (ho_answers s), ho_running := ls\<rparr>)"
  using assms(1) call_goes_on [OF assms]
  by (auto simp: host_ok_def calls_ok_def distinct_map_filter)

lemma tasks_ok_goes_on:
  assumes "host_ok s" and "sid \<in> set (h_claiming (ho_host s))"
    and "\<And>l. res = Some l \<Longrightarrow> l_session_id l = sid"
  shows "tasks_ok (s\<lparr>ho_host := ensure_claimed sid res (ho_host s), ho_calls := cs, ho_answers := as,
    ho_running := (case res of None \<Rightarrow> ho_running s | Some l \<Rightarrow> l # ho_running s)\<rparr>)"
proof -
  have free: "l_session_id l \<noteq> sid" if "l \<in> set (ho_running s)" for l
    using running_is_read(2) [OF _ that] assms(1,2) by (auto simp: host_ok_def)
  then show ?thesis
    using assms(1,3)
    by (cases res) (force simp: host_ok_def tasks_ok_def ensure_claimed_task host_reads_claimed)+
qed

lemma tasks_ok_leaves:
  assumes "tasks_ok s" and "lease \<in> set (ho_running s)"
    and "h_claiming h = h_claiming (ho_host s)" and "\<not> host_reads (l_session_id lease) h"
    and "\<And>k. k \<noteq> l_session_id lease \<Longrightarrow> map_of (h_tasks h) k = map_of (h_tasks (ho_host s)) k"
  shows "tasks_ok (s\<lparr>ho_host := h, ho_running := remove1 lease (ho_running s)\<rparr>)"
proof -
  have dist: "distinct (map l_session_id (ho_running s))" using assms(1) by (simp add: tasks_ok_def)
  then have rest: "l \<in> set (ho_running s) \<and> l_session_id l \<noteq> l_session_id lease"
    if "l \<in> set (remove1 lease (ho_running s))" for l
    using that assms(2) by (auto simp: distinct_map dest: inj_onD)
  have "\<not> host_reads k h" if "k \<in> set (h_claiming h)" for k
    using that assms by (cases "k = l_session_id lease") (auto simp: tasks_ok_def host_reads_def)
  moreover have "distinct (map l_session_id (remove1 lease (ho_running s)))"
    using dist by (simp add: distinct_map inj_on_def notin_set_remove1)
  moreover have "map_of (h_tasks h) (l_session_id l) = Some (l, False)" if "l \<in> set (remove1 lease (ho_running s))" for l
    using assms(5) [of "l_session_id l"] rest [OF that] assms(1) by (simp add: tasks_ok_def)
  ultimately show ?thesis by (simp add: tasks_ok_def)
qed

lemma host_step_ok:
  assumes "host_step env s s'" and "host_ok s"
  shows "host_ok s'"
  using assms(1)
proof (cases rule: host_step.cases)
  case (begins sid h)
  then show ?thesis using assms(2)
    by (auto simp: host_ok_def calls_ok_def tasks_ok_def ensure_begin_def split: if_splits)
next
  case (claims sid now lease db')
  have "l_session_id l = sid" if "lease = Some l" for l
    using claim_lease [of "ho_db s"] claims(3) assms(2) that by (fastforce simp: host_ok_def)
  moreover have "keys_ok db'" using keys_ok_claim_reader [of "ho_db s"] claims(3) assms(2) by (metis host_ok_def snd_conv)
  ultimately show ?thesis using assms(2) claims(2)
    by (auto simp: claims(1) host_ok_def calls_ok_def tasks_ok_def pred_option_def image_iff)
next
  case (claim_fails sid)
  have claiming: "sid \<in> set (h_claiming (ho_host s))" and "sid \<notin> fst ` set (ho_answers s)" "distinct (ho_calls s)"
    using assms(2) claim_fails(2) by (auto simp: host_ok_def calls_ok_def)
  then have "calls_ok s'" using assms(2)
    by (auto simp: claim_fails(1) host_ok_def calls_ok_def)
  moreover have "tasks_ok s'" using tasks_ok_goes_on [OF assms(2) claiming, of None] by (simp add: claim_fails(1) tasks_ok_def)
  ultimately show ?thesis using assms(2) by (simp add: claim_fails(1) host_ok_def)
next
  case (starts sid lease)
  have "sid \<in> set (h_claiming (ho_host s))" "\<And>l. lease = Some l \<Longrightarrow> l_session_id l = sid"
    using assms(2) starts(2) by (auto simp: host_ok_def calls_ok_def)
  from tasks_ok_goes_on [OF assms(2) this] calls_ok_goes_on [OF assms(2) starts(2)] assms(2)
  show ?thesis by (simp add: starts(1) host_ok_def tasks_ok_def)
next
  case (drops sid lease)
  have "sid \<in> set (h_claiming (ho_host s))"
    using assms(2) drops(2) by (auto simp: host_ok_def calls_ok_def)
  from tasks_ok_goes_on [OF assms(2) this, of None] calls_ok_goes_on [OF assms(2) drops(2), where res = None and ls = "ho_running s"] assms(2)
  show ?thesis by (simp add: drops(1) host_ok_def tasks_ok_def calls_ok_def)
next
  case (ends lease)
  have "tasks_ok s'" unfolding ends(1)
    using assms(2) ends(2)
    by (intro tasks_ok_leaves) (auto simp: host_ok_def tasks_ok_def task_ended_def host_reads_def dict_get_set)
  then show ?thesis using assms(2) by (simp add: ends(1) host_ok_def calls_ok_def task_ended_def)
next
  case (pops lease)
  have "tasks_ok s'" unfolding pops(1)
    using assms(2) pops(2)
    by (intro tasks_ok_leaves) (auto simp: host_ok_def serve_pop_def host_reads_def dict_get_pop)
  then show ?thesis using assms(2) by (simp add: pops(1) host_ok_def calls_ok_def serve_pop_def)
qed (use assms(2) in \<open>auto simp: host_ok_def calls_ok_def tasks_ok_def keys_ok_renew_reader keys_ok_record keys_ok_release_reader\<close>)

lemma host_runs_ok: "host_runs env s t \<Longrightarrow> host_ok s \<Longrightarrow> host_ok t"
proof (induction rule: host_runs.induct)
  case (runs_other t db)
  then show ?case by (simp add: host_ok_def calls_ok_def tasks_ok_def)
qed (auto intro: host_step_ok)

lemma host_ok_new: "keys_ok db \<Longrightarrow> host_ok (new_hosting owner db)"
  by (simp add: host_ok_def calls_ok_def tasks_ok_def new_hosting_def new_host_def)

lemma own_lease_unique:
  assumes "host_ok s" and "own_lease s l" and "own_lease s l'" and "l_session_id l = l_session_id l'"
  shows "l = l'"
proof -
  have "l \<in> set (ho_running s) \<Longrightarrow> l' \<in> set (ho_running s) \<Longrightarrow> ?thesis"
    using assms(1,4) by (auto simp: host_ok_def tasks_ok_def distinct_map dest: inj_onD)
  moreover have "(l_session_id l, Some l) \<in> set (ho_answers s) \<Longrightarrow> (l_session_id l', Some l') \<in> set (ho_answers s) \<Longrightarrow> ?thesis"
    using assms(1,4) by (auto simp: host_ok_def calls_ok_def dest: eq_key_imp_eq_value)
  ultimately show ?thesis
    using assms(2,3,4) call_goes_on(3) [OF assms(1)] by (auto simp: own_lease_def)
qed

section \<open>Properties\<close>

text \<open>
  C9. A runtime that is gone leaves nothing open. Told that its runtime is gone, the host that
  serves the session ends every open response as failed, withdraws what those responses were
  asking, and leaves the log without gaps. Its open inputs are all handed on, undelivered and
  in acceptance order, or, when the conversation has ended or no replacement starts, all
  failed; only an unexpected failure of the replacement itself is raised.
\<close>

theorem runtime_gone_leaves_nothing_open:
  assumes "serving lease (hw_db w)" and "sid = l_session_id lease" and "starts_only effect"
  shows "\<exists>w' err. runtime_gone answer effect lease reason now w = (w', err) \<and> serving lease (hw_db w') \<and>
    open_response_ids sid (hw_db w') = [] \<and>
    (\<forall>x \<in> set (t_interactions (hw_db w')). x_session_id x = sid \<and> x_response_id x \<in> set (open_response_ids sid (hw_db w)) \<longrightarrow>
       x_status x \<noteq> IOpen) \<and>
    inputs_settled (reason \<noteq> ''conversation_ended'' \<and> goes_on answer) sid (open_input_ids sid (hw_db w)) (hw_db w') \<and>
    (\<forall>e. err = Some e \<longrightarrow> answer = ReplaceFailed e)"
proof -
  let ?rids = "open_response_ids sid (hw_db w)"
  from lost_recorded [OF assms(1,2) refl, of reason now] obtain w1 b where
    rec: "host_record lease (lose_responses reason ?rids (fst (resume_point sid (hw_db w)))
      (empty_batch\<lparr>b_status := Some ''idle''\<rparr>)) now w = (w1, Inr (Some b))" and serving1: "serving lease (hw_db w1)"
    and lost: "t_inputs (hw_db w1) = t_inputs (hw_db w)" "open_response_ids sid (hw_db w1) = []"
      "asked_rids sid (hw_db w1) \<inter> set ?rids = {}" .
  define w2 where "w2 = hcalls [CommittedFacts b] w1"
  have w2: "hw_db w2 = hw_db w1" by (simp add: w2_def hcalls_def)
  have open2: "open_input_ids sid (hw_db w2) = open_input_ids sid (hw_db w)"
    by (simp add: w2 lost(1) open_input_ids_def)
  have closed: "open_response_ids sid (hw_db w') = [] \<and>
      (\<forall>x \<in> set (t_interactions (hw_db w')). x_session_id x = sid \<and> x_response_id x \<in> set ?rids \<longrightarrow> x_status x \<noteq> IOpen)"
    if "same_messages (hw_db w2) (hw_db w')" for w'
    using that lost(2,3) by (auto simp: same_messages_def w2 open_response_ids_def selected_def)
  have "serving lease (hw_db w2)" using serving1 by (simp add: w2)
  note fate = fail_inputs_settles [OF this assms(2), of conversation_ended now]
    hand_on_settles [OF this assms(2,3), of answer now]
  have gone: "runtime_gone answer effect lease reason now w =
      (if reason = ''conversation_ended'' then fail_open_inputs lease conversation_ended now w2
       else hand_on answer effect lease now w2)"
    using rec by (simp add: runtime_gone_def assms(2) w2_def Let_def)
  show ?thesis
  proof (cases "reason = ''conversation_ended''")
    case True
    with fate(1) closed gone show ?thesis by (auto simp: open2)
  next
    case False
    with fate(2) closed gone show ?thesis by (auto simp: open2)
  qed
qed


text \<open>
  The sample reader's runtime is lost while a response asks and a message waits; the
  replacement starts.
\<close>

definition sample_lost :: hworld where
  "sample_lost =
     \<lparr>hw_db = snd (sample_send ''i'' ''m'' [] (open_interaction 20 ''s'' ''r'' ''x'' (sample_decision [''a'', ''b'']) sample_recorded)),
      hw_feed = sample_feed, hw_calls = []\<rparr>"

lemma sample_lost_serving: "serving (sample_lease ''p1'' 1) (hw_db sample_lost)"
proof -
  have "keys_ok (hw_db sample_lost)"
    by (simp add: sample_lost_def sample_send_def keys_ok_accept_input keys_ok_open_interaction)
  moreover have "holds_lease (hw_db sample_lost) (sample_lease ''p1'' 1)" by code_simp
  moreover have "contiguous (l_session_id (sample_lease ''p1'' 1)) (hw_db sample_lost)" by code_simp
  moreover have "exists_row (\<lambda>s. s_session_id s = l_session_id (sample_lease ''p1'' 1)) (t_sessions (hw_db sample_lost))" by code_simp
  ultimately show ?thesis by (simp add: serving_def)
qed

theorem runtime_gone_leaves_nothing_open_witness:
  "open_response_ids ''s'' (hw_db sample_lost) = [''r''] \<and> open_interaction_ids ''s'' (hw_db sample_lost) = [''x''] \<and>
   (\<exists>w'. runtime_gone Replaced id (sample_lease ''p1'' 1) ''sandbox_lost'' 30 sample_lost = (w', None) \<and>
     open_response_ids ''s'' (hw_db w') = [] \<and> map i_input_id (undelivered_inputs ''s'' (hw_db w')) = [''i'']) \<and>
   (\<exists>w'. runtime_gone Replaced id (sample_lease ''p1'' 1) ''conversation_ended'' 30 sample_lost = (w', None) \<and>
     state_of ''i'' (hw_db w') = Some Failed)"
proof -
  have sid: "''s'' = l_session_id (sample_lease ''p1'' 1)" by (simp add: sample_lease_def)
  have eff: "starts_only id" by (simp add: starts_only_def)
  have before: "open_response_ids ''s'' (hw_db sample_lost) = [''r'']" "open_interaction_ids ''s'' (hw_db sample_lost) = [''x'']"
    "open_input_ids ''s'' (hw_db sample_lost) = [''i'']"
    by code_simp+
  note gone = runtime_gone_leaves_nothing_open [OF sample_lost_serving sid eff, where answer = Replaced and now = 30]
  have none: "err = None" if "\<forall>e. err = Some e \<longrightarrow> Replaced = ReplaceFailed e" for err using that by (cases err) simp_all
  show ?thesis
    using gone [of "''sandbox_lost''"] gone [of "''conversation_ended''"] before none
    by (fastforce simp: inputs_settled_def goes_on_def)
qed


text \<open>
  C11. A host never takes the lease from its own reader. A claim by the owner of a live lease
  always succeeds and starts a new generation, so what protects a reader is that \<^verbatim>\<open>ensure\<close> does
  not claim while a reader of the session runs or another call claims it. However the calls of
  \<^verbatim>\<open>ensure\<close>, the starts and ends of reader tasks, their commits, renewals and releases and the
  writes of others interleave: at most one reader task of a session runs on the host, and no
  step of the host takes the lease from a reader of it, running or about to start.
\<close>

theorem ensure_keeps_its_readers:
  assumes "host_runs env (new_hosting owner db0) s" and "keys_ok db0" and "host_step env s s'"
  shows "distinct (map l_session_id (ho_running s)) \<and>
    (\<forall>l l'. own_lease s l \<and> own_lease s l' \<and> l_session_id l = l_session_id l' \<longrightarrow> l = l') \<and>
    (\<forall>l. own_lease s l \<and> holds_lease (ho_db s) l \<longrightarrow> holds_lease (ho_db s') l)"
proof -
  from host_runs_ok [OF assms(1)] host_ok_new [OF assms(2)] have ok: "host_ok s" .
  have "holds_lease (ho_db s') l" if own: "own_lease s l" and held: "holds_lease (ho_db s) l" for l
    using assms(3)
  proof (cases rule: host_step.cases)
    case (claims sid now lease db')
    have "l_session_id l \<noteq> sid"
      using own claims(2) ok running_is_read(2) [of s l] by (force simp: own_lease_def host_ok_def calls_ok_def)
    from claim_keeps_others [OF _ claims(3) held this] ok show ?thesis by (simp add: claims(1) host_ok_def)
  next
    case (records lease b ttl now)
    with record_keeps_holding [OF held] show ?thesis by simp
  qed (use held in \<open>simp_all add: renew_reader_def release_reader_def holds_update_expiry\<close>)
  with ok own_lease_unique [OF ok] show ?thesis by (auto simp: host_ok_def tasks_ok_def)
qed

text \<open>A host claims the sample session, starts its reader and then claims another session.\<close>

definition sample_hosting :: hosting where
  "sample_hosting =
     \<lparr>ho_host = ensure_claimed ''s'' (Some (sample_lease ''p1'' 1)) ((new_host ''p1'')\<lparr>h_claiming := [''s'']\<rparr>),
      ho_calls = [], ho_answers = [], ho_running = [sample_lease ''p1'' 1], ho_db = sample_claimed\<rparr>"

lemma sample_hosting_runs: "host_runs ''prod'' (new_hosting ''p1'' sample_db) sample_hosting"
proof -
  let ?h = "(new_host ''p1'')\<lparr>h_claiming := [''s'']\<rparr>"
  let ?s1 = "(new_hosting ''p1'' sample_db)\<lparr>ho_host := ?h, ho_calls := [''s'']\<rparr>"
  let ?s2 = "?s1\<lparr>ho_calls := [], ho_answers := [(''s'', Some (sample_lease ''p1'' 1))], ho_db := sample_claimed\<rparr>"
  have "host_step ''prod'' (new_hosting ''p1'' sample_db) ?s1"
    using host_step.begins [of "''s''" "new_hosting ''p1'' sample_db" ?h]
    by (simp add: ensure_begin_def new_host_def new_hosting_def host_reads_def)
  moreover have "host_step ''prod'' ?s1 ?s2"
    using host_step.claims [of "''s''" ?s1 "''prod''" 10] sample_claim by (simp add: new_hosting_def new_host_def LEASE_TTL_S_def)
  moreover have "host_step ''prod'' ?s2 sample_hosting"
    using host_step.starts [of "''s''" "Some (sample_lease ''p1'' 1)" ?s2 "''prod''"] by (simp add: new_hosting_def sample_hosting_def)
  ultimately show ?thesis by (meson host_runs.intros)
qed

theorem ensure_keeps_its_readers_witness:
  "ensure_begin ''s'' (ho_host sample_hosting) = None \<and>
   fst (claim_reader ''prod'' ''t'' ''p1'' LEASE_TTL_S 12 sample_claimed) \<noteq> None \<and>
   holds_lease (snd (claim_reader ''prod'' ''t'' ''p1'' LEASE_TTL_S 12 sample_claimed)) (sample_lease ''p1'' 1)"
proof -
  let ?h = "(ho_host sample_hosting)\<lparr>h_claiming := [''t'']\<rparr>"
  let ?s = "sample_hosting\<lparr>ho_host := ?h, ho_calls := [''t'']\<rparr>"
  obtain lease db' where claim: "claim_reader ''prod'' ''t'' ''p1'' LEASE_TTL_S 12 sample_claimed = (lease, db')" by fastforce
  have begin_t: "ensure_begin ''t'' (ho_host sample_hosting) = Some ?h"
    by (simp add: sample_hosting_def ensure_begin_def ensure_claimed_def new_host_def host_reads_def dict_set_def)
  have "host_step ''prod'' sample_hosting ?s"
    using host_step.begins [OF begin_t, of "''prod''"] by (simp add: sample_hosting_def)
  with sample_hosting_runs have runs: "host_runs ''prod'' (new_hosting ''p1'' sample_db) ?s" by (rule host_runs.runs_step)
  have step: "host_step ''prod'' ?s (?s\<lparr>ho_calls := [], ho_answers := [(''t'', lease)], ho_db := db'\<rparr>)"
    using host_step.claims [of "''t''" ?s "''prod''" 12] claim by (simp add: sample_hosting_def ensure_claimed_def new_host_def)
  have "own_lease ?s (sample_lease ''p1'' 1)" by (simp add: own_lease_def sample_hosting_def)
  with ensure_keeps_its_readers [OF runs sample_db_keys step] sample_held have "holds_lease db' (sample_lease ''p1'' 1)"
    by (simp add: sample_hosting_def)
  moreover have "fst (claim_reader ''prod'' ''t'' ''p1'' LEASE_TTL_S 12 sample_claimed) \<noteq> None" by code_simp
  moreover have "ensure_begin ''s'' (ho_host sample_hosting) = None"
    by (simp add: sample_hosting_def ensure_begin_def ensure_claimed_def new_host_def host_reads_def dict_set_def)
  ultimately show ?thesis by (simp add: claim)
qed

end
