(* ===== verification/Repository.thy ===== *)
theory Repository
  imports History
begin

text \<open>
  The repository as a whole: every write of \<^verbatim>\<open>session_runtime_repository.py\<close> and
  \<^verbatim>\<open>input_attachment_repository.py\<close> as one step on the store, and what any sequence of them
  keeps. Each write is a transaction of its own, so a sequence is any interleaving of any
  number of processes.
\<close>

section \<open>The writes\<close>

inductive repo_step :: "db \<Rightarrow> db \<Rightarrow> bool" where
  accepts: "repo_step db (snd (accept_input sid iid cmid content blocks owner author source atts att_owner now utcnow db))"
| stages: "repo_step db (snd (stage_attachment aid owner scope name media_type data ttl utcnow db))"
| delivers: "repo_step db (mark_delivered ids now db)"
| fails: "repo_step db (mark_failed iid failure db)"
| reclaims: "repo_step db (snd (reclaim_unadmitted sid db))"
| claims: "repo_step db (snd (claim_reader env sid owner ttl now db))"
| renews: "repo_step db (snd (renew_reader lease ttl now db))"
| releases: "repo_step db (release_reader lease now db)"
| requests: "repo_step db (snd (request_control cid sid kind target requested_by now db))"
| settles: "repo_step db (settle_control cid state err now db)"
| expires: "repo_step db (expire_controls sid generation db)"
| records: "repo_step db (snd (record_batch lease b ttl now db))"
| answers: "repo_step db (snd (request_answer sid xid answer answered_by now db))"
| pages: "repo_step db (snd (history_page sid before limit through db))"
| imports_history: "repo_step db (snd (import_history sid entries db))"

abbreviation repo_runs :: "db \<Rightarrow> db \<Rightarrow> bool" where
  "repo_runs \<equiv> rtranclp repo_step"

section \<open>What each write keeps\<close>

text \<open>
  Rows keep their keys, nothing recorded is undone, and no session's reader generation goes
  back.
\<close>

definition store_kept :: "db \<Rightarrow> db \<Rightarrow> bool" where
  "store_kept db db' \<longleftrightarrow>
     keys_ok db' \<and> evolves UNIV db db' \<and> (\<forall>sid. current_generation db sid \<le> current_generation db' sid)"

lemma store_kept_trans: "store_kept a b \<Longrightarrow> store_kept b c \<Longrightarrow> store_kept a c"
  by (auto simp: store_kept_def intro: evolves_trans order_trans)

lemma store_kept_same_leases:
  "keys_ok db' \<Longrightarrow> evolves S db db' \<Longrightarrow> t_readers db' = t_readers db \<Longrightarrow> store_kept db db'"
  using current_generation_cong [of db' db] evolves_mono [of S db db' UNIV] by (simp add: store_kept_def)

lemma store_kept_readers:
  assumes "keys_ok db'" and "t_inputs db' = t_inputs db" "t_responses db' = t_responses db"
    "t_interactions db' = t_interactions db" "t_output db' = t_output db"
    and "\<And>sid. current_generation db sid \<le> current_generation db' sid"
  shows "store_kept db db'"
  using assms evolves_cong [of db' db UNIV] by (simp add: store_kept_def)

lemma claim_kept:
  assumes "keys_ok db"
  shows "store_kept db (snd (claim_reader env sid owner ttl now db))"
proof -
  obtain lease db' where claim: "claim_reader env sid owner ttl now db = (lease, db')" by fastforce
  have "store_kept db db'"
  proof (cases lease)
    case None
    with claim_reader_None assms claim have "db' = db" by blast
    with assms show ?thesis by (simp add: store_kept_def)
  next
    case (Some l)
    with claim have claim: "claim_reader env sid owner ttl now db = (Some l, db')" by simp
    show ?thesis
    proof (rule store_kept_readers)
      show "keys_ok db'" using keys_ok_claim_reader [OF assms, of env sid owner ttl now] by (simp add: claim)
      show "current_generation db sid' \<le> current_generation db' sid'" for sid'
        using claim_generation [OF assms claim] claim_other [OF assms claim, of sid'] by (cases "sid' = sid") auto
    qed (use claim assms in \<open>auto simp: claim_reader_eq split: if_splits\<close>)
  qed
  then show ?thesis by (simp add: claim)
qed

lemma keys_ok_request_answer: "keys_ok db \<Longrightarrow> keys_ok (snd (request_answer sid xid answer answered_by now db))"
  by (auto simp: request_answer_def key_defs intro!: keys_ok_update_interactions)

lemma accept_readers:
  "t_readers (snd (accept_input sid iid cmid content blocks owner author source atts att_owner now utcnow db)) = t_readers db"
  by (auto simp: accept_input_def accept_work_def transaction_def rbind_def Let_def accepted_db_def notify_def
      split: sum.splits option.splits)

lemma import_readers:
  assumes "rfold (import_entry sid) entries (known, db) = Inr (known', db')"
  shows "t_readers db' = t_readers db"
proof -
  have "t_readers (snd (known', db')) = t_readers (snd (known, db))"
    using assms
    by (rule rfold_frame [where g = "\<lambda>s. t_readers (snd s)"])
       (auto simp: import_entry_def rbind_Inr_iff insert_input_def insert_response_def answer_import_def Let_def
         split: prod.splits if_splits option.splits)
  then show ?thesis by simp
qed

lemma import_kept_store:
  assumes "keys_ok db"
  shows "store_kept db (snd (import_history sid entries db))"
proof (cases "snd (import_history sid entries db) = db")
  case True
  with assms show ?thesis by (simp add: store_kept_def)
next
  case False
  then obtain known known' db' where
    fold: "rfold (import_entry sid) entries (known, db) = Inr (known', db')" and db': "snd (import_history sid entries db) = db'"
    by (auto simp: import_history_def transaction_def rbind_def split: sum.splits if_splits)
  from import_entries_kept [OF fold assms] have "keys_ok db'" "evolves UNIV db db'" by (simp_all add: import_kept_def)
  then show ?thesis using import_readers [OF fold] unfolding db' by (rule store_kept_same_leases)
qed

lemma page_kept:
  assumes "keys_ok db"
  shows "store_kept db (snd (history_page sid before limit through db))"
proof (cases "index_recorded_messages sid db")
  case (Inl e)
  with assms show ?thesis by (simp add: history_page_def transaction_def store_kept_def)
next
  case (Inr db')
  have "store_kept db db'"
    using keys_ok_index [OF Inr assms] evolves_index [OF Inr] index_frame(1) [OF Inr] by (rule store_kept_same_leases)
  with Inr show ?thesis by (simp add: history_page_def transaction_def)
qed

lemma control_tables:
  "store_kept db (db\<lparr>t_controls := cs\<rparr>)" "store_kept db (db\<lparr>t_attachments := as\<rparr>)"
  "store_kept db (notify sid kind n (db\<lparr>t_controls := cs\<rparr>))" if "keys_ok db"
  using that by (auto intro!: store_kept_readers simp: keys_ok_def notify_def current_generation_def)

lemma release_frame:
  "t_inputs (release_reader lease now db) = t_inputs db" "t_responses (release_reader lease now db) = t_responses db"
  "t_interactions (release_reader lease now db) = t_interactions db" "t_output (release_reader lease now db) = t_output db"
  by (simp_all add: release_reader_def)

lemma stage_kept:
  "keys_ok db \<Longrightarrow> store_kept db (snd (stage_attachment aid owner scope name media_type data ttl utcnow db))"
  by (auto simp: stage_attachment_def transaction_def Let_def intro: control_tables) (simp add: store_kept_def)

lemma request_kept:
  "keys_ok db \<Longrightarrow> store_kept db (snd (request_control cid sid kind target requested_by now db))"
  by (auto simp: request_control_def Let_def intro: control_tables) (simp add: store_kept_def)

lemma repo_step_kept:
  assumes "repo_step db db'" and "keys_ok db"
  shows "store_kept db db'"
  using assms(1)
proof (cases rule: repo_step.cases)
  case accepts
  show ?thesis unfolding accepts
    by (rule store_kept_same_leases [OF keys_ok_accept_input [OF assms(2)] evolves_accept_input accept_readers])
next
  case (delivers ids now)
  show ?thesis unfolding delivers
    by (rule store_kept_same_leases [OF keys_ok_mark_delivered [OF assms(2)] evolves_mark_delivered])
       (simp add: mark_delivered_def)
next
  case (fails iid failure)
  show ?thesis unfolding fails
    by (rule store_kept_same_leases [OF keys_ok_mark_failed [OF assms(2)] evolves_mark_failed]) (simp add: mark_failed_def)
next
  case (reclaims sid)
  show ?thesis unfolding reclaims
    by (rule store_kept_same_leases [OF keys_ok_reclaim [OF assms(2)] evolves_reclaim])
       (simp add: reclaim_unadmitted_def Let_def)
next
  case (renews lease ttl now)
  show ?thesis unfolding renews
    by (rule store_kept_readers) (simp_all add: keys_ok_renew_reader assms(2))
next
  case (releases lease now)
  show ?thesis unfolding releases
    by (rule store_kept_readers) (simp add: keys_ok_release_reader assms(2), simp_all add: release_frame)
next
  case (records lease b ttl now)
  show ?thesis unfolding records
    using keys_ok_record [OF assms(2)] evolves_mono [OF evolves_record subset_UNIV] record_generation
    by (simp add: store_kept_def)
next
  case (answers sid xid answer answered_by now)
  show ?thesis unfolding answers
    by (rule store_kept_same_leases [OF keys_ok_request_answer [OF assms(2)] evolves_request_answer])
       (simp add: request_answer_def notify_def)
qed (use assms(2) in \<open>auto simp: settle_control_def expire_controls_def
      intro: claim_kept import_kept_store page_kept control_tables stage_kept request_kept\<close>)

lemma repo_runs_kept: "repo_runs db db' \<Longrightarrow> keys_ok db \<Longrightarrow> store_kept db db'"
proof (induction rule: rtranclp_induct)
  case base
  then show ?case by (simp add: store_kept_def)
next
  case (step db1 db2)
  then have "store_kept db db1" by simp
  moreover from this have "keys_ok db1" by (simp add: store_kept_def)
  with step(2) have "store_kept db1 db2" by (rule repo_step_kept)
  ultimately show ?case by (rule store_kept_trans)
qed

section \<open>Properties\<close>

text \<open>
  C10. The store stays well formed and nothing recorded is undone. Whatever the repository's
  writes and however they interleave, from a store whose keys are unique and whose sequence
  numbers ascend: they stay so; no input, response, interaction or part disappears; an input
  that left custody, an ended response, a closed interaction, a given answer and a display
  position stay as they are; the log only grows at its end; and no reader generation goes
  back.
\<close>

theorem store_stays_well_formed:
  assumes "repo_runs db db'" and "keys_ok db"
  shows "keys_ok db' \<and> evolves UNIV db db' \<and> (\<forall>sid. current_generation db sid \<le> current_generation db' sid)"
  using repo_runs_kept [OF assms] by (simp add: store_kept_def)

theorem store_stays_well_formed_witness:
  "keys_ok (snd (sample_send ''i'' ''m'' [] sample_claimed)) \<and>
   current_generation sample_db ''s'' \<le> current_generation (snd (sample_send ''i'' ''m'' [] sample_claimed)) ''s''"
proof -
  have "repo_step sample_db sample_claimed"
    unfolding sample_claimed_def by (rule repo_step.claims)
  moreover have "repo_step sample_claimed (snd (sample_send ''i'' ''m'' [] sample_claimed))"
    unfolding sample_send_def by (rule repo_step.accepts)
  ultimately have "repo_runs sample_db (snd (sample_send ''i'' ''m'' [] sample_claimed))" by simp
  from store_stays_well_formed [OF this sample_db_keys] show ?thesis by blast
qed

end
