(* ===== verification/Attachments.thy ===== *)
theory Attachments
  imports Reader Codec "HOL-Library.Multiset" "HOL-Library.Sublist"
begin

text \<open>
  Files a message carries, \<^verbatim>\<open>session_runtime/attachments.py\<close>: their names in the workspace, the words
  and blocks an input gets for them (\<^verbatim>\<open>turn_input\<close>) and their delivery before the engine reads the
  input (\<^verbatim>\<open>deliver_attachments\<close>). A file's bytes are a list of numbers below 256. The writer of
  workspace files belongs to the sandbox component and is an argument.
\<close>

section \<open>Limits and kinds\<close>

definition MAX_ATTACHMENT_BYTES :: int where
  "MAX_ATTACHMENT_BYTES = 25 * 1024 * 1024"

definition MAX_ATTACHMENTS :: nat where
  "MAX_ATTACHMENTS = 10"

definition UPLOADS_DIR :: string where
  "UPLOADS_DIR = ''uploads''"

definition IMAGE :: string where
  "IMAGE = ''image''"

definition FILE :: string where
  "FILE = ''file''"

text \<open>\<^verbatim>\<open>SentAttachment\<close>: a staged file and how the message sends it.\<close>

definition sent_attachment :: "string \<Rightarrow> string \<Rightarrow> (string \<times> string) res" where
  "sent_attachment aid kind = (if kind \<in> {IMAGE, FILE} then Inr (aid, kind) else Inl ValueError)"

definition image_signatures :: "(nat list \<times> string) list" where
  "image_signatures =
     [([137, 80, 78, 71, 13, 10, 26, 10], ''image/png''), ([255, 216, 255], ''image/jpeg''),
      ([71, 73, 70, 56, 55, 97], ''image/gif''), ([71, 73, 70, 56, 57, 97], ''image/gif'')]"

definition image_media_type :: "nat list \<Rightarrow> string option" where
  "image_media_type data =
     (case first_row (\<lambda>sm. take (length (fst sm)) data = fst sm) image_signatures of
        Some sm \<Rightarrow> Some (snd sm)
      | None \<Rightarrow>
          if 12 \<le> length data \<and> take 4 data = [82, 73, 70, 70] \<and> take 4 (drop 8 data) = [87, 69, 66, 80]
          then Some ''image/webp'' else None)"

definition require_attachment_size :: "int \<Rightarrow> unit res" where
  "require_attachment_size n = check (n \<le> MAX_ATTACHMENT_BYTES) (APIError ''INPUT_ATTACHMENT_TOO_LARGE'' 413)"

section \<open>Names\<close>

definition is_control :: "char \<Rightarrow> bool" where
  "is_control c = (let n = of_char c :: nat in n < 32 \<or> n = 127)"

definition basename :: "string \<Rightarrow> string" where
  "basename path = (case rpartition (CHR ''/'') path of None \<Rightarrow> path | Some (_, tail) \<Rightarrow> tail)"

definition attachment_name :: "string option \<Rightarrow> string \<Rightarrow> string" where
  "attachment_name raw fallback =
     (let slashed = map (\<lambda>c. if c = char_of (92::nat) then CHR ''/'' else c) (coalesce raw []);
          name = filter (\<lambda>c. \<not> is_control c) (strip (basename slashed))
      in if name \<notin> {[], ''.'', ''..''} then name else fallback)"

definition numbered_name :: "string \<Rightarrow> string \<Rightarrow> nat \<Rightarrow> string" where
  "numbered_name stem extension counter =
     (if extension \<noteq> [] then stem @ '' ('' @ str_nat counter @ '').'' @ extension
      else stem @ '' ('' @ str_nat counter @ '')'')"

lemma numbered_name_inj: "numbered_name stem ext m = numbered_name stem ext n \<Longrightarrow> m = n"
  by (auto simp: numbered_name_def split: if_splits dest: str_nat_inj)

text \<open>
  The inner loop of \<^verbatim>\<open>workspace_names\<close>. It ends because the counters give different names, of which
  the finitely many taken ones run out.
\<close>

definition taken_counters :: "string \<Rightarrow> string \<Rightarrow> string list \<Rightarrow> nat \<Rightarrow> nat set" where
  "taken_counters stem ext taken counter = {k. counter < k \<and> numbered_name stem ext k \<in> set taken}"

lemma finite_taken_counters: "finite (taken_counters stem ext taken counter)"
proof -
  have "inj_on (numbered_name stem ext) (taken_counters stem ext taken counter)"
    by (auto intro: inj_onI dest: numbered_name_inj)
  moreover have "numbered_name stem ext ` taken_counters stem ext taken counter \<subseteq> set taken"
    by (auto simp: taken_counters_def)
  ultimately show ?thesis using finite_imageD finite_subset by blast
qed

lemma taken_counters_step:
  "numbered_name stem ext (counter + 1) \<in> set taken \<Longrightarrow>
     card (taken_counters stem ext taken (counter + 1)) < card (taken_counters stem ext taken counter)"
  by (rule psubset_card_mono [OF finite_taken_counters]) (auto simp: taken_counters_def psubset_eq)

lemma taken_counters_free:
  "numbered_name stem ext (counter + 1) \<notin> set taken \<Longrightarrow>
     taken_counters stem ext taken (counter + 1) = taken_counters stem ext taken counter"
  by (auto simp: taken_counters_def) (metis Suc_lessI)

function free_name :: "string \<Rightarrow> string \<Rightarrow> string list \<Rightarrow> string \<Rightarrow> nat \<Rightarrow> string" where
  "free_name stem ext taken candidate counter =
     (if candidate \<in> set taken
      then free_name stem ext taken (numbered_name stem ext (counter + 1)) (counter + 1)
      else candidate)"
  by pat_completeness auto

termination free_name
proof (relation "inv_image (less_than <*lex*> less_than)
    (\<lambda>(stem, ext, taken, candidate, counter).
       (card (taken_counters stem ext taken counter), if candidate \<in> set taken then 1 else 0 :: nat))")
  fix stem ext candidate :: string and taken :: "string list" and counter :: nat
  assume "candidate \<in> set taken"
  then show "((stem, ext, taken, numbered_name stem ext (counter + 1), counter + 1), stem, ext, taken, candidate, counter)
      \<in> inv_image (less_than <*lex*> less_than) (\<lambda>(stem, ext, taken, candidate, counter).
          (card (taken_counters stem ext taken counter), if candidate \<in> set taken then 1 else 0))"
    using taken_counters_step [of stem ext counter taken] taken_counters_free [of stem ext counter taken] by auto
qed auto

declare free_name.simps [simp del]

definition name_parts :: "string \<Rightarrow> string \<times> string" where
  "name_parts name =
     (case rpartition (CHR ''.'') name of
        None \<Rightarrow> (name, [])
      | Some (stem, extension) \<Rightarrow> if stem = [] then (name, []) else (stem, extension))"

definition workspace_name :: "string \<Rightarrow> string list \<Rightarrow> string list" where
  "workspace_name name taken =
     (case name_parts name of (stem, ext) \<Rightarrow> taken @ [free_name stem ext taken name 1])"

definition workspace_names :: "string list \<Rightarrow> string list" where
  "workspace_names names = fold workspace_name names []"

section \<open>The input's words\<close>

definition attachment_directory :: "string \<Rightarrow> string" where
  "attachment_directory iid = UPLOADS_DIR @ ''/'' @ iid"

definition attached_image :: "attachment_row \<times> string \<Rightarrow> string option res" where
  "attached_image rk =
     (if snd rk = IMAGE
      then (case image_media_type (at_data (fst rk)) of
              None \<Rightarrow> Inl (APIError ''INPUT_ATTACHMENT_UNSUPPORTED'' 400) | Some m \<Rightarrow> Inr (Some m))
      else Inr None)"

definition attachment_line :: "string \<Rightarrow> string \<Rightarrow> string option \<Rightarrow> attachment_row \<Rightarrow> string" where
  "attachment_line iid name media_type row =
     ''- '' @ attachment_directory iid @ ''/'' @ name @ '' ('' @ at_media_type row @ '', '' @ str_int (at_size row) @ '' bytes'' @
     (if media_type = None then [] else '', also attached as an image'') @ '')''"

definition attachment_note :: "string \<Rightarrow> string option list \<Rightarrow> attachment_row list \<Rightarrow> string" where
  "attachment_note iid images rows =
     join [char_of (10::nat)] (''Attached files, saved in your workspace:'' #
       map (\<lambda>(name, media_type, row). attachment_line iid name media_type row)
         (zip (workspace_names (map at_name rows)) (zip images rows)))"

definition text_block :: "string \<Rightarrow> json" where
  "text_block text = JObj [(''type'', JStr ''text''), (''text'', JStr text)]"

definition image_block :: "string \<Rightarrow> attachment_row \<Rightarrow> json" where
  "image_block media_type row =
     JObj [(''type'', JStr ''image''), (''source'', JObj [(''type'', JStr ''base64''), (''media_type'', JStr media_type),
       (''data'', JStr (b64encode False (at_data row)))])]"

definition image_blocks :: "string option list \<Rightarrow> attachment_row list \<Rightarrow> json list" where
  "image_blocks images rows =
     List.map_filter (\<lambda>(media_type, row). map_option (\<lambda>m. image_block m row) media_type) (zip images rows)"

definition turn_input :: "string \<Rightarrow> json list option \<Rightarrow> (attachment_row \<times> string) list \<Rightarrow> string \<Rightarrow>
    (string \<times> json list option) res" where
  "turn_input text blocks attachments iid =
     (if attachments = [] then Inr (text, blocks)
      else rbind (rmap attached_image attachments) (\<lambda>images.
        let rows = map fst attachments; note = attachment_note iid images rows; own = coalesce blocks [];
            content = (if strip text \<noteq> [] then rstrip text @ [char_of (10::nat), char_of (10::nat)] @ note else note);
            pictures = image_blocks images rows;
            leading = (if own \<noteq> [] then own else if strip text \<noteq> [] then [text_block text] else [])
        in Inr (content, if pictures = [] \<and> own = [] then None else Some (leading @ pictures @ [text_block note]))))"

section \<open>Delivery\<close>

definition attachment_files :: "attachment_row list \<Rightarrow> (string \<times> nat list) list" where
  "attachment_files rows = zip (workspace_names (map at_name rows)) (map at_data rows)"

definition deliver_attachments :: "(string \<Rightarrow> (string \<times> nat list) list \<Rightarrow> bool) \<Rightarrow> string \<Rightarrow> string \<Rightarrow> db \<Rightarrow> prepare_result" where
  "deliver_attachments write_files sid iid db =
     (let rows = attachments_for_input sid iid db in
      if rows = [] then Prepared
      else if write_files (attachment_directory iid) (attachment_files rows) then Prepared
      else PrepareRefused [(''code'', JStr ''INPUT_ATTACHMENT_DELIVERY_FAILED''),
             (''message'', JStr ''the message's attachments could not be written into the workspace'')])"

section \<open>Names stay apart\<close>

definition safe_segment :: "string \<Rightarrow> bool" where
  "safe_segment s \<longleftrightarrow> s \<notin> {[], ''.'', ''..''} \<and> CHR ''/'' \<notin> set s \<and> (\<forall>c \<in> set s. \<not> is_control c)"

lemma attachment_name_safe:
  assumes "safe_segment fallback"
  shows "safe_segment (attachment_name raw fallback)"
proof -
  define slashed where "slashed = map (\<lambda>c. if c = char_of (92::nat) then CHR ''/'' else c) (coalesce raw [])"
  have "CHR ''/'' \<notin> set (basename slashed)"
    by (auto simp: basename_def rpartition_def split: option.splits if_splits dest: set_takeWhileD)
  moreover have "set (strip s) \<subseteq> set s" for s
    unfolding strip_def lstrip_def by (meson rev_takeWhile_strip set_dropWhileD subsetD subsetI)
  ultimately have "CHR ''/'' \<notin> set (strip (basename slashed))" by blast
  with assms show ?thesis by (auto simp: attachment_name_def safe_segment_def slashed_def Let_def)
qed

lemma free_name_fresh: "free_name stem ext taken candidate counter \<notin> set taken"
  by (induction stem ext taken candidate counter rule: free_name.induct) (subst free_name.simps, simp)

lemma free_name_kept: "candidate \<notin> set taken \<Longrightarrow> free_name stem ext taken candidate counter = candidate"
  by (subst free_name.simps) simp

lemma free_name_form:
  "free_name stem ext taken candidate counter = candidate \<or>
     (\<exists>k. free_name stem ext taken candidate counter = numbered_name stem ext k)"
  by (induction stem ext taken candidate counter rule: free_name.induct) (subst (1 2) free_name.simps, auto)

lemma name_parts_chars: "name_parts name = (stem, ext) \<Longrightarrow> set stem \<union> set ext \<subseteq> set name"
  by (auto simp: name_parts_def split: option.splits if_splits dest!: rpartition_Some(1))

lemma safe_numbered:
  assumes "safe_segment name" and "name_parts name = (stem, ext)"
  shows "safe_segment (numbered_name stem ext k)"
proof -
  have digits: "list_all is_digit (str_nat k)" using str_nat_digits by blast
  have "CHR '' '' \<in> set (numbered_name stem ext k)" by (auto simp: numbered_name_def)
  then have "numbered_name stem ext k \<notin> {[], ''.'', ''..''}" by auto
  moreover have "c \<noteq> CHR ''/'' \<and> \<not> is_control c" if "c \<in> set (numbered_name stem ext k)" for c
  proof -
    from that consider "c \<in> set stem \<union> set ext" | "is_digit c" | "c \<in> set '' ().''"
      using digits by (auto simp: numbered_name_def list_all_iff split: if_splits)
    then show ?thesis
    proof cases
      case 1
      with name_parts_chars [OF assms(2)] have "c \<in> set name" by blast
      with assms(1) show ?thesis by (auto simp: safe_segment_def)
    next
      case 2
      then show ?thesis by (auto simp: is_digit_def is_control_def Let_def)
    next
      case 3
      then show ?thesis by (auto simp: is_control_def)
    qed
  qed
  ultimately show ?thesis by (auto simp: safe_segment_def)
qed

lemma workspace_name_adds:
  "\<exists>new. workspace_name name taken = taken @ [new] \<and> new \<notin> set taken \<and> (name \<notin> set taken \<longrightarrow> new = name) \<and>
     (safe_segment name \<longrightarrow> safe_segment new)"
proof -
  obtain stem ext where parts: "name_parts name = (stem, ext)" by (cases "name_parts name")
  let ?new = "free_name stem ext taken name 1"
  have "safe_segment ?new" if "safe_segment name"
    using free_name_form [of stem ext taken name 1] safe_numbered [OF that parts] that by auto
  with parts free_name_fresh [of stem ext taken name 1] free_name_kept [of name taken] show ?thesis
    by (auto simp: workspace_name_def)
qed

lemma workspace_names_from:
  assumes "distinct taken"
  shows "\<exists>new. fold workspace_name names taken = taken @ new \<and> length new = length names \<and> distinct (taken @ new) \<and>
    (distinct (taken @ names) \<longrightarrow> new = names) \<and> ((\<forall>n \<in> set names. safe_segment n) \<longrightarrow> (\<forall>n \<in> set new. safe_segment n))"
  using assms
proof (induction names arbitrary: taken)
  case (Cons name names)
  from workspace_name_adds [of name taken] obtain n where
    n: "workspace_name name taken = taken @ [n]" "n \<notin> set taken" "name \<notin> set taken \<longrightarrow> n = name"
      "safe_segment name \<longrightarrow> safe_segment n" by blast
  with Cons.prems have "distinct (taken @ [n])" by simp
  from Cons.IH [OF this] obtain new where
    new: "fold workspace_name names (taken @ [n]) = (taken @ [n]) @ new" "length new = length names"
      "distinct ((taken @ [n]) @ new)" "distinct ((taken @ [n]) @ names) \<longrightarrow> new = names"
      "(\<forall>m \<in> set names. safe_segment m) \<longrightarrow> (\<forall>m \<in> set new. safe_segment m)" by blast
  have "n # new = name # names" if "distinct (taken @ name # names)"
    using that n(3) new(4) by auto
  with n new show ?case by (intro exI [of _ "n # new"]) auto
qed simp

lemma workspace_names_ok:
  "length (workspace_names names) = length names \<and> distinct (workspace_names names) \<and>
     (distinct names \<longrightarrow> workspace_names names = names) \<and>
     ((\<forall>n \<in> set names. safe_segment n) \<longrightarrow> (\<forall>n \<in> set (workspace_names names). safe_segment n))"
  using workspace_names_from [of "[]" names] by (auto simp: workspace_names_def)

section \<open>What an accepted input carries\<close>

lemma sort_key_greatest:
  assumes "\<And>x. x \<in> set (xs @ ys) \<Longrightarrow> f x < f a"
  shows "sort_key f (xs @ a # ys) = sort_key f (xs @ ys) @ [a]"
proof (rule properties_for_sort_key)
  show "mset (sort_key f (xs @ ys) @ [a]) = mset (xs @ a # ys)" by simp
  show "sorted (map f (sort_key f (xs @ ys) @ [a]))" using assms by (auto simp: sorted_append intro: less_imp_le)
  show "filter (\<lambda>y. f k = f y) (sort_key f (xs @ ys) @ [a]) = filter (\<lambda>y. f k = f y) (xs @ a # ys)"
    if "k \<in> set (sort_key f (xs @ ys) @ [a])" for k
  proof (cases "f k = f a")
    case True
    have "f k \<noteq> f y" if "y \<in> set (xs @ ys)" for y using assms [OF that] True by simp
    then have "filter (\<lambda>y. f k = f y) (xs @ ys) = []" by (simp add: filter_empty_conv)
    with True show ?thesis by (simp add: filter_sort)
  next
    case False
    have "filter (\<lambda>y. f k = f y) (sort_key f (xs @ ys)) = filter (\<lambda>y. f k = f y) (xs @ ys)"
      using sort_key_stable [of f "f k" "xs @ ys"] by (simp add: eq_commute)
    with False show ?thesis by simp
  qed
qed

definition file_of :: "attachment_row \<Rightarrow> string \<times> string \<times> nat list" where
  "file_of a = (at_attachment_id a, at_name a, at_data a)"

definition bound_to :: "string \<Rightarrow> string \<Rightarrow> attachment_row \<Rightarrow> bool" where
  "bound_to sid iid a \<longleftrightarrow> at_session_id a = Some sid \<and> at_input_id a = Some iid"

definition ordinal :: "attachment_row \<Rightarrow> int" where
  "ordinal a = coalesce (at_ordinal a) 0"

lemma bind_one:
  assumes "bind_attachment sid iid owner utcnow (n, aid, kind) rows = Inr mid"
    and "\<forall>a \<in> set rows. bound_to sid iid a \<longrightarrow> ordinal a < int n"
  obtains a where "a \<in> set rows" "at_attachment_id a = aid"
    "map file_of (order_by ordinal (filter (bound_to sid iid) mid)) =
       map file_of (order_by ordinal (filter (bound_to sid iid) rows)) @ [file_of a]"
    "map file_of mid = map file_of rows" "\<forall>a \<in> set mid. bound_to sid iid a \<longrightarrow> ordinal a < int (Suc n)"
proof -
  let ?q = "bindable aid owner utcnow"
  let ?f = "\<lambda>a. a\<lparr>at_session_id := Some sid, at_input_id := Some iid, at_ordinal := Some (int n), at_kind := Some kind,
    at_expires_at := None\<rparr>"
  from assms(1) have one: "length (filter ?q rows) = 1" and mid: "mid = update_where ?q ?f rows"
    by (auto simp: bind_attachment_def rowcount_def split: if_splits)
  then obtain a where "filter ?q rows = [a]" by (auto simp: length_Suc_conv)
  then obtain xs ys where rows: "rows = xs @ a # ys" "\<forall>x \<in> set xs. \<not> ?q x" "?q a" "filter ?q ys = []"
    by (auto simp: filter_eq_Cons_iff)
  then have "\<forall>x \<in> set ys. \<not> ?q x" by (simp add: filter_empty_conv)
  with rows have mid': "mid = xs @ ?f a # ys" by (simp add: mid update_where_append update_where_id)
  have "\<not> bound_to sid iid a" "bound_to sid iid (?f a)" "ordinal (?f a) = int n" "file_of (?f a) = file_of a"
    using rows(3) by (auto simp: bindable_def bound_to_def ordinal_def coalesce_def file_of_def)
  note a = this
  let ?xs = "filter (bound_to sid iid) xs" and ?ys = "filter (bound_to sid iid) ys"
  have "sort_key ordinal (?xs @ ?f a # ?ys) = sort_key ordinal (?xs @ ?ys) @ [?f a]"
    by (rule sort_key_greatest) (use assms(2) rows(1) a(3) in auto)
  then have "map file_of (order_by ordinal (filter (bound_to sid iid) mid)) =
      map file_of (order_by ordinal (filter (bound_to sid iid) rows)) @ [file_of a]"
    using a by (simp add: order_by_def mid' rows(1))
  moreover have "map file_of mid = map file_of rows" using a(4) by (simp add: mid' rows(1))
  moreover have "\<forall>a \<in> set mid. bound_to sid iid a \<longrightarrow> ordinal a < int (Suc n)"
    using assms(2) a(3) by (auto simp: mid' rows(1))
  ultimately show thesis using that [of a] rows(1,3) by (simp add: bindable_def)
qed

lemma bind_files:
  assumes "rfold (bind_attachment sid iid owner utcnow) (enumerate n atts) rows = Inr rows'"
    and "\<forall>a \<in> set rows. bound_to sid iid a \<longrightarrow> ordinal a < int n"
  shows "\<exists>files. list_all2 (\<lambda>att c. c \<in> file_of ` set rows \<and> fst c = fst att) atts files \<and>
    map file_of (order_by ordinal (filter (bound_to sid iid) rows')) =
      map file_of (order_by ordinal (filter (bound_to sid iid) rows)) @ files"
  using assms
proof (induction atts arbitrary: n rows)
  case (Cons att atts)
  obtain aid kind where att: "att = (aid, kind)" by (cases att)
  with Cons.prems(1) obtain mid where mid: "bind_attachment sid iid owner utcnow (n, aid, kind) rows = Inr mid"
    and rest: "rfold (bind_attachment sid iid owner utcnow) (enumerate (Suc n) atts) mid = Inr rows'"
    by (auto simp: rbind_Inr_iff)
  from mid Cons.prems(2) obtain a where a: "a \<in> set rows" "at_attachment_id a = aid"
    "map file_of (order_by ordinal (filter (bound_to sid iid) mid)) =
       map file_of (order_by ordinal (filter (bound_to sid iid) rows)) @ [file_of a]"
    "map file_of mid = map file_of rows" "\<forall>a \<in> set mid. bound_to sid iid a \<longrightarrow> ordinal a < int (Suc n)"
    by (rule bind_one)
  from Cons.IH [OF rest a(5)] obtain files where
    files: "list_all2 (\<lambda>att c. c \<in> file_of ` set mid \<and> fst c = fst att) atts files"
      "map file_of (order_by ordinal (filter (bound_to sid iid) rows')) =
        map file_of (order_by ordinal (filter (bound_to sid iid) mid)) @ files"
    by blast
  have "file_of ` set mid = file_of ` set rows" using arg_cong [OF a(4), of set] by simp
  moreover have "fst (file_of a) = fst att" using a(2) att by (simp add: file_of_def)
  ultimately show ?case using files a(1,3) by (intro exI [of _ "file_of a # files"]) auto
qed simp

lemma attachments_for_input_eq:
  "attachments_for_input sid iid db = order_by ordinal (filter (bound_to sid iid) (t_attachments db))"
  by (simp add: attachments_for_input_def ordinal_def [abs_def] bound_to_def [abs_def])

lemma accepted_files:
  assumes "accept_input sid iid cmid content blocks owner author source atts att_owner now utcnow db = (Inr (Some (row, True)), db')"
    and "distinct (map at_attachment_id (t_attachments db))"
    and "\<not> list_ex (\<lambda>a. at_session_id a = Some sid \<and> at_input_id a = Some iid) (t_attachments db)"
    and "list_all2 (\<lambda>att a. a \<in> set (t_attachments db) \<and> at_attachment_id a = fst att) atts rows"
  shows "attachment_files (attachments_for_input sid iid db') = attachment_files rows"
    and "(attachments_for_input sid iid db' = []) = (rows = [])"
proof -
  from assms(1) obtain bound where
    bound: "rfold (bind_attachment sid iid att_owner utcnow) (enumerate 0 atts) (t_attachments db) = Inr bound"
    and "db' = accepted_db sid row bound now db"
    by (auto elim: accept_input_created)
  then have db': "t_attachments db' = bound" by (simp add: accepted_db_def notify_def)
  have none: "filter (bound_to sid iid) (t_attachments db) = []"
    using assms(3) by (simp add: filter_empty_conv bound_to_def list_ex_iff)
  then have "\<forall>a \<in> set (t_attachments db). bound_to sid iid a \<longrightarrow> ordinal a < int 0" by (simp add: filter_empty_conv)
  from bind_files [OF bound this] obtain files where
    files: "list_all2 (\<lambda>att c. c \<in> file_of ` set (t_attachments db) \<and> fst c = fst att) atts files"
    and eq: "map file_of (attachments_for_input sid iid db') = files"
    by (auto simp: none attachments_for_input_eq db' order_by_def)
  have unique: "c = file_of a" if "c \<in> file_of ` set (t_attachments db)" "a \<in> set (t_attachments db)" "fst c = at_attachment_id a" for c a
    using that assms(2) by (auto simp: file_of_def distinct_map dest: inj_onD)
  have "files = map file_of rows"
  proof (rule nth_equalityI)
    show "length files = length (map file_of rows)"
      using list_all2_lengthD [OF files] list_all2_lengthD [OF assms(4)] by simp
    show "files ! k = map file_of rows ! k" if "k < length files" for k
    proof -
      have k: "k < length atts" "k < length rows"
        using that list_all2_lengthD [OF files] list_all2_lengthD [OF assms(4)] by simp_all
      from unique [of "files ! k" "rows ! k"] list_all2_nthD [OF files k(1)] list_all2_nthD [OF assms(4) k(1)] k(2)
      show ?thesis by simp
    qed
  qed
  with eq have same: "map file_of (attachments_for_input sid iid db') = map file_of rows" by simp
  have by_file: "attachment_files rs = zip (workspace_names (map (fst \<circ> snd) (map file_of rs))) (map (snd \<circ> snd) (map file_of rs))" for rs
    by (simp add: attachment_files_def file_of_def o_def)
  from same show "attachment_files (attachments_for_input sid iid db') = attachment_files rows" by (simp only: by_file)
  show "(attachments_for_input sid iid db' = []) = (rows = [])" using same map_eq_imp_length_eq [OF same] by auto
qed

lemma sublist_inside: "sublist w v \<Longrightarrow> sublist w (pre @ v @ post)"
  unfolding sublist_def by (metis append_assoc)

lemmas sublist_after = sublist_inside [of _ _ _ "[]", simplified]

lemma sublist_join: "w \<in> set ws \<Longrightarrow> sublist w (join sep ws)"
proof (induction sep ws rule: join.induct)
  case (3 sep s t ws)
  show ?case
  proof (cases "w = s")
    case False
    with 3 have "sublist w (join sep (t # ws))" by simp
    from sublist_after [OF this, of "s @ sep"] show ?thesis by simp
  qed simp
qed simp_all

lemma attachment_note_names:
  assumes "name \<in> set (workspace_names (map at_name rows))" and "length images = length rows"
  shows "sublist (attachment_directory iid @ ''/'' @ name) (attachment_note iid images rows)"
proof -
  have lens: "length (workspace_names (map at_name rows)) = length rows" using workspace_names_ok by simp
  from assms(1) obtain k where k: "k < length rows" "name = workspace_names (map at_name rows) ! k"
    using lens by (auto simp: in_set_conv_nth)
  let ?line = "attachment_line iid name (images ! k) (rows ! k)"
  have "?line \<in> set (map (\<lambda>(name, media_type, row). attachment_line iid name media_type row)
      (zip (workspace_names (map at_name rows)) (zip images rows)))"
    using k assms(2) lens by (auto simp: set_zip intro!: image_eqI [of _ _ "(name, images ! k, rows ! k)"] exI [of _ k])
  then have "sublist ?line (attachment_note iid images rows)"
    unfolding attachment_note_def by (intro sublist_join) simp
  moreover have "sublist (attachment_directory iid @ ''/'' @ name) ?line"
    unfolding attachment_line_def by (metis append_assoc sublist_appendI)
  ultimately show ?thesis unfolding sublist_def by (metis append_assoc)
qed

lemma turn_input_names:
  assumes "turn_input words own (zip rows kinds) iid = Inr (content, blocks)" and "length kinds = length rows"
    and "name \<in> set (workspace_names (map at_name rows))"
  shows "sublist (attachment_directory iid @ ''/'' @ name) content"
proof -
  have some: "zip rows kinds \<noteq> []" using assms(2,3) by (cases rows; cases kinds; simp add: workspace_names_def)
  from assms(1,2) some obtain images where images: "rmap attached_image (zip rows kinds) = Inr images"
    and content: "content = attachment_note iid images rows \<or> (\<exists>pre. content = pre @ attachment_note iid images rows)"
    by (auto simp: turn_input_def rbind_Inr_iff Let_def split: if_splits)
  have "length images = length rows" using rmap_length [OF images] assms(2) by simp
  with assms(3) have "sublist (attachment_directory iid @ ''/'' @ name) (attachment_note iid images rows)"
    by (rule attachment_note_names)
  with content show ?thesis by (auto intro: sublist_after)
qed

section \<open>Properties\<close>

text \<open>
  C37. The files of one message get paths of their own inside the message's directory. For names
  made safe by \<^verbatim>\<open>attachment_name\<close>, \<^verbatim>\<open>workspace_names\<close> ends and gives one name per file, no two
  alike, each a single path segment that is neither empty nor a dot entry and has no control
  characters; names that do not repeat are kept.
\<close>

theorem workspace_names_stay_apart:
  assumes "names = map (\<lambda>(raw, fallback). attachment_name raw fallback) files"
    and "\<forall>(raw, fallback) \<in> set files. safe_segment fallback"
  shows "length (workspace_names names) = length names \<and> distinct (workspace_names names) \<and>
    (\<forall>n \<in> set (workspace_names names). safe_segment n) \<and> (distinct names \<longrightarrow> workspace_names names = names)"
proof -
  have "\<forall>n \<in> set names. safe_segment n" using assms attachment_name_safe by auto
  with workspace_names_ok show ?thesis by blast
qed

theorem workspace_names_stay_apart_witness:
  "workspace_names (map (\<lambda>(raw, fallback). attachment_name raw fallback)
     [(Some ''../a.txt'', ''f''), (Some ''b/a.txt'', ''f''), (Some ''..'', ''f'')]) = [''a.txt'', ''a (2).txt'', ''f''] \<and>
   distinct (workspace_names (map (\<lambda>(raw, fallback). attachment_name raw fallback)
     [(Some ''../a.txt'', ''f''), (Some ''b/a.txt'', ''f''), (Some ''..'', ''f'')]))"
proof -
  have "\<forall>(raw, fallback) \<in> set [(Some ''../a.txt'', ''f''), (Some ''b/a.txt'', ''f''), (Some ''..'', ''f'')]. safe_segment fallback"
    by code_simp
  from workspace_names_stay_apart [OF refl this] show ?thesis by code_simp
qed

text \<open>
  C17. An engine never reads a message naming a file that is not there. A message's words are made
  by \<^verbatim>\<open>turn_input\<close> from the staged files it names and \<^verbatim>\<open>accept_input\<close> creates its input. The delivery
  then lets the input pass exactly when the workspace writer wrote, in the input's directory,
  one file per staged file with its bytes and in the message's order; the stored words of
  the input contain the path of every one of these files, and no two share a name.
\<close>

theorem named_files_are_written:
  assumes "turn_input words own (zip rows (map snd atts)) iid = Inr (content, blocks)"
    and "accept_input sid iid cmid content blocks owner author source atts att_owner now utcnow db = (Inr (Some (row, True)), db')"
    and "atts \<noteq> []" and "distinct (map at_attachment_id (t_attachments db))"
    and "\<not> list_ex (\<lambda>a. at_session_id a = Some sid \<and> at_input_id a = Some iid) (t_attachments db)"
    and "list_all2 (\<lambda>att a. a \<in> set (t_attachments db) \<and> at_attachment_id a = fst att) atts rows"
  shows "\<exists>names. length names = length rows \<and> distinct names \<and>
    (\<forall>name \<in> set names. sublist (attachment_directory iid @ ''/'' @ name) (i_content row)) \<and>
    (\<forall>write_files. deliver_attachments write_files sid iid db' = Prepared \<longleftrightarrow>
       write_files (attachment_directory iid) (zip names (map at_data rows)))"
proof (intro exI conjI allI)
  let ?names = "workspace_names (map at_name rows)"
  note len = list_all2_lengthD [OF assms(6)]
  note files = accepted_files [OF assms(2,4-6)]
  have content: "i_content row = content" using assms(2) by (auto elim!: accept_input_created simp: new_input_def)
  show "length ?names = length rows" "distinct ?names" using workspace_names_ok by simp_all
  show "\<forall>name \<in> set ?names. sublist (attachment_directory iid @ ''/'' @ name) (i_content row)"
    using turn_input_names [OF assms(1)] len by (simp add: content)
  have "attachments_for_input sid iid db' \<noteq> []" using files(2) len assms(3) by auto
  then show "deliver_attachments write_files sid iid db' = Prepared \<longleftrightarrow>
      write_files (attachment_directory iid) (zip ?names (map at_data rows))" for write_files
    by (simp add: deliver_attachments_def files(1)) (simp add: attachment_files_def)
qed

definition sample_words :: string where
  "sample_words = fst (projr (turn_input ''hello'' None [(sample_file ''g'', ''file''), (sample_file ''f'', ''file'')] ''i''))"

definition sample_carried :: "(input_row \<times> bool) option res \<times> db" where
  "sample_carried = accept_input ''s'' ''i'' ''m'' sample_words None (Some ''ann'') (Some ''ann'') None
     [(''g'', ''file''), (''f'', ''file'')] (Some ''ann'') 5 5 sample_db"

theorem named_files_are_written_witness:
  "\<exists>names :: string list. length names = 2 \<and> distinct names \<and>
     (deliver_attachments (\<lambda>_ _. True) ''s'' ''i'' (snd sample_carried) = Prepared) \<and>
     (deliver_attachments (\<lambda>_ _. False) ''s'' ''i'' (snd sample_carried) \<noteq> Prepared)"
proof -
  have words: "turn_input ''hello'' None (zip [sample_file ''g'', sample_file ''f''] (map snd [(''g'', ''file''), (''f'', ''file'')])) ''i'' =
      Inr (sample_words, None)" by code_simp
  have "(case fst sample_carried of Inr (Some (r, new)) \<Rightarrow> new | _ \<Rightarrow> False)" by code_simp
  then obtain row where "fst sample_carried = Inr (Some (row, True))"
    by (auto split: sum.splits option.splits prod.splits)
  then have sent: "accept_input ''s'' ''i'' ''m'' sample_words None (Some ''ann'') (Some ''ann'') None
      [(''g'', ''file''), (''f'', ''file'')] (Some ''ann'') 5 5 sample_db = (Inr (Some (row, True)), snd sample_carried)"
    unfolding sample_carried_def [symmetric] by (simp add: prod_eq_iff)
  have "[(''g'', ''file''), (''f'', ''file'')] \<noteq> []" "distinct (map at_attachment_id (t_attachments sample_db))"
    "\<not> list_ex (\<lambda>a. at_session_id a = Some ''s'' \<and> at_input_id a = Some ''i'') (t_attachments sample_db)"
    "list_all2 (\<lambda>att a. a \<in> set (t_attachments sample_db) \<and> at_attachment_id a = fst att)
       [(''g'', ''file''), (''f'', ''file'')] [sample_file ''g'', sample_file ''f'']"
    by (simp_all add: sample_db_def sample_file_def)
  from named_files_are_written [OF words sent this] obtain names where
    "length names = length [sample_file ''g'', sample_file ''f'']" "distinct names"
    "\<forall>write_files. deliver_attachments write_files ''s'' ''i'' (snd sample_carried) = Prepared \<longleftrightarrow>
       write_files (attachment_directory ''i'') (zip names (map at_data [sample_file ''g'', sample_file ''f'']))"
    by blast
  then show ?thesis by (intro exI [of _ names]) simp
qed

end
