(* ===== verification/Service.thy ===== *)
theory Service
  imports Repository Attachments HistoryBlocks
begin

text \<open>
  What people and channels do with a conversation, \<^verbatim>\<open>session_runtime/service.py\<close>: sending,
  answering, interrupting, stopping a sub-agent, and the reads of the session page; with the
  lookups of \<^verbatim>\<open>session_repository.py\<close> they start from.

  Access to the environment and admission are decided by other components; their refusals are
  arguments (\<open>gates\<close>), as is the refusal of a known startup prerequisite. The service wakes
  the host for a session it accepted input for: \<open>sw_ensured\<close> collects those calls.
\<close>

section \<open>Sessions\<close>

definition get_session :: "string \<Rightarrow> db \<Rightarrow> session_row option" where
  "get_session sid db = first_row (\<lambda>s. s_session_id s = sid \<and> \<not> s_deleted s) (t_sessions db)"

definition get_session_including_deleted :: "string \<Rightarrow> db \<Rightarrow> session_row option" where
  "get_session_including_deleted sid db = first_row (\<lambda>s. s_session_id s = sid) (t_sessions db)"

definition get_owned_session :: "string \<Rightarrow> string \<Rightarrow> db \<Rightarrow> session_row option" where
  "get_owned_session sid user_id db =
     (let owner = strip user_id in
      if owner = [] then None
      else first_row (\<lambda>s. s_session_id s = sid \<and> s_user_id s = owner \<and> \<not> s_deleted s) (t_sessions db))"

definition get_owner :: "string \<Rightarrow> db \<Rightarrow> string option" where
  "get_owner sid db =
     (case get_session sid db of
        None \<Rightarrow> None | Some s \<Rightarrow> if s_user_id s = [] then None else Some (s_user_id s))"

definition set_permission_mode :: "string \<Rightarrow> string \<Rightarrow> db \<Rightarrow> bool \<times> db" where
  "set_permission_mode sid mode db =
     (let p = \<lambda>s. s_session_id s = sid \<and> \<not> s_deleted s in
      if rowcount p (t_sessions db) = 0 then (False, db)
      else (True, notify sid NPermission 0
             (db\<lparr>t_sessions := update_where p (\<lambda>s. s\<lparr>s_permission_mode := Some mode\<rparr>) (t_sessions db)\<rparr>)))"

definition require_environment_ownership :: "string \<Rightarrow> session_row \<Rightarrow> unit res" where
  "require_environment_ownership environment s =
     rbind (check (s_environment_name s \<noteq> []) (APIError ''ENVIRONMENT_MISSING'' 500)) (\<lambda>_.
       check (s_environment_name s = environment) (APIError ''ENVIRONMENT_MISMATCH'' 409))"

section \<open>Sending\<close>

text \<open>The deployment a call runs in: its environment's name and what the gates before the service say.\<close>

record gates =
  ga_environment :: string
  ga_access :: "error option"
  ga_admission :: "error option"
  ga_prerequisite :: "error option"

definition passes :: "error option \<Rightarrow> unit res" where
  "passes refused = (case refused of None \<Rightarrow> Inr () | Some e \<Rightarrow> Inl e)"

record message =
  me_content :: string
  me_content_blocks :: "json list option"
  me_client_message_id :: "string option"
  me_owner_user_id :: "string option"
  me_author_user_id :: "string option"
  me_source :: string
  me_attachments :: "(string \<times> string) list"
  me_attachment_scope :: "string option"

record accept_view =
  acv_session_id :: string
  acv_input_id :: string
  acv_client_message_id :: string
  acv_accepted_at :: time
  acv_state :: input_state
  acv_failure :: "json option"
  acv_duplicate :: bool

record sworld =
  sw_db :: db
  sw_ensured :: "string list"

definition not_accepting :: "string \<Rightarrow> string option \<Rightarrow> db \<Rightarrow> error" where
  "not_accepting sid owner db =
     (case get_session_including_deleted sid db of
        None \<Rightarrow> APIError ''SESSION_NOT_FOUND'' 404
      | Some s \<Rightarrow>
          if (case owner of None \<Rightarrow> False | Some u \<Rightarrow> s_user_id s \<noteq> u) then APIError ''SESSION_NOT_FOUND'' 404
          else if s_recovery_reason s = Some RUNTIME_PROTOCOL_INCOMPATIBLE then APIError ''RUNTIME_PROTOCOL_INCOMPATIBLE'' 502
          else if \<not> s_deleted s \<and> \<not> ended_state (s_state s) then APIError ''AGENT_DELETED'' 409
          else APIError ''AGENT_RUNTIME_ERROR'' 409)"

text \<open>\<^verbatim>\<open>sorted\<close> on the values of a set: strings, or numbers, or at most one value.\<close>

definition sortable :: "json list \<Rightarrow> bool" where
  "sortable xs \<longleftrightarrow> length xs \<le> 1 \<or> list_all is_str xs \<or> list_all (\<lambda>x. as_int x \<noteq> None) xs"

definition declared_types :: "json \<Rightarrow> json list res" where
  "declared_types manifest =
     (let types = (if is_obj manifest then get (jfields manifest) ''input_content_types'' else JNull) in
      if \<not> is_list types \<or> list_ex (\<lambda>kind. \<not> is_str kind \<or> strip (text_of kind) = []) (jitems types)
      then Inl (APIError ''ENGINE_CAPABILITY_CONTRACT_VIOLATION'' 502) else Inr (jitems types))"

fun distinct_values :: "json list \<Rightarrow> json list" where
  "distinct_values [] = []"
| "distinct_values (x # xs) = x # filter (\<lambda>y. \<not> py_eq y x) (distinct_values xs)"

definition content_type :: "json \<Rightarrow> json res" where
  "content_type block =
     rbind (index_json block ''type'') (\<lambda>kind. rbind (check (hashable kind) TypeError) (\<lambda>_. Inr kind))"

definition require_content_types :: "json option \<Rightarrow> json list option \<Rightarrow> unit res" where
  "require_content_types capabilities blocks =
     (case (blocks, capabilities) of
        (Some (b # bs), Some manifest) \<Rightarrow>
          if manifest = JNull then Inr ()
          else rbind (declared_types manifest) (\<lambda>declared.
               rbind (rmap content_type (b # bs)) (\<lambda>kinds.
               let unsupported = filter (\<lambda>k. \<not> list_ex (py_eq k) declared) (distinct_values kinds) in
               rbind (check (sortable unsupported) TypeError) (\<lambda>_.
                 check (unsupported = []) (APIError ''ENGINE_CAPABILITY_UNAVAILABLE'' 409))))
      | _ \<Rightarrow> Inr ())"

text \<open>The files of a message: staged by its sender, each once, within the limit.\<close>

definition staged_for :: "message \<Rightarrow> time \<Rightarrow> db \<Rightarrow> (attachment_row \<times> string) list res" where
  "staged_for m utcnow db =
     (let atts = me_attachments m; ids = map fst atts;
          owner = coalesce (orelse (me_owner_user_id m) (me_author_user_id m)) [];
          staged = staged_attachments ids owner (me_attachment_scope m) utcnow db
      in rbind (check (length atts \<le> MAX_ATTACHMENTS \<and> distinct ids) (APIError ''INVALID_REQUEST'' 400)) (\<lambda>_.
         rbind (check (length (remdups (map at_attachment_id staged)) = length atts)
                  (APIError ''INPUT_ATTACHMENT_UNAVAILABLE'' 409)) (\<lambda>_.
           rmap (\<lambda>(aid, kind). case first_row (\<lambda>a. at_attachment_id a = aid) staged of
                   None \<Rightarrow> Inl KeyError | Some row \<Rightarrow> Inr (row, kind)) atts)))"

definition retried :: "string \<Rightarrow> message \<Rightarrow> db \<Rightarrow> bool" where
  "retried sid m db =
     (case me_client_message_id m of
        None \<Rightarrow> False | Some cmid \<Rightarrow> cmid \<noteq> [] \<and> input_for_client_message sid cmid db \<noteq> None)"

definition message_key :: "message \<Rightarrow> string \<Rightarrow> string" where
  "message_key m iid =
     (let cmid = strip (coalesce (me_client_message_id m) []) in if cmid = [] then iid else cmid)"

definition sender_session :: "string \<Rightarrow> string option \<Rightarrow> db \<Rightarrow> session_row option" where
  "sender_session sid owner db =
     (case owner of None \<Rightarrow> get_session sid db | Some u \<Rightarrow> get_owned_session sid u db)"

text \<open>
  \<^verbatim>\<open>_accept\<close> up to the insert: the files the input will carry, its words and its blocks. \<open>owner\<close>
  falls back on the author where the code writes \<^verbatim>\<open>owner_user_id or author_user_id\<close>; user ids
  are not empty.
\<close>

definition prepare_message :: "gates \<Rightarrow> string \<Rightarrow> message \<Rightarrow> string \<Rightarrow> time \<Rightarrow> db \<Rightarrow>
    ((string \<times> string) list \<times> string \<times> json list option) res" where
  "prepare_message g sid m iid utcnow db =
     (case sender_session sid (me_owner_user_id m) db of
        None \<Rightarrow> Inl (not_accepting sid (me_owner_user_id m) db)
      | Some s \<Rightarrow>
          rbind (require_environment_ownership (ga_environment g) s) (\<lambda>_.
          rbind (passes (ga_access g)) (\<lambda>_.
          rbind (passes (ga_admission g)) (\<lambda>_.
          let atts = (if me_attachments m \<noteq> [] \<and> retried sid m db then [] else me_attachments m) in
          rbind (if atts = [] then Inr (me_content m, me_content_blocks m)
                 else rbind (staged_for m utcnow db) (\<lambda>files.
                      turn_input (me_content m) (me_content_blocks m) files iid)) (\<lambda>(content, blocks).
          rbind (require_content_types (s_engine_capabilities s) blocks) (\<lambda>_.
            Inr (atts, content, blocks)))))))"

definition accept_view_of :: "string \<Rightarrow> input_row \<times> bool \<Rightarrow> accept_view" where
  "accept_view_of sid accepted =
     (let row = fst accepted in
      \<lparr>acv_session_id = sid, acv_input_id = i_input_id row, acv_client_message_id = i_client_message_id row,
       acv_accepted_at = i_created_at row, acv_state = i_state row, acv_failure = i_failure row,
       acv_duplicate = \<not> snd accepted\<rparr>)"

definition accept_message :: "gates \<Rightarrow> string \<Rightarrow> message \<Rightarrow> string \<Rightarrow> time \<Rightarrow> time \<Rightarrow> sworld \<Rightarrow>
    accept_view res \<times> sworld" where
  "accept_message g sid m iid now utcnow w =
     (case prepare_message g sid m iid utcnow (sw_db w) of
        Inl e \<Rightarrow> (Inl e, w)
      | Inr (atts, content, blocks) \<Rightarrow>
          (case accept_input sid iid (message_key m iid) content blocks (me_owner_user_id m) (me_author_user_id m)
                  (Some (me_source m)) atts (orelse (me_owner_user_id m) (me_author_user_id m)) now utcnow (sw_db w) of
             (Inl e, db') \<Rightarrow> (Inl e, w\<lparr>sw_db := db'\<rparr>)
           | (Inr None, db') \<Rightarrow> (Inl (not_accepting sid (me_owner_user_id m) db'), w\<lparr>sw_db := db'\<rparr>)
           | (Inr (Some accepted), db') \<Rightarrow>
               (Inr (accept_view_of sid accepted), w\<lparr>sw_db := db', sw_ensured := sw_ensured w @ [sid]\<rparr>)))"

text \<open>
  \<^verbatim>\<open>send\<close>: the owner's message from the console. \<open>ga_prerequisite\<close> is what
  \<^verbatim>\<open>require_session_user_prerequisites\<close> raises for a session that records a startup action for its
  user, and nothing for any other.
\<close>

definition console_message :: "string \<Rightarrow> message \<Rightarrow> message" where
  "console_message user m =
     m\<lparr>me_owner_user_id := Some user, me_author_user_id := Some user, me_source := ''console''\<rparr>"

definition agent_deleting :: "db \<Rightarrow> session_row \<Rightarrow> bool" where
  "agent_deleting db s \<longleftrightarrow>
     (case first_row (\<lambda>a. s_agent_id s = Some (ag_agent_id a)) (t_agents db) of
        None \<Rightarrow> False | Some a \<Rightarrow> ag_state a \<in> {''DELETING'', ''DELETED''})"

definition send :: "gates \<Rightarrow> string \<Rightarrow> string \<Rightarrow> message \<Rightarrow> string \<Rightarrow> time \<Rightarrow> time \<Rightarrow> sworld \<Rightarrow> accept_view res \<times> sworld" where
  "send g user sid m iid now utcnow w =
     (case get_owned_session sid user (sw_db w) of
        None \<Rightarrow> (Inl (not_accepting sid (Some user) (sw_db w)), w)
      | Some s \<Rightarrow>
          (case rbind (require_environment_ownership (ga_environment g) s) (\<lambda>_.
                  if s_state s = READY \<and> \<not> agent_deleting (sw_db w) s then passes (ga_prerequisite g) else Inr ()) of
             Inl e \<Rightarrow> (Inl e, w)
           | Inr _ \<Rightarrow> accept_message g sid (console_message user m) iid now utcnow w))"

definition send_as :: "gates \<Rightarrow> string \<Rightarrow> message \<Rightarrow> string \<Rightarrow> time \<Rightarrow> time \<Rightarrow> sworld \<Rightarrow> accept_view res \<times> sworld" where
  "send_as g sid m iid now utcnow w = accept_message g sid (m\<lparr>me_owner_user_id := None\<rparr>) iid now utcnow w"

section \<open>Requests to the runtime\<close>

definition require_owner :: "gates \<Rightarrow> string \<Rightarrow> string \<Rightarrow> bool \<Rightarrow> db \<Rightarrow> unit res" where
  "require_owner g user sid execution db =
     rbind (check (get_owner sid db = Some user) (APIError ''SESSION_NOT_FOUND'' 404)) (\<lambda>_.
     rbind (passes (ga_access g)) (\<lambda>_.
       if \<not> execution then Inr ()
       else case get_owned_session sid user db of
         None \<Rightarrow> Inl (APIError ''SESSION_NOT_FOUND'' 404)
       | Some s \<Rightarrow> require_environment_ownership (ga_environment g) s))"

definition answerable :: "string \<Rightarrow> string \<Rightarrow> obj \<Rightarrow> db \<Rightarrow> obj res" where
  "answerable sid xid ans db =
     (case get_interaction sid xid db of
        None \<Rightarrow> Inl (APIError ''INTERACTION_NOT_FOUND'' 404)
      | Some x \<Rightarrow>
          rbind (check (x_status x = IOpen \<and> x_answer x = None) (APIError ''INTERACTION_NOT_OPEN'' 409)) (\<lambda>_.
          rbind (validate_interaction_response (x_contract x) ans) (\<lambda>_. Inr (x_contract x))))"

definition answer :: "gates \<Rightarrow> string \<Rightarrow> string \<Rightarrow> string \<Rightarrow> obj \<Rightarrow> time \<Rightarrow> db \<Rightarrow> unit res \<times> db" where
  "answer g user sid xid ans now db =
     (case rbind (require_owner g user sid True db) (\<lambda>_. answerable sid xid ans db) of
        Inl e \<Rightarrow> (Inl e, db)
      | Inr contract \<Rightarrow>
          (case request_answer sid xid ans user now db of
             (False, db') \<Rightarrow> (Inl (APIError ''INTERACTION_NOT_OPEN'' 409), db')
           | (True, db') \<Rightarrow>
               (case resolve_interaction_permission_mode contract ans of
                  Inl e \<Rightarrow> (Inl e, db')
                | Inr mode \<Rightarrow> (Inr (), if coalesce mode [] \<noteq> [] then snd (set_permission_mode sid (the mode) db') else db'))))"

datatype interrupt_status = InterruptIdle | InterruptAccepted

definition interrupt :: "gates \<Rightarrow> string \<Rightarrow> string \<Rightarrow> string \<Rightarrow> time \<Rightarrow> db \<Rightarrow> interrupt_status res \<times> db" where
  "interrupt g user sid cid now db =
     (case require_owner g user sid True db of
        Inl e \<Rightarrow> (Inl e, db)
      | Inr _ \<Rightarrow>
          if open_response_ids sid db = [] then
            (if open_input_ids sid db \<noteq> [] then (Inl (APIError ''PENDING_INPUTS_NOT_CANCELLED'' 409), db)
             else (Inr InterruptIdle, db))
          else
            (case request_control cid sid ''interrupt'' None (Some user) now db of
               (None, db') \<Rightarrow> (Inl (APIError ''INTERRUPT_UNAVAILABLE'' 409), db')
             | (Some c, db') \<Rightarrow> (Inr InterruptAccepted, db')))"

definition stop_child_run :: "gates \<Rightarrow> string \<Rightarrow> string \<Rightarrow> string \<Rightarrow> string \<Rightarrow> time \<Rightarrow> db \<Rightarrow> unit res \<times> db" where
  "stop_child_run g user sid control_ref cid now db =
     (case require_owner g user sid True db of
        Inl e \<Rightarrow> (Inl e, db)
      | Inr _ \<Rightarrow>
          (case request_control cid sid ''stop_child'' (Some control_ref) (Some user) now db of
             (None, db') \<Rightarrow> (Inl (APIError ''CHILD_RUN_CONTROL_UNAVAILABLE'' 409), db')
           | (Some c, db') \<Rightarrow> (Inr (), db')))"


section \<open>Reads of the page\<close>

fun session_state_name :: "session_state \<Rightarrow> string" where
  "session_state_name CREATING = ''CREATING''"
| "session_state_name READY = ''READY''"
| "session_state_name TERMINATED = ''TERMINATED''"
| "session_state_name RECOVERY_REQUIRED = ''RECOVERY_REQUIRED''"
| "session_state_name DELETED = ''DELETED''"

definition runtime_view_state :: "session_row \<Rightarrow> activity_view \<Rightarrow> string" where
  "runtime_view_state s act =
     (if s_state s \<noteq> READY then session_state_name (s_state s)
      else if s_runtime_unavailable s \<or> s_recovery_reason s = Some RUNTIME_PROTOCOL_INCOMPATIBLE then ''RECOVERY_REQUIRED''
      else
        let status = (case s_runtime_status s of None \<Rightarrow> ''idle'' | Some [] \<Rightarrow> ''idle'' | Some st \<Rightarrow> st) in
        if status = ''waiting'' \<or> av_open_interactions act \<noteq> [] then ''WAITING_INPUT''
        else if status = ''working'' \<or> av_open_responses act \<noteq> [] \<or> av_held_inputs act \<noteq> [] then ''PROCESSING''
        else ''READY'')"

record response_view =
  rv_response_id :: string
  rv_origin :: origin
  rv_status :: response_status
  rv_outcome :: "outcome option"
  rv_native_reason :: "string option"
  rv_error :: "json option"
  rv_started_at :: time
  rv_ended_at :: "time option"

definition response_view_of :: "response_row \<Rightarrow> response_view" where
  "response_view_of r =
     \<lparr>rv_response_id = r_response_id r, rv_origin = r_origin r, rv_status = r_status r, rv_outcome = r_outcome r,
      rv_native_reason = r_native_reason r, rv_error = r_error r, rv_started_at = r_started_at r,
      rv_ended_at = r_ended_at r\<rparr>"

definition interaction_view :: "interaction_row \<Rightarrow> bool \<Rightarrow> obj option res" where
  "interaction_view x include_tool_input =
     rbind (public_interaction_view (JObj (x_contract x)) include_tool_input) (\<lambda>view.
       Inr (map_option (\<lambda>v. dict_set ''response_id'' (JStr (x_response_id x)) v) view))"

record held_input_view =
  hv_input_id :: string
  hv_client_message_id :: string
  hv_content :: string
  hv_state :: input_state
  hv_created_at :: time

record runtime_view =
  tv_state :: string
  tv_runtime_status :: "string option"
  tv_current_responses :: "response_view list"
  tv_last_response :: "response_view option"
  tv_pending_interaction :: "obj option"
  tv_held_inputs :: "held_input_view list"
  tv_output_seq :: int

text \<open>
  \<^verbatim>\<open>runtime_view\<close> reads the output position first and the activity afterwards, from a database that
  may have moved on: \<open>db\<close> is the state of the first read and \<open>db'\<close> of the second.
\<close>

definition runtime_view_of :: "session_row \<Rightarrow> db \<Rightarrow> db \<Rightarrow> runtime_view res" where
  "runtime_view_of s db db' =
     (let sid = s_session_id s; act = activity sid db';
          waiting = filter (\<lambda>x. x_answer x = None) (av_open_interactions act)
      in rbind (case waiting of [] \<Rightarrow> Inr None | x # xs \<Rightarrow> interaction_view x True) (\<lambda>pending.
         Inr \<lparr>tv_state = runtime_view_state s act, tv_runtime_status = s_runtime_status s,
              tv_current_responses = map response_view_of (av_open_responses act),
              tv_last_response = map_option response_view_of (av_last_response act),
              tv_pending_interaction = pending,
              tv_held_inputs = map (\<lambda>i. \<lparr>hv_input_id = i_input_id i, hv_client_message_id = i_client_message_id i,
                 hv_content = i_content i, hv_state = i_state i, hv_created_at = i_created_at i\<rparr>) (av_held_inputs act),
              tv_output_seq = fst (resume_point sid db)\<rparr>))"

section \<open>History\<close>

definition service_encode_before :: "entry_key option \<Rightarrow> string option" where
  "service_encode_before before =
     map_option (\<lambda>(phase, position, kind, seq).
       rstrip_char (CHR ''='') (b64encode True (encode_ascii (compact (JList [JInt phase, JInt position, JInt kind, JInt seq])))))
       before"

definition service_decode_before :: "string option \<Rightarrow> entry_key option res" where
  "service_decode_before cursor =
     (let value = strip (coalesce cursor []) in
      if value = [] then Inr None
      else case rbind (urlsafe_b64decode (repad value)) (\<lambda>raw.
                rbind (json_loads_bytes raw) (\<lambda>loaded.
                rbind (iterate loaded) (\<lambda>items.
                case items of
                  [phase, position, kind, seq] \<Rightarrow>
                    rbind (py_int phase) (\<lambda>p. rbind (py_int position) (\<lambda>q. rbind (py_int kind) (\<lambda>k.
                    rbind (py_int seq) (\<lambda>n. Inr (Some (p, q, k, n))))))
                | _ \<Rightarrow> Inl ValueError))) of
        Inl e \<Rightarrow> Inl (APIError ''INVALID_REQUEST'' 400)
      | Inr key \<Rightarrow> Inr key)"

definition HISTORY_PAGE_LIMIT :: int where
  "HISTORY_PAGE_LIMIT = 100"

text \<open>Each input's files as history names them, without their bytes.\<close>

definition described_for_inputs :: "string \<Rightarrow> string list \<Rightarrow> db \<Rightarrow> string \<Rightarrow> attachment_row list" where
  "described_for_inputs sid iids db iid =
     (if iid \<in> set iids then map (\<lambda>a. a\<lparr>at_data := []\<rparr>) (attachments_for_input sid iid db) else [])"

record service_history =
  sh_messages :: "ui_message list"
  sh_has_more :: bool
  sh_before :: "string option"
  sh_output_seq :: int

definition history_for :: "string \<Rightarrow> string option \<Rightarrow> int \<Rightarrow> db \<times> folds \<Rightarrow> service_history res \<times> db \<times> folds" where
  "history_for sid before limit w =
     (case w of (db, st) \<Rightarrow>
        let output_seq = fst (resume_point sid db) in
        case service_decode_before before of
          Inl e \<Rightarrow> (Inl e, db, st)
        | Inr key \<Rightarrow>
            (case history_page sid key (nat (max 1 (min limit HISTORY_PAGE_LIMIT))) (Some output_seq) db of
               (Inl e, db') \<Rightarrow> (Inl e, db', st)
             | (Inr page, db') \<Rightarrow>
                 (case messages sid (hp_responses page) (Some output_seq) db' st of
                    (Inl e, st') \<Rightarrow> (Inl e, db', st')
                  | (Inr folded, st') \<Rightarrow>
                      (rbind (history_messages page (described_for_inputs sid (map i_input_id (hp_inputs page)) db') folded
                                (response_interactions sid (map r_response_id (hp_responses page)) db')) (\<lambda>ms.
                         Inr \<lparr>sh_messages = ms, sh_has_more = hp_has_more page,
                              sh_before = service_encode_before (hp_before page), sh_output_seq = output_seq\<rparr>), db', st'))))"

definition history :: "gates \<Rightarrow> string \<Rightarrow> string \<Rightarrow> string option \<Rightarrow> int \<Rightarrow> db \<times> folds \<Rightarrow>
    service_history res \<times> db \<times> folds" where
  "history g user sid before limit w =
     (case require_owner g user sid False (fst w) of
        Inl e \<Rightarrow> (Inl e, w)
      | Inr _ \<Rightarrow> history_for sid before limit w)"


section \<open>Lemmas: messages\<close>

lemma accept_input_returns:
  assumes "accept_input sid iid cmid content blocks owner author source atts att_owner now utcnow db =
    (Inr (Some (row, created)), db')"
  shows "row \<in> set (t_inputs db') \<and> same_client_message sid cmid row"
proof (cases created)
  case True
  with assms obtain bound where
    row: "row = new_input sid iid cmid content blocks author source (t_next_input_seq db) now"
    and db': "db' = accepted_db sid row bound now db"
    by (auto elim!: accept_input_created)
  then show ?thesis by (simp add: accepted_db_def notify_def new_input_def same_client_message_def)
next
  case False
  with assms have "existing_input sid cmid owner db' = Some row"
    by (auto simp: accept_input_def split: prod.splits sum.splits option.splits)
  then have "first_row (same_client_message sid cmid) (t_inputs db') = Some row"
    by (simp add: existing_input_def split: if_splits)
  then show ?thesis by (auto dest: first_row_Some)
qed

lemma accept_message_returns:
  assumes "accept_message g sid m iid now utcnow w = (Inr view, w')"
  obtains row where "row \<in> set (t_inputs (sw_db w'))" "same_client_message sid (message_key m iid) row"
    "acv_input_id view = i_input_id row"
  using assms
  by (auto simp: accept_message_def accept_view_of_def Let_def dest!: accept_input_returns split: prod.splits sum.splits option.splits)

text \<open>A message is refused before anything is written.\<close>

lemma accept_input_refused:
  assumes "accept_input sid iid cmid content blocks owner author source atts att_owner now utcnow db = (res, db')"
    and "\<forall>row created. res \<noteq> Inr (Some (row, created))"
  shows "db' = db"
  using assms
  by (auto simp: accept_input_def accept_work_def transaction_def rbind_def Let_def split: sum.splits option.splits if_splits prod.splits)

lemma accept_message_refused: "accept_message g sid m iid now utcnow w = (Inl e, w') \<Longrightarrow> w' = w"
  by (auto simp: accept_message_def dest: accept_input_refused split: sum.splits prod.splits option.splits)

text \<open>A client message stays the one row it was accepted as.\<close>

lemma client_message_stays:
  assumes "store_kept db db'" and "row \<in> set (t_inputs db)" and "same_client_message sid cmid row"
  obtains row' where "filter (same_client_message sid cmid) (t_inputs db') = [row']" "i_input_id row' = i_input_id row"
proof -
  from assms(1) have keys: "distinct (map input_key (t_inputs db'))"
    and grows: "grows (input_step UNIV) (\<lambda>i. i_session_id i \<in> UNIV) (t_inputs db) (t_inputs db')"
    by (auto simp: store_kept_def evolves_def keys_ok_def)
  from grows assms(2) obtain row' where row': "row' \<in> set (t_inputs db')" "input_step UNIV row row'" by (rule grows_mem)
  then have same: "same_client_message sid cmid row'" "i_input_id row' = i_input_id row"
    using assms(3) by (auto simp: input_step_def same_client_message_def)
  have "same_client_message sid cmid = (\<lambda>i. input_key i = (sid, cmid) \<and> True)"
    by (auto simp: same_client_message_def input_key_def)
  moreover have "filter (\<lambda>i. input_key i = (sid, cmid) \<and> True) (t_inputs db') = [row']"
    using row'(1) same(1) by (intro filter_unique [OF keys]) (auto simp: same_client_message_def input_key_def)
  ultimately show thesis using that same(2) by simp
qed

lemma filter_first_row: "filter p rows = [r] \<Longrightarrow> first_row p rows = Some r \<and> exists_row p rows"
  by (induction rows) (auto simp: first_row_def exists_row_def split: if_splits)

lemma keys_ok_accept_message:
  assumes "keys_ok (sw_db w)" and "accept_message g sid m iid now utcnow w = (res, w')"
  shows "keys_ok (sw_db w')"
  using assms keys_ok_accept_input [OF assms(1)]
  by (auto simp: accept_message_def split: sum.splits prod.splits option.splits) (metis snd_conv)+

text \<open>The session still takes the message: nothing but its being known stops it.\<close>

definition lets_through :: "gates \<Rightarrow> string \<Rightarrow> message \<Rightarrow> db \<Rightarrow> bool" where
  "lets_through g sid m db \<longleftrightarrow>
     exists_row (\<lambda>s. s_session_id s = sid \<and> accepting db (me_owner_user_id m) s) (t_sessions db) \<and>
     ga_access g = None \<and> ga_admission g = None \<and>
     (case sender_session sid (me_owner_user_id m) db of
        None \<Rightarrow> False
      | Some s \<Rightarrow> require_environment_ownership (ga_environment g) s = Inr () \<and>
          require_content_types (s_engine_capabilities s) (me_content_blocks m) = Inr ())"

lemma retry_prepared:
  assumes "lets_through g sid m db" and "me_attachments m = [] \<or> retried sid m db"
  shows "prepare_message g sid m iid utcnow db = Inr ([], me_content m, me_content_blocks m)"
  using assms by (auto simp: lets_through_def prepare_message_def passes_def Let_def split: option.splits)

section \<open>Lemmas: answers\<close>

lemma resolve_defined:
  assumes "validate_interaction_response contract ans = Inr ()"
  shows "\<exists>mode. resolve_interaction_permission_mode contract ans = Inr mode"
  using assms
  by (auto simp: validate_interaction_response_def resolve_interaction_permission_mode_def rbind_Inr_iff Let_def
      presentation_defs split: if_splits)

lemma permission_mode_interactions: "t_interactions (snd (set_permission_mode sid mode db)) = t_interactions db"
  by (simp add: set_permission_mode_def Let_def notify_def)

lemma keys_ok_permission_mode: "keys_ok db \<Longrightarrow> keys_ok (snd (set_permission_mode sid mode db))"
  by (auto simp: set_permission_mode_def Let_def intro!: keys_ok_update_sessions)

text \<open>Either nothing is written or the answer is stored, and then its mode is.\<close>

lemma answer_cases:
  obtains (refused) e where "answer g user sid xid ans now db = (Inl e, db)"
  | (taken) db1 db' where "answer g user sid xid ans now db = (Inr (), db')"
      "request_answer sid xid ans user now db = (True, db1)" "t_interactions db' = t_interactions db1"
      "keys_ok db1 \<Longrightarrow> keys_ok db'"
proof (cases "rbind (require_owner g user sid True db) (\<lambda>_. answerable sid xid ans db)")
  case (Inl e)
  with refused show thesis by (simp add: answer_def)
next
  case (Inr contract)
  then have "validate_interaction_response contract ans = Inr ()"
    by (auto simp: rbind_Inr_iff answerable_def split: option.splits)
  then obtain mode where mode: "resolve_interaction_permission_mode contract ans = Inr mode" using resolve_defined by blast
  obtain stored db1 where req: "request_answer sid xid ans user now db = (stored, db1)" by fastforce
  show thesis
  proof (cases stored)
    case True
    let ?db' = "if coalesce mode [] \<noteq> [] then snd (set_permission_mode sid (the mode) db1) else db1"
    have "answer g user sid xid ans now db = (Inr (), ?db')" using Inr mode req True by (simp add: answer_def)
    moreover have "t_interactions ?db' = t_interactions db1" by (simp add: permission_mode_interactions)
    ultimately show thesis using True req keys_ok_permission_mode taken by (metis (full_types))
  next
    case False
    then have "db1 = db" using req by (auto simp: request_answer_def split: if_splits)
    with False Inr req refused show thesis by (simp add: answer_def)
  qed
qed

lemma answered_refused:
  assumes "keys_ok db" and "x \<in> set (t_interactions db)" and "of_interaction sid xid x" and "x_answer x \<noteq> None"
  shows "\<exists>e. answer g user sid xid ans now db = (Inl e, db)"
proof -
  have "first_row (of_interaction sid xid) (t_interactions db) = Some x"
  proof -
    have "of_interaction sid xid = (\<lambda>x. interaction_key x = (sid, xid))"
      by (auto simp: of_interaction_def interaction_key_def)
    then show ?thesis
      using first_row_unique [OF keys_ok_interactions [OF assms(1)] assms(2), of "(sid, xid)"] assms(3)
      by (simp add: of_interaction_def interaction_key_def)
  qed
  with assms(4) have "\<exists>e. answerable sid xid ans db = Inl e"
    by (auto simp: answerable_def get_interaction_def)
  then show ?thesis by (cases "require_owner g user sid True db") (auto simp: answer_def)
qed


section \<open>Properties\<close>

text \<open>
  C8. A message is accepted once. When a message with a client message id was accepted, then
  whatever is written to the store in between, sending it again (under a new input id, with
  the same files or without) succeeds as long as the session takes messages at all, reports
  the input first accepted as a duplicate, writes nothing, and wakes the reader again; and
  the session holds exactly one input for it. The id is one without outer white space.
\<close>

theorem message_is_accepted_once:
  assumes "keys_ok (sw_db w)" and "accept_message g sid m iid now utcnow w = (Inr view, w1)"
    and "repo_runs (sw_db w1) db2" and "me_client_message_id m = Some cmid" and "strip cmid = cmid" and "cmid \<noteq> []"
    and "lets_through g2 sid m db2"
  shows "\<exists>view2. accept_message g2 sid m iid2 now2 utcnow2 \<lparr>sw_db = db2, sw_ensured = es\<rparr> =
      (Inr view2, \<lparr>sw_db = db2, sw_ensured = es @ [sid]\<rparr>) \<and>
    acv_input_id view2 = acv_input_id view \<and> acv_duplicate view2 \<and>
    length (filter (same_client_message sid cmid) (t_inputs db2)) = 1"
proof -
  have key: "message_key m i = cmid" for i using assms(4-6) by (simp add: message_key_def Let_def coalesce_def)
  from assms(2) obtain row where row: "row \<in> set (t_inputs (sw_db w1))" "same_client_message sid cmid row"
    "acv_input_id view = i_input_id row"
    by (auto elim!: accept_message_returns simp: key)
  from client_message_stays [OF repo_runs_kept [OF assms(3) keys_ok_accept_message [OF assms(1,2)]] row(1,2)] obtain row2 where
    row2: "filter (same_client_message sid cmid) (t_inputs db2) = [row2]" "i_input_id row2 = i_input_id row" .
  have first: "first_row (same_client_message sid cmid) (t_inputs db2) = Some row2"
    and known: "exists_row (same_client_message sid cmid) (t_inputs db2)"
    using filter_first_row [OF row2(1)] by simp_all
  have "retried sid m db2" using assms(4,6) first by (simp add: retried_def input_for_client_message_def)
  then have prepared: "prepare_message g2 sid m iid2 utcnow2 db2 = Inr ([], me_content m, me_content_blocks m)"
    using retry_prepared [OF assms(7)] by simp
  have "existing_input sid cmid (me_owner_user_id m) db2 = Some row2"
    using assms(7) first by (simp add: existing_input_def lets_through_def)
  then have "accept_message g2 sid m iid2 now2 utcnow2 \<lparr>sw_db = db2, sw_ensured = es\<rparr> =
      (Inr (accept_view_of sid (row2, False)), \<lparr>sw_db = db2, sw_ensured = es @ [sid]\<rparr>)"
    by (simp add: accept_message_def prepared key accept_input_repeat [OF known])
  then show ?thesis using row(3) row2 by (simp add: accept_view_of_def Let_def)
qed

text \<open>A message with a file, sent twice.\<close>

definition sample_gates :: gates where
  "sample_gates = \<lparr>ga_environment = ''prod'', ga_access = None, ga_admission = None, ga_prerequisite = None\<rparr>"

definition sample_message :: "string \<Rightarrow> message" where
  "sample_message cmid =
     \<lparr>me_content = ''hello'', me_content_blocks = None, me_client_message_id = Some cmid, me_owner_user_id = Some ''ann'',
      me_author_user_id = Some ''ann'', me_source = ''console'', me_attachments = [(''g'', ''file'')], me_attachment_scope = None\<rparr>"

definition sample_sw :: sworld where
  "sample_sw = \<lparr>sw_db = sample_db, sw_ensured = []\<rparr>"

definition sample_accepted :: sworld where
  "sample_accepted = snd (accept_message sample_gates ''s'' (sample_message ''m'') ''i'' 5 5 sample_sw)"

theorem message_is_accepted_once_witness:
  "\<exists>view2. accept_message sample_gates ''s'' (sample_message ''m'') ''j'' 7 7 \<lparr>sw_db = sw_db sample_accepted, sw_ensured = []\<rparr> =
      (Inr view2, \<lparr>sw_db = sw_db sample_accepted, sw_ensured = [''s'']\<rparr>) \<and>
    acv_input_id view2 = ''i'' \<and> acv_duplicate view2"
proof -
  obtain view where view: "fst (accept_message sample_gates ''s'' (sample_message ''m'') ''i'' 5 5 sample_sw) = Inr view"
    "acv_input_id view = ''i''"
  proof -
    have "(case fst (accept_message sample_gates ''s'' (sample_message ''m'') ''i'' 5 5 sample_sw) of
        Inl e \<Rightarrow> False | Inr view \<Rightarrow> acv_input_id view = ''i'')" by code_simp
    with that show thesis by (auto split: sum.splits)
  qed
  have keys: "keys_ok (sw_db sample_sw)" by (simp add: sample_sw_def)
  have through: "lets_through sample_gates ''s'' (sample_message ''m'') (sw_db sample_accepted)" by code_simp
  have sent: "accept_message sample_gates ''s'' (sample_message ''m'') ''i'' 5 5 sample_sw = (Inr view, sample_accepted)"
    using view(1) by (simp add: prod_eq_iff sample_accepted_def)
  have "me_client_message_id (sample_message ''m'') = Some ''m''" by (simp add: sample_message_def)
  moreover have "strip ''m'' = ''m''" by code_simp
  ultimately show ?thesis
    using message_is_accepted_once [OF keys sent rtranclp.rtrancl_refl _ _ _ through, of "''m''" "''j''" 7 7 "[]"] view(2)
    by auto
qed

text \<open>The files of an accepted message are no longer staged.\<close>

lemma bind_attachments_ids:
  assumes "rfold (bind_attachment sid iid owner utcnow) items rows = Inr rows'"
  shows "map at_attachment_id rows' = map at_attachment_id rows"
  using assms
proof (induction items arbitrary: rows)
  case (Cons item items)
  then obtain mid where "bind_attachment sid iid owner utcnow item rows = Inr mid"
    "rfold (bind_attachment sid iid owner utcnow) items mid = Inr rows'" by (auto simp: rbind_Inr_iff)
  moreover from this(1) have "map at_attachment_id mid = map at_attachment_id rows"
    by (auto simp: bind_attachment_def map_update_where split: prod.splits if_splits)
  ultimately show ?case using Cons.IH by metis
qed simp

lemma bound_not_staged:
  assumes "rfold (bind_attachment sid iid att_owner utcnow) (enumerate 0 atts) (t_attachments db) = Inr bound"
    and "distinct (map at_attachment_id (t_attachments db))" and "t_attachments db' = bound"
  shows "staged_attachments (map fst atts) owner scope utcnow' db' = []"
proof -
  have dist: "distinct (map at_attachment_id bound)" using bind_attachments_ids [OF assms(1)] assms(2) by simp
  have "at_session_id a \<noteq> None" if a: "a \<in> set bound" "at_attachment_id a \<in> set (map fst atts)" for a
  proof -
    from a(2) obtain k where k: "k < length atts" "at_attachment_id a = fst (atts ! k)" by (auto simp: in_set_conv_nth)
    from bind_attachments_bound [OF assms(1) k(1)] obtain b where "b \<in> set bound" "at_attachment_id b = fst (atts ! k)"
      "at_session_id b = Some sid" by blast
    with a(1) k(2) unique_row [OF dist] show ?thesis by (metis option.distinct(1))
  qed
  then show ?thesis by (auto simp: staged_attachments_def assms(3) filter_empty_conv)
qed

lemma accept_message_created:
  assumes "accept_message g sid m iid now utcnow w = (Inr view, w1)" and "\<not> acv_duplicate view" and "\<not> retried sid m (sw_db w)"
    and "me_attachments m \<noteq> []"
  obtains bound row where "acv_client_message_id view = message_key m iid" "i_client_message_id row = message_key m iid"
    "rfold (bind_attachment sid iid (orelse (me_owner_user_id m) (me_author_user_id m)) utcnow) (enumerate 0 (me_attachments m))
       (t_attachments (sw_db w)) = Inr bound"
    "sw_db w1 = accepted_db sid row bound now (sw_db w)"
    "length (me_attachments m) \<le> MAX_ATTACHMENTS" "distinct (map fst (me_attachments m))"
proof -
  from assms(1) obtain atts content blocks row created where
    prepared: "prepare_message g sid m iid utcnow (sw_db w) = Inr (atts, content, blocks)"
    and sent: "accept_input sid iid (message_key m iid) content blocks (me_owner_user_id m) (me_author_user_id m)
      (Some (me_source m)) atts (orelse (me_owner_user_id m) (me_author_user_id m)) now utcnow (sw_db w) =
        (Inr (Some (row, created)), sw_db w1)"
    and view: "view = accept_view_of sid (row, created)"
    by (auto simp: accept_message_def split: sum.splits prod.splits option.splits)
  have created: "created = True" using assms(2) by (simp add: view accept_view_of_def Let_def)
  have atts: "atts = me_attachments m"
    using prepared assms(3) by (auto simp: prepare_message_def rbind_Inr_iff Let_def split: option.splits if_splits)
  have limit: "length (me_attachments m) \<le> MAX_ATTACHMENTS" "distinct (map fst (me_attachments m))"
    using prepared assms(3,4)
    by (auto simp: prepare_message_def staged_for_def check_def rbind_Inr_iff Let_def split: option.splits if_splits)
  from sent [unfolded created atts] show thesis
  proof (rule accept_input_created)
    fix bound assume "rfold (bind_attachment sid iid (orelse (me_owner_user_id m) (me_author_user_id m)) utcnow)
        (enumerate 0 (me_attachments m)) (t_attachments (sw_db w)) = Inr bound"
      "row = new_input sid iid (message_key m iid) content blocks (me_author_user_id m) (Some (me_source m)) (t_next_input_seq (sw_db w)) now"
      "sw_db w1 = accepted_db sid row bound now (sw_db w)"
    with that [of row bound, OF _ _ _ _ limit] show thesis by (simp add: view accept_view_of_def Let_def new_input_def)
  qed
qed

text \<open>
  C40. With white space around its id a message with files is not accepted again. The known
  message is looked up under the id as it was sent, but stored under the id stripped. So when
  a message with files and such an id was accepted (as a new message, no input being stored
  under the padded id), the same message sent again is refused with
  \<^verbatim>\<open>INPUT_ATTACHMENT_UNAVAILABLE\<close>, its files being already sent, and writes nothing, although the
  session still lets it through.
\<close>

theorem padded_retry_is_refused:
  assumes "accept_message g sid m iid now utcnow w = (Inr view, w1)" and "\<not> acv_duplicate view"
    and "me_attachments m \<noteq> []" and "me_client_message_id m = Some cmid" and "strip cmid \<noteq> cmid" and "strip cmid \<noteq> []"
    and "\<not> exists_row (same_client_message sid cmid) (t_inputs (sw_db w))"
    and "distinct (map at_attachment_id (t_attachments (sw_db w)))"
    and "lets_through g2 sid m (sw_db w1)"
  shows "acv_client_message_id view = strip cmid \<and>
    accept_message g2 sid m iid2 now2 utcnow2 w1 = (Inl (APIError ''INPUT_ATTACHMENT_UNAVAILABLE'' 409), w1)"
proof -
  have key: "message_key m i = strip cmid" for i using assms(4,6) by (simp add: message_key_def Let_def coalesce_def)
  have unknown: "\<not> exists_row (same_client_message sid cmid) rows \<Longrightarrow> first_row (same_client_message sid cmid) rows = None" for rows
    by (auto simp: first_row_None_iff exists_row_iff)
  have "\<not> retried sid m (sw_db w)"
    using assms(4,7) by (simp add: retried_def input_for_client_message_def unknown)
  from accept_message_created [OF assms(1,2) this assms(3), unfolded key] obtain bound row where
    view: "acv_client_message_id view = strip cmid" and row: "i_client_message_id row = strip cmid"
    and bound: "rfold (bind_attachment sid iid (orelse (me_owner_user_id m) (me_author_user_id m)) utcnow)
      (enumerate 0 (me_attachments m)) (t_attachments (sw_db w)) = Inr bound"
    and db1: "sw_db w1 = accepted_db sid row bound now (sw_db w)"
    and limit: "length (me_attachments m) \<le> MAX_ATTACHMENTS" "distinct (map fst (me_attachments m))" .
  have "\<not> exists_row (same_client_message sid cmid) (t_inputs (sw_db w1))"
    using assms(5,7) row by (auto simp: db1 accepted_db_def notify_def exists_row_iff same_client_message_def)
  then have again: "\<not> retried sid m (sw_db w1)"
    using assms(4) by (simp add: retried_def input_for_client_message_def unknown)
  have "t_attachments (sw_db w1) = bound" by (simp add: db1 accepted_db_def notify_def)
  from bound_not_staged [OF bound assms(8) this] have "staged_for m utcnow2 (sw_db w1) = Inl (APIError ''INPUT_ATTACHMENT_UNAVAILABLE'' 409)"
    using assms(3) limit by (simp add: staged_for_def check_def Let_def)
  with assms(3,9) again have "prepare_message g2 sid m iid2 utcnow2 (sw_db w1) = Inl (APIError ''INPUT_ATTACHMENT_UNAVAILABLE'' 409)"
    by (auto simp: lets_through_def prepare_message_def passes_def Let_def split: option.splits)
  then show ?thesis using view by (simp add: accept_message_def)
qed

theorem padded_retry_is_refused_witness:
  "fst (accept_message sample_gates ''s'' (sample_message ''m '') ''j'' 7 7
      (snd (accept_message sample_gates ''s'' (sample_message ''m '') ''i'' 5 5 sample_sw))) =
    Inl (APIError ''INPUT_ATTACHMENT_UNAVAILABLE'' 409)"
proof -
  let ?r = "accept_message sample_gates ''s'' (sample_message ''m '') ''i'' 5 5 sample_sw"
  have "(case fst ?r of Inl e \<Rightarrow> False | Inr view \<Rightarrow> \<not> acv_duplicate view)" by code_simp
  then obtain view where view: "?r = (Inr view, snd ?r)" "\<not> acv_duplicate view" by (cases ?r) (auto split: sum.splits)
  have m: "me_attachments (sample_message ''m '') \<noteq> []" "me_client_message_id (sample_message ''m '') = Some ''m ''"
    by (simp_all add: sample_message_def)
  have "strip ''m '' \<noteq> ''m ''" "strip ''m '' \<noteq> []" "\<not> exists_row (same_client_message ''s'' ''m '') (t_inputs (sw_db sample_sw))"
    "distinct (map at_attachment_id (t_attachments (sw_db sample_sw)))"
    "lets_through sample_gates ''s'' (sample_message ''m '') (sw_db (snd ?r))" by code_simp+
  from padded_retry_is_refused [OF view m this, of "''j''" 7 7] show ?thesis by simp
qed

text \<open>
  C19. An answer is taken once. \<^verbatim>\<open>answer\<close> either refuses and writes nothing, or the answer waits for
  the reader under the name of who gave it; then, whatever is written to the store later, it
  stays the interaction's answer and every further one, by whomever, is refused and writes
  nothing.
\<close>

theorem answer_is_taken_once:
  assumes "keys_ok db"
  shows "case answer g user sid xid ans now db of
      (Inl e, db') \<Rightarrow> db' = db
    | (Inr _, db') \<Rightarrow>
        (\<exists>x \<in> set (pending_answers sid db'). of_interaction sid xid x \<and> x_answer x = Some ans \<and> x_answered_by x = Some user) \<and>
        (\<forall>db2. repo_runs db' db2 \<longrightarrow>
           (\<exists>x \<in> set (t_interactions db2). of_interaction sid xid x \<and> x_answer x = Some ans) \<and>
           (\<forall>g2 user2 ans2 now2. \<exists>e. answer g2 user2 sid xid ans2 now2 db2 = (Inl e, db2)))"
proof (cases rule: answer_cases [of g user sid xid ans now db])
  case (refused e)
  then show ?thesis by simp
next
  case (taken db1 db')
  have "pending_answers sid db' = pending_answers sid db1" by (simp add: pending_answers_def taken(3))
  moreover have "keys_ok db1" using keys_ok_request_answer [OF assms, of sid xid ans user now] by (simp add: taken(2))
  then have keys: "keys_ok db'" by (rule taken(4))
  moreover note one_answer_per_interaction [OF assms taken(2), of ans user now]
  ultimately obtain x where
    x: "x \<in> set (pending_answers sid db')" "of_interaction sid xid x" "x_answer x = Some ans" "x_answered_by x = Some user"
    by auto
  have kept: "store_kept db' db2" if "repo_runs db' db2" for db2 using that keys by (rule repo_runs_kept)
  have stays: "\<exists>y \<in> set (t_interactions db2). of_interaction sid xid y \<and> x_answer y = Some ans" if "store_kept db' db2" for db2
  proof -
    have "grows (interaction_step UNIV) (\<lambda>x. x_session_id x \<in> UNIV) (t_interactions db') (t_interactions db2)"
      using that by (simp add: store_kept_def evolves_def)
    moreover have "x \<in> set (t_interactions db')" using x(1) by (simp add: pending_answers_def)
    ultimately obtain y where "y \<in> set (t_interactions db2)" "interaction_step UNIV x y" by (rule grows_mem)
    then show ?thesis using x(2,3) by (intro bexI [of _ y]) (auto simp: interaction_step_def of_interaction_def)
  qed
  have "\<exists>e. answer g2 user2 sid xid ans2 now2 db2 = (Inl e, db2)" if "store_kept db' db2" for g2 user2 ans2 now2 db2
    using stays [OF that] answered_refused [of db2] that by (auto simp: store_kept_def)
  with stays kept x taken(1) show ?thesis by auto
qed

theorem answer_is_taken_once_witness:
  "\<exists>e. answer sample_gates ''ann'' ''s'' ''x'' [(''decision'', JStr ''a'')] 23
      (snd (answer sample_gates ''ann'' ''s'' ''x'' [(''decision'', JStr ''b'')] 22
        (open_interaction 20 ''s'' ''r'' ''x'' (sample_decision [''a'', ''b'']) sample_recorded))) =
    (Inl e, snd (answer sample_gates ''ann'' ''s'' ''x'' [(''decision'', JStr ''b'')] 22
        (open_interaction 20 ''s'' ''r'' ''x'' (sample_decision [''a'', ''b'']) sample_recorded)))"
proof -
  let ?db = "open_interaction 20 ''s'' ''r'' ''x'' (sample_decision [''a'', ''b'']) sample_recorded"
  let ?r = "answer sample_gates ''ann'' ''s'' ''x'' [(''decision'', JStr ''b'')] 22 ?db"
  have "keys_ok ?db" by (simp add: keys_ok_open_interaction)
  note once = answer_is_taken_once [OF this, where g = sample_gates and user = "''ann''" and sid = "''s''" and xid = "''x''"
      and ans = "[(''decision'', JStr ''b'')]" and now = 22]
  have "fst ?r = Inr ()" by code_simp
  then show ?thesis using once by (cases ?r) (auto dest!: spec [of _ "snd ?r"])
qed

end
