(* ===== verification/MessageBlocks.thy ===== *)
theory MessageBlocks
  imports Codec "HOL-Library.Sublist"
begin

text \<open>
  The blocks of a message an engine reports in fragments: \<^verbatim>\<open>message_blocks.py\<close> with the terminal
  states of tool results, \<^verbatim>\<open>tool_result_semantics.py\<close>. A block is a JSON object. Two blocks are the
  same text when their serializations with sorted keys agree; a tool call, a tool result and a
  few others have an identity of their own (\<open>stable_block_key\<close>).
\<close>

section \<open>Tool results\<close>

definition TOOL_RESULT_STATE_AVAILABLE :: string where
  "TOOL_RESULT_STATE_AVAILABLE = ''output-available''"

definition TOOL_RESULT_STATE_ERROR :: string where
  "TOOL_RESULT_STATE_ERROR = ''output-error''"

definition TOOL_RESULT_STATE_DENIED :: string where
  "TOOL_RESULT_STATE_DENIED = ''output-denied''"

definition TOOL_RESULT_STATES :: "string list" where
  "TOOL_RESULT_STATES = [TOOL_RESULT_STATE_AVAILABLE, TOOL_RESULT_STATE_ERROR, TOOL_RESULT_STATE_DENIED]"

definition denied_markers :: "string list" where
  "denied_markers =
     [''the user doesn't want to proceed with this tool use'', ''user rejected claude's plan'',
      ''user declined to answer questions'', ''do not exit plan mode yet'', ''user interrupted the session'']"

text \<open>\<^verbatim>\<open>sub in s\<close> on strings.\<close>

fun contains_str :: "string \<Rightarrow> string \<Rightarrow> bool" where
  "contains_str sub [] = (sub = [])"
| "contains_str sub (c # s) = (startswith sub (c # s) \<or> contains_str sub s)"

definition tool_result_state_from_content :: "json \<Rightarrow> bool \<Rightarrow> string" where
  "tool_result_state_from_content content is_error =
     (if \<not> is_error then TOOL_RESULT_STATE_AVAILABLE
      else let normalized = lower (strip (str_or content)) in
        if list_ex (\<lambda>marker. contains_str marker normalized) denied_markers then TOOL_RESULT_STATE_DENIED
        else TOOL_RESULT_STATE_ERROR)"

definition block_type :: "obj \<Rightarrow> string" where
  "block_type block = strip (str_or (get block ''type''))"

definition normalize_tool_result_block :: "obj \<Rightarrow> obj" where
  "normalize_tool_result_block block =
     (if block_type block \<noteq> ''tool_result'' then block
      else
        let raw_state = strip (str_or (get block ''tool_result_state''));
            state = (if raw_state \<in> set TOOL_RESULT_STATES then raw_state
                     else tool_result_state_from_content (get block ''content'') (get block ''is_error'' = JBool True))
        in dict_set ''is_error'' (JBool (state \<noteq> TOOL_RESULT_STATE_AVAILABLE))
             (dict_set ''tool_result_state'' (JStr state) block))"

definition tool_result_block :: "string \<Rightarrow> json \<Rightarrow> string option \<Rightarrow> bool option \<Rightarrow> obj" where
  "tool_result_block tool_call_id content given is_error =
     (let asked = strip (case given of None \<Rightarrow> [] | Some s \<Rightarrow> s);
          state = (if asked \<in> set TOOL_RESULT_STATES then asked
                   else tool_result_state_from_content content (is_error = Some True));
          words = (if is_obj content \<or> is_list content then dumps '', '' '': '' False content else str_or content)
      in [(''type'', JStr ''tool_result''), (''tool_use_id'', JStr tool_call_id), (''content'', JStr words),
          (''is_error'', JBool (state \<noteq> TOOL_RESULT_STATE_AVAILABLE)), (''tool_result_state'', JStr state)])"

section \<open>Normal form and signature\<close>

fun normalize_item :: "json \<Rightarrow> obj list" where
  "normalize_item (JObj block) =
     [if block_type block = ''tool_result'' then normalize_tool_result_block block else block]"
| "normalize_item _ = []"

definition normalize_message_blocks :: "json \<Rightarrow> obj list" where
  "normalize_message_blocks v = concat (map normalize_item (jitems v))"

text \<open>\<^verbatim>\<open>json.dumps(.., sort_keys=True)\<close>: every dictionary prints its keys in the order of their code points.\<close>

fun str_le :: "string \<Rightarrow> string \<Rightarrow> bool" where
  "str_le [] t = True"
| "str_le (c # s) [] = False"
| "str_le (c # s) (d # t) =
     ((of_char c :: nat) < of_char d \<or> c = d \<and> str_le s t)"

fun insert_field :: "string \<times> json \<Rightarrow> obj \<Rightarrow> obj" where
  "insert_field kv [] = [kv]"
| "insert_field kv (kw # d) = (if str_le (fst kv) (fst kw) then kv # kw # d else kw # insert_field kv d)"

fun sort_keys :: "json \<Rightarrow> json" where
  "sort_keys (JList xs) = JList (map sort_keys xs)"
| "sort_keys (JObj d) = JObj (foldr insert_field (map (\<lambda>kv. (fst kv, sort_keys (snd kv))) d) [])"
| "sort_keys v = v"

definition block_signature :: "obj \<Rightarrow> string" where
  "block_signature block = dumps '','' '':'' False (sort_keys (JObj block))"

section \<open>Merging by content\<close>

definition occurs_in :: "'a list \<Rightarrow> 'a list \<Rightarrow> bool" where
  "occurs_in new old =
     (length new \<le> length old \<and>
      list_ex (\<lambda>start. take (length new) (drop start old) = new) [0..<Suc (length old - length new)])"

definition overlap :: "'a list \<Rightarrow> 'a list \<Rightarrow> nat" where
  "overlap old new =
     (case List.find (\<lambda>n. drop (length old - n) old = take n new) (rev [1..<Suc (min (length old) (length new))]) of
        None \<Rightarrow> 0 | Some n \<Rightarrow> n)"

definition as_blocks :: "obj list \<Rightarrow> json" where
  "as_blocks blocks = JList (map JObj blocks)"

definition merge_message_blocks :: "json \<Rightarrow> json \<Rightarrow> obj list" where
  "merge_message_blocks existing incoming =
     (let merged = normalize_message_blocks existing; new_blocks = normalize_message_blocks incoming in
      if new_blocks = [] then merged
      else if merged = [] then new_blocks
      else
        let merged_signatures = map block_signature merged; new_signatures = map block_signature new_blocks in
        if occurs_in new_signatures merged_signatures then merged
        else merged @ drop (overlap merged_signatures new_signatures) new_blocks)"

section \<open>Merging by identity\<close>

definition ui_data_block_key :: "obj \<Rightarrow> (string \<times> string) option" where
  "ui_data_block_key block =
     (if block_type block \<noteq> ''ui_data'' \<or> \<not> is_obj (get block ''part'') then None
      else
        let part = jfields (get block ''part''); kind = block_type part; ident = strip (str_or (get part ''id'')) in
        if startswith ''data-'' kind \<and> ident \<noteq> []
        then Some (''ui_data'', dumps '','' '':'' False (JList [JStr kind, JStr ident]))
        else None)"

definition keyed_by :: "string \<Rightarrow> obj \<Rightarrow> string \<Rightarrow> (string \<times> string) option" where
  "keyed_by kind block field =
     (let ident = strip (str_or (get block field)) in if ident = [] then None else Some (kind, ident))"

definition stable_block_key :: "obj \<Rightarrow> (string \<times> string) option" where
  "stable_block_key block =
     (let kind = block_type block in
      if kind = ''tool_use'' then keyed_by kind block ''id''
      else if kind = ''tool_result'' then keyed_by kind block ''tool_use_id''
      else if kind = ''result'' then Some (kind, ''__single__'')
      else if kind = ''api_retry'' then Some (kind, ''__single__'')
      else if kind = ''ui_data'' then ui_data_block_key block
      else if kind = ''raw_event'' then keyed_by kind block ''subtype''
      else None)"

definition merge_tool_use_block :: "obj \<Rightarrow> obj \<Rightarrow> obj" where
  "merge_tool_use_block existing incoming =
     (let merged = dict_update existing incoming;
          existing_name = strip (str_or (get existing ''name''));
          incoming_name = strip (str_or (get incoming ''name''));
          named = (if incoming_name = [] \<and> existing_name \<noteq> []
                   then dict_set ''name'' (JStr existing_name) merged else merged);
          existing_input = jfields (get existing ''input''); incoming_input = jfields (get incoming ''input'')
      in dict_set ''input'' (JObj (if incoming_input \<noteq> [] then incoming_input else existing_input)) named)"

definition merge_tool_result_block :: "obj \<Rightarrow> obj \<Rightarrow> obj" where
  "merge_tool_result_block existing incoming =
     (let merged = dict_update existing incoming;
          incoming_content = str_or (get incoming ''content''); existing_content = str_or (get existing ''content'');
          filled = dict_set ''content'' (JStr (if incoming_content \<noteq> [] then incoming_content else existing_content)) merged;
          flagged = (if \<not> has_key incoming ''is_error'' \<and> has_key existing ''is_error''
                     then dict_set ''is_error'' (get existing ''is_error'') filled else filled)
      in normalize_tool_result_block flagged)"

definition is_empty_value :: "json \<Rightarrow> bool" where
  "is_empty_value v = (v = JNull \<or> v = JStr [] \<or> v = JObj [] \<or> v = JList [])"

definition take_result_field :: "string \<times> json \<Rightarrow> obj \<Rightarrow> obj" where
  "take_result_field kv merged =
     (if fst kv = ''type'' then dict_set (fst kv) (snd kv) merged
      else if is_empty_value (snd kv)
      then (if has_key merged (fst kv) then merged else dict_set (fst kv) (snd kv) merged)
      else dict_set (fst kv) (snd kv) merged)"

definition merge_result_block :: "obj \<Rightarrow> obj \<Rightarrow> obj" where
  "merge_result_block existing incoming = fold take_result_field incoming existing"

definition merge_block :: "string \<Rightarrow> obj \<Rightarrow> obj \<Rightarrow> obj" where
  "merge_block kind existing incoming =
     (if kind = ''tool_use'' then merge_tool_use_block existing incoming
      else if kind = ''tool_result'' then merge_tool_result_block existing incoming
      else merge_result_block existing incoming)"

text \<open>The later of two blocks with one identity is the one the dictionary comprehension keeps.\<close>

definition existing_by_key :: "obj list \<Rightarrow> (string \<times> string, obj) dict" where
  "existing_by_key merged =
     dict_update [] (List.map_filter (\<lambda>block. map_option (\<lambda>key. (key, block)) (stable_block_key block)) merged)"

definition resolve_incoming :: "(string \<times> string, obj) dict \<Rightarrow> obj \<Rightarrow> obj" where
  "resolve_incoming known block =
     (case stable_block_key block of
        None \<Rightarrow> block
      | Some key \<Rightarrow> (case map_of known key of None \<Rightarrow> block | Some existing \<Rightarrow> merge_block (fst key) existing block))"

fun index_of :: "('a \<Rightarrow> bool) \<Rightarrow> 'a list \<Rightarrow> nat option" where
  "index_of p [] = None"
| "index_of p (x # xs) = (if p x then Some 0 else map_option Suc (index_of p xs))"

definition merge_projected_message_blocks :: "json \<Rightarrow> json \<Rightarrow> obj list" where
  "merge_projected_message_blocks existing incoming =
     (let merged = normalize_message_blocks existing; new_blocks = normalize_message_blocks incoming in
      if new_blocks = [] then merged
      else if merged = [] then new_blocks
      else
        let single = (if length new_blocks = 1 then stable_block_key (hd new_blocks) else None);
            found = (if single = None then None else index_of (\<lambda>block. stable_block_key block = single) merged);
            resolved = map (resolve_incoming (existing_by_key merged)) new_blocks;
            incoming_keys = List.map_filter stable_block_key new_blocks;
            filtered = filter (\<lambda>block. case stable_block_key block of None \<Rightarrow> True | Some key \<Rightarrow> key \<notin> set incoming_keys) merged
        in case (single, found) of
             (Some key, Some i) \<Rightarrow> merged[i := merge_block (fst key) (merged ! i) (hd new_blocks)]
           | _ \<Rightarrow> merge_message_blocks (as_blocks filtered) (as_blocks resolved))"

section \<open>Removing duplicates\<close>

record dedup =
  dd_tool_uses :: "string list"
  dd_tool_results :: "string list"
  dd_result_seen :: bool
  dd_blocks :: "obj list"

definition deduplicate_block :: "obj \<Rightarrow> dedup \<Rightarrow> dedup" where
  "deduplicate_block block st =
     (let kind = block_type block; kept = st\<lparr>dd_blocks := dd_blocks st @ [block]\<rparr> in
      if kind = ''result'' then (if dd_result_seen st then st else kept\<lparr>dd_result_seen := True\<rparr>)
      else if kind = ''tool_use'' then
        (let ident = strip (str_or (get block ''id'')) in
         if ident = [] then kept
         else if ident \<in> set (dd_tool_uses st) then st
         else kept\<lparr>dd_tool_uses := ident # dd_tool_uses st\<rparr>)
      else if kind = ''tool_result'' then
        (let ident = strip (str_or (get block ''tool_use_id'')) in
         if ident = [] then kept
         else if ident \<in> set (dd_tool_results st) then st
         else kept\<lparr>dd_tool_results := ident # dd_tool_results st\<rparr>)
      else kept)"

definition deduplicate_message_blocks :: "obj list \<Rightarrow> obj list" where
  "deduplicate_message_blocks blocks =
     dd_blocks (fold deduplicate_block blocks
       \<lparr>dd_tool_uses = [], dd_tool_results = [], dd_result_seen = False, dd_blocks = []\<rparr>)"

section \<open>A repeated fragment is absorbed\<close>

lemma state_stripped: "s \<in> set TOOL_RESULT_STATES \<Longrightarrow> strip s = s"
proof -
  have "list_all (\<lambda>s. strip s = s) TOOL_RESULT_STATES" by code_simp
  then show "s \<in> set TOOL_RESULT_STATES \<Longrightarrow> strip s = s" by (simp add: list_all_iff)
qed

lemma state_from_content: "tool_result_state_from_content c e \<in> set TOOL_RESULT_STATES"
  by (simp add: tool_result_state_from_content_def TOOL_RESULT_STATES_def Let_def)

lemma normalize_tool_result_type [simp]:
  "block_type (normalize_tool_result_block b) = block_type b"
  by (simp add: normalize_tool_result_block_def block_type_def Let_def)

lemma normalize_tool_result_idem [simp]:
  "normalize_tool_result_block (normalize_tool_result_block b) = normalize_tool_result_block b"
proof (cases "block_type b = ''tool_result''")
  case False
  then show ?thesis by (simp add: normalize_tool_result_block_def)
next
  case True
  define raw where "raw = strip (str_or (get b ''tool_result_state''))"
  define s where "s = (if raw \<in> set TOOL_RESULT_STATES then raw
    else tool_result_state_from_content (get b ''content'') (get b ''is_error'' = JBool True))"
  define b1 where "b1 = dict_set ''tool_result_state'' (JStr s) b"
  define b2 where "b2 = dict_set ''is_error'' (JBool (s \<noteq> TOOL_RESULT_STATE_AVAILABLE)) b1"
  from True have n: "normalize_tool_result_block b = b2"
    by (simp add: normalize_tool_result_block_def raw_def s_def b1_def b2_def Let_def)
  have s: "s \<in> set TOOL_RESULT_STATES" by (simp add: s_def state_from_content)
  from True n have t: "block_type b2 = ''tool_result''" using normalize_tool_result_type [of b] by simp
  have g: "get b2 ''tool_result_state'' = JStr s" by (simp add: b2_def b1_def)
  have "map_of b2 ''tool_result_state'' = Some (JStr s)" by (simp add: b2_def b1_def dict_get_set)
  then have "dict_set ''tool_result_state'' (JStr s) b2 = b2" by (rule dict_set_same)
  moreover have "dict_set ''is_error'' (JBool (s \<noteq> TOOL_RESULT_STATE_AVAILABLE)) b2 = b2"
    by (rule dict_set_same) (simp add: b2_def)
  ultimately have "normalize_tool_result_block b2 = b2"
    using t g s state_stripped [OF s] by (simp add: normalize_tool_result_block_def Let_def)
  with n show ?thesis by simp
qed

definition block_normal :: "obj \<Rightarrow> bool" where
  "block_normal b \<longleftrightarrow> normalize_item (JObj b) = [b]"

lemma normalize_item_idem: "b \<in> set (normalize_item v) \<Longrightarrow> block_normal b"
  by (cases v) (auto simp: block_normal_def split: if_splits)

lemma normalize_as_blocks:
  "(\<And>b. b \<in> set bs \<Longrightarrow> block_normal b) \<Longrightarrow> normalize_message_blocks (as_blocks bs) = bs"
proof (induction bs)
  case Nil
  then show ?case by (simp add: normalize_message_blocks_def as_blocks_def)
next
  case (Cons b bs)
  then have "normalize_item (JObj b) = [b]" "normalize_message_blocks (as_blocks bs) = bs" by (simp_all add: block_normal_def)
  then show ?case by (simp only: normalize_message_blocks_def as_blocks_def jitems.simps list.map concat.simps append_Cons append_Nil)
qed

lemma normalize_blocks_items: "b \<in> set (normalize_message_blocks v) \<Longrightarrow> block_normal b"
  by (auto simp: normalize_message_blocks_def dest: normalize_item_idem)

lemma overlap_meets:
  "overlap old new \<le> length old \<and> overlap old new \<le> length new \<and>
   drop (length old - overlap old new) old = take (overlap old new) new"
proof (cases "List.find (\<lambda>n. drop (length old - n) old = take n new) (rev [1..<Suc (min (length old) (length new))])")
  case None
  then show ?thesis by (simp add: overlap_def)
next
  case (Some n)
  then have "n \<in> set (rev [1..<Suc (min (length old) (length new))]) \<and> drop (length old - n) old = take n new"
    by (rule first_row_Some [unfolded first_row_def])
  with Some show ?thesis by (auto simp: overlap_def)
qed

lemma occurs_inI: "occurs_in new (a @ new @ b)"
proof -
  have "length a \<le> length (a @ new @ b) - length new" by simp
  then have "length a \<in> set [0..<Suc (length (a @ new @ b) - length new)]" by simp
  moreover have "take (length new) (drop (length a) (a @ new @ b)) = new" by simp
  ultimately show ?thesis unfolding occurs_in_def list_ex_iff by (intro conjI bexI [of _ "length a"]) simp_all
qed

lemma occurs_in_sublist: "occurs_in new old \<longleftrightarrow> sublist new old"
proof
  assume "occurs_in new old"
  then obtain start where "take (length new) (drop start old) = new"
    unfolding occurs_in_def list_ex_iff by (elim conjE bexE)
  then have "old = take start old @ new @ drop (length new) (drop start old)"
    by (metis append_take_drop_id)
  then show "sublist new old" by (metis sublist_appendI)
next
  assume "sublist new old"
  then show "occurs_in new old" by (auto simp: sublist_def intro: occurs_inI)
qed

lemma joined_at_overlap:
  assumes "drop (length old - n) old = take n new" and "n \<le> length old"
  shows "old @ drop n new = take (length old - n) old @ new"
proof -
  have "old = take (length old - n) old @ take n new" using assms(1) by (metis append_take_drop_id)
  then have "old @ drop n new = take (length old - n) old @ (take n new @ drop n new)" by (metis append_assoc)
  then show ?thesis by simp
qed

lemma merge_joins:
  assumes "old = normalize_message_blocks existing" and "new = normalize_message_blocks incoming"
  obtains rest where "merge_message_blocks existing incoming = old @ rest" and "suffix rest new"
    and "sublist (map block_signature new) (map block_signature (old @ rest))"
proof (cases "sublist (map block_signature new) (map block_signature old) \<or> new = []")
  case True
  then have "merge_message_blocks existing incoming = old @ (if old = [] then new else [])"
    using assms by (auto simp: merge_message_blocks_def occurs_in_sublist Let_def)
  with True show ?thesis by (intro that [of "if old = [] then new else []"]) auto
next
  case False
  let ?o = "map block_signature old" and ?n = "map block_signature new"
  define n where "n = overlap ?o ?n"
  from False have merge: "merge_message_blocks existing incoming = old @ drop n new"
    using assms by (auto simp: merge_message_blocks_def occurs_in_sublist Let_def n_def overlap_def)
  from overlap_meets [of ?o ?n] have "drop (length ?o - n) ?o = take n ?n" "n \<le> length ?o"
    unfolding n_def by auto
  then have "map block_signature (old @ drop n new) = take (length ?o - n) ?o @ ?n"
    unfolding map_append drop_map [symmetric] by (rule joined_at_overlap)
  then have "sublist ?n (map block_signature (old @ drop n new))" by simp
  with merge show ?thesis by (intro that [of "drop n new"]) (simp_all add: suffix_drop)
qed

text \<open>
  C33. Merging a fragment into a message keeps the blocks already there, in place, appends an end of
  the fragment, and leaves the fragment's blocks next to each other in the result; a fragment
  that arrives again changes nothing.
\<close>

theorem repeated_fragment_is_absorbed:
  "\<exists>rest. merge_message_blocks existing incoming = normalize_message_blocks existing @ rest \<and>
     suffix rest (normalize_message_blocks incoming) \<and>
     sublist (map block_signature (normalize_message_blocks incoming))
       (map block_signature (merge_message_blocks existing incoming)) \<and>
     merge_message_blocks (as_blocks (merge_message_blocks existing incoming)) incoming =
       merge_message_blocks existing incoming"
proof -
  obtain rest where m: "merge_message_blocks existing incoming = normalize_message_blocks existing @ rest"
    and suf: "suffix rest (normalize_message_blocks incoming)"
    and sub: "sublist (map block_signature (normalize_message_blocks incoming))
      (map block_signature (normalize_message_blocks existing @ rest))"
    by (rule merge_joins [OF refl refl])
  have "block_normal b" if "b \<in> set (merge_message_blocks existing incoming)" for b
    using that suf unfolding m by (auto dest: normalize_blocks_items set_mono_suffix)
  then have "normalize_message_blocks (as_blocks (merge_message_blocks existing incoming)) =
      merge_message_blocks existing incoming" by (rule normalize_as_blocks)
  with sub m have "merge_message_blocks (as_blocks (merge_message_blocks existing incoming)) incoming =
      merge_message_blocks existing incoming"
    by (auto simp: merge_message_blocks_def [of "as_blocks _"] occurs_in_sublist Let_def)
  with m suf sub show ?thesis by auto
qed

section \<open>A repeated fragment of several blocks\<close>

definition sample_call :: obj where
  "sample_call = [(''type'', JStr ''tool_use''), (''id'', JStr ''t1''), (''name'', JStr ''Read''), (''input'', JObj [])]"

definition sample_words :: obj where
  "sample_words = [(''type'', JStr ''text''), (''text'', JStr ''read it'')]"

text \<open>
  Merging by identity does not absorb a repeated fragment: a message of a tool call and a text
  after it, merged with the same two blocks again, shows the text twice, once before the call.
\<close>

theorem repeated_call_duplicates_its_text:
  "merge_projected_message_blocks (as_blocks [sample_call, sample_words]) (as_blocks [sample_call, sample_words]) =
     [sample_words, sample_call, sample_words]"
  by code_simp

end
