(* ===== verification/ChildFacts.thy ===== *)
theory ChildFacts
  imports MessageBlocks
begin

text \<open>
  The facts an engine adapter reports about its sub-agents, \<^verbatim>\<open>engine/child_runs.py\<close>: the public
  identifiers of children and of their messages, the canonical form of a fact, and the check of
  the child blocks of one message.

  \<^verbatim>\<open>uuid.uuid5\<close> is a hash and stays a parameter; nothing below relies on it being injective.
\<close>

section \<open>Public identifiers\<close>

type_synonym uuid5 = "string \<Rightarrow> string \<Rightarrow> string"

definition NAMESPACE_URL :: string where
  "NAMESPACE_URL = ''6ba7b811-9dad-11d1-80b4-00c04fd430c8''"

definition PUBLIC_CHILD_RUN_NAMESPACE :: "uuid5 \<Rightarrow> string" where
  "PUBLIC_CHILD_RUN_NAMESPACE uuid5 = uuid5 NAMESPACE_URL ''https://astrabox.ai/resources/child-run''"

definition PUBLIC_CHILD_MESSAGE_NAMESPACE :: "uuid5 \<Rightarrow> string" where
  "PUBLIC_CHILD_MESSAGE_NAMESPACE uuid5 = uuid5 NAMESPACE_URL ''https://astrabox.ai/resources/child-run-message''"

definition nul :: char where
  "nul = char_of (0::nat)"

fun split_char :: "char \<Rightarrow> string \<Rightarrow> string list" where
  "split_char sep [] = [[]]"
| "split_char sep (c # s) =
     (if c = sep then [] # split_char sep s
      else case split_char sep s of [] \<Rightarrow> [[c]] | w # ws \<Rightarrow> (c # w) # ws)"

definition public_child_run_id :: "uuid5 \<Rightarrow> string \<Rightarrow> string \<Rightarrow> string \<Rightarrow> string res" where
  "public_child_run_id uuid5 session_id engine_kind engine_ref =
     (let s = strip session_id; k = strip engine_kind; r = strip engine_ref in
      if s = [] \<or> k = [] \<or> r = [] then Inl ChildRunProjectionError
      else Inr (uuid5 (PUBLIC_CHILD_RUN_NAMESPACE uuid5) (join [nul] [s, k, r])))"

definition public_child_message_id :: "uuid5 \<Rightarrow> string \<Rightarrow> string \<Rightarrow> string \<Rightarrow> string \<Rightarrow> string res" where
  "public_child_message_id uuid5 session_id engine_kind engine_ref message_ref =
     (let m = strip message_ref;
          material = join [nul] [strip session_id, strip engine_kind, strip engine_ref, m]
      in if m = [] then Inl ChildRunProjectionError
         else if \<not> list_all (\<lambda>w. w \<noteq> []) (split_char nul material) then Inl ChildRunProjectionError
         else Inr (uuid5 (PUBLIC_CHILD_MESSAGE_NAMESPACE uuid5) material))"

section \<open>The canonical fact\<close>

definition CHILD_RUN_EVENTS :: "string list" where
  "CHILD_RUN_EVENTS = [''opened'', ''updated'', ''closed'']"

definition CHILD_RUN_OPERATIONS :: "string list" where
  "CHILD_RUN_OPERATIONS = [''stop'']"

definition public_child_fields :: "string list" where
  "public_child_fields = [''childRunId'', ''parentChildRunId'', ''controlId'']"

definition clean :: "obj \<Rightarrow> string \<Rightarrow> string" where
  "clean data field = strip (str_or (get data field))"

text \<open>A field that must not be blank when it is there, and one that is left out when it is blank.\<close>

definition clean_present :: "string \<Rightarrow> obj \<Rightarrow> obj res" where
  "clean_present field data =
     (if \<not> has_key data field then Inr data
      else if clean data field = [] then Inl ChildRunProjectionError
      else Inr (dict_set field (JStr (clean data field)) data))"

definition clean_or_drop :: "string \<Rightarrow> obj \<Rightarrow> obj" where
  "clean_or_drop field data =
     (if clean data field \<noteq> [] then dict_set field (JStr (clean data field)) data else dict_pop field data)"

definition take_operation :: "json \<Rightarrow> string list \<Rightarrow> string list res" where
  "take_operation raw operations =
     (let operation = strip (str_or raw) in
      if operation \<notin> set CHILD_RUN_OPERATIONS then Inl ChildRunProjectionError
      else if operation \<in> set operations then Inl ChildRunProjectionError
      else Inr (operations @ [operation]))"

definition canonical_lifecycle :: "obj \<Rightarrow> obj res" where
  "canonical_lifecycle data =
     (let event = clean data ''event''; engine_event = clean data ''engineEvent'';
          native_state = get data ''nativeState''
      in if event \<notin> set CHILD_RUN_EVENTS then Inl ChildRunProjectionError
         else if native_state \<noteq> JNull \<and> (\<not> is_obj native_state \<or> \<not> truthy native_state) then Inl ChildRunProjectionError
         else if engine_event = [] \<and> native_state = JNull then Inl ChildRunProjectionError
         else
           rbind (clean_present ''engineStatus'' (clean_or_drop ''engineEvent'' (dict_set ''event'' (JStr event) data))) (\<lambda>d1.
           rbind (clean_present ''engineReason'' d1) (\<lambda>d2.
           if \<not> is_list (get d2 ''operations'') then Inl ChildRunProjectionError
           else rbind (rfold take_operation (jitems (get d2 ''operations'')) []) (\<lambda>operations.
             if ''stop'' \<in> set operations \<and> clean d2 ''controlRef'' = [] then Inl ChildRunProjectionError
             else if event = ''closed'' \<and> operations \<noteq> [] then Inl ChildRunProjectionError
             else Inr (dict_set ''operations'' (JList (map JStr operations)) d2)))))"

definition canonical_identity :: "obj \<Rightarrow> string \<Rightarrow> obj res" where
  "canonical_identity data engine_kind =
     (let engine_ref = clean data ''engineRef''; parent = clean data ''parentEngineRef''; projected = clean data ''engineKind'' in
      if engine_ref = [] then Inl ChildRunProjectionError
      else if parent = engine_ref then Inl ChildRunProjectionError
      else if projected \<noteq> [] \<and> projected \<noteq> engine_kind then Inl ChildRunProjectionError
      else clean_present ''controlRef''
        (clean_or_drop ''parentEngineRef''
          (dict_set ''engineKind'' (JStr engine_kind) (dict_set ''engineRef'' (JStr engine_ref) data))))"

definition canonical_child_run_data :: "obj \<Rightarrow> string \<Rightarrow> obj res" where
  "canonical_child_run_data raw engine_kind =
     (let clean_engine_kind = strip engine_kind; kind = clean raw ''kind'' in
      if clean_engine_kind = [] then Inl ChildRunProjectionError
      else if kind \<noteq> ''lifecycle'' \<and> kind \<noteq> ''message'' then Inl ChildRunProjectionError
      else if list_ex (has_key raw) public_child_fields then Inl ChildRunProjectionError
      else rbind (canonical_identity raw clean_engine_kind) (\<lambda>data.
        if kind = ''lifecycle'' then canonical_lifecycle data
        else if \<not> is_list (get data ''content'') then Inl ChildRunProjectionError
        else Inr data))"

section \<open>The child blocks of a message\<close>

text \<open>Following the parents of a child upwards: it ends at a child without one, or comes around.\<close>

function parents_end :: "(string, string) dict \<Rightarrow> string list \<Rightarrow> string \<Rightarrow> bool" where
  "parents_end parents seen current =
     (case map_of parents current of
        None \<Rightarrow> True
      | Some parent \<Rightarrow> if current \<in> set seen then False else parents_end parents (current # seen) parent)"
  by pat_completeness auto
termination
proof (relation "measure (\<lambda>(parents, seen, current). card (fst ` set parents - set seen))")
  show "wf (measure (\<lambda>(parents, seen, current). card (fst ` set parents - set seen)))" by simp
next
  fix parents :: "(string, string) dict" and seen current parent
  assume "map_of parents current = Some parent" and "current \<notin> set seen"
  then have "current \<in> fst ` set parents - set seen" by (force dest: map_of_SomeD)
  then have "card (fst ` set parents - set seen - {current}) < card (fst ` set parents - set seen)"
    by (intro card_Diff1_less) simp_all
  moreover have "fst ` set parents - set (current # seen) = fst ` set parents - set seen - {current}" by auto
  ultimately show "((parents, current # seen, parent), parents, seen, current)
      \<in> measure (\<lambda>(parents, seen, current). card (fst ` set parents - set seen))"
    by (simp only: in_measure prod.case)
qed

declare parents_end.simps [simp del]

record child_blocks =
  cb_canonical :: "obj list"
  cb_parents :: "(string, string) dict"
  cb_refs :: "string list"

definition canonicalize_block :: "string \<Rightarrow> obj \<Rightarrow> child_blocks \<Rightarrow> child_blocks res" where
  "canonicalize_block engine_kind block st =
     (if block_type block \<noteq> ''subagent'' then Inr (st\<lparr>cb_canonical := cb_canonical st @ [block]\<rparr>)
      else if \<not> is_obj (get block ''data'') then Inl ChildRunProjectionError
      else rbind (canonical_child_run_data (jfields (get block ''data'')) engine_kind) (\<lambda>data.
        if clean block ''id'' = [] then Inl ChildRunProjectionError
        else
          let engine_ref = py_str (get data ''engineRef''); parent = str_or (get data ''parentEngineRef'');
              existing = map_of (cb_parents st) engine_ref;
              named = st\<lparr>cb_refs := List.insert engine_ref (cb_refs st)\<rparr>
          in if parent \<noteq> [] \<and> existing \<noteq> None \<and> existing \<noteq> Some [] \<and> existing \<noteq> Some parent
             then Inl ChildRunProjectionError
             else Inr (named\<lparr>cb_parents := (if parent \<noteq> [] then dict_set engine_ref parent (cb_parents st) else cb_parents st),
                         cb_canonical := cb_canonical st @ [dict_set ''data'' (JObj data) block]\<rparr>)))"

definition canonicalize_child_run_blocks :: "obj list \<Rightarrow> string \<Rightarrow> obj list res" where
  "canonicalize_child_run_blocks blocks engine_kind =
     rbind (rfold (canonicalize_block engine_kind) blocks \<lparr>cb_canonical = [], cb_parents = [], cb_refs = []\<rparr>) (\<lambda>st.
       if list_all (parents_end (cb_parents st) []) (cb_refs st) then Inr (cb_canonical st)
       else Inl ChildRunProjectionError)"

section \<open>A canonical fact is stable\<close>

text \<open>A field is tidy when it is missing or holds a string without outer white space.\<close>

definition tidy :: "obj \<Rightarrow> string \<Rightarrow> bool" where
  "tidy d f \<longleftrightarrow> (case map_of d f of None \<Rightarrow> True | Some v \<Rightarrow> \<exists>s. v = JStr s \<and> s \<noteq> [] \<and> strip s = s)"

definition same_field :: "obj \<Rightarrow> obj \<Rightarrow> string \<Rightarrow> bool" where
  "same_field d d' f \<longleftrightarrow> map_of d' f = map_of d f"

lemma same_field_reads:
  "same_field d d' f \<Longrightarrow> get d' f = get d f" "same_field d d' f \<Longrightarrow> has_key d' f = has_key d f"
  "same_field d d' f \<Longrightarrow> clean d' f = clean d f" "same_field d d' f \<Longrightarrow> tidy d' f = tidy d f"
  by (simp_all add: same_field_def get_def has_key_def clean_def tidy_def)

lemma same_field_set: "f \<noteq> g \<Longrightarrow> same_field d (dict_set g v d) f"
  by (simp add: same_field_def dict_get_set)

lemma tidy_clean: "tidy d f \<Longrightarrow> has_key d f \<Longrightarrow> clean d f \<noteq> [] \<and> dict_set f (JStr (clean d f)) d = d"
  by (auto simp: tidy_def clean_def get_def has_key_def dict_set_same)

lemma tidy_blank: "tidy d f \<Longrightarrow> clean d f = [] \<longleftrightarrow> \<not> has_key d f"
  using tidy_clean [of d f] by (auto simp: clean_def get_not_has_key)

lemma tidy_set [simp]: "s \<noteq> [] \<Longrightarrow> strip s = s \<Longrightarrow> tidy (dict_set f (JStr s) d) f"
  by (simp add: tidy_def)

lemma clean_set [simp]: "clean (dict_set f (JStr s) d) f = strip s"
  by (simp add: clean_def)

lemma clean_stripped [simp]: "strip (clean d f) = clean d f"
  by (simp add: clean_def)

lemma clean_present_fix: "tidy d f \<Longrightarrow> clean_present f d = Inr d"
  using tidy_clean [of d f] by (simp add: clean_present_def)

lemma clean_present_result:
  assumes "clean_present f d = Inr d'"
  shows "tidy d' f" and "clean d' f = clean d f" and "g \<noteq> f \<Longrightarrow> same_field d d' g"
  using assms
  by (auto simp: clean_present_def tidy_def has_key_def dict_get_set same_field_def split: if_splits)

lemma clean_or_drop_fix: "tidy d f \<Longrightarrow> clean_or_drop f d = d"
proof (cases "has_key d f")
  case True
  moreover assume "tidy d f"
  ultimately show ?thesis using tidy_clean [of d f] by (simp add: clean_or_drop_def)
next
  case False
  then have "dict_pop f d = d" by (auto simp: dict_pop_def has_key_iff filter_id_conv image_iff)
  with False show ?thesis by (simp add: clean_or_drop_def clean_def get_not_has_key)
qed

lemma clean_or_drop_result:
  "tidy (clean_or_drop f d) f" "clean (clean_or_drop f d) f = clean d f"
  "g \<noteq> f \<Longrightarrow> same_field d (clean_or_drop f d) g"
proof -
  have pop: "map_of (dict_pop f d) f = None" by (simp add: dict_get_pop)
  show "tidy (clean_or_drop f d) f"
    by (cases "clean d f = []") (simp_all add: clean_or_drop_def tidy_def pop)
  show "clean (clean_or_drop f d) f = clean d f"
    by (cases "clean d f = []") (simp_all add: clean_or_drop_def clean_def get_def pop)
  show "g \<noteq> f \<Longrightarrow> same_field d (clean_or_drop f d) g"
    by (simp add: clean_or_drop_def same_field_def dict_get_set dict_get_pop)
qed

lemma same_field_trans: "same_field a b f \<Longrightarrow> same_field b c f \<Longrightarrow> same_field a c f"
  by (simp add: same_field_def)

text \<open>What the identity of a canonical fact is.\<close>

definition identified :: "string \<Rightarrow> obj \<Rightarrow> bool" where
  "identified kind d \<longleftrightarrow>
     tidy d ''engineRef'' \<and> has_key d ''engineRef'' \<and> map_of d ''engineKind'' = Some (JStr kind) \<and>
     tidy d ''parentEngineRef'' \<and> clean d ''parentEngineRef'' \<noteq> clean d ''engineRef'' \<and> tidy d ''controlRef''"

definition identity_fields :: "string set" where
  "identity_fields = {''engineRef'', ''engineKind'', ''parentEngineRef'', ''controlRef''}"

lemma identified_same:
  assumes "identified kind d" and "\<And>f. f \<in> identity_fields \<Longrightarrow> same_field d d' f"
  shows "identified kind d'"
proof -
  from assms(2) have s: "same_field d d' ''engineRef''" "same_field d d' ''engineKind''"
    "same_field d d' ''parentEngineRef''" "same_field d d' ''controlRef''"
    by (simp_all add: identity_fields_def)
  with assms(1) show ?thesis
    unfolding identified_def by (simp add: same_field_reads [OF s(1)] same_field_reads [OF s(3)] same_field_reads [OF s(4)]
      s(2) [unfolded same_field_def])
qed

lemma canonical_identity_fix:
  assumes "identified kind d" and "strip kind = kind"
  shows "canonical_identity d kind = Inr d"
proof -
  from assms have r: "clean d ''engineRef'' \<noteq> []" "dict_set ''engineRef'' (JStr (clean d ''engineRef'')) d = d"
    by (auto simp: identified_def dest: tidy_clean)
  have k: "dict_set ''engineKind'' (JStr kind) d = d" "clean d ''engineKind'' = kind"
    using assms by (simp_all add: identified_def dict_set_same clean_def get_def)
  from assms(1) have "clean_or_drop ''parentEngineRef'' d = d" "clean_present ''controlRef'' d = Inr d"
    by (simp_all add: identified_def clean_or_drop_fix clean_present_fix)
  with r k assms(1) show ?thesis by (simp add: canonical_identity_def identified_def Let_def)
qed

lemma canonical_identity_result:
  assumes "canonical_identity raw kind = Inr d"
  shows "identified kind d" and "f \<notin> identity_fields \<Longrightarrow> same_field raw d f"
proof -
  let ?r = "clean raw ''engineRef''"
  define d1 where "d1 = dict_set ''engineKind'' (JStr kind) (dict_set ''engineRef'' (JStr ?r) raw)"
  define d2 where "d2 = clean_or_drop ''parentEngineRef'' d1"
  from assms have r: "?r \<noteq> []" and p: "clean raw ''parentEngineRef'' \<noteq> ?r"
    and d: "clean_present ''controlRef'' d2 = Inr d"
    by (auto simp: canonical_identity_def Let_def d1_def d2_def split: if_splits)
  have 1: "same_field raw d1 f" if "f \<noteq> ''engineRef''" "f \<noteq> ''engineKind''" for f
    using that by (simp add: d1_def same_field_def dict_get_set)
  have 2: "same_field d1 d2 f" if "f \<noteq> ''parentEngineRef''" for f
    unfolding d2_def by (rule clean_or_drop_result(3)) (rule that)
  have 3: "same_field d2 d f" if "f \<noteq> ''controlRef''" for f
    by (rule clean_present_result(3) [OF d]) (rule that)
  show "same_field raw d f" if "f \<notin> identity_fields"
    by (rule same_field_trans [OF same_field_trans [OF 1 2] 3]) (use that in \<open>simp_all add: identity_fields_def\<close>)
  have e: "same_field d1 d ''engineRef''" "same_field d1 d ''engineKind''"
    by (rule same_field_trans [OF 2 3]; simp)+
  have "tidy d1 ''engineRef''" "clean d1 ''engineRef'' = ?r" "has_key d1 ''engineRef''" "map_of d1 ''engineKind'' = Some (JStr kind)"
    using r by (simp_all add: d1_def tidy_def clean_def has_key_def dict_get_set get_def)
  with e have own: "tidy d ''engineRef''" "clean d ''engineRef'' = ?r" "has_key d ''engineRef''" "map_of d ''engineKind'' = Some (JStr kind)"
    by (simp_all add: same_field_reads [OF e(1)] e(2) [unfolded same_field_def])
  have pd: "same_field d2 d ''parentEngineRef''" by (rule 3) simp
  have "same_field raw d1 ''parentEngineRef''" by (rule 1) simp_all
  then have "tidy d ''parentEngineRef''" "clean d ''parentEngineRef'' = clean raw ''parentEngineRef''"
    using clean_or_drop_result(1,2) [of "''parentEngineRef''" d1] same_field_reads [OF pd]
    by (simp_all add: d2_def same_field_reads)
  with own p clean_present_result(1) [OF d] show "identified kind d" by (simp add: identified_def)
qed

text \<open>What the lifecycle of a canonical fact is.\<close>

definition lifecycle_ok :: "obj \<Rightarrow> bool" where
  "lifecycle_ok d \<longleftrightarrow>
     tidy d ''event'' \<and> clean d ''event'' \<in> set CHILD_RUN_EVENTS \<and> tidy d ''engineEvent'' \<and>
     (get d ''nativeState'' = JNull \<or> is_obj (get d ''nativeState'') \<and> truthy (get d ''nativeState'')) \<and>
     (clean d ''engineEvent'' \<noteq> [] \<or> get d ''nativeState'' \<noteq> JNull) \<and>
     tidy d ''engineStatus'' \<and> tidy d ''engineReason'' \<and>
     (map_of d ''operations'' = Some (JList []) \<or>
      map_of d ''operations'' = Some (JList [JStr ''stop'']) \<and> clean d ''controlRef'' \<noteq> [] \<and> clean d ''event'' \<noteq> ''closed'')"

lemma operations_taken:
  assumes "rfold take_operation raws [] = Inr operations"
  shows "operations = [] \<or> operations = [''stop'']"
  using assms
  by (rule rfold_invariant) (auto simp: take_operation_def CHILD_RUN_OPERATIONS_def Let_def split: if_splits)

lemma operations_again:
  "operations = [] \<or> operations = [''stop''] \<Longrightarrow> rfold take_operation (map JStr operations) [] = Inr operations"
proof (elim disjE)
  show "operations = [''stop''] \<Longrightarrow> ?thesis" by (simp, code_simp)
qed simp

definition lifecycle_fields :: "string set" where
  "lifecycle_fields = {''event'', ''engineEvent'', ''engineStatus'', ''engineReason'', ''operations''}"

lemma canonical_lifecycle_fix:
  assumes "lifecycle_ok d"
  shows "canonical_lifecycle d = Inr d"
proof -
  from assms have "has_key d ''event''"
    by (auto simp: lifecycle_ok_def CHILD_RUN_EVENTS_def dest: tidy_blank)
  with assms have "dict_set ''event'' (JStr (clean d ''event'')) d = d" by (auto simp: lifecycle_ok_def dest: tidy_clean)
  moreover from assms have "clean_or_drop ''engineEvent'' d = d" "clean_present ''engineStatus'' d = Inr d"
    "clean_present ''engineReason'' d = Inr d"
    by (simp_all add: lifecycle_ok_def clean_or_drop_fix clean_present_fix)
  moreover obtain operations where o: "operations = [] \<or> operations = [''stop'']"
    "map_of d ''operations'' = Some (JList (map JStr operations))"
    "operations = [''stop''] \<longrightarrow> clean d ''controlRef'' \<noteq> [] \<and> clean d ''event'' \<noteq> ''closed''"
    using assms by (fastforce simp: lifecycle_ok_def)
  moreover have "get d ''operations'' = JList (map JStr operations)" "dict_set ''operations'' (JList (map JStr operations)) d = d"
    using o(2) by (simp_all add: get_def dict_set_same)
  moreover have "clean d ''event'' \<in> set CHILD_RUN_EVENTS" "clean d ''engineEvent'' \<noteq> [] \<or> get d ''nativeState'' \<noteq> JNull"
    "\<not> (get d ''nativeState'' \<noteq> JNull \<and> (\<not> is_obj (get d ''nativeState'') \<or> \<not> truthy (get d ''nativeState'')))"
    using assms by (auto simp: lifecycle_ok_def)
  ultimately show ?thesis by (auto simp: canonical_lifecycle_def Let_def operations_again)
qed

lemma canonical_lifecycle_result:
  assumes "canonical_lifecycle d = Inr d'"
  shows "lifecycle_ok d'" and "f \<notin> lifecycle_fields \<Longrightarrow> same_field d d' f"
proof -
  let ?ev = "clean d ''event''"
  define d0 where "d0 = clean_or_drop ''engineEvent'' (dict_set ''event'' (JStr ?ev) d)"
  from assms obtain d1 d2 operations where ev: "?ev \<in> set CHILD_RUN_EVENTS"
    and ns: "get d ''nativeState'' = JNull \<or> is_obj (get d ''nativeState'') \<and> truthy (get d ''nativeState'')"
      "clean d ''engineEvent'' \<noteq> [] \<or> get d ''nativeState'' \<noteq> JNull"
    and d1: "clean_present ''engineStatus'' d0 = Inr d1" and d2: "clean_present ''engineReason'' d1 = Inr d2"
    and ops: "rfold take_operation (jitems (get d2 ''operations'')) [] = Inr operations"
      "''stop'' \<in> set operations \<longrightarrow> clean d2 ''controlRef'' \<noteq> []" "?ev = ''closed'' \<longrightarrow> operations = []"
    and d': "d' = dict_set ''operations'' (JList (map JStr operations)) d2"
    by (auto simp: canonical_lifecycle_def Let_def rbind_Inr_iff d0_def split: if_splits)
  have 0: "same_field d d0 f" if "f \<noteq> ''event''" "f \<noteq> ''engineEvent''" for f
    unfolding d0_def by (rule same_field_trans [OF same_field_set clean_or_drop_result(3)]) (use that in simp_all)
  have 1: "same_field d0 d1 f" if "f \<noteq> ''engineStatus''" for f
    by (rule clean_present_result(3) [OF d1]) (rule that)
  have 2: "same_field d1 d2 f" if "f \<noteq> ''engineReason''" for f
    by (rule clean_present_result(3) [OF d2]) (rule that)
  have 3: "same_field d2 d' f" if "f \<noteq> ''operations''" for f
    unfolding d' by (rule same_field_set) (rule that)
  have 13: "same_field d0 d' f" if "f \<noteq> ''engineStatus''" "f \<noteq> ''engineReason''" "f \<noteq> ''operations''" for f
    by (rule same_field_trans [OF same_field_trans [OF 1 2] 3]) (use that in simp_all)
  have all: "same_field d d' f" if "f \<notin> lifecycle_fields" for f
    by (rule same_field_trans [OF 0 13]) (use that in \<open>simp_all add: lifecycle_fields_def\<close>)
  then show "f \<notin> lifecycle_fields \<Longrightarrow> same_field d d' f" .
  have e: "same_field d0 d' ''event''" "same_field d0 d' ''engineEvent''" by (rule 13; simp)+
  have "same_field (dict_set ''event'' (JStr ?ev) d) d0 ''event''" unfolding d0_def by (rule clean_or_drop_result(3)) simp
  moreover have "?ev \<noteq> []" using ev by (auto simp: CHILD_RUN_EVENTS_def)
  ultimately have event: "tidy d' ''event''" "clean d' ''event'' = ?ev" using e(1) by (simp_all add: same_field_reads)
  have "clean (dict_set ''event'' (JStr ?ev) d) ''engineEvent'' = clean d ''engineEvent''" by (simp add: clean_def)
  then have named: "tidy d' ''engineEvent''" "clean d' ''engineEvent'' = clean d ''engineEvent''"
    using clean_or_drop_result(1,2) [of "''engineEvent''" "dict_set ''event'' (JStr ?ev) d"]
    by (simp_all add: same_field_reads [OF e(2)] d0_def)
  have "tidy d' ''engineStatus''" "tidy d' ''engineReason''"
    using clean_present_result(1) [OF d1] clean_present_result(1) [OF d2]
      same_field_reads(4) [OF same_field_trans [OF 2 3]] same_field_reads(4) [OF 3] by simp_all
  moreover have "get d' ''nativeState'' = get d ''nativeState''"
    by (rule same_field_reads(1) [OF all]) (simp add: lifecycle_fields_def)
  moreover have "clean d' ''controlRef'' = clean d2 ''controlRef''" by (rule same_field_reads(3) [OF 3]) simp
  moreover have "map_of d' ''operations'' = Some (JList (map JStr operations))" by (simp add: d')
  ultimately show "lifecycle_ok d'"
    using event named ev ns ops operations_taken [OF ops(1)] by (auto simp: lifecycle_ok_def)
qed

text \<open>
  C32. A fact that \<^verbatim>\<open>canonical_child_run_data\<close> accepted is accepted again and unchanged, under the same
  engine; it names the engine and the child, is not its own parent and carries no public
  identifier; and a lifecycle fact offers to stop a child only while the child is open and its control
  handle is known.
\<close>

theorem canonical_fact_is_stable:
  assumes "canonical_child_run_data raw engine_kind = Inr data"
  shows "canonical_child_run_data data engine_kind = Inr data \<and>
    map_of data ''engineKind'' = Some (JStr (strip engine_kind)) \<and> clean data ''engineRef'' \<noteq> [] \<and>
    clean data ''parentEngineRef'' \<noteq> clean data ''engineRef'' \<and>
    \<not> list_ex (has_key data) public_child_fields \<and>
    (clean data ''kind'' = ''lifecycle'' \<longrightarrow> JStr ''stop'' \<in> set (jitems (get data ''operations'')) \<longrightarrow>
       clean data ''controlRef'' \<noteq> [] \<and> clean data ''event'' \<noteq> ''closed'')"
proof -
  let ?k = "strip engine_kind" and ?kind = "clean raw ''kind''"
  from assms obtain d where k: "?k \<noteq> []" and kind: "?kind = ''lifecycle'' \<or> ?kind = ''message''"
    and pub: "\<not> list_ex (has_key raw) public_child_fields" and d: "canonical_identity raw ?k = Inr d"
    and last: "if ?kind = ''lifecycle'' then canonical_lifecycle d = Inr data else is_list (get d ''content'') \<and> data = d"
    by (auto simp: canonical_child_run_data_def Let_def rbind_Inr_iff split: if_splits)
  have i: "identified ?k d" by (rule canonical_identity_result(1) [OF d])
  have same: "same_field d data f" if "f \<notin> lifecycle_fields" for f
    using last canonical_lifecycle_result(2) [of d data f] that by (auto simp: same_field_def split: if_splits)
  have ident: "identified ?k data"
    using i by (rule identified_same) (rule same, auto simp: identity_fields_def lifecycle_fields_def)
  have raw: "same_field raw data f" if "f \<notin> lifecycle_fields" "f \<notin> identity_fields" for f
    by (rule same_field_trans [OF canonical_identity_result(2) [OF d] same]) (use that in simp_all)
  have kind': "clean data ''kind'' = ?kind"
    by (rule same_field_reads(3) [OF raw]) (simp_all add: lifecycle_fields_def identity_fields_def)
  have "has_key data f = has_key raw f" if "f \<in> set public_child_fields" for f
    using that by (intro same_field_reads(2) [OF raw])
      (auto simp: public_child_fields_def lifecycle_fields_def identity_fields_def)
  with pub have pub': "\<not> list_ex (has_key data) public_child_fields" by (auto simp: list_ex_iff)
  have life: "lifecycle_ok data" if "?kind = ''lifecycle''"
    using last that canonical_lifecycle_result(1) by simp
  have "canonical_child_run_data data engine_kind = Inr data"
    using k kind kind' pub' canonical_identity_fix [OF ident] canonical_lifecycle_fix [OF life] last
    by (auto simp: canonical_child_run_data_def Let_def split: if_splits)
  moreover from life kind' have "clean data ''kind'' = ''lifecycle'' \<Longrightarrow> JStr ''stop'' \<in> set (jitems (get data ''operations'')) \<Longrightarrow>
      clean data ''controlRef'' \<noteq> [] \<and> clean data ''event'' \<noteq> ''closed''"
    by (auto simp: lifecycle_ok_def get_def)
  moreover have "clean data ''engineRef'' \<noteq> []" using ident tidy_clean by (auto simp: identified_def)
  ultimately show ?thesis using pub' ident by (auto simp: identified_def)
qed

definition sample_fact :: obj where
  "sample_fact =
     [(''kind'', JStr ''lifecycle''), (''event'', JStr '' opened ''), (''engineRef'', JStr '' a ''), (''parentEngineRef'', JStr []),
      (''controlRef'', JStr ''c''), (''engineEvent'', JStr ''started''), (''operations'', JList [JStr ''stop''])]"

definition sample_canonical :: obj where
  "sample_canonical =
     [(''kind'', JStr ''lifecycle''), (''event'', JStr ''opened''), (''engineRef'', JStr ''a''),
      (''controlRef'', JStr ''c''), (''engineEvent'', JStr ''started''), (''operations'', JList [JStr ''stop'']),
      (''engineKind'', JStr ''pi'')]"

lemma sample_fact_canonical: "canonical_child_run_data sample_fact ''pi'' = Inr sample_canonical"
  by code_simp

theorem canonical_fact_is_stable_witness:
  "canonical_child_run_data sample_fact ''pi'' = Inr sample_canonical \<and>
   canonical_child_run_data sample_canonical ''pi'' = Inr sample_canonical"
  using canonical_fact_is_stable [OF sample_fact_canonical] sample_fact_canonical by simp

end
