(* ===== verification/Transcripts.thy ===== *)
theory Transcripts
  imports Samples MessageBlocks
begin

text \<open>
  The runtime's own transcripts, held so a replacement runtime can resume:
  \<^verbatim>\<open>transcript_entry_repository.py\<close>, the index of sub-agents over them,
  \<^verbatim>\<open>transcript_child_run_repository.py\<close>, and \<^verbatim>\<open>child_transcript_scopes\<close> of \<^verbatim>\<open>session_read_repository.py\<close>.

  A scope is one transcript file; an entry is one line of it, stored as JSON text. Entries
  arrive in batches named by the sender. Transactions are serialised here, so the race of two
  deliveries of one batch that the unique key decides does not arise: the second finds the first.
\<close>

section \<open>Tables\<close>

type_synonym scope_key = "string \<times> string \<times> string \<times> string"

record scope_row =
  sc_scope_id :: int
  sc_platform_session_id :: string
  sc_project_key :: string
  sc_native_session_id :: string
  sc_subpath :: string
  sc_last_sequence :: int
  sc_updated_at :: time

record entry_row =
  te_scope_id :: int
  te_seq :: int
  te_append_id :: string
  te_batch_index :: nat
  te_entry_json :: string

record index_row =
  ti_scope_id :: int
  ti_engine_kind :: string
  ti_through_seq :: int
  ti_entries :: "json list"

text \<open>\<open>tr_engine_keys\<close> is the column \<^verbatim>\<open>sessions.engine_session_key\<close>; \<open>tr_next_scope_id\<close> the identity column.\<close>

record transcripts =
  tr_db :: db
  tr_engine_keys :: "(string, string) dict"
  tr_scopes :: "scope_row list"
  tr_entries :: "entry_row list"
  tr_index :: "index_row list"
  tr_next_scope_id :: int

definition sc_key :: "scope_row \<Rightarrow> scope_key" where
  "sc_key s = (sc_platform_session_id s, sc_project_key s, sc_native_session_id s, sc_subpath s)"

definition scope_key :: "string \<Rightarrow> string \<Rightarrow> string \<Rightarrow> string option \<Rightarrow> scope_key" where
  "scope_key platform_session_id project_key native_session_id subpath =
     (platform_session_id, project_key, native_session_id, (case subpath of None \<Rightarrow> [] | Some p \<Rightarrow> p))"

section \<open>Appending\<close>

definition current_sequence :: "scope_key \<Rightarrow> transcripts \<Rightarrow> int" where
  "current_sequence key st =
     (case first_row (\<lambda>s. sc_key s = key) (tr_scopes st) of None \<Rightarrow> 0 | Some s \<Rightarrow> sc_last_sequence s)"

definition new_scope :: "scope_key \<Rightarrow> time \<Rightarrow> int \<Rightarrow> scope_row" where
  "new_scope key now scope_id =
     (case key of (platform, pkey, native, subpath) \<Rightarrow>
        \<lparr>sc_scope_id = scope_id, sc_platform_session_id = platform, sc_project_key = pkey,
         sc_native_session_id = native, sc_subpath = subpath, sc_last_sequence = 0, sc_updated_at = now\<rparr>)"

definition ensure_scope :: "scope_key \<Rightarrow> time \<Rightarrow> transcripts \<Rightarrow> transcripts" where
  "ensure_scope key now st =
     (if exists_row (\<lambda>s. sc_key s = key) (tr_scopes st) then st
      else st\<lparr>tr_scopes := tr_scopes st @ [new_scope key now (tr_next_scope_id st)],
              tr_next_scope_id := tr_next_scope_id st + 1\<rparr>)"

definition held :: "int \<Rightarrow> string \<Rightarrow> transcripts \<Rightarrow> bool" where
  "held scope_id append_id st =
     exists_row (\<lambda>e. te_scope_id e = scope_id \<and> te_append_id e = append_id) (tr_entries st)"

definition batch_rows :: "int \<Rightarrow> int \<Rightarrow> string \<Rightarrow> string list \<Rightarrow> entry_row list" where
  "batch_rows scope_id first append_id texts =
     map (\<lambda>(index, t). \<lparr>te_scope_id = scope_id, te_seq = first + int index, te_append_id = append_id,
            te_batch_index = index, te_entry_json = t\<rparr>) (enumerate 0 texts)"

text \<open>The state after a batch was stored under a scope that is there.\<close>

definition batched :: "string \<Rightarrow> scope_row \<Rightarrow> string \<Rightarrow> string list \<Rightarrow> string option \<Rightarrow> time \<Rightarrow> transcripts \<Rightarrow> transcripts" where
  "batched sid scope b texts ek now st =
     st\<lparr>tr_scopes := update_where (\<lambda>s. sc_scope_id s = sc_scope_id scope)
            (\<lambda>s. s\<lparr>sc_last_sequence := sc_last_sequence scope + int (length texts), sc_updated_at := now\<rparr>) (tr_scopes st),
         tr_entries := tr_entries st @ batch_rows (sc_scope_id scope) (sc_last_sequence scope + 1) b texts,
         tr_engine_keys := (case ek of None \<Rightarrow> tr_engine_keys st
                            | Some k \<Rightarrow> dict_set (sid) k (tr_engine_keys st)),
         tr_db := notify (sid) NTranscript 0 (tr_db st)\<rparr>"

definition store_batch :: "scope_key \<Rightarrow> string \<Rightarrow> string list \<Rightarrow> string option \<Rightarrow> time \<Rightarrow> transcripts \<Rightarrow>
    (int option \<times> transcripts) res" where
  "store_batch key append_id texts engine_session_key now st =
     (let sid = fst key in
      if \<not> exists_row (\<lambda>s. s_session_id s = sid) (t_sessions (tr_db st)) then Inl TranscriptSessionMissing
      else
        let st1 = ensure_scope key now st in
        case first_row (\<lambda>s. sc_key s = key) (tr_scopes st1) of
          None \<Rightarrow> Inl NoResultFound
        | Some scope \<Rightarrow>
            if held (sc_scope_id scope) append_id st1 then Inr (None, st1)
            else Inr (Some (sc_last_sequence scope + int (length texts)),
                   batched sid scope append_id texts engine_session_key now st1))"

definition stored_rows :: "scope_key \<Rightarrow> string \<Rightarrow> transcripts \<Rightarrow> entry_row list" where
  "stored_rows key append_id st =
     order_by te_seq (filter (\<lambda>e. te_append_id e = append_id \<and>
        exists_row (\<lambda>s. sc_scope_id s = te_scope_id e \<and> sc_key s = key) (tr_scopes st)) (tr_entries st))"

definition stored_batch :: "scope_key \<Rightarrow> string \<Rightarrow> json list \<Rightarrow> transcripts \<Rightarrow> int res" where
  "stored_batch key append_id entries st =
     (let rows = stored_rows key append_id st in
      if length rows \<noteq> length entries then Inl TranscriptBatchConflict
      else rbind (rmap (\<lambda>row. json_loads (te_entry_json row)) rows) (\<lambda>stored.
        if \<not> list_all2 py_eq stored entries then Inl TranscriptBatchConflict
        else Inr (te_seq (List.last rows))))"

definition append_entries :: "scope_key \<Rightarrow> json list \<Rightarrow> string \<Rightarrow> string option \<Rightarrow> time \<Rightarrow> transcripts \<Rightarrow>
    int res \<times> transcripts" where
  "append_entries key entries append_id engine_session_key now st =
     (let batch = strip append_id in
      if batch = [] then (Inl ValueError, st)
      else if entries = [] then (Inr (current_sequence key st), st)
      else
        case transaction (store_batch key batch (map (dumps '', '' '': '' False) entries) engine_session_key now) st of
          (Inl e, st') \<Rightarrow> (Inl e, st')
        | (Inr (Some n), st') \<Rightarrow> (Inr n, st')
        | (Inr None, st') \<Rightarrow> (stored_batch key batch entries st', st'))"

section \<open>Reading\<close>

definition entries_of :: "(scope_row \<Rightarrow> bool) \<Rightarrow> transcripts \<Rightarrow> string list" where
  "entries_of p st =
     map te_entry_json (order_by (\<lambda>e. (te_scope_id e, te_seq e))
       (filter (\<lambda>e. exists_row (\<lambda>s. sc_scope_id s = te_scope_id e \<and> p s) (tr_scopes st)) (tr_entries st)))"

definition load_entries :: "scope_key \<Rightarrow> transcripts \<Rightarrow> json list option res" where
  "load_entries key st =
     (let rows = entries_of (\<lambda>s. sc_key s = key) st in
      if rows = [] then Inr None else rbind (rmap json_loads rows) (\<lambda>vs. Inr (Some vs)))"

definition load_subpath_entries_by_platform_session :: "string \<Rightarrow> string option \<Rightarrow> transcripts \<Rightarrow> json list res" where
  "load_subpath_entries_by_platform_session sid subpath st =
     (if strip sid = [] \<or> (case subpath of None \<Rightarrow> False | Some p \<Rightarrow> strip p = []) then Inr []
      else rmap json_loads (entries_of (\<lambda>s. sc_platform_session_id s = sid \<and>
             sc_subpath s = (case subpath of None \<Rightarrow> [] | Some p \<Rightarrow> p)) st))"

definition list_scopes_by_platform_session :: "string \<Rightarrow> transcripts \<Rightarrow> (string \<times> string \<times> string option) list" where
  "list_scopes_by_platform_session sid st =
     (if strip sid = [] then []
      else map (\<lambda>s. (sc_project_key s, sc_native_session_id s, if sc_subpath s = [] then None else Some (sc_subpath s)))
        (order_by sc_scope_id (filter (\<lambda>s. sc_platform_session_id s = sid) (tr_scopes st))))"

definition list_sessions :: "string \<Rightarrow> string \<Rightarrow> transcripts \<Rightarrow> (string \<times> time) list" where
  "list_sessions sid project_key st =
     map (\<lambda>s. (sc_native_session_id s, sc_updated_at s))
       (order_by sc_scope_id (filter (\<lambda>s. sc_platform_session_id s = sid \<and> sc_project_key s = project_key \<and>
          sc_subpath s = []) (tr_scopes st)))"

definition list_subkeys :: "string \<Rightarrow> string \<Rightarrow> string \<Rightarrow> transcripts \<Rightarrow> string list" where
  "list_subkeys sid project_key native_session_id st =
     map sc_subpath
       (order_by sc_scope_id (filter (\<lambda>s. sc_platform_session_id s = sid \<and> sc_project_key s = project_key \<and>
          sc_native_session_id s = native_session_id \<and> sc_subpath s \<noteq> []) (tr_scopes st)))"

record native_scope =
  ns_project_key :: string
  ns_session_id :: string
  ns_subpath :: string
  ns_entries :: "json list"

text \<open>The sub-agents' transcripts of a session. \<^verbatim>\<open>ORDER BY subpath\<close> compares strings by their code points.\<close>

fun insert_by :: "('r \<Rightarrow> string) \<Rightarrow> 'r \<Rightarrow> 'r list \<Rightarrow> 'r list" where
  "insert_by key r [] = [r]"
| "insert_by key r (q # rs) = (if str_le (key r) (key q) then r # q # rs else q # insert_by key r rs)"

definition order_by_text :: "('r \<Rightarrow> string) \<Rightarrow> 'r list \<Rightarrow> 'r list" where
  "order_by_text key rows = foldr (insert_by key) rows []"

lemma set_order_by_text [simp]: "set (order_by_text key rows) = set rows"
proof -
  have "set (insert_by key r rs) = insert r (set rs)" for r rs by (induction rs) auto
  then show ?thesis by (induction rows) (simp_all add: order_by_text_def)
qed

definition scope_texts :: "int \<Rightarrow> transcripts \<Rightarrow> string list" where
  "scope_texts scope_id st =
     map te_entry_json (order_by te_seq (filter (\<lambda>e. te_scope_id e = scope_id) (tr_entries st)))"

definition child_transcript_scopes :: "string \<Rightarrow> transcripts \<Rightarrow> native_scope list res" where
  "child_transcript_scopes sid st =
     rmap (\<lambda>s. rbind (rmap json_loads (scope_texts (sc_scope_id s) st)) (\<lambda>entries.
        Inr \<lparr>ns_project_key = sc_project_key s, ns_session_id = sc_native_session_id s, ns_subpath = sc_subpath s,
             ns_entries = entries\<rparr>))
       (order_by_text sc_subpath (filter (\<lambda>s. sc_platform_session_id s = sid \<and> sc_subpath s \<noteq> []) (tr_scopes st)))"

section \<open>The index of sub-agents\<close>

text \<open>An adapter's projector takes what it kept of the entries before and the next entries.\<close>

type_synonym projector = "json list \<Rightarrow> json list \<Rightarrow> json list res"

definition PAGE_SIZE :: nat where
  "PAGE_SIZE = 64"

definition index_of_scope :: "int \<Rightarrow> string \<Rightarrow> index_row \<Rightarrow> bool" where
  "index_of_scope scope_id engine_kind i \<longleftrightarrow> ti_scope_id i = scope_id \<and> ti_engine_kind i = engine_kind"

definition ensure_index :: "int \<Rightarrow> string \<Rightarrow> transcripts \<Rightarrow> transcripts" where
  "ensure_index scope_id engine_kind st =
     st\<lparr>tr_index := insert_absent (\<lambda>i. (ti_scope_id i, ti_engine_kind i))
       \<lparr>ti_scope_id = scope_id, ti_engine_kind = engine_kind, ti_through_seq = 0, ti_entries = []\<rparr> (tr_index st)\<rparr>"

definition index_page :: "int \<Rightarrow> int \<Rightarrow> int \<Rightarrow> transcripts \<Rightarrow> entry_row list" where
  "index_page scope_id cursor target st =
     take PAGE_SIZE (order_by te_seq (filter (\<lambda>e. te_scope_id e = scope_id \<and> cursor < te_seq e \<and> te_seq e \<le> target) (tr_entries st)))"

definition project_page :: "projector \<Rightarrow> json list \<Rightarrow> string list \<Rightarrow> json list res" where
  "project_page projector projected raw = rbind (rmap json_loads raw) (projector projected)"

definition advance_work :: "int \<Rightarrow> string \<Rightarrow> int \<Rightarrow> projector \<Rightarrow> bool \<Rightarrow> transcripts \<Rightarrow>
    ((int \<times> json list) \<times> transcripts) res" where
  "advance_work scope_id engine_kind target projector create st =
     (let st1 = (if create then ensure_index scope_id engine_kind st else st) in
      case first_row (index_of_scope scope_id engine_kind) (tr_index st1) of
        None \<Rightarrow> Inl NoResultFound
      | Some index \<Rightarrow>
          let cursor = ti_through_seq index; page = index_page scope_id cursor target st1 in
          if target \<le> cursor then Inr ((cursor, ti_entries index), st1)
          else if page = [] then Inl RuntimeError
          else rbind (project_page projector (ti_entries index) (map te_entry_json page)) (\<lambda>projected.
            let cursor' = te_seq (List.last page) in
            Inr ((cursor', projected),
              st1\<lparr>tr_index := update_where (index_of_scope scope_id engine_kind)
                (\<lambda>i. i\<lparr>ti_through_seq := cursor', ti_entries := projected\<rparr>) (tr_index st1)\<rparr>)))"

definition advance :: "int \<Rightarrow> string \<Rightarrow> int \<Rightarrow> projector \<Rightarrow> bool \<Rightarrow> transcripts \<Rightarrow> (int \<times> json list) res \<times> transcripts" where
  "advance scope_id engine_kind target projector create st =
     transaction (advance_work scope_id engine_kind target projector create) st"

text \<open>
  The \<^verbatim>\<open>while\<close> loop over one scope. Every turn moves the cursor on or raises, so as many turns as the
  target has numbers, and one more, are enough; \<open>None\<close> means the loop was cut off.
\<close>

fun catch_up :: "nat \<Rightarrow> int \<Rightarrow> string \<Rightarrow> int \<Rightarrow> projector \<Rightarrow> int option \<Rightarrow> json list \<Rightarrow> transcripts \<Rightarrow>
    (json list res \<times> transcripts) option" where
  "catch_up 0 scope_id engine_kind target projector cursor projected st = None"
| "catch_up (Suc n) scope_id engine_kind target projector cursor projected st =
     (if (case cursor of None \<Rightarrow> True | Some c \<Rightarrow> c < target) then
        (case advance scope_id engine_kind target projector (cursor = None) st of
           (Inl e, st') \<Rightarrow> Some (Inl e, st')
         | (Inr (c, projected'), st') \<Rightarrow> catch_up n scope_id engine_kind target projector (Some c) projected' st')
      else Some (Inr projected, st))"

fun catch_up_scopes :: "string \<Rightarrow> projector \<Rightarrow> (scope_row \<times> index_row option) list \<Rightarrow> transcripts \<Rightarrow>
    (native_scope list res \<times> transcripts) option" where
  "catch_up_scopes engine_kind projector [] st = Some (Inr [], st)"
| "catch_up_scopes engine_kind projector ((s, index) # rows) st =
     (case catch_up (Suc (Suc (nat (sc_last_sequence s)))) (sc_scope_id s) engine_kind (sc_last_sequence s) projector
             (map_option ti_through_seq index) (case index of None \<Rightarrow> [] | Some i \<Rightarrow> ti_entries i) st of
        None \<Rightarrow> None
      | Some (Inl e, st') \<Rightarrow> Some (Inl e, st')
      | Some (Inr projected, st') \<Rightarrow>
          (case catch_up_scopes engine_kind projector rows st' of
             None \<Rightarrow> None
           | Some (Inl e, st'') \<Rightarrow> Some (Inl e, st'')
           | Some (Inr found, st'') \<Rightarrow>
               Some (Inr (\<lparr>ns_project_key = sc_project_key s, ns_session_id = sc_native_session_id s,
                           ns_subpath = sc_subpath s, ns_entries = projected\<rparr> # found), st'')))"

definition scopes :: "string \<Rightarrow> string \<Rightarrow> projector \<Rightarrow> transcripts \<Rightarrow> (native_scope list res \<times> transcripts) option" where
  "scopes sid engine_kind projector st =
     catch_up_scopes engine_kind projector
       (map (\<lambda>s. (s, first_row (index_of_scope (sc_scope_id s) engine_kind) (tr_index st)))
         (order_by_text sc_subpath (order_by sc_scope_id (filter (\<lambda>s. sc_platform_session_id s = sid) (tr_scopes st))))) st"

section \<open>Invariant\<close>

definition scope_log :: "int \<Rightarrow> transcripts \<Rightarrow> entry_row list" where
  "scope_log scope_id st = filter (\<lambda>e. te_scope_id e = scope_id) (tr_entries st)"

text \<open>An entry's text is what \<^verbatim>\<open>json.dumps\<close> printed for a value; a value of the model is a Python value when no dictionary repeats a key.\<close>

definition written :: "entry_row \<Rightarrow> bool" where
  "written e \<longleftrightarrow> (\<exists>v. json_ok v \<and> te_entry_json e = dumps '', '' '': '' False v)"

definition scopes_ok :: "transcripts \<Rightarrow> bool" where
  "scopes_ok st \<longleftrightarrow>
     distinct (map sc_scope_id (tr_scopes st)) \<and> distinct (map sc_key (tr_scopes st)) \<and>
     (\<forall>s \<in> set (tr_scopes st). sc_scope_id s < tr_next_scope_id st \<and> 0 \<le> sc_last_sequence s \<and>
        map te_seq (scope_log (sc_scope_id s) st) = [1..sc_last_sequence s])"

definition entries_ok :: "transcripts \<Rightarrow> bool" where
  "entries_ok st \<longleftrightarrow>
     (\<forall>e \<in> set (tr_entries st). te_scope_id e \<in> sc_scope_id ` set (tr_scopes st) \<and> written e)"

definition transcripts_ok :: "transcripts \<Rightarrow> bool" where
  "transcripts_ok st \<longleftrightarrow> scopes_ok st \<and> entries_ok st"

definition no_transcripts :: "db \<Rightarrow> transcripts" where
  "no_transcripts db =
     \<lparr>tr_db = db, tr_engine_keys = [], tr_scopes = [], tr_entries = [], tr_index = [], tr_next_scope_id = 1\<rparr>"

lemma no_transcripts_ok: "transcripts_ok (no_transcripts db)"
  by (simp add: transcripts_ok_def scopes_ok_def entries_ok_def no_transcripts_def)

lemma scope_by_key:
  assumes "scopes_ok st" and "s \<in> set (tr_scopes st)" and "s' \<in> set (tr_scopes st)"
  shows "sc_key s = sc_key s' \<longleftrightarrow> s = s'" and "sc_scope_id s = sc_scope_id s' \<longleftrightarrow> s = s'"
  using assms unique_row [of sc_key "tr_scopes st" s s'] unique_row [of sc_scope_id "tr_scopes st" s s']
  by (auto simp: scopes_ok_def)

lemma find_scope:
  assumes "scopes_ok st" and "s \<in> set (tr_scopes st)"
  shows "first_row (\<lambda>r. sc_key r = sc_key s) (tr_scopes st) = Some s"
  using assms by (intro first_row_unique) (simp_all add: scopes_ok_def)

lemma of_scope:
  assumes "scopes_ok st" and "s \<in> set (tr_scopes st)"
  shows "exists_row (\<lambda>r. sc_scope_id r = i \<and> sc_key r = sc_key s) (tr_scopes st) \<longleftrightarrow> i = sc_scope_id s"
  using assms(2) by (auto simp: exists_row_iff scope_by_key [OF assms(1) _ assms(2)])

lemma scope_log_sorted:
  assumes "scopes_ok st" and "s \<in> set (tr_scopes st)"
  shows "sorted (map te_seq (scope_log (sc_scope_id s) st))"
  using assms by (simp add: scopes_ok_def)

lemma sorted_map_filter: "sorted (map f xs) \<Longrightarrow> sorted (map f (filter p xs))"
  by (induction xs) auto

lemma stored_rows_scope:
  assumes "scopes_ok st" and "s \<in> set (tr_scopes st)"
  shows "stored_rows (sc_key s) b st = filter (\<lambda>e. te_append_id e = b) (scope_log (sc_scope_id s) st)"
proof -
  have "filter (\<lambda>e. te_append_id e = b \<and> exists_row (\<lambda>r. sc_scope_id r = te_scope_id e \<and> sc_key r = sc_key s) (tr_scopes st)) (tr_entries st) =
      filter (\<lambda>e. te_append_id e = b) (scope_log (sc_scope_id s) st)"
    by (simp add: scope_log_def of_scope [OF assms]) (auto intro: filter_cong)
  with scope_log_sorted [OF assms] show ?thesis
    by (simp add: stored_rows_def order_by_id sorted_map_filter)
qed

lemma entries_of_scope:
  assumes "scopes_ok st" and "s \<in> set (tr_scopes st)"
  shows "entries_of (\<lambda>r. sc_key r = sc_key s) st = map te_entry_json (scope_log (sc_scope_id s) st)"
proof -
  have f: "filter (\<lambda>e. exists_row (\<lambda>r. sc_scope_id r = te_scope_id e \<and> sc_key r = sc_key s) (tr_scopes st)) (tr_entries st) =
      scope_log (sc_scope_id s) st"
    by (simp add: scope_log_def of_scope [OF assms])
  have pairs: "map (\<lambda>e. (te_scope_id e, te_seq e)) (scope_log (sc_scope_id s) st) =
      map (Pair (sc_scope_id s)) (map te_seq (scope_log (sc_scope_id s) st))"
    by (simp add: scope_log_def)
  have "sorted (map (Pair i) (ns :: int list))" if "sorted ns" for i :: int and ns
    using that by (induction ns) auto
  then have "sorted (map (\<lambda>e. (te_scope_id e, te_seq e)) (scope_log (sc_scope_id s) st))"
    unfolding pairs using scope_log_sorted [OF assms] .
  with f show ?thesis by (simp add: entries_of_def order_by_id)
qed

text \<open>What a transcript says: the values of its entries, in order.\<close>

definition said :: "scope_key \<Rightarrow> transcripts \<Rightarrow> string list" where
  "said key st =
     (case first_row (\<lambda>s. sc_key s = key) (tr_scopes st) of
        None \<Rightarrow> [] | Some s \<Rightarrow> map te_entry_json (scope_log (sc_scope_id s) st))"

lemma said_scope:
  assumes "scopes_ok st" and "s \<in> set (tr_scopes st)"
  shows "said (sc_key s) st = map te_entry_json (scope_log (sc_scope_id s) st)"
  by (simp add: said_def find_scope [OF assms])

lemma entries_of_said:
  assumes "scopes_ok st"
  shows "entries_of (\<lambda>s. sc_key s = key) st = said key st"
proof (cases "first_row (\<lambda>s. sc_key s = key) (tr_scopes st)")
  case None
  then have "\<not> exists_row (\<lambda>s. sc_scope_id s = i \<and> sc_key s = key) (tr_scopes st)" for i
    by (auto simp: first_row_None_iff exists_row_iff)
  with None show ?thesis by (simp add: entries_of_def said_def order_by_def)
next
  case (Some s)
  then have "s \<in> set (tr_scopes st)" "sc_key s = key" by (auto dest: first_row_Some)
  with entries_of_scope [OF assms, of s] Some show ?thesis by (simp add: said_def)
qed

lemma printed_text: "dumps '', '' '': '' False v = printed '' '' False v"
  by (simp add: printed_def)

lemma loads_written: "json_ok v \<Longrightarrow> json_loads (dumps '', '' '': '' False v) = Inr v"
  unfolding printed_text by (rule json_loads_printed) (simp_all add: blank_def is_ws_def)

lemma rmap_map: "rmap f (map g xs) = rmap (\<lambda>x. f (g x)) xs"
  by (induction xs) simp_all

lemma loads_batch:
  "\<forall>v \<in> set vs. json_ok v \<Longrightarrow> rmap json_loads (map (dumps '', '' '': '' False) vs) = Inr vs"
  by (induction vs) (simp_all add: loads_written)

lemma rmap_append: "rmap f xs = Inr us \<Longrightarrow> rmap f ys = Inr vs \<Longrightarrow> rmap f (xs @ ys) = Inr (us @ vs)"
  by (induction xs arbitrary: us) (auto simp: rbind_Inr_iff)

lemma load_said: "scopes_ok st \<Longrightarrow>
  load_entries key st = (if said key st = [] then Inr None else rbind (rmap json_loads (said key st)) (\<lambda>vs. Inr (Some vs)))"
  by (simp add: load_entries_def entries_of_said Let_def)

section \<open>What an append does\<close>

lemma ensure_scope_ok:
  assumes "transcripts_ok st"
  shows "transcripts_ok (ensure_scope key now st)" and "\<exists>s \<in> set (tr_scopes (ensure_scope key now st)). sc_key s = key"
    and "said k (ensure_scope key now st) = said k st" and "tr_entries (ensure_scope key now st) = tr_entries st"
    and "set (tr_scopes st) \<subseteq> set (tr_scopes (ensure_scope key now st))" and "tr_db (ensure_scope key now st) = tr_db st"
    and "tr_index (ensure_scope key now st) = tr_index st"
proof -
  let ?n = "new_scope key now (tr_next_scope_id st)" and ?st = "ensure_scope key now st"
  have n: "sc_key ?n = key" "sc_scope_id ?n = tr_next_scope_id st" "sc_last_sequence ?n = 0"
    by (simp_all add: new_scope_def sc_key_def split: prod.split)
  show "tr_entries ?st = tr_entries st" "set (tr_scopes st) \<subseteq> set (tr_scopes ?st)" "tr_db ?st = tr_db st"
    "tr_index ?st = tr_index st"
    by (auto simp: ensure_scope_def)
  have fresh: "scope_log (tr_next_scope_id st) st = []"
    using assms by (fastforce simp: transcripts_ok_def scopes_ok_def entries_ok_def scope_log_def filter_empty_conv)
  show "\<exists>s \<in> set (tr_scopes ?st). sc_key s = key" using n by (auto simp: ensure_scope_def exists_row_iff)
  show "transcripts_ok ?st"
  proof (cases "exists_row (\<lambda>s. sc_key s = key) (tr_scopes st)")
    case True
    with assms show ?thesis by (simp add: ensure_scope_def)
  next
    case False
    have "scope_log i ?st = scope_log i st" for i by (simp add: ensure_scope_def scope_log_def)
    with False n fresh assms show ?thesis
      by (auto simp: transcripts_ok_def scopes_ok_def entries_ok_def ensure_scope_def exists_row_iff less_imp_neq)
  qed
  show "said k ?st = said k st"
  proof (cases "exists_row (\<lambda>s. sc_key s = key) (tr_scopes st)")
    case True
    then show ?thesis by (simp add: ensure_scope_def)
  next
    case False
    have log: "scope_log i ?st = scope_log i st" for i by (simp add: ensure_scope_def scope_log_def)
    from False have scopes: "tr_scopes ?st = tr_scopes st @ [?n]" by (simp add: ensure_scope_def)
    show ?thesis
    proof (cases "first_row (\<lambda>s. sc_key s = k) (tr_scopes st)")
      case None
      then show ?thesis unfolding said_def log scopes first_row_append using n fresh by auto
    next
      case (Some s)
      then show ?thesis unfolding said_def log scopes first_row_append by simp
    qed
  qed
qed

lemma batch_rows_log:
  "filter (\<lambda>e. te_scope_id e = i) (batch_rows sid first b texts) = (if i = sid then batch_rows sid first b texts else [])"
  by (auto simp: batch_rows_def filter_empty_conv filter_id_conv)

lemma batch_rows_texts: "map te_entry_json (batch_rows sid first b texts) = texts"
  by (simp add: batch_rows_def comp_def case_prod_unfold)

lemma batch_rows_seqs: "map te_seq (batch_rows sid first b texts) = [first..first + int (length texts) - 1]"
proof -
  have "map te_seq (batch_rows sid first b texts) = map (\<lambda>n. first + int n) [0..<length texts]"
    by (rule nth_equalityI) (simp_all add: batch_rows_def nth_enumerate_eq)
  also have "\<dots> = [first..first + int (length texts) - 1]"
    by (rule nth_equalityI) simp_all
  finally show ?thesis .
qed

lemma batch_rows_Nil [simp]: "batch_rows sid first b texts = [] \<longleftrightarrow> texts = []"
  by (simp add: batch_rows_def flip: length_0_conv)

lemma batch_rows_set: "e \<in> set (batch_rows sid first b texts) \<Longrightarrow> te_scope_id e = sid \<and> te_append_id e = b \<and> te_entry_json e \<in> set texts"
  by (auto simp: batch_rows_def in_set_enumerate_eq)

lemma batched_scopes:
  assumes "s' \<in> set (tr_scopes (batched sid scope b texts ek now st))"
  obtains s where "s \<in> set (tr_scopes st)" and "sc_scope_id s' = sc_scope_id s" and "sc_key s' = sc_key s"
    and "sc_last_sequence s' = (if sc_scope_id s = sc_scope_id scope then sc_last_sequence scope + int (length texts) else sc_last_sequence s)"
  using assms by (auto simp: batched_def set_update_where sc_key_def split: if_splits)

lemma batched_keys:
  "map sc_scope_id (tr_scopes (batched sid scope b texts ek now st)) = map sc_scope_id (tr_scopes st)"
  "map sc_key (tr_scopes (batched sid scope b texts ek now st)) = map sc_key (tr_scopes st)"
  by (simp_all add: batched_def sc_key_def map_update_where)

lemma batched_scope:
  assumes "s \<in> set (tr_scopes st)"
  obtains s' where "s' \<in> set (tr_scopes (batched sid scope b texts ek now st))"
    and "sc_scope_id s' = sc_scope_id s" and "sc_key s' = sc_key s"
proof -
  let ?rows = "tr_scopes (batched sid scope b texts ek now st)"
  from assms have "(sc_scope_id s, sc_key s) \<in> set (zip (map sc_scope_id ?rows) (map sc_key ?rows))"
    unfolding batched_keys by (auto simp: zip_map_map zip_same_conv_map)
  then show ?thesis by (auto simp: zip_map_map zip_same_conv_map intro: that)
qed

lemma batched_log:
  "scope_log i (batched sid scope b texts ek now st) = scope_log i st @
     (if i = sc_scope_id scope then batch_rows i (sc_last_sequence scope + 1) b texts else [])"
  by (auto simp: scope_log_def batched_def batch_rows_log)

lemma batched_ok:
  assumes ok: "transcripts_ok st" and scope: "scope \<in> set (tr_scopes st)"
    and texts: "\<forall>t \<in> set texts. \<exists>v. json_ok v \<and> t = dumps '', '' '': '' False v"
  shows "transcripts_ok (batched sid scope b texts ek now st)"
proof -
  let ?st = "batched sid scope b texts ek now st"
  have "sc_scope_id s' < tr_next_scope_id ?st \<and> 0 \<le> sc_last_sequence s' \<and>
      map te_seq (scope_log (sc_scope_id s') ?st) = [1..sc_last_sequence s']" if "s' \<in> set (tr_scopes ?st)" for s'
    using that
  proof (rule batched_scopes)
    fix s assume s: "s \<in> set (tr_scopes st)" and id: "sc_scope_id s' = sc_scope_id s"
      and seq: "sc_last_sequence s' = (if sc_scope_id s = sc_scope_id scope then sc_last_sequence scope + int (length texts) else sc_last_sequence s)"
    have next_id: "tr_next_scope_id ?st = tr_next_scope_id st" by (simp add: batched_def)
    from ok s have old: "sc_scope_id s < tr_next_scope_id st" "0 \<le> sc_last_sequence s"
        "map te_seq (scope_log (sc_scope_id s) st) = [1..sc_last_sequence s]"
      by (auto simp: transcripts_ok_def scopes_ok_def)
    show ?thesis
    proof (cases "sc_scope_id s = sc_scope_id scope")
      case True
      then have "s = scope" using scope_by_key(2) [of st s scope] ok s scope by (auto simp: transcripts_ok_def)
      moreover have "[1..sc_last_sequence scope] @ [sc_last_sequence scope + 1..sc_last_sequence scope + int (length texts)] =
          [1..sc_last_sequence scope + int (length texts)]"
        using old(2) \<open>s = scope\<close> by (intro upto_append) simp_all
      ultimately show ?thesis
        using old id seq next_id by (simp add: batched_log batch_rows_seqs)
    next
      case False
      with old id seq next_id show ?thesis by (simp add: batched_log)
    qed
  qed
  moreover have "entries_ok ?st"
    unfolding entries_ok_def
  proof (intro ballI)
    fix e assume "e \<in> set (tr_entries ?st)"
    then have "e \<in> set (tr_entries st) \<or> te_scope_id e = sc_scope_id scope \<and> te_entry_json e \<in> set texts"
      by (auto simp: batched_def dest: batch_rows_set)
    moreover have "sc_scope_id ` set (tr_scopes ?st) = sc_scope_id ` set (tr_scopes st)"
      using batched_keys(1) by (metis list.set_map)
    ultimately show "te_scope_id e \<in> sc_scope_id ` set (tr_scopes ?st) \<and> written e"
      using ok scope texts by (auto simp: transcripts_ok_def entries_ok_def written_def)
  qed
  ultimately show ?thesis using ok by (auto simp: transcripts_ok_def scopes_ok_def batched_keys)
qed

lemma batched_said:
  assumes "scopes_ok st" and "scope \<in> set (tr_scopes st)" and "scopes_ok (batched sid scope b texts ek now st)"
  shows "said key (batched sid scope b texts ek now st) = said key st @ (if key = sc_key scope then texts else [])"
proof -
  let ?st = "batched sid scope b texts ek now st"
  show ?thesis
  proof (cases "first_row (\<lambda>s. sc_key s = key) (tr_scopes st)")
    case None
    then have "key \<notin> sc_key ` set (tr_scopes st)" by (auto simp: first_row_None_iff)
    moreover from this have "key \<notin> sc_key ` set (tr_scopes ?st)" using batched_keys(2) by (metis list.set_map)
    ultimately show ?thesis using None assms(2) by (auto simp: said_def first_row_None_iff image_iff split: option.splits dest: first_row_Some)
  next
    case (Some s)
    then have s: "s \<in> set (tr_scopes st)" "sc_key s = key" by (auto dest: first_row_Some)
    then obtain s' where s': "s' \<in> set (tr_scopes ?st)" "sc_scope_id s' = sc_scope_id s" "sc_key s' = key"
      using batched_scope [of s st] by metis
    have "sc_scope_id s = sc_scope_id scope \<longleftrightarrow> key = sc_key scope"
      using scope_by_key [OF assms(1) s(1) assms(2)] s(2) by auto
    then show ?thesis using said_scope [OF assms(3) s'(1)] said_scope [OF assms(1) s(1)] s s'
      by (simp add: batched_log batch_rows_texts)
  qed
qed

lemma held_stored_rows:
  assumes "scopes_ok st" and "s \<in> set (tr_scopes st)"
  shows "held (sc_scope_id s) b st \<longleftrightarrow> stored_rows (sc_key s) b st \<noteq> []"
  by (auto simp: stored_rows_scope [OF assms] held_def exists_row_iff scope_log_def filter_empty_conv)

lemma store_batch_new:
  assumes "transcripts_ok st" and "exists_row (\<lambda>s. s_session_id s = fst key) (t_sessions (tr_db st))"
    and "stored_rows key b st = []"
  obtains scope where "scope \<in> set (tr_scopes (ensure_scope key now st))" and "sc_key scope = key"
    and "store_batch key b texts ek now st =
      Inr (Some (sc_last_sequence scope + int (length texts)), batched (fst key) scope b texts ek now (ensure_scope key now st))"
proof -
  let ?st = "ensure_scope key now st"
  note e = ensure_scope_ok [OF assms(1), where key = key and now = now]
  from e(2) obtain scope where s: "scope \<in> set (tr_scopes ?st)" "sc_key scope = key" by blast
  from e(1) have ok: "scopes_ok ?st" by (simp add: transcripts_ok_def)
  have "\<not> held (sc_scope_id scope) b ?st"
  proof
    assume h: "held (sc_scope_id scope) b ?st"
    then obtain x where x: "x \<in> set (tr_entries st)" "te_scope_id x = sc_scope_id scope" "te_append_id x = b"
      by (auto simp: held_def exists_row_iff e(4))
    with assms(1) obtain s0 where s0: "s0 \<in> set (tr_scopes st)" "sc_scope_id s0 = sc_scope_id scope"
      by (auto simp: transcripts_ok_def entries_ok_def)
    with e(5) scope_by_key(2) [OF ok _ s(1), of s0] have "s0 = scope" by auto
    with s0 s(2) x assms(1) have "x \<in> set (stored_rows key b st)"
      using stored_rows_scope [of st scope b] by (auto simp: transcripts_ok_def scope_log_def)
    with assms(3) show False by simp
  qed
  with assms(2) s find_scope [OF ok s(1)] have "store_batch key b texts ek now st =
      Inr (Some (sc_last_sequence scope + int (length texts)), batched (fst key) scope b texts ek now ?st)"
    by (simp add: store_batch_def Let_def)
  with s show ?thesis by (rule that)
qed

lemma store_batch_held:
  assumes "transcripts_ok st" and "exists_row (\<lambda>s. s_session_id s = fst (sc_key scope)) (t_sessions (tr_db st))"
    and "scope \<in> set (tr_scopes st)" and "stored_rows (sc_key scope) b st \<noteq> []"
  shows "store_batch (sc_key scope) b texts ek now st = Inr (None, st)"
proof -
  have "ensure_scope (sc_key scope) now st = st" using assms(3) by (auto simp: ensure_scope_def exists_row_iff)
  moreover have ok: "scopes_ok st" using assms(1) by (simp add: transcripts_ok_def)
  moreover have "held (sc_scope_id scope) b st" using assms(4) held_stored_rows [OF ok assms(3)] by simp
  ultimately show ?thesis using assms(2) by (simp add: store_batch_def Let_def find_scope [OF ok assms(3)])
qed

section \<open>All that happens to transcripts\<close>

text \<open>
  A step is an append of Python values or a turn of the index, of any reader and with any projector.
\<close>

inductive transcript_step :: "transcripts \<Rightarrow> transcripts \<Rightarrow> bool" where
  appends: "\<forall>v \<in> set entries. json_ok v \<Longrightarrow> snd (append_entries key entries append_id ek now st) = st' \<Longrightarrow> transcript_step st st'"
| advances: "snd (advance scope_id engine_kind target projector create st) = st' \<Longrightarrow> transcript_step st st'"

abbreviation transcript_runs :: "transcripts \<Rightarrow> transcripts \<Rightarrow> bool" where
  "transcript_runs \<equiv> transcript_step\<^sup>*\<^sup>*"

text \<open>What a step keeps: the entries stored, the scopes, and the batches as they are.\<close>

definition keeps :: "transcripts \<Rightarrow> transcripts \<Rightarrow> bool" where
  "keeps st st' \<longleftrightarrow>
     t_sessions (tr_db st') = t_sessions (tr_db st) \<and>
     (\<forall>s \<in> set (tr_scopes st). \<exists>s' \<in> set (tr_scopes st'). sc_scope_id s' = sc_scope_id s \<and> sc_key s' = sc_key s) \<and>
     (\<exists>new. tr_entries st' = tr_entries st @ new \<and>
        (\<forall>e \<in> set new. \<forall>o' \<in> set (tr_entries st). (te_scope_id e, te_append_id e) \<noteq> (te_scope_id o', te_append_id o')))"

lemma transcripts_kept_refl: "tr_entries st' = tr_entries st \<Longrightarrow> tr_scopes st' = tr_scopes st \<Longrightarrow> tr_db st' = tr_db st \<Longrightarrow> keeps st st'"
  by (auto simp: keeps_def)

lemma transcripts_kept_trans:
  assumes "keeps a b" and "keeps b c"
  shows "keeps a c"
proof -
  from assms obtain n1 n2 where n1: "tr_entries b = tr_entries a @ n1"
      "\<forall>e \<in> set n1. \<forall>o' \<in> set (tr_entries a). (te_scope_id e, te_append_id e) \<noteq> (te_scope_id o', te_append_id o')"
    and n2: "tr_entries c = tr_entries b @ n2"
      "\<forall>e \<in> set n2. \<forall>o' \<in> set (tr_entries b). (te_scope_id e, te_append_id e) \<noteq> (te_scope_id o', te_append_id o')"
    unfolding keeps_def by blast
  have "tr_entries c = tr_entries a @ (n1 @ n2)" using n1 n2 by simp
  moreover have "\<forall>e \<in> set (n1 @ n2). \<forall>o' \<in> set (tr_entries a). (te_scope_id e, te_append_id e) \<noteq> (te_scope_id o', te_append_id o')"
    using n1 n2 by auto
  moreover have "\<forall>s \<in> set (tr_scopes a). \<exists>s' \<in> set (tr_scopes c). sc_scope_id s' = sc_scope_id s \<and> sc_key s' = sc_key s"
    using assms unfolding keeps_def by metis
  moreover have "t_sessions (tr_db c) = t_sessions (tr_db a)" using assms by (simp add: keeps_def)
  ultimately show ?thesis unfolding keeps_def by blast
qed

lemma transaction_state: "snd (transaction work st) = st \<or> (\<exists>x. work st = Inr (x, snd (transaction work st)))"
  by (simp add: transaction_def split: sum.splits prod.splits)

lemma advance_frame:
  "tr_entries (snd (advance i k target pr create st)) = tr_entries st"
  "tr_scopes (snd (advance i k target pr create st)) = tr_scopes st"
  "tr_db (snd (advance i k target pr create st)) = tr_db st"
  "tr_next_scope_id (snd (advance i k target pr create st)) = tr_next_scope_id st"
proof -
  have work: "advance_work i k target pr create st = Inr (x, st') \<Longrightarrow>
      tr_entries st' = tr_entries st \<and> tr_scopes st' = tr_scopes st \<and> tr_db st' = tr_db st \<and> tr_next_scope_id st' = tr_next_scope_id st"
    for x st'
    by (auto simp: advance_work_def ensure_index_def Let_def rbind_Inr_iff split: option.splits if_splits)
  from transaction_state [of "advance_work i k target pr create" st] work
  show "tr_entries (snd (advance i k target pr create st)) = tr_entries st"
    "tr_scopes (snd (advance i k target pr create st)) = tr_scopes st"
    "tr_db (snd (advance i k target pr create st)) = tr_db st"
    "tr_next_scope_id (snd (advance i k target pr create st)) = tr_next_scope_id st"
    unfolding advance_def by metis+
qed

lemma batched_keeps:
  assumes "scope \<in> set (tr_scopes st)" and "\<not> held (sc_scope_id scope) b st"
  shows "keeps st (batched sid scope b texts ek now st)"
proof -
  let ?st = "batched sid scope b texts ek now st"
  have "\<exists>s' \<in> set (tr_scopes ?st). sc_scope_id s' = sc_scope_id s \<and> sc_key s' = sc_key s" if "s \<in> set (tr_scopes st)" for s
    using batched_scope [OF that] by metis
  moreover have "tr_entries ?st = tr_entries st @ batch_rows (sc_scope_id scope) (sc_last_sequence scope + 1) b texts"
    by (simp add: batched_def)
  moreover have "t_sessions (tr_db ?st) = t_sessions (tr_db st)" by (simp add: batched_def notify_def)
  moreover have "\<forall>e \<in> set (batch_rows (sc_scope_id scope) (sc_last_sequence scope + 1) b texts). \<forall>o' \<in> set (tr_entries st).
      (te_scope_id e, te_append_id e) \<noteq> (te_scope_id o', te_append_id o')"
    using assms(2) by (auto simp: held_def exists_row_iff dest!: batch_rows_set)
  ultimately show ?thesis unfolding keeps_def by blast
qed

lemma ensure_keeps: "transcripts_ok st \<Longrightarrow> keeps st (ensure_scope key now st)"
  using ensure_scope_ok [of st, where key = key and now = now] unfolding keeps_def by auto

lemma append_steps:
  assumes "transcripts_ok st" and "\<forall>v \<in> set entries. json_ok v"
  shows "transcripts_ok (snd (append_entries key entries append_id ek now st)) \<and>
    keeps st (snd (append_entries key entries append_id ek now st))"
proof -
  let ?b = "strip append_id" and ?texts = "map (dumps '', '' '': '' False) entries" and ?st1 = "ensure_scope key now st"
  have unchanged: "transcripts_ok st \<and> keeps st st" using assms(1) by (simp add: transcripts_kept_refl)
  have texts: "\<forall>t \<in> set ?texts. \<exists>v. json_ok v \<and> t = dumps '', '' '': '' False v" using assms(2) by auto
  have done': "transcripts_ok st' \<and> keeps st st'" if w: "store_batch key ?b ?texts ek now st = Inr (x, st')" for x st'
  proof -
    from w obtain scope where scope: "scope \<in> set (tr_scopes ?st1)" "sc_key scope = key"
      and st': "st' = ?st1 \<or> \<not> held (sc_scope_id scope) ?b ?st1 \<and> st' = batched (fst key) scope ?b ?texts ek now ?st1"
      by (auto simp: store_batch_def Let_def split: if_splits option.splits dest!: first_row_Some)
    from ensure_scope_ok(1) [OF assms(1)] have ok: "transcripts_ok ?st1" .
    with st' batched_ok [OF ok scope(1) texts] batched_keeps [OF scope(1), of ?b "fst key" ?texts ek now] show ?thesis
      using ensure_keeps [OF assms(1), of key now] transcripts_kept_trans by blast
  qed
  show ?thesis
  proof (cases "store_batch key ?b ?texts ek now st")
    case (Inl e)
    with unchanged show ?thesis by (simp add: append_entries_def Let_def)
  next
    case (Inr p)
    then obtain x st' where "store_batch key ?b ?texts ek now st = Inr (x, st')" by (cases p) auto
    with done' [OF this] unchanged show ?thesis by (simp add: append_entries_def Let_def split: option.splits)
  qed
qed

lemma transcript_step_keeps: "transcript_step st st' \<Longrightarrow> transcripts_ok st \<Longrightarrow> transcripts_ok st' \<and> keeps st st'"
proof (induction rule: transcript_step.induct)
  case (appends entries key append_id ek now st st')
  then show ?case using append_steps [of st entries key append_id ek now] by simp
next
  case (advances scope_id engine_kind target projector create st st')
  note f = advance_frame [of scope_id engine_kind target projector create st, unfolded advances.hyps]
  then have "scope_log i st' = scope_log i st" for i by (simp add: scope_log_def)
  with advances f show ?case
    by (auto simp: transcripts_ok_def scopes_ok_def entries_ok_def intro: transcripts_kept_refl)
qed

lemma transcript_runs_keep: "transcript_runs st st' \<Longrightarrow> transcripts_ok st \<Longrightarrow> transcripts_ok st' \<and> keeps st st'"
proof (induction rule: rtranclp_induct)
  case base
  then show ?case by (simp add: transcripts_kept_refl)
next
  case (step y z)
  then show ?case using transcript_step_keeps [of y z] transcripts_kept_trans by blast
qed

section \<open>A batch is stored once\<close>

lemma py_eq_refl: "json_ok v \<Longrightarrow> py_eq v v"
proof (induction v rule: json.induct)
  case (JList xs)
  then have "\<forall>x \<in> set xs. py_eq x x" by (auto simp: list_all_iff)
  then show ?case by (subst py_eq.simps) (auto simp: list_all_iff zip_same_conv_map)
next
  case (JObj d)
  then have "\<forall>kv \<in> set d. py_eq (snd kv) (snd kv)" and "distinct (map fst d)"
    by (auto simp: list_all_iff snds.simps)
  then have "case map_of d k of None \<Rightarrow> False | Some w \<Rightarrow> py_eq v w" if "(k, v) \<in> set d" for k v
    using that by (force simp: map_of_is_SomeI)
  then show ?case by (subst py_eq.simps) (auto simp: list_all_iff simp del: map_of_eq_Some_iff)
qed (subst py_eq.simps, simp)+

lemma py_eq_all_refl: "\<forall>v \<in> set vs. json_ok v \<Longrightarrow> list_all2 py_eq vs vs"
  by (induction vs) (auto intro: py_eq_refl)

text \<open>The rows of a batch, right after it was stored and in every later state.\<close>

lemma batched_rows:
  assumes "scopes_ok (batched sid scope b texts ek now st)" and "scope \<in> set (tr_scopes st)" and "\<not> held (sc_scope_id scope) b st"
  shows "stored_rows (sc_key scope) b (batched sid scope b texts ek now st) =
    batch_rows (sc_scope_id scope) (sc_last_sequence scope + 1) b texts"
proof -
  obtain s' where s': "s' \<in> set (tr_scopes (batched sid scope b texts ek now st))" "sc_scope_id s' = sc_scope_id scope" "sc_key s' = sc_key scope"
    using batched_scope [OF assms(2)] by metis
  have "filter (\<lambda>e. te_append_id e = b) (scope_log (sc_scope_id scope) st) = []"
    using assms(3) by (auto simp: held_def exists_row_iff scope_log_def filter_empty_conv)
  moreover have "filter (\<lambda>e. te_append_id e = b) (batch_rows i n b texts) = batch_rows i n b texts" for i n
    by (auto simp: filter_id_conv dest: batch_rows_set)
  ultimately show ?thesis using stored_rows_scope [OF assms(1) s'(1), of b] s' by (simp add: batched_log)
qed

lemma kept_scope:
  assumes "keeps st st'" and "s \<in> set (tr_scopes st)"
  obtains s' where "s' \<in> set (tr_scopes st')" and "sc_scope_id s' = sc_scope_id s" and "sc_key s' = sc_key s"
  using assms unfolding keeps_def by metis

lemma kept_rows:
  assumes "keeps st st'" and "scopes_ok st" and "scopes_ok st'" and "s \<in> set (tr_scopes st)"
    and "stored_rows (sc_key s) b st \<noteq> []"
  shows "stored_rows (sc_key s) b st' = stored_rows (sc_key s) b st"
proof -
  obtain s' where s': "s' \<in> set (tr_scopes st')" "sc_scope_id s' = sc_scope_id s" "sc_key s' = sc_key s"
    by (rule kept_scope [OF assms(1,4)])
  obtain new where new: "tr_entries st' = tr_entries st @ new"
    "\<forall>e \<in> set new. \<forall>o' \<in> set (tr_entries st). (te_scope_id e, te_append_id e) \<noteq> (te_scope_id o', te_append_id o')"
    using assms(1) unfolding keeps_def by blast
  obtain x where "x \<in> set (stored_rows (sc_key s) b st)" using assms(5) by (cases "stored_rows (sc_key s) b st") auto
  then have "x \<in> set (tr_entries st)" "te_scope_id x = sc_scope_id s" "te_append_id x = b"
    by (auto simp: stored_rows_scope [OF assms(2,4)] scope_log_def)
  with new(2) have "filter (\<lambda>e. te_append_id e = b) (filter (\<lambda>e. te_scope_id e = sc_scope_id s) new) = []"
    by (auto simp: filter_empty_conv)
  then have "filter (\<lambda>e. te_append_id e = b) (scope_log (sc_scope_id s) st') = filter (\<lambda>e. te_append_id e = b) (scope_log (sc_scope_id s) st)"
    unfolding scope_log_def new(1) filter_append by simp
  then show ?thesis
    using stored_rows_scope [OF assms(2,4), of b] stored_rows_scope [OF assms(3) s'(1), of b] s' by simp
qed

lemma kept_said:
  assumes "keeps st st'" and "scopes_ok st" and "scopes_ok st'" and "s \<in> set (tr_scopes st)"
  obtains later where "said (sc_key s) st' = said (sc_key s) st @ later"
    and "\<And>t. t \<in> set later \<Longrightarrow> t \<in> te_entry_json ` set (tr_entries st')"
proof -
  obtain s' where s': "s' \<in> set (tr_scopes st')" "sc_scope_id s' = sc_scope_id s" "sc_key s' = sc_key s"
    by (rule kept_scope [OF assms(1,4)])
  obtain new where "tr_entries st' = tr_entries st @ new" using assms(1) unfolding keeps_def by blast
  then show ?thesis
    using said_scope [OF assms(2,4)] said_scope [OF assms(3) s'(1)] s'
    by (intro that [of "map te_entry_json (filter (\<lambda>e. te_scope_id e = sc_scope_id s) new)"]) (auto simp: scope_log_def)
qed

lemma written_load:
  assumes "entries_ok st" and "\<And>t. t \<in> set ts \<Longrightarrow> t \<in> te_entry_json ` set (tr_entries st)"
  shows "\<exists>vs. rmap json_loads ts = Inr vs"
proof (rule rmap_total)
  fix t assume "t \<in> set ts"
  then obtain e where "e \<in> set (tr_entries st)" "t = te_entry_json e" using assms(2) by blast
  with assms(1) obtain v where "json_ok v" "t = dumps '', '' '': '' False v" by (auto simp: entries_ok_def written_def)
  then show "\<exists>v. json_loads t = Inr v" by (auto simp: loads_written)
qed

lemma said_written: "scopes_ok st \<Longrightarrow> t \<in> set (said key st) \<Longrightarrow> t \<in> te_entry_json ` set (tr_entries st)"
  by (auto simp: said_def scope_log_def split: option.splits)

text \<open>A batch sent again, with the same or with other entries.\<close>

lemma sent_again:
  assumes ok: "transcripts_ok st" and sess: "exists_row (\<lambda>s. s_session_id s = fst (sc_key scope)) (t_sessions (tr_db st))"
    and scope: "scope \<in> set (tr_scopes st)"
    and rows: "stored_rows (sc_key scope) (strip append_id) st = batch_rows i n (strip append_id) (map (dumps '', '' '': '' False) entries)"
    and blank: "strip append_id \<noteq> []" and entries: "entries \<noteq> []" "\<forall>v \<in> set entries. json_ok v" and other: "other \<noteq> []"
  shows "append_entries (sc_key scope) other append_id ek now st =
    (if list_all2 py_eq entries other then Inr (n + int (length entries) - 1) else Inl TranscriptBatchConflict, st)"
proof -
  let ?b = "strip append_id" and ?texts = "map (dumps '', '' '': '' False) entries"
  have ne: "stored_rows (sc_key scope) ?b st \<noteq> []" unfolding rows using entries(1) by simp
  have "rmap (\<lambda>row. json_loads (te_entry_json row)) (batch_rows i n ?b ?texts) = rmap json_loads (map te_entry_json (batch_rows i n ?b ?texts))"
    by (simp add: rmap_map)
  then have loads: "rmap (\<lambda>row. json_loads (te_entry_json row)) (batch_rows i n ?b ?texts) = Inr entries"
    by (simp add: batch_rows_texts loads_batch [OF entries(2)])
  have "te_seq (List.last (batch_rows i n ?b ?texts)) = List.last (map te_seq (batch_rows i n ?b ?texts))"
    using entries(1) by (simp add: last_map)
  also have "\<dots> = n + int (length entries) - 1"
    unfolding batch_rows_seqs using entries(1) by (cases entries) (simp_all add: last_conv_nth)
  finally have seq: "te_seq (List.last (batch_rows i n ?b ?texts)) = n + int (length entries) - 1" .
  have len: "length (batch_rows i n ?b ?texts) = length entries" by (simp add: batch_rows_def)
  have "stored_batch (sc_key scope) ?b other st =
      (if list_all2 py_eq entries other then Inr (n + int (length entries) - 1) else Inl TranscriptBatchConflict)"
    unfolding stored_batch_def rows Let_def loads len seq by (auto dest: list_all2_lengthD)
  with store_batch_held [OF ok sess scope ne] blank other show ?thesis by (simp add: append_entries_def Let_def)
qed

text \<open>The first time: the batch is stored under the next numbers.\<close>

lemma append_new:
  assumes "transcripts_ok st" and "exists_row (\<lambda>s. s_session_id s = fst key) (t_sessions (tr_db st))"
    and "stored_rows key (strip append_id) st = []" and "strip append_id \<noteq> []" and "entries \<noteq> []" and "\<forall>v \<in> set entries. json_ok v"
  obtains n st' s where "append_entries key entries append_id ek now st = (Inr n, st')"
    and "n = int (length (said key st)) + int (length entries)" and "s \<in> set (tr_scopes st')" and "sc_key s = key"
    and "stored_rows key (strip append_id) st' =
      batch_rows (sc_scope_id s) (n - int (length entries) + 1) (strip append_id) (map (dumps '', '' '': '' False) entries)"
    and "\<forall>k. said k st' = said k st @ (if k = key then map (dumps '', '' '': '' False) entries else [])"
proof -
  let ?b = "strip append_id" and ?texts = "map (dumps '', '' '': '' False) entries" and ?st1 = "ensure_scope key now st"
  obtain scope where scope: "scope \<in> set (tr_scopes ?st1)" "sc_key scope = key"
    and w: "store_batch key ?b ?texts ek now st =
      Inr (Some (sc_last_sequence scope + int (length ?texts)), batched (fst key) scope ?b ?texts ek now ?st1)"
    by (rule store_batch_new [OF assms(1,2,3)])
  let ?st' = "batched (fst key) scope ?b ?texts ek now ?st1"
  from w assms(4,5) have a: "append_entries key entries append_id ek now st = (Inr (sc_last_sequence scope + int (length entries)), ?st')"
    by (simp add: append_entries_def Let_def)
  have ok1: "transcripts_ok ?st1" by (rule ensure_scope_ok(1) [OF assms(1)])
  then have s1: "scopes_ok ?st1" by (simp add: transcripts_ok_def)
  have "transcripts_ok ?st'" using append_steps [OF assms(1,6), of key append_id ek now] a by simp
  then have s': "scopes_ok ?st'" by (simp add: transcripts_ok_def)
  have free: "\<not> held (sc_scope_id scope) ?b ?st1" using w scope s1
    by (auto simp: store_batch_def Let_def find_scope split: if_splits option.splits)
  have "int (length (said key ?st1)) = sc_last_sequence scope"
  proof -
    have "length (map te_seq (scope_log (sc_scope_id scope) ?st1)) = length [1..sc_last_sequence scope]" "0 \<le> sc_last_sequence scope"
      using s1 scope(1) by (simp_all add: scopes_ok_def del: length_map)
    then show ?thesis using said_scope [OF s1 scope(1)] scope(2) by simp
  qed
  then have n: "sc_last_sequence scope = int (length (said key st))" by (simp add: ensure_scope_ok(3) [OF assms(1)])
  obtain s where s: "s \<in> set (tr_scopes ?st')" "sc_scope_id s = sc_scope_id scope" "sc_key s = sc_key scope"
    using batched_scope [OF scope(1)] by metis
  show ?thesis
  proof (rule that [OF a _ s(1)])
    show "sc_last_sequence scope + int (length entries) = int (length (said key st)) + int (length entries)" using n by simp
    show "sc_key s = key" using s scope by simp
    show "stored_rows key ?b ?st' = batch_rows (sc_scope_id s) (sc_last_sequence scope + int (length entries) - int (length entries) + 1) ?b ?texts"
      using batched_rows [OF s' scope(1) free] s scope by simp
    show "\<forall>k. said k ?st' = said k st @ (if k = key then ?texts else [])"
      using batched_said [OF s1 scope(1) s'] scope by (simp add: ensure_scope_ok(3) [OF assms(1)])
  qed
qed

lemma loaded_said:
  assumes "transcripts_ok st" and "load_entries key st = Inr before"
  shows "rmap json_loads (said key st) = Inr (coalesce before [])" and "length (said key st) = length (coalesce before [])"
proof -
  show r: "rmap json_loads (said key st) = Inr (coalesce before [])"
    using assms by (auto simp: load_said transcripts_ok_def rbind_Inr_iff coalesce_def split: if_splits)
  show "length (said key st) = length (coalesce before [])" using rmap_length [OF r] by simp
qed

text \<open>And ever after: it stays where it is and is answered the same.\<close>

lemma batch_stays:
  assumes ok: "transcripts_ok st" and s: "s \<in> set (tr_scopes st)" "sc_key s = key"
    and rows: "stored_rows key (strip append_id) st =
      batch_rows (sc_scope_id s) (n - int (length entries) + 1) (strip append_id) (map (dumps '', '' '': '' False) entries)"
    and new: "strip append_id \<noteq> []" "entries \<noteq> []" "\<forall>v \<in> set entries. json_ok v"
    and sess: "exists_row (\<lambda>s. s_session_id s = fst key) (t_sessions (tr_db st))"
    and loaded: "rmap json_loads (said key st) = Inr (vs @ entries)" and run: "transcript_runs st st'"
  shows "(\<exists>later. load_entries key st' = Inr (Some (vs @ entries @ later))) \<and>
    (\<forall>other ek now. other \<noteq> [] \<longrightarrow> append_entries key other append_id ek now st' =
       (if list_all2 py_eq entries other then Inr n else Inl TranscriptBatchConflict, st'))"
proof -
  have ok': "transcripts_ok st'" and kept: "keeps st st'" using transcript_runs_keep [OF run ok] by auto
  from ok ok' have so: "scopes_ok st" "scopes_ok st'" "entries_ok st'" by (simp_all add: transcripts_ok_def)
  obtain s' where s': "s' \<in> set (tr_scopes st')" "sc_key s' = key" using kept_scope [OF kept s(1)] s(2) by metis
  have rows': "stored_rows key (strip append_id) st' =
      batch_rows (sc_scope_id s) (n - int (length entries) + 1) (strip append_id) (map (dumps '', '' '': '' False) entries)"
    using kept_rows [OF kept so(1,2) s(1), of "strip append_id"] rows new(2) s(2) by simp
  have sess': "exists_row (\<lambda>r. s_session_id r = fst (sc_key s')) (t_sessions (tr_db st'))"
    using sess kept s'(2) by (simp add: keeps_def)
  obtain later where later: "said key st' = said key st @ later" "\<And>t. t \<in> set later \<Longrightarrow> t \<in> te_entry_json ` set (tr_entries st')"
    using kept_said [OF kept so(1,2) s(1)] s(2) by metis
  obtain ws where "rmap json_loads later = Inr ws" using written_load [OF so(3) later(2)] by blast
  then have "rmap json_loads (said key st') = Inr (vs @ entries @ ws)"
    unfolding later(1) using rmap_append [OF loaded] by simp
  moreover from this have "said key st' \<noteq> []" using new(2) by auto
  ultimately have "load_entries key st' = Inr (Some (vs @ entries @ ws))" by (simp add: load_said [OF so(2)])
  moreover have "append_entries key other append_id ek now st' =
      (if list_all2 py_eq entries other then Inr n else Inl TranscriptBatchConflict, st')" if "other \<noteq> []" for other ek now
    using sent_again [OF ok' sess' s'(1) _ new that] rows' s'(2) by simp
  ultimately show ?thesis by blast
qed

text \<open>
  C23. A batch of transcript entries is stored once, whole and in place: stored under the numbers
  after those of its transcript, it reads back as the values that were sent, and no other
  transcript changes. Whatever is appended or indexed later, it stays where it is; sent again under
  its name it answers the same position and writes nothing, and other entries under its name are
  refused and write nothing.
\<close>

theorem batch_is_stored_once:
  assumes "transcript_runs (no_transcripts db) st"
    and "exists_row (\<lambda>s. s_session_id s = fst key) (t_sessions db)"
    and "stored_rows key (strip append_id) st = []" and "strip append_id \<noteq> []"
    and "entries \<noteq> []" and "\<forall>v \<in> set entries. json_ok v" and "load_entries key st = Inr before"
  shows "\<exists>n st'. append_entries key entries append_id ek now st = (Inr n, st') \<and>
    n = int (length (coalesce before [] @ entries)) \<and>
    load_entries key st' = Inr (Some (coalesce before [] @ entries)) \<and>
    (\<forall>k. k \<noteq> key \<longrightarrow> load_entries k st' = load_entries k st) \<and>
    (\<forall>st''. transcript_runs st' st'' \<longrightarrow>
       (\<exists>later. load_entries key st'' = Inr (Some (coalesce before [] @ entries @ later))) \<and>
       (\<forall>other ek' now'. other \<noteq> [] \<longrightarrow> append_entries key other append_id ek' now' st'' =
          (if list_all2 py_eq entries other then Inr n else Inl TranscriptBatchConflict, st'')))"
proof -
  let ?texts = "map (dumps '', '' '': '' False) entries"
  have ok: "transcripts_ok st" and kept: "keeps (no_transcripts db) st"
    using transcript_runs_keep [OF assms(1) no_transcripts_ok] by auto
  from kept have "t_sessions (tr_db st) = t_sessions db" by (simp add: keeps_def no_transcripts_def)
  with assms(2) have sess: "exists_row (\<lambda>s. s_session_id s = fst key) (t_sessions (tr_db st))" by simp
  obtain n st' s where a: "append_entries key entries append_id ek now st = (Inr n, st')"
    and n: "n = int (length (said key st)) + int (length entries)" and s: "s \<in> set (tr_scopes st')" "sc_key s = key"
    and rows: "stored_rows key (strip append_id) st' = batch_rows (sc_scope_id s) (n - int (length entries) + 1) (strip append_id) ?texts"
    and "\<forall>k. said k st' = said k st @ (if k = key then ?texts else [])"
    by (rule append_new [OF ok sess assms(3,4,5,6), where ek = ek and now = now])
  then have said: "said k st' = said k st @ (if k = key then ?texts else [])" for k by blast
  have st': "transcripts_ok st'" "keeps st st'" using append_steps [OF ok assms(6), of key append_id ek now] a by simp_all
  note old = loaded_said [OF ok assms(7)]
  have now': "rmap json_loads (said key st') = Inr (coalesce before [] @ entries)"
    unfolding said by (simp add: rmap_append [OF old(1) loads_batch [OF assms(6)]])
  have "load_entries key st' = Inr (Some (coalesce before [] @ entries))"
    using st'(1) now' said [of key] assms(5) by (simp add: load_said transcripts_ok_def)
  moreover have "load_entries k st' = load_entries k st" if "k \<noteq> key" for k
    using that ok st'(1) said [of k] by (simp add: load_said transcripts_ok_def)
  moreover note batch_stays [OF st'(1) s rows assms(4,5,6) _ now']
  moreover have "exists_row (\<lambda>s. s_session_id s = fst key) (t_sessions (tr_db st'))" using sess st'(2) by (simp add: keeps_def)
  ultimately show ?thesis using a n old(2) by (intro exI [of _ n] exI [of _ st']) auto
qed

definition sample_key :: scope_key where
  "sample_key = scope_key ''s'' ''p'' ''n'' None"

definition sample_line :: json where
  "sample_line = JObj [(''type'', JStr ''user'')]"

theorem batch_is_stored_once_witness:
  "\<exists>n st'. append_entries sample_key [sample_line] ''b1'' None 5 (no_transcripts sample_db) = (Inr n, st') \<and>
    n = 1 \<and> load_entries sample_key st' = Inr (Some [sample_line])"
proof -
  have "exists_row (\<lambda>s. s_session_id s = fst sample_key) (t_sessions sample_db)"
    "stored_rows sample_key (strip ''b1'') (no_transcripts sample_db) = []" "strip ''b1'' \<noteq> []"
    "json_ok sample_line" "load_entries sample_key (no_transcripts sample_db) = Inr None"
    by code_simp+
  then show ?thesis
    using batch_is_stored_once [of sample_db "no_transcripts sample_db" sample_key "''b1''" "[sample_line]" None None 5]
    by (fastforce simp: coalesce_def)
qed

section \<open>The index reads every entry once\<close>

text \<open>What a projector made of the entries it was given, page by page in order.\<close>

inductive projected_through :: "projector \<Rightarrow> json list \<Rightarrow> json list \<Rightarrow> bool" for projector where
  nothing: "projected_through projector [] []"
| page: "projected_through projector p xs \<Longrightarrow> projector p ys = Inr q \<Longrightarrow> projected_through projector q (xs @ ys)"

text \<open>Appends and turns of the index, where the index of an engine is always written with that engine's projector.\<close>

inductive index_step :: "(string \<Rightarrow> projector) \<Rightarrow> transcripts \<Rightarrow> transcripts \<Rightarrow> bool" for projectors where
  appended: "\<forall>v \<in> set entries. json_ok v \<Longrightarrow> snd (append_entries key entries append_id ek now st) = st' \<Longrightarrow> index_step projectors st st'"
| advanced: "snd (advance scope_id engine_kind target (projectors engine_kind) create st) = st' \<Longrightarrow> index_step projectors st st'"

lemma index_step_transcript: "index_step projectors st st' \<Longrightarrow> transcript_step st st'"
  by (induction rule: index_step.induct) (auto intro: transcript_step.intros)

definition position_right :: "projector \<Rightarrow> int \<Rightarrow> int \<Rightarrow> json list \<Rightarrow> transcripts \<Rightarrow> bool" where
  "position_right projector scope_id cursor projected st \<longleftrightarrow>
     0 \<le> cursor \<and> cursor \<le> int (length (scope_log scope_id st)) \<and>
     (\<exists>vs. rmap json_loads (map te_entry_json (take (nat cursor) (scope_log scope_id st))) = Inr vs \<and>
        projected_through projector projected vs)"

definition index_right :: "(string \<Rightarrow> projector) \<Rightarrow> transcripts \<Rightarrow> bool" where
  "index_right projectors st \<longleftrightarrow>
     distinct (map (\<lambda>i. (ti_scope_id i, ti_engine_kind i)) (tr_index st)) \<and>
     (\<forall>i \<in> set (tr_index st). position_right (projectors (ti_engine_kind i)) (ti_scope_id i) (ti_through_seq i) (ti_entries i) st)"

lemma position_start: "position_right projector scope_id 0 [] st"
  by (simp add: position_right_def projected_through.nothing)

lemma position_grows:
  assumes "scope_log scope_id st' = scope_log scope_id st @ new" and "position_right projector scope_id c p st"
  shows "position_right projector scope_id c p st'"
proof -
  from assms(2) have "nat c \<le> length (scope_log scope_id st)" by (auto simp: position_right_def)
  then have same: "take (nat c) (scope_log scope_id st') = take (nat c) (scope_log scope_id st)" by (simp add: assms(1))
  show ?thesis unfolding position_right_def same using assms(2) by (auto simp: position_right_def assms(1))
qed

lemma log_numbered:
  assumes "transcripts_ok st"
  shows "map te_seq (scope_log i st) = [1..int (length (scope_log i st))]"
proof (cases "i \<in> sc_scope_id ` set (tr_scopes st)")
  case True
  then obtain s where s: "s \<in> set (tr_scopes st)" "i = sc_scope_id s" by auto
  with assms have n: "map te_seq (scope_log i st) = [1..sc_last_sequence s]" "0 \<le> sc_last_sequence s"
    by (auto simp: transcripts_ok_def scopes_ok_def)
  then have "length (scope_log i st) = nat (sc_last_sequence s)" using length_map [of te_seq "scope_log i st"] by simp
  with n show ?thesis by simp
next
  case False
  with assms have "scope_log i st = []" by (auto simp: transcripts_ok_def entries_ok_def scope_log_def filter_empty_conv)
  then show ?thesis by simp
qed

lemma filter_upto:
  assumes "map f xs = [a..b]"
  shows "filter (\<lambda>x. c < f x) xs = drop (nat (c - a + 1)) xs" and "filter (\<lambda>x. f x \<le> c) xs = take (nat (c - a + 1)) xs"
proof -
  have "filter (\<lambda>x. c < f x) xs = drop (nat (c - a + 1)) xs \<and> filter (\<lambda>x. f x \<le> c) xs = take (nat (c - a + 1)) xs"
    using assms
  proof (induction xs arbitrary: a)
    case (Cons x xs)
    then have ab: "a \<le> b" by (cases "a \<le> b") simp_all
    with Cons.prems have x: "f x = a" "map f xs = [a + 1..b]" by (simp_all add: upto.simps [of a b])
    note IH = Cons.IH [OF x(2)]
    show ?case
    proof (cases "c < a")
      case True
      with IH x show ?thesis by simp
    next
      case False
      then have "nat (c - a + 1) = Suc (nat (c - (a + 1) + 1))" by simp
      with IH x False show ?thesis by simp
    qed
  qed simp
  then show "filter (\<lambda>x. c < f x) xs = drop (nat (c - a + 1)) xs" "filter (\<lambda>x. f x \<le> c) xs = take (nat (c - a + 1)) xs" by simp_all
qed

lemma index_page_log:
  assumes "transcripts_ok st" and "0 \<le> cursor"
  shows "index_page i cursor target st = take PAGE_SIZE (drop (nat cursor) (take (nat target) (scope_log i st)))"
proof -
  let ?log = "scope_log i st"
  note num = log_numbered [OF assms(1), of i]
  have cut: "take (nat target) ?log = filter (\<lambda>e. te_seq e \<le> target) ?log" using filter_upto(2) [OF num, of target] by simp
  have "map te_seq (take (nat target) ?log) = take (nat target) [1..int (length ?log)]" by (simp add: num flip: take_map)
  also have "\<dots> = [1..min (max target 0) (int (length ?log))]"
    by (rule nth_equalityI) (auto simp: nth_upto)
  finally have "drop (nat cursor) (take (nat target) ?log) = filter (\<lambda>e. cursor < te_seq e) (take (nat target) ?log)"
    using filter_upto(1) [of te_seq "take (nat target) ?log" 1 _ cursor] by simp
  also have "\<dots> = filter (\<lambda>e. te_scope_id e = i \<and> cursor < te_seq e \<and> te_seq e \<le> target) (tr_entries st)"
    unfolding cut by (auto simp: scope_log_def intro: filter_cong)
  finally have f: "filter (\<lambda>e. te_scope_id e = i \<and> cursor < te_seq e \<and> te_seq e \<le> target) (tr_entries st) =
      drop (nat cursor) (take (nat target) ?log)" by simp
  have "sorted (map te_seq ?log)" unfolding num by simp
  then have "sorted (map te_seq (drop (nat cursor) (take (nat target) ?log)))"
    by (simp add: sorted_wrt_drop sorted_wrt_take flip: drop_map take_map)
  with f show ?thesis by (simp add: index_page_def order_by_id)
qed

lemma index_row_found:
  assumes "index_right projectors st" and "first_row (index_of_scope i k) (tr_index st) = Some r"
  shows "position_right (projectors k) i (ti_through_seq r) (ti_entries r) st"
  using assms by (auto simp: index_right_def index_of_scope_def dest!: first_row_Some)

lemma ensure_index_right:
  assumes "index_right projectors st"
  shows "index_right projectors (ensure_index i k st)" and "\<exists>r. first_row (index_of_scope i k) (tr_index (ensure_index i k st)) = Some r"
proof -
  let ?new = "\<lparr>ti_scope_id = i, ti_engine_kind = k, ti_through_seq = 0, ti_entries = []\<rparr>"
  have log: "scope_log j (ensure_index i k st) = scope_log j st" for j by (simp add: ensure_index_def scope_log_def)
  have pos: "position_right pr j c p (ensure_index i k st) = position_right pr j c p st" for pr j c p
    by (simp add: position_right_def log)
  have keys: "distinct (map (\<lambda>i. (ti_scope_id i, ti_engine_kind i)) (tr_index (ensure_index i k st)))"
    using assms by (simp add: index_right_def ensure_index_def distinct_map_insert_absent)
  have "position_right (projectors (ti_engine_kind r)) (ti_scope_id r) (ti_through_seq r) (ti_entries r) st"
    if "r \<in> set (tr_index (ensure_index i k st))" for r
    using that assms position_start [of "projectors k" i st]
    by (auto simp: ensure_index_def set_insert_absent index_right_def split: if_splits)
  then show "index_right projectors (ensure_index i k st)" unfolding index_right_def pos using keys by blast
  have "\<exists>r \<in> set (tr_index (ensure_index i k st)). index_of_scope i k r"
    by (auto simp: ensure_index_def set_insert_absent index_of_scope_def split: if_splits)
  then show "\<exists>r. first_row (index_of_scope i k) (tr_index (ensure_index i k st)) = Some r"
    by (cases "first_row (index_of_scope i k) (tr_index (ensure_index i k st))") (auto simp: first_row_None_iff)
qed

text \<open>A page taken from where the index stands moves it on by the page.\<close>

lemma page_moves_on:
  assumes ok: "transcripts_ok st" and pos: "position_right projector i c p st"
    and page: "page = index_page i c target st" "page \<noteq> []"
    and pr: "project_page projector p (map te_entry_json page) = Inr q"
  shows "position_right projector i (te_seq (List.last page)) q st" and "c < te_seq (List.last page)"
    and "te_seq (List.last page) \<le> target"
proof -
  let ?log = "scope_log i st"
  from pos have c: "0 \<le> c" "c \<le> int (length ?log)" by (auto simp: position_right_def)
  note pg = index_page_log [OF ok c(1), of i target]
  define m where "m = length page"
  have m: "0 < m" "nat c + m \<le> length ?log" "nat c + m \<le> nat target"
    using page unfolding m_def pg by (auto simp: min_def split: if_splits)
  have "page = take m (drop (nat c) ?log)"
  proof -
    have "drop (nat c) (take (nat target) ?log) = take (nat target - nat c) (drop (nat c) ?log)" by (simp add: drop_take)
    then have "page = take (min PAGE_SIZE (nat target - nat c)) (drop (nat c) ?log)" using page(1) unfolding pg by simp
    then show ?thesis using m_def by (simp add: min_def split: if_splits)
  qed
  then have split: "take (nat c + m) ?log = take (nat c) ?log @ page" by (simp add: take_add)
  have "List.last page = ?log ! (nat c + m - 1)"
  proof -
    have "List.last page = List.last (take (nat c + m) ?log)" using page(2) by (simp add: split)
    also have "\<dots> = ?log ! (nat c + m - 1)" using m by (subst last_conv_nth) auto
    finally show ?thesis .
  qed
  moreover have "te_seq (?log ! (nat c + m - 1)) = map te_seq ?log ! (nat c + m - 1)" using m by simp
  ultimately have seq: "te_seq (List.last page) = c + int m"
    using m c unfolding log_numbered [OF ok, of i] by simp
  from pr obtain ys where ys: "rmap json_loads (map te_entry_json page) = Inr ys" "projector p ys = Inr q"
    by (auto simp: project_page_def rbind_Inr_iff)
  from pos obtain xs where xs: "rmap json_loads (map te_entry_json (take (nat c) ?log)) = Inr xs" "projected_through projector p xs"
    by (auto simp: position_right_def)
  have "nat (c + int m) = nat c + m" using c by simp
  then have "rmap json_loads (map te_entry_json (take (nat (c + int m)) ?log)) = Inr (xs @ ys)"
    using rmap_append [OF xs(1) ys(1)] by (simp add: split)
  with projected_through.page [OF xs(2) ys(2)] m c show "position_right projector i (te_seq (List.last page)) q st"
    unfolding seq position_right_def by auto
  show "c < te_seq (List.last page)" "te_seq (List.last page) \<le> target" using m c seq by auto
qed

lemma advance_work_right:
  assumes ok: "transcripts_ok st" and right: "index_right projectors st"
    and w: "advance_work i k target (projectors k) create st = Inr ((c, p), st')"
  shows "index_right projectors st'" and "position_right (projectors k) i c p st'"
    and "\<exists>r. first_row (index_of_scope i k) (tr_index st') = Some r \<and> ti_through_seq r = c"
    and "target \<le> c \<or> (\<forall>r. first_row (index_of_scope i k) (tr_index st) = Some r \<longrightarrow> ti_through_seq r < c) \<and> 0 < c"
proof -
  define st1 where "st1 = (if create then ensure_index i k st else st)"
  have log: "scope_log j st1 = scope_log j st" for j by (simp add: st1_def ensure_index_def scope_log_def)
  have r1: "index_right projectors st1" using right ensure_index_right(1) by (simp add: st1_def)
  have "transcripts_ok st1"
    using ok by (simp add: st1_def ensure_index_def transcripts_ok_def scopes_ok_def entries_ok_def scope_log_def)
  from w obtain r where r: "first_row (index_of_scope i k) (tr_index st1) = Some r"
    by (auto simp: advance_work_def Let_def st1_def split: option.splits)
  have pos: "position_right (projectors k) i (ti_through_seq r) (ti_entries r) st1" by (rule index_row_found [OF r1 r])
  have before: "ti_through_seq r0 = ti_through_seq r" if "first_row (index_of_scope i k) (tr_index st) = Some r0" for r0
    using that r by (auto simp: st1_def ensure_index_def insert_absent_def first_row_append split: if_splits)
  let ?page = "index_page i (ti_through_seq r) target st1"
  consider "target \<le> ti_through_seq r" "c = ti_through_seq r" "p = ti_entries r" "st' = st1"
    | "\<not> target \<le> ti_through_seq r" "?page \<noteq> []" "project_page (projectors k) (ti_entries r) (map te_entry_json ?page) = Inr p"
      "c = te_seq (List.last ?page)"
      "st' = st1\<lparr>tr_index := update_where (index_of_scope i k) (\<lambda>i. i\<lparr>ti_through_seq := c, ti_entries := p\<rparr>) (tr_index st1)\<rparr>"
    using w r by (auto simp: advance_work_def Let_def rbind_Inr_iff simp flip: st1_def split: if_splits)
  then have "index_right projectors st' \<and> position_right (projectors k) i c p st' \<and>
      (\<exists>r. first_row (index_of_scope i k) (tr_index st') = Some r \<and> ti_through_seq r = c) \<and>
      (target \<le> c \<or> ti_through_seq r < c \<and> 0 < c)"
  proof cases
    case 1
    with r1 pos r show ?thesis by simp
  next
    case 2
    note moved = page_moves_on [OF \<open>transcripts_ok st1\<close> pos refl 2(2,3), folded 2(4)]
    have same: "position_right pr j a b st' = position_right pr j a b st1" for pr j a b
      by (simp add: position_right_def scope_log_def 2(5))
    have keys: "map (\<lambda>i. (ti_scope_id i, ti_engine_kind i)) (tr_index st') = map (\<lambda>i. (ti_scope_id i, ti_engine_kind i)) (tr_index st1)"
      by (simp add: 2(5) map_update_where)
    have "position_right (projectors (ti_engine_kind x)) (ti_scope_id x) (ti_through_seq x) (ti_entries x) st1" if "x \<in> set (tr_index st')" for x
      using that r1 moved(1) by (auto simp: 2(5) set_update_where index_right_def index_of_scope_def split: if_splits)
    then have "index_right projectors st'" unfolding index_right_def same keys using r1 by (simp add: index_right_def)
    moreover have "first_row p (update_where p f xs) = map_option f (first_row p xs)" if "\<And>x. p (f x) = p x" for p f and xs :: "index_row list"
      using that by (induction xs) auto
    then have "first_row (index_of_scope i k) (tr_index st') = Some (r\<lparr>ti_through_seq := c, ti_entries := p\<rparr>)"
      using r by (simp add: 2(5) index_of_scope_def [abs_def])
    moreover have "0 \<le> ti_through_seq r" using pos by (simp add: position_right_def)
    ultimately show ?thesis using moved same by auto
  qed
  with before show "index_right projectors st'" "position_right (projectors k) i c p st'"
    "\<exists>r. first_row (index_of_scope i k) (tr_index st') = Some r \<and> ti_through_seq r = c"
    "target \<le> c \<or> (\<forall>r. first_row (index_of_scope i k) (tr_index st) = Some r \<longrightarrow> ti_through_seq r < c) \<and> 0 < c"
    by auto
qed

definition indexes_ok :: "(string \<Rightarrow> projector) \<Rightarrow> transcripts \<Rightarrow> bool" where
  "indexes_ok projectors st \<longleftrightarrow> transcripts_ok st \<and> index_right projectors st"

lemma advance_keeps_ok: "transcripts_ok st \<Longrightarrow> transcripts_ok (snd (advance i k target pr create st))"
  using transcript_step_keeps [OF transcript_step.advances [OF refl]] by blast

lemma advance_right:
  assumes "indexes_ok projectors st"
  shows "indexes_ok projectors (snd (advance i k target (projectors k) create st))"
proof -
  let ?st = "snd (advance i k target (projectors k) create st)"
  have "index_right projectors ?st"
  proof (cases "\<exists>x. advance_work i k target (projectors k) create st = Inr (x, ?st)")
    case True
    then obtain c p where "advance_work i k target (projectors k) create st = Inr ((c, p), ?st)" by auto
    with assms show ?thesis unfolding indexes_ok_def by (metis advance_work_right(1))
  next
    case False
    with transaction_state [of "advance_work i k target (projectors k) create" st] have "?st = st"
      unfolding advance_def by metis
    then show ?thesis using assms by (simp add: indexes_ok_def)
  qed
  with assms show ?thesis by (simp add: indexes_ok_def advance_keeps_ok)
qed

lemma append_index: "tr_index (snd (append_entries key entries append_id ek now st)) = tr_index st"
proof -
  have "tr_index st' = tr_index st" if "store_batch key b texts ek now st = Inr (x, st')" for b texts x st'
    using that by (auto simp: store_batch_def Let_def batched_def ensure_scope_def split: if_splits option.splits)
  then show ?thesis
    using transaction_state [of "store_batch key (strip append_id) (map (dumps '', '' '': '' False) entries) ek now" st]
    by (auto simp: append_entries_def Let_def split: prod.splits sum.splits option.splits)
qed

lemma index_runs_ok: "(index_step projectors)\<^sup>*\<^sup>* (no_transcripts db) st \<Longrightarrow> indexes_ok projectors st"
proof (induction rule: rtranclp_induct)
  case base
  then show ?case by (simp add: indexes_ok_def no_transcripts_ok index_right_def) (simp add: no_transcripts_def)
next
  case (step y z)
  from step(2,3) show ?case
  proof (induction rule: index_step.induct)
    case (appended entries key append_id ek now st st')
    have k: "transcripts_ok st' \<and> keeps st st'"
      using append_steps [of st entries key append_id ek now] appended by (simp add: indexes_ok_def)
    then obtain new where "tr_entries st' = tr_entries st @ new" by (auto simp: keeps_def)
    then have log: "scope_log i st' = scope_log i st @ filter (\<lambda>e. te_scope_id e = i) new" for i by (simp add: scope_log_def)
    have "tr_index st' = tr_index st" using append_index [of key entries append_id ek now st] appended by simp
    with appended(3) position_grows [OF log] k show ?case by (auto simp: indexes_ok_def index_right_def)
  next
    case (advanced scope_id engine_kind target create st st')
    then show ?case using advance_right by blast
  qed
qed

lemma catch_up_right:
  assumes "indexes_ok projectors st" and "\<And>c. cursor = Some c \<Longrightarrow> position_right (projectors k) i c p st"
    and "catch_up n i k target (projectors k) cursor p st = Some (res, st')"
  shows "indexes_ok projectors st' \<and> tr_entries st' = tr_entries st \<and> tr_scopes st' = tr_scopes st \<and>
    (\<forall>q. res = Inr q \<longrightarrow> (\<exists>c. target \<le> c \<and> position_right (projectors k) i c q st))"
  using assms
proof (induction n arbitrary: cursor p st)
  case 0
  then show ?case by simp
next
  case (Suc n)
  show ?case
  proof (cases "case cursor of None \<Rightarrow> True | Some c \<Rightarrow> c < target")
    case False
    then obtain c where "cursor = Some c" "target \<le> c" by (auto split: option.splits)
    with False Suc.prems show ?thesis by auto
  next
    case True
    let ?a = "advance i k target (projectors k) (cursor = None) st"
    note ok = advance_right [OF Suc.prems(1), of i k target "cursor = None"]
    note frame = advance_frame [of i k target "projectors k" "cursor = None" st]
    show ?thesis
    proof (cases "fst ?a")
      case (Inl e)
      with True Suc.prems(3) have "res = Inl e" "st' = snd ?a" by (simp_all add: case_prod_unfold)
      with ok frame show ?thesis by simp
    next
      case (Inr cp)
      then obtain c' p' st1 where a: "?a = (Inr (c', p'), st1)" by (cases cp; cases ?a) auto
      then have work: "advance_work i k target (projectors k) (cursor = None) st = Inr ((c', p'), st1)"
        by (simp add: advance_def transaction_commit)
      have pos: "position_right (projectors k) i c' p' st1"
        using Suc.prems(1) by (intro advance_work_right(2) [of st projectors, OF _ _ work]) (simp_all add: indexes_ok_def)
      have log: "scope_log j st1 = scope_log j st" for j using frame a by (simp add: scope_log_def)
      have "catch_up n i k target (projectors k) (Some c') p' st1 = Some (res, st')" using True Suc.prems(3) a by simp
      with Suc.IH [of st1 "Some c'" p'] ok a pos
      have "indexes_ok projectors st' \<and> tr_entries st' = tr_entries st1 \<and> tr_scopes st' = tr_scopes st1 \<and>
          (\<forall>q. res = Inr q \<longrightarrow> (\<exists>c. target \<le> c \<and> position_right (projectors k) i c q st1))" by simp
      with frame a log show ?thesis by (simp add: position_right_def)
    qed
  qed
qed

definition index_through :: "int \<Rightarrow> string \<Rightarrow> transcripts \<Rightarrow> int" where
  "index_through i k st = (case first_row (index_of_scope i k) (tr_index st) of None \<Rightarrow> 0 | Some r \<Rightarrow> ti_through_seq r)"

lemma catch_up_ends:
  assumes "indexes_ok projectors st" and "nat (target - index_through i k st) + 2 \<le> n"
  shows "catch_up n i k target (projectors k) cursor p st \<noteq> None"
  using assms
proof (induction n arbitrary: cursor p st)
  case (Suc n)
  let ?a = "advance i k target (projectors k) (cursor = None) st"
  consider "\<not> (case cursor of None \<Rightarrow> True | Some c \<Rightarrow> c < target)" | e where "fst ?a = Inl e"
    | c' p' st1 where "?a = (Inr (c', p'), st1)"
    by (cases "fst ?a"; cases ?a) auto
  then show ?case
  proof cases
    case 3
    then have work: "advance_work i k target (projectors k) (cursor = None) st = Inr ((c', p'), st1)"
      by (simp add: advance_def transaction_commit)
    have ok: "transcripts_ok st" "index_right projectors st" using Suc.prems(1) by (simp_all add: indexes_ok_def)
    note w = advance_work_right [of st projectors, OF ok work]
    obtain m where m: "n = Suc m" using Suc.prems(2) by (cases n) auto
    have "catch_up n i k target (projectors k) (Some c') p' st1 \<noteq> None"
    proof (cases "target \<le> c'")
      case True
      then show ?thesis by (simp add: m)
    next
      case False
      with w(3,4) have "index_through i k st1 = c'" "index_through i k st < c'"
        by (auto simp: index_through_def split: option.splits)
      moreover have "indexes_ok projectors st1" using advance_right [OF Suc.prems(1), of i k target "cursor = None"] 3 by simp
      ultimately show ?thesis using Suc.prems(2) False by (intro Suc.IH) auto
    qed
    with 3 show ?thesis by simp
  qed (auto simp: case_prod_unfold)
qed simp

text \<open>A projector that does not raise lets the index catch up.\<close>

definition total_projector :: "projector \<Rightarrow> bool" where
  "total_projector projector \<longleftrightarrow> (\<forall>p xs. \<exists>q. projector p xs = Inr q)"

definition indexed :: "int \<Rightarrow> string \<Rightarrow> transcripts \<Rightarrow> bool" where
  "indexed i k st \<longleftrightarrow> (i, k) \<in> (\<lambda>r. (ti_scope_id r, ti_engine_kind r)) ` set (tr_index st)"

lemma indexed_row: "indexed i k st \<longleftrightarrow> (\<exists>r. first_row (index_of_scope i k) (tr_index st) = Some r)"
proof
  show "indexed i k st \<Longrightarrow> \<exists>r. first_row (index_of_scope i k) (tr_index st) = Some r"
    by (cases "first_row (index_of_scope i k) (tr_index st)")
       (auto simp: indexed_def first_row_None_iff index_of_scope_def)
  show "\<exists>r. first_row (index_of_scope i k) (tr_index st) = Some r \<Longrightarrow> indexed i k st"
    by (force simp: indexed_def index_of_scope_def dest!: first_row_Some)
qed

lemma advance_indexed:
  assumes "indexed j l st"
  shows "indexed j l (snd (advance i k target pr create st))"
proof -
  have up: "(\<lambda>r. (ti_scope_id r, ti_engine_kind r)) ` set (update_where p (\<lambda>i. i\<lparr>ti_through_seq := c, ti_entries := q\<rparr>) rows) =
      (\<lambda>r. (ti_scope_id r, ti_engine_kind r)) ` set rows" for p c q and rows :: "index_row list"
    unfolding list.set_map [symmetric] by (subst map_update_where) simp_all
  define st1 where "st1 = (if create then ensure_index i k st else st)"
  have st1: "indexed j l st1" using assms by (auto simp: st1_def indexed_def ensure_index_def set_insert_absent)
  have "indexed j l st'" if "advance_work i k target pr create st = Inr (x, st')" for x st'
  proof -
    from that have "st' = st1 \<or> (\<exists>c q. st' =
        st1\<lparr>tr_index := update_where (index_of_scope i k) (\<lambda>i. i\<lparr>ti_through_seq := c, ti_entries := q\<rparr>) (tr_index st1)\<rparr>)"
      by (auto simp: advance_work_def Let_def rbind_Inr_iff simp flip: st1_def split: option.splits if_splits)
    with st1 show ?thesis by (elim disjE exE) (simp_all add: indexed_def up)
  qed
  with assms transaction_state [of "advance_work i k target pr create" st] show ?thesis unfolding advance_def by metis
qed

lemma advance_returns:
  assumes ok: "indexes_ok projectors st" and total: "total_projector (projectors k)"
    and target: "target \<le> int (length (scope_log i st))" and row: "create \<or> indexed i k st"
  shows "\<exists>c p st'. advance i k target (projectors k) create st = (Inr (c, p), st')"
proof -
  define st1 where "st1 = (if create then ensure_index i k st else st)"
  have log: "scope_log j st1 = scope_log j st" for j by (simp add: st1_def ensure_index_def scope_log_def)
  have st1: "transcripts_ok st1" "index_right projectors st1"
    using ok ensure_index_right(1) by (simp_all add: st1_def ensure_index_def transcripts_ok_def scopes_ok_def entries_ok_def scope_log_def indexes_ok_def)
  obtain r where r: "first_row (index_of_scope i k) (tr_index st1) = Some r"
    using row ensure_index_right(2) [of projectors st i k] ok
    by (cases create) (auto simp: st1_def indexed_row indexes_ok_def)
  have c: "0 \<le> ti_through_seq r" using index_row_found [OF st1(2) r] by (simp add: position_right_def)
  let ?page = "index_page i (ti_through_seq r) target st1"
  have "?page \<noteq> []" if "\<not> target \<le> ti_through_seq r"
    using that target c by (simp add: index_page_log [OF st1(1) c] log PAGE_SIZE_def)
  moreover have "\<exists>vs. rmap json_loads (map te_entry_json ?page) = Inr vs"
    by (rule written_load [of st1]) (use st1(1) in \<open>auto simp: transcripts_ok_def index_page_def order_by_def dest!: in_set_takeD\<close>)
  then have "\<exists>q. project_page (projectors k) (ti_entries r) (map te_entry_json ?page) = Inr q"
    using total by (auto simp: project_page_def total_projector_def)
  ultimately show ?thesis
    using r by (auto simp: advance_def transaction_def advance_work_def Let_def simp flip: st1_def)
qed

lemma catch_up_indexed: "catch_up n i k target pr cursor p st = Some (res, st') \<Longrightarrow> indexed j l st \<Longrightarrow> indexed j l st'"
proof (induction n arbitrary: cursor p st)
  case (Suc n)
  have "indexed j l (snd (advance i k target pr (cursor = None) st))" by (rule advance_indexed [OF Suc.prems(2)])
  with Suc.prems(1) Suc.prems(2) show ?case
    by (auto simp: Suc.IH split: if_splits prod.splits sum.splits)
qed simp

lemma catch_up_returns:
  assumes "indexes_ok projectors st" and "total_projector (projectors k)" and "target \<le> int (length (scope_log i st))"
    and "cursor = None \<or> indexed i k st" and "catch_up n i k target (projectors k) cursor p st = Some (res, st')"
  shows "\<exists>q. res = Inr q"
  using assms
proof (induction n arbitrary: cursor p st)
  case (Suc n)
  show ?case
  proof (cases "case cursor of None \<Rightarrow> True | Some c \<Rightarrow> c < target")
    case False
    with Suc.prems(5) have "Inr p = res" by simp
    then show ?thesis by auto
  next
    case True
    obtain c p' st1 where a: "advance i k target (projectors k) (cursor = None) st = (Inr (c, p'), st1)"
      using advance_returns [OF Suc.prems(1,2,3), of "cursor = None"] Suc.prems(4) by blast
    then have "indexed i k st1"
      using Suc.prems(1) advance_work_right(3) [of st projectors i k target "cursor = None" c p' st1]
      by (auto simp: indexed_row indexes_ok_def advance_def transaction_commit)
    moreover have "indexes_ok projectors st1" using advance_right [OF Suc.prems(1), of i k target "cursor = None"] a by simp
    moreover have "scope_log i st1 = scope_log i st"
      using advance_frame(1) [of i k target "projectors k" "cursor = None" st] a by (simp add: scope_log_def)
    ultimately show ?thesis using Suc.IH [of st1 "Some c" p'] Suc.prems(2,3,5) True a by simp
  qed
qed simp

text \<open>What a read of the index says of one scope.\<close>

definition scope_read :: "projector \<Rightarrow> transcripts \<Rightarrow> scope_row \<Rightarrow> native_scope \<Rightarrow> bool" where
  "scope_read projector st s f \<longleftrightarrow>
     ns_project_key f = sc_project_key s \<and> ns_session_id f = sc_native_session_id s \<and> ns_subpath f = sc_subpath s \<and>
     (\<exists>entries. load_entries (sc_key s) st = Inr entries \<and> projected_through projector (ns_entries f) (coalesce entries []))"

lemma scope_caught_up:
  assumes ok: "transcripts_ok st" and s: "s \<in> set (tr_scopes st)"
    and pos: "position_right projector (sc_scope_id s) c q st" "sc_last_sequence s \<le> c"
  shows "\<exists>entries. load_entries (sc_key s) st = Inr entries \<and> projected_through projector q (coalesce entries [])"
proof -
  have so: "scopes_ok st" using ok by (simp add: transcripts_ok_def)
  have "map te_seq (scope_log (sc_scope_id s) st) = [1..sc_last_sequence s]" "0 \<le> sc_last_sequence s"
    using so s by (auto simp: scopes_ok_def)
  then have "int (length (scope_log (sc_scope_id s) st)) = sc_last_sequence s"
    using length_map [of te_seq "scope_log (sc_scope_id s) st"] by simp
  then have all: "take (nat c) (scope_log (sc_scope_id s) st) = scope_log (sc_scope_id s) st"
    using pos by (auto simp: position_right_def)
  then obtain vs where vs: "rmap json_loads (said (sc_key s) st) = Inr vs" "projected_through projector q vs"
    using pos(1) said_scope [OF so s] by (auto simp: position_right_def)
  show ?thesis
  proof (cases "said (sc_key s) st = []")
    case True
    with vs show ?thesis by (simp add: load_said [OF so] coalesce_def)
  next
    case False
    with vs show ?thesis by (simp add: load_said [OF so] coalesce_def)
  qed
qed

definition rows_right :: "(string \<Rightarrow> projector) \<Rightarrow> string \<Rightarrow> (scope_row \<times> index_row option) list \<Rightarrow> transcripts \<Rightarrow> bool" where
  "rows_right projectors k rows st \<longleftrightarrow>
     (\<forall>(s, ix) \<in> set rows. s \<in> set (tr_scopes st) \<and>
        (\<forall>r. ix = Some r \<longrightarrow> indexed (sc_scope_id s) k st \<and>
           position_right (projectors k) (sc_scope_id s) (ti_through_seq r) (ti_entries r) st))"

lemma catch_up_scopes_right:
  assumes "indexes_ok projectors st" and "rows_right projectors k rows st"
  shows "\<exists>res st'. catch_up_scopes k (projectors k) rows st = Some (res, st') \<and>
    (\<forall>found. res = Inr found \<longrightarrow> list_all2 (scope_read (projectors k) st) (map fst rows) found) \<and>
    (total_projector (projectors k) \<longrightarrow> (\<exists>found. res = Inr found))"
  using assms
proof (induction rows arbitrary: st)
  case (Cons row rows)
  obtain s ix where row: "row = (s, ix)" by (cases row)
  let ?id = "sc_scope_id s" and ?c = "map_option ti_through_seq ix" and ?p = "case ix of None \<Rightarrow> [] | Some i \<Rightarrow> ti_entries i"
  have ok: "transcripts_ok st" "index_right projectors st" using Cons.prems(1) by (simp_all add: indexes_ok_def)
  have s: "s \<in> set (tr_scopes st)" and ix: "\<And>r. ix = Some r \<Longrightarrow> indexed ?id k st"
    and pos: "\<And>c. ?c = Some c \<Longrightarrow> position_right (projectors k) ?id c ?p st"
    using Cons.prems(2) row by (auto simp: rows_right_def)
  have seqs: "map te_seq (scope_log ?id st) = [1..sc_last_sequence s]" "0 \<le> sc_last_sequence s"
    using ok(1) s by (auto simp: transcripts_ok_def scopes_ok_def)
  then have len: "int (length (scope_log ?id st)) = sc_last_sequence s" using length_map [of te_seq "scope_log ?id st"] by simp
  have "0 \<le> index_through ?id k st"
    using index_row_found [OF ok(2)] by (auto simp: index_through_def position_right_def split: option.splits)
  then obtain res st1 where up: "catch_up (Suc (Suc (nat (sc_last_sequence s)))) ?id k (sc_last_sequence s) (projectors k) ?c ?p st = Some (res, st1)"
    using catch_up_ends [OF Cons.prems(1), of "sc_last_sequence s" ?id k "Suc (Suc (nat (sc_last_sequence s)))" ?c ?p] by fastforce
  have right: "indexes_ok projectors st1" "tr_entries st1 = tr_entries st" "tr_scopes st1 = tr_scopes st"
    and caught: "\<And>q. res = Inr q \<Longrightarrow> \<exists>c. sc_last_sequence s \<le> c \<and> position_right (projectors k) ?id c q st"
    using catch_up_right [OF Cons.prems(1) pos up] by blast+
  have log: "scope_log i st1 = scope_log i st" for i using right(2) by (simp add: scope_log_def)
  have same: "position_right pr i c p st1 = position_right pr i c p st" for pr i c p by (simp add: position_right_def log)
  have loads: "load_entries key st1 = load_entries key st" for key
    by (simp add: load_entries_def entries_of_def right)
  have "rows_right projectors k rows st1"
    using Cons.prems(2) catch_up_indexed [OF up] right(3) by (fastforce simp: rows_right_def same)
  then obtain res2 st2 where rest: "catch_up_scopes k (projectors k) rows st1 = Some (res2, st2)"
    "\<And>found. res2 = Inr found \<Longrightarrow> list_all2 (scope_read (projectors k) st1) (map fst rows) found"
    "total_projector (projectors k) \<Longrightarrow> \<exists>found. res2 = Inr found"
    using Cons.IH [OF right(1)] by blast
  have read: "scope_read (projectors k) st1 = scope_read (projectors k) st" by (intro ext) (simp add: scope_read_def loads)
  have returns: "total_projector (projectors k) \<Longrightarrow> \<exists>q. res = Inr q"
    using catch_up_returns [OF Cons.prems(1) _ _ _ up] len ix by (cases ix) auto
  show ?case
  proof (cases res)
    case (Inl e)
    then show ?thesis using up row returns by auto
  next
    case (Inr q)
    obtain c where "sc_last_sequence s \<le> c" "position_right (projectors k) ?id c q st" using caught [OF Inr] by blast
    then have head: "scope_read (projectors k) st s \<lparr>ns_project_key = sc_project_key s, ns_session_id = sc_native_session_id s,
        ns_subpath = sc_subpath s, ns_entries = q\<rparr>"
      using scope_caught_up [OF ok(1) s] by (simp add: scope_read_def)
    show ?thesis
      using up rest returns head Inr row read by (cases res2) (auto simp del: catch_up.simps)
  qed
qed simp

text \<open>
  C24. Reading the index of sub-agents ends, and for every transcript of the session what it returns
  is what the engine's projector made of all its entries, each handed to it once and in order,
  however earlier reads and appends interleaved; it returns when the projector does not raise.
\<close>

theorem index_reads_every_entry_once:
  assumes "(index_step projectors)\<^sup>*\<^sup>* (no_transcripts db) st"
  shows "\<exists>res st'. scopes sid engine_kind (projectors engine_kind) st = Some (res, st') \<and>
    (\<forall>found. res = Inr found \<longrightarrow>
       list_all2 (scope_read (projectors engine_kind) st)
         (order_by_text sc_subpath (order_by sc_scope_id (filter (\<lambda>s. sc_platform_session_id s = sid) (tr_scopes st)))) found) \<and>
    (total_projector (projectors engine_kind) \<longrightarrow> (\<exists>found. res = Inr found))"
proof -
  let ?rows = "order_by_text sc_subpath (order_by sc_scope_id (filter (\<lambda>s. sc_platform_session_id s = sid) (tr_scopes st)))"
  let ?pairs = "map (\<lambda>s. (s, first_row (index_of_scope (sc_scope_id s) engine_kind) (tr_index st))) ?rows"
  have ok: "indexes_ok projectors st" by (rule index_runs_ok [OF assms])
  have "rows_right projectors engine_kind ?pairs st"
    using index_row_found [of projectors st] ok
    by (auto simp: rows_right_def set_order_by_text indexed_row indexes_ok_def)
  moreover have "map fst ?pairs = ?rows" by (simp add: comp_def)
  ultimately show ?thesis using catch_up_scopes_right [OF ok, of engine_kind ?pairs] unfolding scopes_def by simp
qed

definition keep_all :: projector where
  "keep_all p xs = Inr (p @ xs)"

theorem index_reads_every_entry_once_witness:
  "\<exists>found st'. scopes ''s'' ''pi'' keep_all (snd (append_entries sample_key [sample_line] ''b1'' None 5 (no_transcripts sample_db))) =
     Some (Inr found, st')"
proof -
  let ?st = "snd (append_entries sample_key [sample_line] ''b1'' None 5 (no_transcripts sample_db))"
  have "json_ok sample_line" by code_simp
  then have "index_step (\<lambda>_. keep_all) (no_transcripts sample_db) ?st" by (intro index_step.appended [OF _ refl]) simp
  then have "(index_step (\<lambda>_. keep_all))\<^sup>*\<^sup>* (no_transcripts sample_db) ?st" by (rule r_into_rtranclp)
  moreover have "total_projector keep_all" by (simp add: total_projector_def keep_all_def)
  ultimately show ?thesis using index_reads_every_entry_once [of "\<lambda>_. keep_all" sample_db ?st "''s''" "''pi''"] by blast
qed

end
