(* ===== verification/ChildRuns.thy ===== *)
theory ChildRuns
  imports ChildFacts Transcripts Runtime Reads
begin

text \<open>
  A session's sub-agents, \<^verbatim>\<open>session_runtime/child_runs.py\<close>: the parts its runtime reported are folded, in
  log order, into one entry per child, and the entries are listed parents before children.

  What an engine adapter answers (whether a fact reopens a closed child, whether a child works, how
  its content is normalised, what its stored transcripts say) is the record \<open>child_adapter\<close>; the
  registry of adapters is a function, undefined on a kind that is not registered.
\<close>

section \<open>Entries\<close>

text \<open>The public half of an entry, and the entry with its private keys and messages.\<close>

record child_run =
  cr_child_run_id :: string
  cr_engine_kind :: string
  cr_depth :: nat
  cr_closed :: bool
  cr_operations :: "string list"
  cr_tool_call_ids :: "string list"
  cr_parent :: "string option"
  cr_description :: "string option"
  cr_task_type :: "string option"
  cr_last_tool_name :: "string option"
  cr_summary :: "string option"
  cr_model :: "string option"
  cr_usage :: "obj option"
  cr_engine_event :: "string option"
  cr_engine_status :: "string option"
  cr_engine_reason :: "string option"

record child_message =
  cm_role :: string
  cm_content :: "obj list"
  cm_message_id :: string

record child_entry = child_run +
  ce_messages :: "child_message list"
  ce_engine_ref :: string
  ce_message_indexes :: "(string, nat) dict"
  ce_first_seen :: nat
  ce_control_ref :: "string option"
  ce_native_state :: "obj option"

record child_run_view = child_run +
  cv_active :: bool

record child_adapter =
  ad_reopens :: "obj \<Rightarrow> bool res"
  ad_active :: "child_run \<Rightarrow> obj option \<Rightarrow> bool res"
  ad_content :: "json \<Rightarrow> json res"
  ad_stored_runs :: "(projector \<times> (json list \<Rightarrow> native_scope list \<Rightarrow> obj list res)) option"
  ad_stored_transcript :: "(string \<Rightarrow> bool \<Rightarrow> obj \<Rightarrow> native_scope list \<Rightarrow> emission list res) option"
  ad_tool_results :: "(string \<Rightarrow> native_scope list \<Rightarrow> child_message list \<Rightarrow> child_message list res) option"

type_synonym registry = "string \<Rightarrow> child_adapter option"

definition get_engine_adapter :: "registry \<Rightarrow> string \<Rightarrow> child_adapter res" where
  "get_engine_adapter registry engine_kind =
     (case registry engine_kind of None \<Rightarrow> Inl EngineKindNotRegistered | Some ad \<Rightarrow> Inr ad)"

definition new_entry :: "string \<Rightarrow> string \<Rightarrow> string \<Rightarrow> nat \<Rightarrow> child_entry" where
  "new_entry child_run_id engine_kind engine_ref order =
     \<lparr>cr_child_run_id = child_run_id, cr_engine_kind = engine_kind, cr_depth = 1, cr_closed = False, cr_operations = [],
      cr_tool_call_ids = [], cr_parent = None, cr_description = None, cr_task_type = None, cr_last_tool_name = None,
      cr_summary = None, cr_model = None, cr_usage = None, cr_engine_event = None, cr_engine_status = None,
      cr_engine_reason = None, ce_messages = [], ce_engine_ref = engine_ref, ce_message_indexes = [],
      ce_first_seen = order, ce_control_ref = None, ce_native_state = None\<rparr>"

definition or_empty :: "string option \<Rightarrow> string" where
  "or_empty s = (case s of None \<Rightarrow> [] | Some t \<Rightarrow> t)"

section \<open>Applying facts\<close>

definition apply_parent :: "string \<Rightarrow> child_entry \<Rightarrow> child_entry res" where
  "apply_parent parent entry =
     (if parent = [] then Inr entry
      else if parent = cr_child_run_id entry then Inl ChildRunProjectionError
      else if or_empty (cr_parent entry) \<noteq> [] \<and> or_empty (cr_parent entry) \<noteq> parent then Inl ChildRunProjectionError
      else Inr (entry\<lparr>cr_parent := Some parent\<rparr>))"

definition apply_tool_call :: "obj \<Rightarrow> child_entry \<Rightarrow> child_entry" where
  "apply_tool_call data entry =
     (case get data ''toolCallId'' of
        JStr t \<Rightarrow> if t \<noteq> [] \<and> t \<notin> set (cr_tool_call_ids entry)
                  then entry\<lparr>cr_tool_call_ids := cr_tool_call_ids entry @ [t]\<rparr> else entry
      | _ \<Rightarrow> entry)"

definition apply_control :: "obj \<Rightarrow> child_entry \<Rightarrow> child_entry res" where
  "apply_control data entry =
     (let control_ref = clean data ''controlRef'' in
      if control_ref = [] then Inr entry
      else if or_empty (ce_control_ref entry) \<noteq> [] \<and> or_empty (ce_control_ref entry) \<noteq> control_ref
      then Inl ChildRunProjectionError
      else Inr (entry\<lparr>ce_control_ref := Some control_ref\<rparr>))"

definition newer_text :: "obj \<Rightarrow> string \<Rightarrow> string option \<Rightarrow> string option" where
  "newer_text data source old =
     (case get data source of JStr s \<Rightarrow> if strip s \<noteq> [] then Some (strip s) else old | _ \<Rightarrow> old)"

definition apply_texts :: "obj \<Rightarrow> child_entry \<Rightarrow> child_entry" where
  "apply_texts data entry =
     entry\<lparr>cr_description := newer_text data ''description'' (cr_description entry),
           cr_task_type := newer_text data ''taskType'' (cr_task_type entry),
           cr_last_tool_name := newer_text data ''lastToolName'' (cr_last_tool_name entry),
           cr_summary := newer_text data ''summary'' (cr_summary entry),
           cr_model := newer_text data ''model'' (cr_model entry)\<rparr>"

definition apply_usage :: "obj \<Rightarrow> child_entry \<Rightarrow> child_entry" where
  "apply_usage data entry =
     (if is_obj (get data ''usage'')
      then entry\<lparr>cr_usage := Some (dict_update (case cr_usage entry of None \<Rightarrow> [] | Some u \<Rightarrow> u) (jfields (get data ''usage'')))\<rparr>
      else entry)"

text \<open>The engine's own words: its event, its native state (\<^verbatim>\<open>dict(None)\<close> raises), its status and reason.\<close>

definition present_text :: "obj \<Rightarrow> string \<Rightarrow> string option \<Rightarrow> string option" where
  "present_text data source old = (if has_key data source then Some (py_str (get data source)) else old)"

definition apply_native :: "obj \<Rightarrow> child_entry \<Rightarrow> child_entry res" where
  "apply_native data entry =
     (if \<not> has_key data ''nativeState'' then Inr entry
      else case get data ''nativeState'' of
        JObj d \<Rightarrow> Inr (entry\<lparr>ce_native_state := Some d\<rparr>)
      | _ \<Rightarrow> Inl TypeError)"

definition apply_words :: "obj \<Rightarrow> child_entry \<Rightarrow> child_entry res" where
  "apply_words data entry =
     rbind (apply_native data (entry\<lparr>cr_engine_event := present_text data ''engineEvent'' (cr_engine_event entry)\<rparr>)) (\<lambda>e1.
       Inr (e1\<lparr>cr_engine_status := present_text data ''engineStatus'' (cr_engine_status e1),
               cr_engine_reason := present_text data ''engineReason'' (cr_engine_reason e1)\<rparr>))"

definition apply_event :: "string \<Rightarrow> obj \<Rightarrow> child_entry \<Rightarrow> child_entry res" where
  "apply_event event data entry =
     (let opened = (if event = ''opened'' then entry\<lparr>cr_engine_status := None, cr_engine_reason := None\<rparr> else entry);
          reopened = (if cr_closed opened \<and> event \<noteq> ''closed'' then opened\<lparr>cr_closed := False\<rparr> else opened)
      in rbind (apply_words data reopened) (\<lambda>e1.
         let e2 = e1\<lparr>cr_operations := map py_str (jitems (get data ''operations''))\<rparr>
         in Inr (if event = ''closed'' then e2\<lparr>cr_closed := True\<rparr> else e2)))"

definition apply_lifecycle :: "registry \<Rightarrow> obj \<Rightarrow> child_entry \<Rightarrow> child_entry res" where
  "apply_lifecycle registry data entry =
     (let event = py_str (get data ''event'') in
      rbind (if cr_closed entry \<and> event \<noteq> ''closed''
             then rbind (get_engine_adapter registry (cr_engine_kind entry)) (\<lambda>ad. ad_reopens ad data)
             else Inr True) (\<lambda>applies.
        if \<not> applies then Inr entry
        else rbind (apply_parent (str_or (get data ''parentChildRunId'')) entry) (\<lambda>e1.
             rbind (apply_control data (apply_tool_call data e1)) (\<lambda>e2.
               apply_event event data (apply_usage data (apply_texts data e2))))))"

text \<open>A message's fragments share its reference; a part without one stands for itself.\<close>

definition child_message_key :: "obj \<Rightarrow> string \<Rightarrow> string" where
  "child_message_key data block_id =
     (let message_ref = clean data ''messageId'' in
      if message_ref \<noteq> [] then ''message:'' @ message_ref
      else ''block:'' @ block_id @ '':'' @ dumps '','' '':'' True (sort_keys (JObj data)))"

definition apply_message :: "obj \<Rightarrow> string \<Rightarrow> string \<Rightarrow> child_entry \<Rightarrow> child_entry res" where
  "apply_message data block_id public_message_id entry =
     rbind (apply_parent (str_or (get data ''parentChildRunId'')) entry) (\<lambda>e1.
       let role = str_or (get data ''role''); content = get data ''content''; key = child_message_key data block_id in
       if (role \<noteq> ''assistant'' \<and> role \<noteq> ''user'') \<or> \<not> is_list content then Inl ChildRunProjectionError
       else case map_of (ce_message_indexes e1) key of
         Some i \<Rightarrow>
           let existing = ce_messages e1 ! i in
           if cm_role existing \<noteq> role then Inl ChildRunProjectionError
           else Inr (e1\<lparr>ce_messages := (ce_messages e1)[i := existing\<lparr>cm_content :=
                  merge_projected_message_blocks (as_blocks (cm_content existing)) content\<rparr>]\<rparr>)
       | None \<Rightarrow>
           Inr (e1\<lparr>ce_message_indexes := dict_set key (length (ce_messages e1)) (ce_message_indexes e1),
                   ce_messages := ce_messages e1 @
                     [\<lparr>cm_role = role, cm_content = map jfields (filter is_obj (jitems content)), cm_message_id = public_message_id\<rparr>]\<rparr>))"

section \<open>The order of the tree\<close>

type_synonym entries = "(string, child_entry) dict"

definition parent_in :: "entries \<Rightarrow> child_entry \<Rightarrow> string option" where
  "parent_in entries entry =
     (let parent = or_empty (cr_parent entry) in
      if parent \<noteq> [] \<and> parent \<in> fst ` set entries then Some parent else None)"

definition children_of :: "entries \<Rightarrow> string \<Rightarrow> child_entry list" where
  "children_of entries parent =
     order_by ce_first_seen (filter (\<lambda>e. parent_in entries e = Some parent) (map snd entries))"

definition tree_roots :: "entries \<Rightarrow> child_entry list" where
  "tree_roots entries = order_by ce_first_seen (filter (\<lambda>e. parent_in entries e = None) (map snd entries))"

text \<open>
  \<^verbatim>\<open>visit\<close>: the children below an entry, each once; an entry met again among its own ancestors is
  refused. The depth of the recursion is bounded by the number of entries, since the ancestors are
  pairwise different, so one more than that is enough fuel.
\<close>

type_synonym visiting = "child_entry list \<times> string list"

fun visit :: "nat \<Rightarrow> (string \<Rightarrow> child_entry list) \<Rightarrow> nat \<Rightarrow> string list \<Rightarrow> child_entry \<Rightarrow> visiting \<Rightarrow> visiting res" where
  "visit 0 children depth ancestors entry st = Inl RuntimeError"
| "visit (Suc n) children depth ancestors entry st =
     (let ident = cr_child_run_id entry in
      if ident \<in> set ancestors then Inl ChildRunProjectionError
      else if ident \<in> set (snd st) then Inr st
      else rfold (visit n children (depth + 1) (ident # ancestors)) (children ident)
             (fst st @ [entry\<lparr>cr_depth := depth\<rparr>], ident # snd st))"

definition visit_rest :: "nat \<Rightarrow> (string \<Rightarrow> child_entry list) \<Rightarrow> child_entry \<Rightarrow> visiting \<Rightarrow> visiting res" where
  "visit_rest n children entry st =
     (if cr_child_run_id entry \<in> set (snd st) then Inr st else visit n children 1 [] entry st)"

definition tree_order :: "entries \<Rightarrow> child_entry list res" where
  "tree_order entries =
     (let n = Suc (length entries); children = children_of entries in
      rbind (rfold (visit n children 1 []) (tree_roots entries) ([], [])) (\<lambda>st.
      rbind (rfold (visit_rest n children) (order_by ce_first_seen (map snd entries)) st) (\<lambda>st'.
        Inr (fst st'))))"

section \<open>Folding\<close>

record child_part =
  cp_id :: json
  cp_data :: json

record child_fold =
  cf_entries :: entries
  cf_signatures :: "(string, string) dict"

definition canonical_part :: "registry \<Rightarrow> bool \<Rightarrow> child_part \<Rightarrow> (string \<times> string \<times> obj) res" where
  "canonical_part registry with_messages part =
     (let block_id = strip (str_or (cp_id part)) in
      if block_id = [] \<or> \<not> is_obj (cp_data part) then Inl ChildRunProjectionError
      else
        let raw0 = jfields (cp_data part);
            raw = (if \<not> with_messages \<and> get raw0 ''kind'' = JStr ''message'' then dict_set ''content'' (JList []) raw0 else raw0);
            engine_kind = clean raw ''engineKind''
        in rbind (canonical_child_run_data raw engine_kind) (\<lambda>data.
           if get data ''kind'' = JStr ''message'' \<and> with_messages
           then rbind (get_engine_adapter registry engine_kind) (\<lambda>ad.
                rbind (ad_content ad (get data ''content'')) (\<lambda>content.
                  Inr (block_id, engine_kind, dict_set ''content'' content data)))
           else Inr (block_id, engine_kind, data)))"

definition with_parent :: "uuid5 \<Rightarrow> string \<Rightarrow> string \<Rightarrow> obj \<Rightarrow> obj res" where
  "with_parent uuid5 sid engine_kind data =
     (let parent_ref = str_or (get data ''parentEngineRef'') in
      if parent_ref = [] then Inr data
      else rbind (public_child_run_id uuid5 sid engine_kind parent_ref) (\<lambda>parent.
        Inr (dict_set ''parentChildRunId'' (JStr parent) data)))"

definition entry_for :: "string \<Rightarrow> string \<Rightarrow> string \<Rightarrow> nat \<Rightarrow> entries \<Rightarrow> child_entry res" where
  "entry_for child_run_id engine_kind engine_ref order entries =
     (case map_of entries child_run_id of
        None \<Rightarrow> Inr (new_entry child_run_id engine_kind engine_ref order)
      | Some e \<Rightarrow> if cr_engine_kind e \<noteq> engine_kind \<or> ce_engine_ref e \<noteq> engine_ref then Inl ChildRunProjectionError else Inr e)"

definition apply_child_fact :: "uuid5 \<Rightarrow> registry \<Rightarrow> string \<Rightarrow> bool \<Rightarrow> string \<Rightarrow> string \<Rightarrow> obj \<Rightarrow> child_entry \<Rightarrow> child_entry res" where
  "apply_child_fact uuid5 registry sid with_messages block_id engine_kind data entry =
     (if get data ''kind'' = JStr ''lifecycle'' then apply_lifecycle registry data entry
      else if with_messages then
        (let message_ref = clean data ''messageId'' in
         rbind (public_child_message_id uuid5 sid engine_kind (py_str (get data ''engineRef''))
                  (if message_ref \<noteq> [] then message_ref else block_id)) (\<lambda>mid.
           apply_message data block_id mid entry))
      else apply_parent (str_or (get data ''parentChildRunId'')) entry)"

definition fold_part :: "uuid5 \<Rightarrow> registry \<Rightarrow> string \<Rightarrow> bool \<Rightarrow> nat \<times> child_part \<Rightarrow> child_fold \<Rightarrow> child_fold res" where
  "fold_part uuid5 registry sid with_messages numbered st =
     rbind (canonical_part registry with_messages (snd numbered)) (\<lambda>(block_id, engine_kind, data).
       let signature = dumps '','' '':'' True (sort_keys (JObj data)) in
       case map_of (cf_signatures st) block_id of
         Some previous \<Rightarrow> if previous \<noteq> signature then Inl ChildRunProjectionError else Inr st
       | None \<Rightarrow>
           let engine_ref = py_str (get data ''engineRef'') in
           rbind (public_child_run_id uuid5 sid engine_kind engine_ref) (\<lambda>child_run_id.
           rbind (with_parent uuid5 sid engine_kind data) (\<lambda>parented.
           rbind (entry_for child_run_id engine_kind engine_ref (fst numbered) (cf_entries st)) (\<lambda>entry.
           rbind (apply_child_fact uuid5 registry sid with_messages block_id engine_kind parented entry) (\<lambda>entry'.
             Inr \<lparr>cf_entries = dict_set child_run_id entry' (cf_entries st),
                  cf_signatures = dict_set block_id signature (cf_signatures st)\<rparr>)))))"

definition fold_parts_of :: "uuid5 \<Rightarrow> registry \<Rightarrow> string \<Rightarrow> child_part list \<Rightarrow> bool \<Rightarrow> child_fold res" where
  "fold_parts_of uuid5 registry sid parts with_messages =
     rfold (fold_part uuid5 registry sid with_messages) (enumerate 0 parts) \<lparr>cf_entries = [], cf_signatures = []\<rparr>"

definition has_lifecycle :: "child_entry \<Rightarrow> bool" where
  "has_lifecycle entry \<longleftrightarrow>
     strip (or_empty (cr_engine_event entry)) \<noteq> [] \<or>
     (case ce_native_state entry of None \<Rightarrow> False | Some d \<Rightarrow> d \<noteq> [])"

definition fold_child_runs :: "uuid5 \<Rightarrow> registry \<Rightarrow> string \<Rightarrow> child_part list \<Rightarrow> bool \<Rightarrow> child_entry list res" where
  "fold_child_runs uuid5 registry sid parts with_messages =
     rbind (fold_parts_of uuid5 registry sid parts with_messages) (\<lambda>st.
     rbind (tree_order (cf_entries st)) (\<lambda>ordered.
       if list_all has_lifecycle ordered then Inr ordered else Inl ChildRunProjectionError))"

definition public_child_run :: "registry \<Rightarrow> child_entry \<Rightarrow> child_run_view res" where
  "public_child_run registry entry =
     rbind (get_engine_adapter registry (cr_engine_kind entry)) (\<lambda>ad.
     rbind (ad_active ad (child_run.truncate entry) (ce_native_state entry)) (\<lambda>active.
       Inr (child_run.extend (child_run.truncate entry) \<lparr>cv_active = active\<rparr>)))"

section \<open>Reading\<close>

definition CHILD_RUN_PART :: string where
  "CHILD_RUN_PART = ''data-subagent''"

definition child_run_parts :: "string \<Rightarrow> string option \<Rightarrow> bool \<Rightarrow> db \<Rightarrow> child_part list" where
  "child_run_parts sid engine_ref with_content db =
     map (\<lambda>o'. let data = get (o_part o') ''data'' in
            \<lparr>cp_id = (case as_string (get (o_part o') ''id'') of None \<Rightarrow> JNull | Some t \<Rightarrow> JStr t),
             cp_data = (if \<not> with_content \<and> as_string (jfield data ''kind'') = Some ''message''
                        then JObj (dict_pop ''content'' (jfields data)) else data)\<rparr>)
       (order_by o_seq (filter (\<lambda>o'. as_string (get (o_part o') ''type'') = Some CHILD_RUN_PART \<and>
          (case engine_ref of None \<Rightarrow> True
           | Some ref \<Rightarrow> as_string (jfield (get (o_part o') ''data'') ''engineRef'') = Some ref)) (session_log sid db)))"

definition engine_frame_scope :: "obj \<Rightarrow> string res" where
  "engine_frame_scope frame =
     (let raw = get frame ''__engine_frame_scope''; scope = (if truthy raw then strip (py_str raw) else ''turn'') in
      if scope = ''turn'' \<or> scope = ''session'' then Inr scope else Inl RuntimeError)"

text \<open>The data of a frame that reports a child: a frame of another kind is refused.\<close>

definition child_frame :: "string \<Rightarrow> obj \<Rightarrow> obj res" where
  "child_frame engine_kind frame =
     rbind (engine_frame_scope frame) (\<lambda>scope.
       if scope \<noteq> ''session'' \<or> get frame ''type'' \<noteq> JStr CHILD_RUN_PART then Inl ChildRunProjectionError
       else rbind (index_key frame ''data'') (\<lambda>raw.
         if is_obj raw then canonical_child_run_data (jfields raw) engine_kind else Inl TypeError))"

definition take_stored :: "uuid5 \<Rightarrow> string \<Rightarrow> string \<Rightarrow> string list \<Rightarrow> obj \<Rightarrow> child_part list \<Rightarrow> child_part list res" where
  "take_stored uuid5 sid engine_kind known frame parts =
     rbind (child_frame engine_kind frame) (\<lambda>data.
       if get data ''kind'' \<noteq> JStr ''lifecycle'' then Inl ChildRunProjectionError
       else rbind (public_child_run_id uuid5 sid engine_kind (py_str (get data ''engineRef''))) (\<lambda>child_id.
         if child_id \<in> set known then Inr parts
         else rbind (index_key frame ''id'') (\<lambda>ident. Inr (parts @ [\<lparr>cp_id = ident, cp_data = JObj data\<rparr>]))))"

text \<open>
  The children that never reached the stream, engine by engine. \<open>None\<close> is a read of the index that was
  cut off, which does not happen.
\<close>

fun stored_children :: "uuid5 \<Rightarrow> registry \<Rightarrow> string \<Rightarrow> string list \<Rightarrow> string list \<Rightarrow> child_part list \<Rightarrow> transcripts \<Rightarrow>
    (child_part list res \<times> transcripts) option" where
  "stored_children uuid5 registry sid known [] parts st = Some (Inr parts, st)"
| "stored_children uuid5 registry sid known (kind # kinds) parts st =
     (case get_engine_adapter registry kind of
        Inl e \<Rightarrow> Some (Inl e, st)
      | Inr ad \<Rightarrow>
          (case ad_stored_runs ad of
             None \<Rightarrow> stored_children uuid5 registry sid known kinds parts st
           | Some (projector, facts) \<Rightarrow>
               (case scopes sid kind projector st of
                  None \<Rightarrow> None
                | Some (Inl e, st') \<Rightarrow> Some (Inl e, st')
                | Some (Inr found, st') \<Rightarrow>
                    (case rbind (facts (concat (map ns_entries (filter (\<lambda>f. ns_subpath f = []) found)))
                                   (filter (\<lambda>f. ns_subpath f \<noteq> []) found)) (\<lambda>frames.
                            rfold (take_stored uuid5 sid kind known) frames parts) of
                       Inl e \<Rightarrow> Some (Inl e, st')
                     | Inr parts' \<Rightarrow> stored_children uuid5 registry sid known kinds parts' st'))))"

text \<open>\<^verbatim>\<open>dict.fromkeys\<close>: the first occurrence of each.\<close>

definition remdups_first :: "'a list \<Rightarrow> 'a list" where
  "remdups_first xs = rev (remdups (rev xs))"

definition child_run_entries :: "uuid5 \<Rightarrow> registry \<Rightarrow> string \<Rightarrow> transcripts \<Rightarrow> (child_entry list res \<times> transcripts) option" where
  "child_run_entries uuid5 registry sid st =
     (let parts = child_run_parts sid None False (tr_db st) in
      case fold_child_runs uuid5 registry sid parts False of
        Inl e \<Rightarrow> Some (Inl e, st)
      | Inr entries \<Rightarrow>
          (case stored_children uuid5 registry sid (map cr_child_run_id entries) (remdups_first (map cr_engine_kind entries)) parts st of
             None \<Rightarrow> None
           | Some (Inl e, st') \<Rightarrow> Some (Inl e, st')
           | Some (Inr parts', st') \<Rightarrow> Some (fold_child_runs uuid5 registry sid parts' False, st')))"

definition list_child_runs :: "uuid5 \<Rightarrow> registry \<Rightarrow> string \<Rightarrow> transcripts \<Rightarrow> (child_run_view list res \<times> transcripts) option" where
  "list_child_runs uuid5 registry sid st =
     map_option (\<lambda>(entries, st'). (rbind entries (rmap (public_child_run registry)), st')) (child_run_entries uuid5 registry sid st)"

definition find_child_run :: "uuid5 \<Rightarrow> registry \<Rightarrow> string \<Rightarrow> string \<Rightarrow> transcripts \<Rightarrow> (child_entry option res \<times> transcripts) option" where
  "find_child_run uuid5 registry sid child_run_id st =
     map_option (\<lambda>(entries, st'). (rbind entries (\<lambda>es. Inr (first_row (\<lambda>e. cr_child_run_id e = child_run_id) es)), st'))
       (child_run_entries uuid5 registry sid st)"

definition stored_message :: "uuid5 \<Rightarrow> string \<Rightarrow> child_entry \<Rightarrow> emission \<Rightarrow> child_entry \<Rightarrow> child_entry res" where
  "stored_message uuid5 sid entry given folded =
     (case given of
        ChildResourceFact frame \<Rightarrow>
          rbind (child_frame (cr_engine_kind entry) frame) (\<lambda>data.
            if get data ''kind'' \<noteq> JStr ''message'' \<or> get data ''engineRef'' \<noteq> JStr (ce_engine_ref entry)
            then Inl ChildRunProjectionError
            else
              let block_id = str_or (get frame ''id''); message_ref = clean data ''messageId'' in
              rbind (public_child_message_id uuid5 sid (cr_engine_kind entry) (ce_engine_ref entry)
                       (if message_ref \<noteq> [] then message_ref else block_id)) (\<lambda>mid.
                apply_message data block_id mid folded))
      | _ \<Rightarrow> Inl ChildRunProjectionError)"

definition stored_messages :: "uuid5 \<Rightarrow> string \<Rightarrow> child_entry \<Rightarrow> emission list \<Rightarrow> child_message list res" where
  "stored_messages uuid5 sid entry facts =
     rbind (rfold (stored_message uuid5 sid entry) facts
              (new_entry (cr_child_run_id entry) (cr_engine_kind entry) (ce_engine_ref entry) 0)) (\<lambda>folded.
       Inr (ce_messages folded))"

definition streamed_messages :: "uuid5 \<Rightarrow> registry \<Rightarrow> string \<Rightarrow> child_entry \<Rightarrow> child_adapter \<Rightarrow> transcripts \<Rightarrow> child_message list res" where
  "streamed_messages uuid5 registry sid entry ad st =
     rbind (fold_child_runs uuid5 registry sid (child_run_parts sid (Some (ce_engine_ref entry)) True (tr_db st)) True) (\<lambda>folded.
       let messages = (case first_row (\<lambda>c. cr_child_run_id c = cr_child_run_id entry) folded of
                         None \<Rightarrow> [] | Some c \<Rightarrow> ce_messages c)
       in case ad_tool_results ad of
            Some enrich \<Rightarrow>
              if cr_closed entry
              then rbind (child_transcript_scopes sid st) (\<lambda>raw. enrich (ce_engine_ref entry) raw messages)
              else Inr messages
          | None \<Rightarrow> Inr messages)"

definition messages_of :: "uuid5 \<Rightarrow> registry \<Rightarrow> string \<Rightarrow> child_entry \<Rightarrow> transcripts \<Rightarrow> child_message list res" where
  "messages_of uuid5 registry sid entry st =
     rbind (get_engine_adapter registry (cr_engine_kind entry)) (\<lambda>ad.
       case ad_stored_transcript ad of
         None \<Rightarrow> streamed_messages uuid5 registry sid entry ad st
       | Some facts \<Rightarrow>
           rbind (child_transcript_scopes sid st) (\<lambda>raw.
           rbind (facts (ce_engine_ref entry) (cr_closed entry) (case ce_native_state entry of None \<Rightarrow> [] | Some d \<Rightarrow> d) raw) (\<lambda>stored.
             if stored \<noteq> [] then stored_messages uuid5 sid entry stored
             else streamed_messages uuid5 registry sid entry ad st)))"

definition child_run_messages :: "uuid5 \<Rightarrow> registry \<Rightarrow> string \<Rightarrow> string \<Rightarrow> transcripts \<Rightarrow>
    (child_message list option res \<times> transcripts) option" where
  "child_run_messages uuid5 registry sid child_run_id st =
     map_option (\<lambda>(found, st'). (rbind found (\<lambda>entry.
         case entry of None \<Rightarrow> Inr None
         | Some e \<Rightarrow> rbind (messages_of uuid5 registry sid e st') (\<lambda>ms. Inr (Some ms))), st'))
       (find_child_run uuid5 registry sid child_run_id st)"

end
