(* ===== verification/ChildTree.thy ===== *)
theory ChildTree
  imports ChildRuns
begin

text \<open>
  The order in which a session's sub-agents are listed: every child once, a parent before its
  children and one level above them, and an error exactly when the parents go around in a circle.
\<close>

section \<open>Nodes and parents\<close>

definition entries_keyed :: "entries \<Rightarrow> bool" where
  "entries_keyed E \<longleftrightarrow> distinct (map fst E) \<and> (\<forall>ke \<in> set E. cr_child_run_id (snd ke) = fst ke)"

definition parent_rel :: "entries \<Rightarrow> (string \<times> string) set" where
  "parent_rel E = {(p, c). \<exists>e \<in> snd ` set E. cr_child_run_id e = c \<and> parent_in E e = Some p}"

lemma entry_ids: "entries_keyed E \<Longrightarrow> cr_child_run_id ` snd ` set E = fst ` set E"
  by (force simp: entries_keyed_def image_image intro!: image_cong)

lemma entry_by_id:
  assumes "entries_keyed E" and "e \<in> snd ` set E" and "e' \<in> snd ` set E" and "cr_child_run_id e = cr_child_run_id e'"
  shows "e = e'"
proof -
  from assms obtain k k' where "(k, e) \<in> set E" "(k', e') \<in> set E" by auto
  moreover have "cr_child_run_id e = k" "cr_child_run_id e' = k'" using calculation assms(1) by (auto simp: entries_keyed_def)
  then have "k = k'" using assms(4) by simp
  ultimately show ?thesis using assms(1) by (auto simp: entries_keyed_def dest: eq_key_imp_eq_value)
qed

lemma set_children_of: "set (children_of E p) = {e \<in> snd ` set E. parent_in E e = Some p}"
  by (auto simp: children_of_def)

lemma children_rel: "k \<in> set (children_of E p) \<Longrightarrow> (p, cr_child_run_id k) \<in> parent_rel E"
  by (auto simp: set_children_of parent_rel_def)

lemma parent_rel_child: "(p, c) \<in> parent_rel E \<Longrightarrow> \<exists>k \<in> set (children_of E p). cr_child_run_id k = c"
  by (auto simp: set_children_of parent_rel_def)

lemma parent_rel_ids: "entries_keyed E \<Longrightarrow> parent_rel E \<subseteq> fst ` set E \<times> fst ` set E"
  using entry_ids [of E] by (force simp: parent_rel_def parent_in_def Let_def split: if_splits)

lemma finite_parent_rel: "entries_keyed E \<Longrightarrow> finite (parent_rel E)"
  by (rule finite_subset [OF parent_rel_ids]) simp_all

section \<open>What a visit reaches\<close>

abbreviation entered :: "nat \<Rightarrow> child_entry \<Rightarrow> visiting \<Rightarrow> visiting" where
  "entered d e st \<equiv> (fst st @ [e\<lparr>cr_depth := d\<rparr>], cr_child_run_id e # snd st)"

lemma visit_SucE [consumes 1, case_names again below]:
  assumes "visit (Suc n) children d anc e st = Inr st'"
  obtains "cr_child_run_id e \<notin> set anc" and "cr_child_run_id e \<in> set (snd st)" and "st' = st"
  | "cr_child_run_id e \<notin> set anc" and "cr_child_run_id e \<notin> set (snd st)"
    and "rfold (visit n children (d + 1) (cr_child_run_id e # anc)) (children (cr_child_run_id e)) (entered d e st) = Inr st'"
proof (cases "cr_child_run_id e \<in> set anc")
  case True
  then show ?thesis using assms by (simp add: Let_def)
next
  case out: False
  show ?thesis
  proof (cases "cr_child_run_id e \<in> set (snd st)")
    case True
    with out assms have "st' = st" by (simp add: Let_def)
    with out True show ?thesis by (rule that(1))
  next
    case False
    with out assms have "rfold (visit n children (d + 1) (cr_child_run_id e # anc)) (children (cr_child_run_id e)) (entered d e st) = Inr st'"
      by (simp add: Let_def)
    with out False show ?thesis by (rule that(2))
  qed
qed

lemma visit_visited:
  "visit n children d anc e st = Inr st' \<Longrightarrow> insert (cr_child_run_id e) (set (snd st)) \<subseteq> set (snd st')"
proof (induction n arbitrary: d anc e st st')
  case (Suc n)
  from Suc.prems show ?case
  proof (cases rule: visit_SucE)
    case again
    then show ?thesis by simp
  next
    case below
    have "True \<and> set (snd (entered d e st)) \<union> (\<Union>k \<in> set (children (cr_child_run_id e)). {}) \<subseteq> set (snd st')"
      by (rule rfold_collects [OF _ below(3)]) (simp_all, drule Suc.IH, simp)
    then show ?thesis by simp
  qed
qed simp

lemma visit_children:
  assumes "rfold (visit n children d anc) es st = Inr st'"
  shows "set (snd st) \<union> cr_child_run_id ` set es \<subseteq> set (snd st')"
proof -
  have "True \<and> set (snd st) \<union> (\<Union>e \<in> set es. {cr_child_run_id e}) \<subseteq> set (snd st')"
    by (rule rfold_collects [OF _ assms]) (simp_all, drule visit_visited, simp)
  then show ?thesis by blast
qed

definition closed_below :: "(string \<Rightarrow> child_entry list) \<Rightarrow> string list \<Rightarrow> visiting \<Rightarrow> bool" where
  "closed_below children anc st \<longleftrightarrow>
     (\<forall>v \<in> set (snd st) - set anc. cr_child_run_id ` set (children v) \<subseteq> set (snd st))"

lemma visit_closed:
  "visit n children d anc e st = Inr st' \<Longrightarrow> closed_below children anc st \<Longrightarrow> closed_below children anc st'"
proof (induction n arbitrary: d anc e st st')
  case (Suc n)
  let ?i = "cr_child_run_id e" and ?s = "entered d e st"
  from Suc.prems(1) show ?case
  proof (cases rule: visit_SucE)
    case again
    with Suc.prems(2) show ?thesis by simp
  next
    case below
    have "closed_below children (?i # anc) ?s"
      using Suc.prems(2) unfolding closed_below_def by force
    with below(3) have "closed_below children (?i # anc) st'"
      by (rule rfold_invariant) (rule Suc.IH)
    moreover have "cr_child_run_id ` set (children ?i) \<subseteq> set (snd st')" using visit_children [OF below(3)] by simp
    ultimately show ?thesis unfolding closed_below_def by auto
  qed
qed simp

text \<open>
  Nodes each of which has a child among them, as those on a circle, are never visited: a visit of the
  first of them would come back to it.
\<close>

lemma visit_avoids:
  assumes "\<forall>c \<in> C. \<exists>k \<in> set (children c). cr_child_run_id k \<in> C"
  shows "visit n children d anc e st = Inr st' \<Longrightarrow> C \<inter> set (snd st) \<subseteq> set anc \<Longrightarrow>
    cr_child_run_id e \<notin> C \<and> C \<inter> set (snd st') \<subseteq> set anc"
proof (induction n arbitrary: d anc e st st')
  case (Suc n)
  let ?i = "cr_child_run_id e" and ?s = "entered d e st"
  let ?P = "\<lambda>t. C \<inter> set (snd t) \<subseteq> set (?i # anc)"
  from Suc.prems(1) show ?case
  proof (cases rule: visit_SucE)
    case again
    with Suc.prems(2) show ?thesis by blast
  next
    case below
    have start: "?P ?s" using Suc.prems(2) by auto
    have step: "?P b" if "?P a" "visit n children (d + 1) (?i # anc) y a = Inr b" for y a b
      using Suc.IH [OF that(2,1)] by simp
    have "?P st'" by (rule rfold_invariant [where P = ?P, OF below(3) start]) (rule step)
    moreover have "?i \<notin> C"
    proof
      assume "?i \<in> C"
      then obtain k where k: "k \<in> set (children ?i)" "cr_child_run_id k \<in> C" using assms by blast
      have "\<exists>a b. ?P a \<and> visit n children (d + 1) (?i # anc) k a = Inr b"
        by (rule rfold_meets [where P = ?P, OF below(3) start k(1)]) (rule step)
      then obtain a b where "?P a" "visit n children (d + 1) (?i # anc) k a = Inr b" by blast
      then show False using Suc.IH k(2) by blast
    qed
    ultimately show ?thesis by auto
  qed
qed simp

section \<open>Placement\<close>

text \<open>An entry comes at the top with depth 1 when it has no listed parent, and below its parent otherwise.\<close>

definition starts :: "entries \<Rightarrow> child_entry list \<Rightarrow> child_entry \<Rightarrow> nat \<Rightarrow> bool" where
  "starts E before e d \<longleftrightarrow>
     (case parent_in E e of
        None \<Rightarrow> d = 1
      | Some p \<Rightarrow> \<exists>x \<in> set before. cr_child_run_id x = p \<and> d = cr_depth x + 1)"

definition placed :: "entries \<Rightarrow> child_entry list \<Rightarrow> bool" where
  "placed E ordered \<longleftrightarrow> (\<forall>before x after. ordered = before @ x # after \<longrightarrow> starts E before x (cr_depth x))"

lemma placed_Nil: "placed E []"
  by (simp add: placed_def)

lemma placed_snoc: "placed E xs \<Longrightarrow> starts E xs x (cr_depth x) \<Longrightarrow> placed E (xs @ [x])"
  unfolding placed_def
proof (intro allI impI)
  fix before y after
  assume xs: "\<forall>before x after. xs = before @ x # after \<longrightarrow> starts E before x (cr_depth x)"
    and x: "starts E xs x (cr_depth x)" and eq: "xs @ [x] = before @ y # after"
  show "starts E before y (cr_depth y)"
  proof (cases after rule: rev_cases)
    case Nil
    with eq x show ?thesis by simp
  next
    case (snoc ys z)
    with eq have "xs = before @ y # ys" by (metis append.assoc append_Cons butlast_snoc)
    with xs show ?thesis by blast
  qed
qed

definition visiting_ok :: "entries \<Rightarrow> visiting \<Rightarrow> bool" where
  "visiting_ok E st \<longleftrightarrow>
     set (snd st) = cr_child_run_id ` set (fst st) \<and> distinct (map cr_child_run_id (fst st)) \<and> placed E (fst st) \<and>
     (\<forall>x \<in> set (fst st). \<exists>e \<in> snd ` set E. x = e\<lparr>cr_depth := cr_depth x\<rparr>)"

lemma parent_in_depth [simp]: "parent_in E (e\<lparr>cr_depth := d\<rparr>) = parent_in E e"
  by (simp add: parent_in_def)

lemma starts_later: "starts E xs e d \<Longrightarrow> set xs \<subseteq> set ys \<Longrightarrow> starts E ys e d"
  by (auto simp: starts_def split: option.splits)

lemma visit_ok:
  "visit n (children_of E) d anc e st = Inr st' \<Longrightarrow> visiting_ok E st \<Longrightarrow> e \<in> snd ` set E \<Longrightarrow> starts E (fst st) e d \<Longrightarrow>
   visiting_ok E st' \<and> set (fst st) \<subseteq> set (fst st')"
proof (induction n arbitrary: d anc e st st')
  case (Suc n)
  let ?i = "cr_child_run_id e" and ?x = "e\<lparr>cr_depth := d\<rparr>" and ?s = "entered d e st"
  from Suc.prems(1) show ?case
  proof (cases rule: visit_SucE)
    case again
    with Suc.prems(2) show ?thesis by simp
  next
    case below
    have "starts E (fst st) ?x (cr_depth ?x)" using Suc.prems(4) by (simp add: starts_def)
    then have "placed E (fst st @ [?x])" using Suc.prems(2) by (intro placed_snoc) (simp_all add: visiting_ok_def)
    moreover have "\<exists>e' \<in> snd ` set E. ?x = e'\<lparr>cr_depth := cr_depth ?x\<rparr>" using Suc.prems(3) by (intro bexI [of _ e]) simp_all
    ultimately have s: "visiting_ok E ?s" using Suc.prems(2) below(2) by (auto simp: visiting_ok_def)
    let ?P = "\<lambda>t. visiting_ok E t \<and> set (fst ?s) \<subseteq> set (fst t)"
    have start: "?P ?s" using s by simp
    have step: "?P b" if k: "k \<in> set (children_of E ?i)" and a: "?P a" and v: "visit n (children_of E) (d + 1) (?i # anc) k a = Inr b" for k a b
    proof -
      have "k \<in> snd ` set E" "parent_in E k = Some ?i" using k by (auto simp: set_children_of)
      moreover have "?x \<in> set (fst a)" using a by auto
      then have "starts E (fst a) k (d + 1)" using \<open>parent_in E k = Some ?i\<close> unfolding starts_def by (auto intro!: bexI [of _ ?x])
      ultimately show ?thesis using Suc.IH [OF v] a by auto
    qed
    have "?P st'" by (rule rfold_invariant [where P = ?P, OF below(3) start]) (rule step)
    then show ?thesis by auto
  qed
qed simp

section \<open>Success\<close>

lemma circle_nodes:
  assumes "c \<in> {y. (y, y) \<in> (parent_rel E)\<^sup>+}"
  shows "\<exists>k \<in> set (children_of E c). cr_child_run_id k \<in> {y. (y, y) \<in> (parent_rel E)\<^sup>+}"
proof -
  from assms obtain k where k: "(c, k) \<in> parent_rel E" "(k, c) \<in> (parent_rel E)\<^sup>*" by (auto dest: tranclD)
  then have "(k, k) \<in> (parent_rel E)\<^sup>+" by (meson rtrancl_into_trancl1)
  with parent_rel_child [OF k(1)] show ?thesis by auto
qed

lemma circle_entry: "(y, y) \<in> (parent_rel E)\<^sup>+ \<Longrightarrow> \<exists>e \<in> snd ` set E. cr_child_run_id e = y"
  by (auto dest!: tranclD2 simp: parent_rel_def)

lemma no_circle:
  assumes roots: "rfold (visit n (children_of E) 1 []) (tree_roots E) ([], []) = Inr st"
    and rest: "rfold (visit_rest n (children_of E)) (order_by ce_first_seen (map snd E)) st = Inr st'"
  shows "acyclic (parent_rel E)"
proof (rule acyclicI, intro allI notI)
  let ?C = "{y. (y, y) \<in> (parent_rel E)\<^sup>+}" and ?P = "\<lambda>t :: visiting. {y. (y, y) \<in> (parent_rel E)\<^sup>+} \<inter> set (snd t) \<subseteq> set []"
  have C: "\<forall>c \<in> ?C. \<exists>k \<in> set (children_of E c). cr_child_run_id k \<in> ?C" using circle_nodes by blast
  have visit: "cr_child_run_id e \<notin> ?C \<and> ?P b" if "?P a" "visit n (children_of E) 1 [] e a = Inr b" for e a b
    by (rule visit_avoids [OF C that(2,1)])
  have start: "?P ([], [])" by simp
  have st: "?P st" by (rule rfold_invariant [where P = ?P, OF roots start]) (rule visit [THEN conjunct2])
  fix y assume y: "(y, y) \<in> (parent_rel E)\<^sup>+"
  then obtain e where e: "e \<in> snd ` set E" "cr_child_run_id e = y" using circle_entry by blast
  have step: "?P b" if "?P a" "visit_rest n (children_of E) x a = Inr b" for x a b
  proof (cases "cr_child_run_id x \<in> set (snd a)")
    case True
    with that show ?thesis by (simp add: visit_rest_def)
  next
    case False
    with that(2) have "visit n (children_of E) 1 [] x a = Inr b" by (simp add: visit_rest_def)
    with that(1) show ?thesis by (rule visit [THEN conjunct2])
  qed
  have "e \<in> set (order_by ce_first_seen (map snd E))" using e by simp
  then have "\<exists>a b. ?P a \<and> visit_rest n (children_of E) e a = Inr b"
    by (rule rfold_meets [where P = ?P, OF rest st]) (rule step)
  then obtain a b where a: "?P a" "visit_rest n (children_of E) e a = Inr b" by blast
  have "cr_child_run_id e \<notin> set (snd a)" using a(1) y e(2) by auto
  with a(2) have "visit n (children_of E) 1 [] e a = Inr b" by (simp add: visit_rest_def)
  with a(1) have "cr_child_run_id e \<notin> ?C" by (rule visit [THEN conjunct1])
  with y e(2) show False by simp
qed

lemma all_reached:
  assumes keyed: "entries_keyed E" and roots: "rfold (visit n (children_of E) 1 []) (tree_roots E) ([], []) = Inr st"
    and acyc: "acyclic (parent_rel E)"
  shows "fst ` set E \<subseteq> set (snd st)"
proof
  have start: "closed_below (children_of E) [] ([], [])" by (simp add: closed_below_def)
  have closed: "closed_below (children_of E) [] st"
    by (rule rfold_invariant [where P = "closed_below (children_of E) []", OF roots start]) (rule visit_closed)
  have top: "cr_child_run_id ` set (tree_roots E) \<subseteq> set (snd st)" using visit_children [OF roots] by simp
  have "wf (parent_rel E)" by (rule finite_acyclic_wf [OF finite_parent_rel [OF keyed] acyc])
  fix i assume "i \<in> fst ` set E"
  with \<open>wf (parent_rel E)\<close> show "i \<in> set (snd st)"
  proof (induction i rule: wf_induct_rule)
    case (less i)
    have "i \<in> cr_child_run_id ` snd ` set E" unfolding entry_ids [OF keyed] by (rule less.prems)
    then obtain e where e: "e \<in> snd ` set E" "cr_child_run_id e = i" by (elim imageE [of i cr_child_run_id]) simp
    show ?case
    proof (cases "parent_in E e")
      case None
      then have "e \<in> set (tree_roots E)" using e(1) by (auto simp: tree_roots_def)
      with top e(2) show ?thesis by auto
    next
      case (Some p)
      then have k: "e \<in> set (children_of E p)" using e(1) by (simp add: set_children_of)
      have "p \<in> fst ` set E" using Some by (auto simp: parent_in_def Let_def split: if_splits)
      with less.IH [of p] children_rel [OF k] e(2) have "p \<in> set (snd st)" by simp
      with closed k e(2) show ?thesis by (auto simp: closed_below_def)
    qed
  qed
qed

lemma rest_visited:
  assumes "cr_child_run_id ` set es \<subseteq> set (snd st)"
  shows "rfold (visit_rest n children) es st = Inr st"
  using assms by (induction es) (simp_all add: visit_rest_def)

definition forget_depth :: "child_entry \<Rightarrow> child_entry" where
  "forget_depth e = e\<lparr>cr_depth := 0\<rparr>"

lemma forget_depth_set [simp]: "forget_depth (e\<lparr>cr_depth := d\<rparr>) = forget_depth e"
  by (simp add: forget_depth_def)

lemma ordered_entries:
  assumes "entries_keyed E" and "visiting_ok E st" and "fst ` set E \<subseteq> set (snd st)"
  shows "forget_depth ` set (fst st) = forget_depth ` snd ` set E"
proof (intro equalityI subsetI)
  fix y assume "y \<in> forget_depth ` set (fst st)"
  then obtain x where x: "x \<in> set (fst st)" "y = forget_depth x" by blast
  then obtain e where e: "e \<in> snd ` set E" "x = e\<lparr>cr_depth := cr_depth x\<rparr>" using assms(2) unfolding visiting_ok_def by blast
  then have "forget_depth x = forget_depth e" by (metis forget_depth_set)
  with e(1) x(2) show "y \<in> forget_depth ` snd ` set E" by (intro image_eqI [of y forget_depth e]) simp_all
next
  fix y assume "y \<in> forget_depth ` snd ` set E"
  then obtain e where e: "e \<in> snd ` set E" "y = forget_depth e" by blast
  then have "cr_child_run_id e \<in> cr_child_run_id ` set (fst st)"
    using entry_ids [OF assms(1)] assms(2,3) unfolding visiting_ok_def by blast
  then obtain x where x: "x \<in> set (fst st)" "cr_child_run_id x = cr_child_run_id e" by (metis image_iff)
  then obtain e' where e': "e' \<in> snd ` set E" "x = e'\<lparr>cr_depth := cr_depth x\<rparr>" using assms(2) unfolding visiting_ok_def by blast
  then have "cr_child_run_id x = cr_child_run_id e'" by (metis child_run.select_convs(1) child_run.surjective child_run.update_convs(3))
  with x(2) have "e' = e" using entry_by_id [OF assms(1) e'(1) e(1)] by simp
  then have "forget_depth x = forget_depth e" using e'(2) by (metis forget_depth_set)
  with x(1) e(2) show "y \<in> forget_depth ` set (fst st)" by (intro image_eqI [of y forget_depth x]) simp_all
qed

lemma tree_order_sound:
  assumes keyed: "entries_keyed E" and ordered: "tree_order E = Inr ordered"
  shows "acyclic (parent_rel E)" and "distinct (map cr_child_run_id ordered)" and "placed E ordered"
    and "forget_depth ` set ordered = forget_depth ` snd ` set E"
proof -
  let ?n = "Suc (length E)"
  from ordered obtain st st' where roots: "rfold (visit ?n (children_of E) 1 []) (tree_roots E) ([], []) = Inr st"
    and rest: "rfold (visit_rest ?n (children_of E)) (order_by ce_first_seen (map snd E)) st = Inr st'"
    and o: "ordered = fst st'"
    unfolding tree_order_def Let_def rbind_Inr_iff by blast
  show acyc: "acyclic (parent_rel E)" by (rule no_circle [OF roots rest])
  have reached: "fst ` set E \<subseteq> set (snd st)" by (rule all_reached [OF keyed roots acyc])
  have "cr_child_run_id ` set (order_by ce_first_seen (map snd E)) \<subseteq> set (snd st)"
    using reached entry_ids [OF keyed] by simp
  from rest_visited [OF this, of ?n "children_of E"] rest have "st' = st" by simp
  have start: "visiting_ok E ([], [])" by (simp add: visiting_ok_def placed_Nil)
  have step: "visiting_ok E b" if "e \<in> set (tree_roots E)" "visiting_ok E a" "visit ?n (children_of E) 1 [] e a = Inr b" for e a b
  proof -
    have "e \<in> snd ` set E" "starts E (fst a) e 1" using that(1) by (auto simp: tree_roots_def starts_def)
    then show ?thesis using visit_ok [OF that(3,2)] by simp
  qed
  have ok: "visiting_ok E st" by (rule rfold_invariant [where P = "visiting_ok E", OF roots start]) (rule step)
  then show "distinct (map cr_child_run_id ordered)" "placed E ordered"
    unfolding o \<open>st' = st\<close> by (simp_all add: visiting_ok_def)
  show "forget_depth ` set ordered = forget_depth ` snd ` set E"
    unfolding o \<open>st' = st\<close> by (rule ordered_entries [OF keyed ok reached])
qed

section \<open>Errors\<close>

lemma fuel_below:
  assumes "i \<in> N" and "i \<notin> set anc" and "finite N" and "card (N - set anc) < Suc n"
  shows "card (N - set (i # anc)) < n"
proof -
  have "N - set (i # anc) = (N - set anc) - {i}" by auto
  moreover have "card ((N - set anc) - {i}) < card (N - set anc)" using assms by (intro card_Diff1_less) simp_all
  ultimately show ?thesis using assms(4) by simp
qed

lemma child_entry_ids: "k \<in> set (children_of E p) \<Longrightarrow> k \<in> snd ` set E"
  by (simp add: set_children_of)

lemma visit_error:
  assumes keyed: "entries_keyed E"
  shows "visit n (children_of E) d anc e st = Inl x \<Longrightarrow> e \<in> snd ` set E \<Longrightarrow> card (fst ` set E - set anc) < n \<Longrightarrow>
    x = ChildRunProjectionError"
proof (induction n arbitrary: d anc e st)
  case (Suc n)
  let ?i = "cr_child_run_id e"
  have i: "?i \<in> fst ` set E" using Suc.prems(2) entry_ids [OF keyed] by blast
  show ?case
  proof (cases "?i \<in> set anc")
    case True
    with Suc.prems(1) show ?thesis by (simp add: Let_def)
  next
    case out: False
    with Suc.prems(1) have "rfold (visit n (children_of E) (d + 1) (?i # anc)) (children_of E ?i) (entered d e st) = Inl x"
      by (simp add: Let_def split: if_splits)
    then obtain k a where "k \<in> set (children_of E ?i)" "visit n (children_of E) (d + 1) (?i # anc) k a = Inl x"
      using rfold_Inl by metis
    moreover have "card (fst ` set E - set (?i # anc)) < n" by (rule fuel_below [OF i out]) (use Suc.prems(3) in simp_all)
    ultimately show ?thesis using child_entry_ids by (intro Suc.IH)
  qed
qed simp

lemma visit_returns:
  assumes keyed: "entries_keyed E" and acyc: "acyclic (parent_rel E)"
  shows "e \<in> snd ` set E \<Longrightarrow> card (fst ` set E - set anc) < n \<Longrightarrow> \<forall>a \<in> set anc. (a, cr_child_run_id e) \<in> (parent_rel E)\<^sup>+ \<Longrightarrow>
    \<exists>st'. visit n (children_of E) d anc e st = Inr st'"
proof (induction n arbitrary: d anc e st)
  case (Suc n)
  let ?i = "cr_child_run_id e"
  have i: "?i \<in> fst ` set E" using Suc.prems(1) entry_ids [OF keyed] by blast
  have out: "?i \<notin> set anc" using Suc.prems(3) acyc by (auto simp: acyclic_def)
  have fuel: "card (fst ` set E - set (?i # anc)) < n" by (rule fuel_below [OF i out]) (use Suc.prems(2) in simp_all)
  have "\<exists>st'. visit n (children_of E) (d + 1) (?i # anc) k s = Inr st'" if k: "k \<in> set (children_of E ?i)" for k s
  proof (rule Suc.IH [OF child_entry_ids [OF k] fuel])
    show "\<forall>a \<in> set (?i # anc). (a, cr_child_run_id k) \<in> (parent_rel E)\<^sup>+"
      using Suc.prems(3) children_rel [OF k] by (auto intro: trancl_into_trancl)
  qed
  then have "\<exists>st'. rfold (visit n (children_of E) (d + 1) (?i # anc)) (children_of E ?i) (entered d e st) = Inr st'"
    by (rule rfold_returns)
  then show ?case using out by (simp add: Let_def)
qed simp

lemma tree_order_error:
  assumes keyed: "entries_keyed E" and error: "tree_order E = Inl x"
  shows "x = ChildRunProjectionError" and "\<not> acyclic (parent_rel E)"
proof -
  let ?n = "Suc (length E)" and ?rows = "order_by ce_first_seen (map snd E)"
  have fuel: "card (fst ` set E - set []) < ?n"
    using card_length [of "map fst E"] by (simp add: less_Suc_eq_le)
  have "\<exists>e \<in> snd ` set E. \<exists>a. visit ?n (children_of E) 1 [] e a = Inl x"
  proof (cases "rfold (visit ?n (children_of E) 1 []) (tree_roots E) ([], [])")
    case (Inl y)
    with error have "y = x" by (simp add: tree_order_def)
    with rfold_Inl [OF Inl] show ?thesis by (auto simp: tree_roots_def)
  next
    case (Inr st)
    with error have "rfold (visit_rest ?n (children_of E)) ?rows st = Inl x"
      by (simp add: tree_order_def rbind_def split: sum.splits)
    from rfold_Inl [OF this] obtain e a where e: "e \<in> set ?rows" "visit_rest ?n (children_of E) e a = Inl x" by blast
    then have "visit ?n (children_of E) 1 [] e a = Inl x" by (simp add: visit_rest_def split: if_splits)
    moreover have "e \<in> snd ` set E" using e(1) by simp
    ultimately show ?thesis by (intro bexI [of _ e] exI [of _ a])
  qed
  then obtain e a where e: "e \<in> snd ` set E" "visit ?n (children_of E) 1 [] e a = Inl x" by blast
  show "x = ChildRunProjectionError" by (rule visit_error [OF keyed e(2,1) fuel])
  show "\<not> acyclic (parent_rel E)"
  proof
    assume "acyclic (parent_rel E)"
    then have "\<exists>st'. visit ?n (children_of E) 1 [] e a = Inr st'" by (rule visit_returns [OF keyed _ e(1) fuel]) simp
    with e(2) show False by simp
  qed
qed

section \<open>What the fold keeps\<close>

lemma apply_parent_id: "apply_parent p e = Inr e' \<Longrightarrow> cr_child_run_id e' = cr_child_run_id e"
  by (auto simp: apply_parent_def split: if_splits)

lemma apply_event_id: "apply_event ev d e = Inr e' \<Longrightarrow> cr_child_run_id e' = cr_child_run_id e"
  by (auto simp: apply_event_def apply_words_def apply_native_def Let_def rbind_Inr_iff split: if_splits json.splits)

lemma apply_lifecycle_id:
  assumes "apply_lifecycle reg d e = Inr e'"
  shows "cr_child_run_id e' = cr_child_run_id e"
proof -
  let ?rest = "rbind (apply_parent (str_or (get d ''parentChildRunId'')) e) (\<lambda>e1.
    rbind (apply_control d (apply_tool_call d e1)) (\<lambda>e2.
      apply_event (py_str (get d ''event'')) d (apply_usage d (apply_texts d e2))))"
  from assms obtain applies where "(if \<not> applies then Inr e else ?rest) = Inr e'"
    unfolding apply_lifecycle_def Let_def rbind_Inr_iff [of _ _ e'] by (elim exE conjE)
  then consider "e' = e" | "?rest = Inr e'" by (cases applies) simp_all
  then show ?thesis
  proof cases
    case 2
    then obtain e1 e2 where e1: "apply_parent (str_or (get d ''parentChildRunId'')) e = Inr e1"
      and e2: "apply_control d (apply_tool_call d e1) = Inr e2"
      and e': "apply_event (py_str (get d ''event'')) d (apply_usage d (apply_texts d e2)) = Inr e'"
      unfolding rbind_Inr_iff by (elim exE conjE)
    have "cr_child_run_id (apply_tool_call d e1) = cr_child_run_id e1"
      by (simp add: apply_tool_call_def split: json.split)
    moreover have "cr_child_run_id e' = cr_child_run_id e2"
      using apply_event_id [OF e'] by (simp add: apply_usage_def apply_texts_def split: if_splits)
    moreover have "cr_child_run_id e2 = cr_child_run_id (apply_tool_call d e1)"
      using e2 by (auto simp: apply_control_def Let_def split: if_splits)
    ultimately show ?thesis using apply_parent_id [OF e1] by simp
  qed simp
qed

lemma apply_message_id: "apply_message d b m e = Inr e' \<Longrightarrow> cr_child_run_id e' = cr_child_run_id e"
  by (auto simp: apply_message_def Let_def rbind_Inr_iff split: if_splits option.splits dest!: apply_parent_id)

lemma apply_child_fact_id: "apply_child_fact u reg sid w b k d e = Inr e' \<Longrightarrow> cr_child_run_id e' = cr_child_run_id e"
  by (auto simp: apply_child_fact_def Let_def rbind_Inr_iff split: if_splits dest: apply_lifecycle_id apply_message_id apply_parent_id)

lemma entry_for_id:
  "entries_keyed E \<Longrightarrow> entry_for cid k ref n E = Inr e \<Longrightarrow> cr_child_run_id e = cid"
  by (auto simp: entry_for_def new_entry_def entries_keyed_def split: option.splits if_splits dest!: map_of_SomeD)

lemma dict_set_keyed:
  assumes "entries_keyed E" and "cr_child_run_id e = cid"
  shows "entries_keyed (dict_set cid e E)"
proof -
  have "cr_child_run_id (snd ke) = fst ke" if "ke \<in> set (dict_set cid e E)" for ke
    using that set_dict_set [of cid e E] assms by (auto simp: entries_keyed_def)
  with assms(1) show ?thesis by (simp add: entries_keyed_def distinct_dict_set)
qed

definition part_signature :: "registry \<Rightarrow> bool \<Rightarrow> child_part \<Rightarrow> (string \<times> string) option" where
  "part_signature reg w part =
     (case canonical_part reg w part of
        Inl e \<Rightarrow> None | Inr (b, k, d) \<Rightarrow> Some (b, dumps '','' '':'' True (sort_keys (JObj d))))"

lemma fold_part_cases [consumes 1, case_names seen new]:
  assumes "fold_part u reg sid w (n, part) st = Inr st'"
  obtains b sig where "part_signature reg w part = Some (b, sig)" and "map_of (cf_signatures st) b = Some sig" and "st' = st"
  | b sig k ref d cid e e' where "part_signature reg w part = Some (b, sig)" and "map_of (cf_signatures st) b = None"
    and "entry_for cid k ref n (cf_entries st) = Inr e" and "apply_child_fact u reg sid w b k d e = Inr e'"
    and "st' = \<lparr>cf_entries = dict_set cid e' (cf_entries st), cf_signatures = dict_set b sig (cf_signatures st)\<rparr>"
proof -
  from assms obtain b k d where c: "canonical_part reg w part = Inr (b, k, d)"
    by (cases "canonical_part reg w part") (auto simp: fold_part_def)
  let ?sig = "dumps '','' '':'' True (sort_keys (JObj d))"
  have sig: "part_signature reg w part = Some (b, ?sig)" by (simp add: part_signature_def c)
  show ?thesis
  proof (cases "map_of (cf_signatures st) b")
    case None
    from assms obtain cid d' e e' where "entry_for cid k (py_str (get d ''engineRef'')) n (cf_entries st) = Inr e"
      "apply_child_fact u reg sid w b k d' e = Inr e'"
      "\<lparr>cf_entries = dict_set cid e' (cf_entries st), cf_signatures = dict_set b ?sig (cf_signatures st)\<rparr> = st'"
      unfolding fold_part_def snd_conv fst_conv c rbind_Inr prod.case Let_def None option.case rbind_Inr_iff
      by (elim exE conjE) simp
    then show ?thesis by (intro that(2) [OF sig None]) (assumption | rule sym)+
  next
    case (Some old)
    with assms have "old = ?sig" "st' = st" by (simp_all add: fold_part_def c Let_def split: if_splits)
    with Some show ?thesis by (intro that(1) [OF sig]) simp_all
  qed
qed

lemma fold_part_keyed:
  assumes "fold_part u reg sid w np st = Inr st'" and "entries_keyed (cf_entries st)"
  shows "entries_keyed (cf_entries st')"
proof -
  obtain n part where np: "np = (n, part)" by (cases np)
  from assms(1) [unfolded np] show ?thesis
  proof (cases rule: fold_part_cases)
    case seen
    with assms(2) show ?thesis by simp
  next
    case (new b sig k ref d cid e e')
    have "cr_child_run_id e' = cid" using entry_for_id [OF assms(2) new(3)] apply_child_fact_id [OF new(4)] by simp
    then show ?thesis unfolding new(5) child_fold.select_convs by (rule dict_set_keyed [OF assms(2)])
  qed
qed

lemma fold_keyed: "fold_parts_of u reg sid parts w = Inr st \<Longrightarrow> entries_keyed (cf_entries st)"
  unfolding fold_parts_of_def
  by (rule rfold_invariant [where P = "\<lambda>st. entries_keyed (cf_entries st)"])
     (assumption, simp add: entries_keyed_def, rule fold_part_keyed)

text \<open>
  C25. The sub-agents of a session are listed every one once and with nothing changed but its depth, each
  after its parent and one level below it, those without a listed parent at depth 1; the
  listing is refused exactly when the parents go around in a circle, and it always ends.
\<close>

theorem sub_agents_are_in_tree_order:
  assumes "fold_parts_of u reg sid parts w = Inr st"
  shows "case tree_order (cf_entries st) of
      Inl e \<Rightarrow> e = ChildRunProjectionError \<and> \<not> acyclic (parent_rel (cf_entries st))
    | Inr ordered \<Rightarrow> acyclic (parent_rel (cf_entries st)) \<and> distinct (map cr_child_run_id ordered) \<and>
        forget_depth ` set ordered = forget_depth ` snd ` set (cf_entries st) \<and> placed (cf_entries st) ordered"
proof (cases "tree_order (cf_entries st)")
  case (Inl e)
  with tree_order_error [OF fold_keyed [OF assms] Inl] show ?thesis by simp
next
  case (Inr ordered)
  with tree_order_sound [OF fold_keyed [OF assms] Inr] show ?thesis by simp
qed

definition sample_uuid5 :: uuid5 where
  "sample_uuid5 ns name = name"

definition sample_child :: "string \<Rightarrow> string \<Rightarrow> string \<Rightarrow> child_part" where
  "sample_child ident ref parent =
     \<lparr>cp_id = JStr ident,
      cp_data = JObj [(''kind'', JStr ''lifecycle''), (''event'', JStr ''opened''), (''engineKind'', JStr ''pi''), (''engineRef'', JStr ref),
        (''parentEngineRef'', JStr parent), (''engineEvent'', JStr ''started''), (''operations'', JList [])]\<rparr>"

definition sample_children :: "child_part list" where
  "sample_children = [sample_child ''1'' ''b'' ''a'', sample_child ''2'' ''a'' []]"

lemma sample_listed: "\<exists>entries. fold_child_runs sample_uuid5 (\<lambda>_. None) ''s'' sample_children False = Inr entries"
proof -
  have "\<not> Sum_Type.isl (fold_child_runs sample_uuid5 (\<lambda>_. None) ''s'' sample_children False)" by code_simp
  then show ?thesis by (cases "fold_child_runs sample_uuid5 (\<lambda>_. None) ''s'' sample_children False") auto
qed

theorem sub_agents_are_in_tree_order_witness:
  "\<exists>st ordered. fold_parts_of sample_uuid5 (\<lambda>_. None) ''s'' sample_children False = Inr st \<and>
     tree_order (cf_entries st) = Inr ordered \<and> placed (cf_entries st) ordered"
proof -
  obtain st ordered where st: "fold_parts_of sample_uuid5 (\<lambda>_. None) ''s'' sample_children False = Inr st"
    and o: "tree_order (cf_entries st) = Inr ordered"
    using sample_listed unfolding fold_child_runs_def rbind_Inr_iff by (elim exE conjE)
  from sub_agents_are_in_tree_order [OF st] o have "placed (cf_entries st) ordered" by simp
  with st o show ?thesis by (intro exI conjI)
qed

section \<open>Parts delivered again\<close>

definition recorded :: "child_fold \<Rightarrow> (string \<times> string) set" where
  "recorded st = {(b, sig). map_of (cf_signatures st) b = Some sig}"

lemma fold_part_records:
  assumes "fold_part u reg sid w (n, part) st = Inr st'"
  shows "recorded st \<union> set_option (part_signature reg w part) \<subseteq> recorded st'"
  using assms
proof (cases rule: fold_part_cases)
  case seen
  then show ?thesis by (auto simp: recorded_def)
next
  case new
  then show ?thesis by (auto simp: recorded_def dict_get_set)
qed

lemma fold_part_again:
  assumes "part_signature reg w part = Some x" and "x \<in> recorded st"
  shows "fold_part u reg sid w (n, part) st = Inr st"
  using assms
  by (cases "canonical_part reg w part") (auto simp: part_signature_def recorded_def fold_part_def)

lemma fold_records:
  assumes "fold_parts_of u reg sid parts w = Inr st" and "part \<in> set parts"
  shows "\<exists>x. part_signature reg w part = Some x \<and> x \<in> recorded st"
proof -
  let ?f = "fold_part u reg sid w"
  have run: "rfold ?f (enumerate 0 parts) \<lparr>cf_entries = [], cf_signatures = []\<rparr> = Inr st"
    using assms(1) by (simp add: fold_parts_of_def)
  have all: "True \<and> recorded \<lparr>cf_entries = [], cf_signatures = []\<rparr> \<union> (\<Union>np \<in> set (enumerate 0 parts). set_option (part_signature reg w (snd np))) \<subseteq> recorded st"
    by (rule rfold_collects [OF _ run]) (use fold_part_records in \<open>auto simp: split_paired_all\<close>)
  obtain n where n: "(n, part) \<in> set (enumerate 0 parts)"
  proof -
    from assms(2) obtain i where "i < length parts" "parts ! i = part" unfolding in_set_conv_nth by (elim exE conjE)
    then show ?thesis by (intro that [of i]) (simp add: in_set_enumerate_eq)
  qed
  obtain a b where "?f (n, part) a = Inr b" using rfold_all [OF run n] by blast
  then have "part_signature reg w part \<noteq> None" by (cases rule: fold_part_cases) simp_all
  then obtain x where x: "part_signature reg w part = Some x" by blast
  have "set_option (part_signature reg w (snd (n, part))) \<subseteq> recorded st"
    using UN_upper [OF n, of "\<lambda>np. set_option (part_signature reg w (snd np))"] all by blast
  with x show ?thesis by simp
qed

text \<open>
  C26. Parts of the log that are delivered again change nothing in what is known of the sub-agents: the
  fold of a log followed by any of its parts is the fold of the log.
\<close>

theorem redelivered_parts_change_nothing:
  assumes "fold_child_runs u reg sid parts w = Inr entries" and "set again \<subseteq> set parts"
  shows "fold_child_runs u reg sid (parts @ again) w = Inr entries"
proof -
  from assms(1) obtain st where st: "fold_parts_of u reg sid parts w = Inr st"
    by (auto simp: fold_child_runs_def rbind_Inr_iff)
  have "rfold (fold_part u reg sid w) nps st = Inr st" if "snd ` set nps \<subseteq> set parts" for nps
    using that
  proof (induction nps)
    case (Cons np nps)
    obtain n part where np: "np = (n, part)" by (cases np)
    with Cons.prems have "part \<in> set parts" by simp
    then obtain x where "part_signature reg w part = Some x" "x \<in> recorded st" using fold_records [OF st] by metis
    then have "fold_part u reg sid w np st = Inr st" unfolding np by (rule fold_part_again)
    with Cons show ?case by simp
  qed simp
  moreover have "snd ` set (enumerate (length parts) again) \<subseteq> set parts" using assms(2) by (metis list.set_map map_snd_enumerate)
  ultimately have "fold_parts_of u reg sid (parts @ again) w = Inr st"
    using st by (simp add: fold_parts_of_def enumerate_append_eq rfold_append)
  with st assms(1) show ?thesis by (simp add: fold_child_runs_def)
qed

theorem redelivered_parts_change_nothing_witness:
  "\<exists>entries. fold_child_runs sample_uuid5 (\<lambda>_. None) ''s'' sample_children False = Inr entries \<and>
     fold_child_runs sample_uuid5 (\<lambda>_. None) ''s'' (sample_children @ sample_children) False = Inr entries"
proof -
  obtain entries where e: "fold_child_runs sample_uuid5 (\<lambda>_. None) ''s'' sample_children False = Inr entries" using sample_listed by blast
  with redelivered_parts_change_nothing [OF e, of sample_children] show ?thesis by blast
qed

section \<open>A native state of null\<close>

definition sample_null_state :: obj where
  "sample_null_state =
     [(''kind'', JStr ''lifecycle''), (''event'', JStr ''opened''), (''engineKind'', JStr ''pi''), (''engineRef'', JStr ''a''),
      (''engineEvent'', JStr ''started''), (''nativeState'', JNull), (''operations'', JList [])]"

text \<open>
  A fact whose \<^verbatim>\<open>nativeState\<close> is null passes the contract, and then no list of the session's sub-agents can be
  read: applying it raises a \<^verbatim>\<open>TypeError\<close>, which the readers of the list do not handle.
\<close>

lemma null_native_state_raises:
  "canonical_child_run_data sample_null_state ''pi'' = Inr sample_null_state"
  "fold_child_runs sample_uuid5 (\<lambda>_. None) ''s'' [\<lparr>cp_id = JStr ''1'', cp_data = JObj sample_null_state\<rparr>] False = Inl TypeError"
  by code_simp+

end
