(* ===== verification/Summaries.thy ===== *)
theory Summaries
  imports HistoryBlocks
begin

text \<open>
  The labels over a response's folded work: the table and the claims of
  \<^verbatim>\<open>process_summary_repository.py\<close>, and their writer, \<^verbatim>\<open>session_runtime/process_summaries.py\<close>.

  A row is the claim to write a label. The model that names the work is a parameter, and so is what
  others commit to the table while it is called: a write is cut at that call. That the session of a
  claim exists is a foreign key of the table and not repeated here.
\<close>

section \<open>The table\<close>

datatype summary_status = Generating | SCompleted | SFailed

record summary_row =
  ps_session_id :: string
  ps_response_id :: string
  ps_status :: summary_status
  ps_claim_token :: "string option"
  ps_through_seq :: "int option"
  ps_response_completed :: bool
  ps_summary :: "string option"
  ps_error :: "string option"
  ps_expires_at :: "time option"
  ps_updated_at :: time

definition CLAIM_LEASE_S :: int where
  "CLAIM_LEASE_S = 60"

definition EXPIRED_ERROR :: string where
  "EXPIRED_ERROR = ''process summary generation expired''"

definition summary_of :: "string \<Rightarrow> string \<Rightarrow> summary_row \<Rightarrow> bool" where
  "summary_of sid rid r \<longleftrightarrow> ps_session_id r = sid \<and> ps_response_id r = rid"

definition claim_expired :: "time \<Rightarrow> summary_row \<Rightarrow> bool" where
  "claim_expired now r \<longleftrightarrow> ps_status r = Generating \<and> (case ps_expires_at r of None \<Rightarrow> False | Some t \<Rightarrow> t < now)"

definition claimed_row :: "string \<Rightarrow> string \<Rightarrow> int \<Rightarrow> bool \<Rightarrow> string \<Rightarrow> time \<Rightarrow> summary_row" where
  "claimed_row sid rid through completed token now =
     \<lparr>ps_session_id = sid, ps_response_id = rid, ps_status = Generating, ps_claim_token = Some token,
      ps_through_seq = Some through, ps_response_completed = completed, ps_summary = None, ps_error = None,
      ps_expires_at = Some (now + CLAIM_LEASE_S), ps_updated_at = now\<rparr>"

definition claim_summary :: "string \<Rightarrow> string \<Rightarrow> int \<Rightarrow> bool \<Rightarrow> bool \<Rightarrow> string \<Rightarrow> time \<Rightarrow> summary_row list \<Rightarrow>
    string option res \<times> summary_row list" where
  "claim_summary sid rid through completed retry_failed token now rows =
     transaction (\<lambda>rows.
       let row = claimed_row sid rid through completed token now;
           rows1 = insert_absent (\<lambda>r. (ps_session_id r, ps_response_id r)) row rows;
           reopened = (\<lambda>r. summary_of sid rid r \<and> (ps_status r = SFailed \<or> claim_expired now r))
       in case first_row (summary_of sid rid) rows1 of
            None \<Rightarrow> Inl NoResultFound
          | Some current \<Rightarrow>
              if ps_claim_token current = Some token then Inr (Some token, rows1)
              else if \<not> retry_failed then Inr (None, rows1)
              else Inr (if rowcount reopened rows1 = 1 then Some token else None,
                        update_where reopened (\<lambda>_. row) rows1)) rows"

definition finish_summary :: "string \<Rightarrow> string \<Rightarrow> string \<Rightarrow> summary_status \<Rightarrow> string option \<Rightarrow> string option \<Rightarrow> time \<Rightarrow>
    summary_row list \<Rightarrow> bool \<times> summary_row list" where
  "finish_summary sid rid token status summary err now rows =
     (let current = (\<lambda>r. summary_of sid rid r \<and> ps_status r = Generating \<and> ps_claim_token r = Some token) in
      (rowcount current rows = 1,
       update_where current (\<lambda>r. r\<lparr>ps_status := status, ps_summary := summary, ps_error := err, ps_expires_at := None,
         ps_updated_at := now\<rparr>) rows))"

record summary_view =
  sv_status :: summary_status
  sv_summary :: "string option"
  sv_error :: "string option"
  sv_through_seq :: "int option"
  sv_response_completed :: bool

definition view_of :: "time \<Rightarrow> summary_row \<Rightarrow> summary_view" where
  "view_of now r =
     \<lparr>sv_status = (if claim_expired now r then SFailed else ps_status r), sv_summary = ps_summary r,
      sv_error = (if claim_expired now r then Some EXPIRED_ERROR else ps_error r),
      sv_through_seq = ps_through_seq r, sv_response_completed = ps_response_completed r\<rparr>"

definition read_summaries :: "string \<Rightarrow> string list \<Rightarrow> time \<Rightarrow> summary_row list \<Rightarrow> (string, summary_view) dict" where
  "read_summaries sid rids now rows =
     (if rids = [] then []
      else dict_update [] (map (\<lambda>r. (ps_response_id r, view_of now r))
             (filter (\<lambda>r. ps_session_id r = sid \<and> ps_response_id r \<in> set rids) rows)))"

section \<open>Writing a label\<close>

record presented =
  pr_status :: string
  pr_summary :: "string option"
  pr_error :: "string option"
  pr_response_completed :: "bool option"

fun status_name :: "summary_status \<Rightarrow> string" where
  "status_name Generating = ''generating''"
| "status_name SCompleted = ''completed''"
| "status_name SFailed = ''failed''"

definition presented_of :: "bool \<Rightarrow> summary_view \<Rightarrow> presented" where
  "presented_of enabled v =
     (let shown = \<lparr>pr_status = status_name (sv_status v), pr_summary = sv_summary v, pr_error = sv_error v,
                   pr_response_completed = Some (sv_response_completed v)\<rparr>
      in if \<not> enabled \<and> (sv_summary v = None \<or> sv_summary v = Some [])
         then shown\<lparr>pr_status := ''disabled'', pr_error := None\<rparr> else shown)"

definition disabled_view :: presented where
  "disabled_view = \<lparr>pr_status = ''disabled'', pr_summary = None, pr_error = None, pr_response_completed = None\<rparr>"

definition current_view :: "string \<Rightarrow> string \<Rightarrow> time \<Rightarrow> summary_row list \<Rightarrow> summary_view res" where
  "current_view sid rid now rows =
     (case map_of (read_summaries sid [rid] now rows) rid of None \<Rightarrow> Inl RuntimeError | Some v \<Rightarrow> Inr v)"

text \<open>The inputs a response answers, in acceptance order.\<close>

definition accepted_inputs_for :: "string \<Rightarrow> string \<Rightarrow> db \<Rightarrow> input_row list" where
  "accepted_inputs_for sid rid db =
     order_by i_seq (filter (\<lambda>i. exists_row (\<lambda>l. ri_session_id l = sid \<and> ri_response_id l = rid \<and> ri_input_id l = i_input_id i)
       (t_response_inputs db)) (t_inputs db))"

text \<open>
  What the label costs: the texts the model is asked about, when the claim was granted; and the outcome
  it records. \<open>model\<close> answers the label, or the text of the error it raised.
\<close>

definition asked_texts :: "string \<Rightarrow> string \<Rightarrow> response_fold \<Rightarrow> db \<Rightarrow> string \<times> string" where
  "asked_texts sid rid rf db =
     (join [char_of (10::nat), char_of (10::nat)] (map i_content (accepted_inputs_for sid rid db)),
      case rf_summary_text rf of None \<Rightarrow> ''None'' | Some t \<Rightarrow> t)"

definition write_label :: "(string \<Rightarrow> string \<Rightarrow> string + string) \<Rightarrow> (summary_row list \<Rightarrow> summary_row list) \<Rightarrow> string \<Rightarrow> string \<Rightarrow>
    int \<Rightarrow> response_fold \<Rightarrow> bool \<Rightarrow> string \<Rightarrow> time \<Rightarrow> time \<Rightarrow> db \<Rightarrow> summary_row list \<Rightarrow> summary_view res \<times> summary_row list" where
  "write_label model meanwhile sid rid seq_end rf retry_failed token now later db rows =
     (case claim_summary sid rid seq_end (rf_response_completed rf) retry_failed token now rows of
        (Inl e, rows1) \<Rightarrow> (Inl e, rows1)
      | (Inr None, rows1) \<Rightarrow> (current_view sid rid now rows1, rows1)
      | (Inr (Some t), rows1) \<Rightarrow>
          (let (user_text, process_text) = asked_texts sid rid rf db;
               (status, summary, err) =
                 (case model user_text process_text of
                    Inl failure \<Rightarrow> (SFailed, None, Some (take 500 failure)) | Inr label \<Rightarrow> (SCompleted, Some label, None));
               (mine, rows2) = finish_summary sid rid t status summary err later (meanwhile rows1)
           in if mine
              then (Inr \<lparr>sv_status = status, sv_summary = summary, sv_error = err, sv_through_seq = Some seq_end,
                         sv_response_completed = rf_response_completed rf\<rparr>, rows2)
              else (current_view sid rid later rows2, rows2)))"

record labels_world =
  lw_db :: db
  lw_folds :: folds
  lw_rows :: "summary_row list"

definition request_new :: "bool \<Rightarrow> (string \<Rightarrow> string \<Rightarrow> string + string) \<Rightarrow> (summary_row list \<Rightarrow> summary_row list) \<Rightarrow> string \<Rightarrow> string \<Rightarrow>
    bool \<Rightarrow> string \<Rightarrow> time \<Rightarrow> time \<Rightarrow> labels_world \<Rightarrow> presented res \<times> labels_world" where
  "request_new enabled model meanwhile sid rid retry_failed token now later w =
     (if \<not> enabled then (Inr disabled_view, w)
      else case load_response sid rid None (lw_db w, lw_folds w) of
        (Inl e, db', st') \<Rightarrow> (Inl e, w\<lparr>lw_db := db', lw_folds := st'\<rparr>)
      | (Inr None, db', st') \<Rightarrow> (Inl (APIError ''NOT_FOUND'' 404), w\<lparr>lw_db := db', lw_folds := st'\<rparr>)
      | (Inr (Some loaded), db', st') \<Rightarrow>
          (case lr_fold loaded of
             None \<Rightarrow> (Inl (APIError ''INVALID_REQUEST'' 400), w\<lparr>lw_db := db', lw_folds := st'\<rparr>)
           | Some rf \<Rightarrow>
               if rf_summary_text rf = None then (Inl (APIError ''INVALID_REQUEST'' 400), w\<lparr>lw_db := db', lw_folds := st'\<rparr>)
               else (case write_label model meanwhile sid rid (lr_last_seq loaded) rf retry_failed token now later db' (lw_rows w) of
                       (view, rows') \<Rightarrow> (rbind view (\<lambda>v. Inr (presented_of enabled v)),
                                         \<lparr>lw_db = db', lw_folds = st', lw_rows = rows'\<rparr>))))"

definition request_label :: "bool \<Rightarrow> (string \<Rightarrow> string \<Rightarrow> string + string) \<Rightarrow> (summary_row list \<Rightarrow> summary_row list) \<Rightarrow> string \<Rightarrow> string \<Rightarrow>
    bool \<Rightarrow> string \<Rightarrow> time \<Rightarrow> time \<Rightarrow> labels_world \<Rightarrow> presented res \<times> labels_world" where
  "request_label enabled model meanwhile sid rid retry_failed token now later w =
     (case map_of (read_summaries sid [rid] now (lw_rows w)) rid of
        Some v \<Rightarrow>
          if retry_failed \<and> sv_status v = SFailed
          then request_new enabled model meanwhile sid rid retry_failed token now later w
          else (Inr (presented_of enabled v), w)
      | None \<Rightarrow> request_new enabled model meanwhile sid rid retry_failed token now later w)"

text \<open>
  What a reader's commit starts: a label for each response the batch ended. Whatever goes wrong is
  logged; nothing awaits the task.
\<close>

definition offer_label :: "(string \<Rightarrow> string \<Rightarrow> string + string) \<Rightarrow> (summary_row list \<Rightarrow> summary_row list) \<Rightarrow> string \<Rightarrow> string \<Rightarrow>
    string \<Rightarrow> time \<Rightarrow> time \<Rightarrow> labels_world \<Rightarrow> labels_world" where
  "offer_label model meanwhile sid rid token now later w =
     (case load_response sid rid None (lw_db w, lw_folds w) of
        (Inr (Some loaded), db', st') \<Rightarrow>
          (case lr_fold loaded of
             None \<Rightarrow> w\<lparr>lw_db := db', lw_folds := st'\<rparr>
           | Some rf \<Rightarrow>
               if rf_summary_text rf = None then w\<lparr>lw_db := db', lw_folds := st'\<rparr>
               else \<lparr>lw_db = db', lw_folds = st',
                      lw_rows = snd (write_label model meanwhile sid rid (lr_last_seq loaded) rf False token now later db' (lw_rows w))\<rparr>)
      | (_, db', st') \<Rightarrow> w\<lparr>lw_db := db', lw_folds := st'\<rparr>)"

definition on_facts :: "bool \<Rightarrow> string \<Rightarrow> fact list \<Rightarrow> (string \<times> string) list" where
  "on_facts enabled sid facts =
     (if \<not> enabled then []
      else List.map_filter (\<lambda>f. case f of ResponseEnd rid oc reason usage err \<Rightarrow> Some (sid, rid) | _ \<Rightarrow> None) facts)"

definition labels :: "bool \<Rightarrow> string \<Rightarrow> string list \<Rightarrow> time \<Rightarrow> summary_row list \<Rightarrow> (string, presented) dict" where
  "labels enabled sid rids now rows =
     map (\<lambda>(rid, v). (rid, (presented_of enabled v)\<lparr>pr_response_completed := None\<rparr>)) (read_summaries sid rids now rows)"

section \<open>One writer at a time\<close>

text \<open>All that happens to the table: claims, each under a token of its own, and outcomes, under any token.\<close>

type_synonym summaries = "summary_row list \<times> string list"

inductive summary_step :: "summaries \<Rightarrow> summaries \<Rightarrow> bool" where
  claims: "token \<notin> set issued \<Longrightarrow> snd (claim_summary sid rid through completed retry_failed token now rows) = rows' \<Longrightarrow>
     summary_step (rows, issued) (rows', token # issued)"
| finishes: "status \<noteq> Generating \<Longrightarrow> snd (finish_summary sid rid token status summary err now rows) = rows' \<Longrightarrow>
     summary_step (rows, issued) (rows', issued)"

abbreviation summary_runs :: "summaries \<Rightarrow> summaries \<Rightarrow> bool" where
  "summary_runs \<equiv> summary_step\<^sup>*\<^sup>*"

abbreviation ps_key :: "summary_row \<Rightarrow> string \<times> string" where
  "ps_key r \<equiv> (ps_session_id r, ps_response_id r)"

definition summaries_ok :: "summaries \<Rightarrow> bool" where
  "summaries_ok s \<longleftrightarrow> distinct (map ps_key (fst s)) \<and> (\<forall>r \<in> set (fst s). ps_claim_token r \<in> Some ` set (snd s))"

text \<open>How the row of one response moves on: a completed one not at all, and to a token not yet issued or not at all.\<close>

definition row_later :: "string list \<Rightarrow> summary_row \<Rightarrow> summary_row \<Rightarrow> bool" where
  "row_later issued r r' \<longleftrightarrow>
     ps_key r' = ps_key r \<and> (ps_status r = SCompleted \<longrightarrow> r' = r) \<and>
     (ps_claim_token r' = ps_claim_token r \<or> ps_claim_token r' \<notin> Some ` set issued)"

definition rows_later :: "summaries \<Rightarrow> summaries \<Rightarrow> bool" where
  "rows_later s s' \<longleftrightarrow> set (snd s) \<subseteq> set (snd s') \<and> (\<forall>r \<in> set (fst s). \<exists>r' \<in> set (fst s'). row_later (snd s) r r')"

lemma row_later_refl: "row_later issued r r"
  by (simp add: row_later_def)

lemma rows_later_trans:
  assumes "rows_later a b" and "rows_later b c"
  shows "rows_later a c"
  unfolding rows_later_def
proof (intro conjI ballI)
  show "set (snd a) \<subseteq> set (snd c)" using assms by (auto simp: rows_later_def)
  fix r assume "r \<in> set (fst a)"
  then obtain r' where r': "r' \<in> set (fst b)" "row_later (snd a) r r'" using assms(1) unfolding rows_later_def by blast
  then obtain r'' where r'': "r'' \<in> set (fst c)" "row_later (snd b) r' r''" using assms(2) unfolding rows_later_def by blast
  have "set (snd a) \<subseteq> set (snd b)" using assms(1) by (simp add: rows_later_def)
  then have "row_later (snd a) r r''" using r'(2) r''(2) unfolding row_later_def by (auto simp: image_iff)
  with r''(1) show "\<exists>r' \<in> set (fst c). row_later (snd a) r r'" by blast
qed

lemma claim_reopens:
  assumes "snd (claim_summary sid rid through completed retry token now rows) = rows'"
  obtains p where "rows' = update_where p (\<lambda>_. claimed_row sid rid through completed token now)
      (insert_absent ps_key (claimed_row sid rid through completed token now) rows)"
    and "\<And>r. p r \<Longrightarrow> summary_of sid rid r \<and> ps_status r \<noteq> SCompleted"
  | "rows' = rows"
proof -
  let ?row = "claimed_row sid rid through completed token now"
  let ?rows = "insert_absent ps_key ?row rows"
  let ?p = "\<lambda>r. summary_of sid rid r \<and> (ps_status r = SFailed \<or> claim_expired now r)"
  have none: "?rows = update_where (\<lambda>_. False) (\<lambda>_. ?row) ?rows" by (simp add: update_where_def)
  have p: "summary_of sid rid r \<and> ps_status r \<noteq> SCompleted" if "?p r" for r using that by (auto simp: claim_expired_def)
  from assms have "rows' = rows \<or> rows' = ?rows \<or> rows' = update_where ?p (\<lambda>_. ?row) ?rows"
    unfolding claim_summary_def transaction_def Let_def
    by (cases "first_row (summary_of sid rid) ?rows") (auto split: if_splits)
  then show ?thesis
  proof (elim disjE)
    assume "rows' = rows"
    then show ?thesis by (rule that(2))
  next
    assume "rows' = ?rows"
    then have "rows' = update_where (\<lambda>_. False) (\<lambda>_. ?row) ?rows" using none by simp
    then show ?thesis by (rule that(1)) simp
  next
    assume "rows' = update_where ?p (\<lambda>_. ?row) ?rows"
    then show ?thesis by (rule that(1)) (rule p)
  qed
qed

lemma claimed_row_key: "ps_key (claimed_row sid rid through completed token now) = (sid, rid)"
  "ps_claim_token (claimed_row sid rid through completed token now) = Some token"
  by (simp_all add: claimed_row_def)

lemma update_where_keys:
  "(\<And>r. p r \<Longrightarrow> key (f r) = key r) \<Longrightarrow> map key (update_where p f rows) = map key rows"
  by (induction rows) simp_all

lemma claims_later:
  assumes ok: "summaries_ok (rows, issued)" and fresh: "token \<notin> set issued"
    and step: "snd (claim_summary sid rid through completed retry token now rows) = rows'"
  shows "summaries_ok (rows', token # issued) \<and> rows_later (rows, issued) (rows', token # issued)"
  using step
proof (cases rule: claim_reopens)
  case (1 p)
  let ?row = "claimed_row sid rid through completed token now" and ?rows = "insert_absent ps_key (claimed_row sid rid through completed token now) rows"
  have keys: "map ps_key rows' = map ps_key ?rows"
    unfolding 1(1) by (rule update_where_keys) (drule 1(2), simp add: claimed_row_def summary_of_def)
  moreover have "distinct (map ps_key ?rows)" using ok by (intro distinct_map_insert_absent) (simp add: summaries_ok_def)
  moreover have tokens: "ps_claim_token r \<in> Some ` set (token # issued)" if "r \<in> set rows'" for r
    using that ok by (auto simp: 1(1) set_update_where set_insert_absent summaries_ok_def claimed_row_key split: if_splits)
  ultimately have "summaries_ok (rows', token # issued)" by (simp add: summaries_ok_def)
  moreover have "\<exists>r' \<in> set rows'. row_later issued r r'" if "r \<in> set rows" for r
  proof (cases "p r")
    case True
    then have "row_later issued r ?row"
      using 1(2) [OF True] fresh by (auto simp: row_later_def claimed_row_key summary_of_def)
    moreover have "?row \<in> set rows'" using True that by (auto simp: 1(1) set_update_where set_insert_absent)
    ultimately show ?thesis by blast
  next
    case False
    then have "r \<in> set rows'" using that by (auto simp: 1(1) set_update_where set_insert_absent)
    then show ?thesis using row_later_refl by blast
  qed
  ultimately show ?thesis by (auto simp: rows_later_def)
next
  case 2
  with ok show ?thesis by (auto simp: summaries_ok_def rows_later_def intro: row_later_refl)
qed

lemma finishes_later:
  assumes ok: "summaries_ok (rows, issued)" and step: "snd (finish_summary sid rid token status summary err now rows) = rows'"
  shows "summaries_ok (rows', issued) \<and> rows_later (rows, issued) (rows', issued)"
proof -
  let ?p = "\<lambda>r. summary_of sid rid r \<and> ps_status r = Generating \<and> ps_claim_token r = Some token"
  let ?f = "\<lambda>r. r\<lparr>ps_status := status, ps_summary := summary, ps_error := err, ps_expires_at := None, ps_updated_at := now\<rparr>"
  have rows': "rows' = update_where ?p ?f rows" using step by (simp add: finish_summary_def Let_def)
  have "map ps_key rows' = map ps_key rows" unfolding rows' by (rule update_where_keys) simp
  moreover have "\<forall>r \<in> set rows'. ps_claim_token r \<in> Some ` set issued"
    using ok unfolding rows' summaries_ok_def by (auto simp: set_update_where)
  ultimately have "summaries_ok (rows', issued)" using ok by (simp add: summaries_ok_def)
  moreover have "\<exists>r' \<in> set rows'. row_later issued r r'" if "r \<in> set rows" for r
  proof (rule bexI [of _ "if ?p r then ?f r else r"])
    show "row_later issued r (if ?p r then ?f r else r)" by (simp add: row_later_def)
    show "(if ?p r then ?f r else r) \<in> set rows'" unfolding rows' set_update_where by (rule imageI [OF that])
  qed
  ultimately show ?thesis by (auto simp: rows_later_def)
qed

lemma summary_runs_later: "summary_runs s s' \<Longrightarrow> summaries_ok s \<Longrightarrow> summaries_ok s' \<and> rows_later s s'"
proof (induction rule: rtranclp_induct)
  case base
  then show ?case by (auto simp: rows_later_def intro: row_later_refl)
next
  case (step y z)
  then have y: "summaries_ok y" "rows_later s y" by auto
  from step(2) y(1) have "summaries_ok z \<and> rows_later y z"
    by (cases rule: summary_step.cases) (auto dest: claims_later finishes_later)
  with y(2) rows_later_trans show ?case by blast
qed

lemma summary_reached:
  assumes "summary_runs ([], []) (rows, issued)"
  shows "summaries_ok (rows, issued)"
  using summary_runs_later [OF assms] by (simp add: summaries_ok_def)

lemma row_of_response_unique:
  assumes "summaries_ok (rows, issued)" and "r \<in> set rows" and "r' \<in> set rows" and "ps_key r = ps_key r'"
  shows "r = r'"
  using assms by (intro unique_row [of ps_key rows]) (auto simp: summaries_ok_def)

lemma untouched:
  assumes "filter p rows = []"
  shows "update_where p f rows = rows" and "rowcount p rows = Suc 0 \<longleftrightarrow> False"
  using assms by (auto simp: rowcount_def filter_empty_conv intro: update_where_id)

text \<open>Whoever lost the claim writes nothing.\<close>

lemma finish_of_another:
  assumes "summaries_ok (rows, issued)" and "r \<in> set rows" and "ps_claim_token r \<noteq> Some token"
  shows "finish_summary (ps_session_id r) (ps_response_id r) token status summary err now rows = (False, rows)"
proof -
  have "filter (\<lambda>q. summary_of (ps_session_id r) (ps_response_id r) q \<and> ps_status q = Generating \<and> ps_claim_token q = Some token) rows = []"
    using row_of_response_unique [OF assms(1,2)] assms(3) unfolding summary_of_def filter_empty_conv by metis
  from untouched [OF this] show ?thesis by (simp add: finish_summary_def Let_def)
qed

lemma claim_while_writing:
  assumes "summaries_ok (rows, issued)" and "r \<in> set rows" and "ps_claim_token r \<noteq> Some token"
    and "ps_status r \<noteq> SFailed" and "\<not> claim_expired now r"
  shows "claim_summary (ps_session_id r) (ps_response_id r) through completed retry token now rows = (Inr None, rows)"
proof -
  let ?p = "summary_of (ps_session_id r) (ps_response_id r)"
  have only: "q = r" if "q \<in> set rows" "?p q" for q
    using row_of_response_unique [OF assms(1,2) that(1)] that(2) by (auto simp: summary_of_def)
  have held: "insert_absent ps_key (claimed_row (ps_session_id r) (ps_response_id r) through completed token now) rows = rows"
    using assms(2) by (auto simp: insert_absent_def exists_row_iff claimed_row_def)
  have "?p r" by (simp add: summary_of_def)
  then have first: "first_row ?p rows = Some r"
    using assms(2) only first_row_Some [of ?p rows] by (cases "first_row ?p rows") (auto simp: first_row_None_iff)
  have "filter (\<lambda>q. ?p q \<and> (ps_status q = SFailed \<or> claim_expired now q)) rows = []"
    using only assms(4,5) unfolding filter_empty_conv by blast
  from untouched [OF this] show ?thesis
    using assms(3) by (simp add: claim_summary_def transaction_def held first Let_def)
qed

text \<open>
  C27. A label has one writer, and a written label is final. From any state the table can reach, and
  however claims and outcomes interleave afterwards: a completed label is never touched again; a
  writer whose claim has been taken over, or who never held it, can no longer store an outcome, also
  not after further takeovers; and while a claim is live nobody else obtains one.
\<close>

theorem label_has_one_writer:
  assumes "summary_runs ([], []) (rows, issued)" and "r \<in> set rows" and "summary_runs (rows, issued) (rows', issued')"
  shows "(ps_status r = SCompleted \<longrightarrow> r \<in> set rows')
    \<and> (\<forall>token \<in> set issued. ps_claim_token r \<noteq> Some token \<longrightarrow>
          finish_summary (ps_session_id r) (ps_response_id r) token status summary err now rows' = (False, rows'))
    \<and> (\<forall>token. ps_claim_token r \<noteq> Some token \<and> ps_status r \<noteq> SFailed \<and> \<not> claim_expired now r \<longrightarrow>
          claim_summary (ps_session_id r) (ps_response_id r) through completed retry token now rows = (Inr None, rows))"
proof -
  have ok: "summaries_ok (rows, issued)" using assms(1) by (rule summary_reached)
  have ok': "summaries_ok (rows', issued')" and "rows_later (rows, issued) (rows', issued')"
    using summary_runs_later [OF assms(3) ok] by auto
  then obtain r' where r': "r' \<in> set rows'" "row_later issued r r'" using assms(2) unfolding rows_later_def by auto
  then have key: "ps_session_id r' = ps_session_id r" "ps_response_id r' = ps_response_id r" by (auto simp: row_later_def)
  have "ps_status r = SCompleted \<longrightarrow> r \<in> set rows'" using r' unfolding row_later_def by auto
  moreover have "finish_summary (ps_session_id r) (ps_response_id r) token status summary err now rows' = (False, rows')"
    if "token \<in> set issued" "ps_claim_token r \<noteq> Some token" for token
  proof -
    have "ps_claim_token r' \<noteq> Some token" using r'(2) that unfolding row_later_def by auto
    from finish_of_another [OF ok' r'(1) this] show ?thesis by (simp add: key)
  qed
  ultimately show ?thesis using claim_while_writing [OF ok assms(2)] by blast
qed

text \<open>Two writers of one label: the first is slow, its claim expires and is taken over.\<close>

definition taken_over :: "summary_row list" where
  "taken_over = snd (claim_summary ''s'' ''r'' 7 True True ''b'' 100
     (snd (claim_summary ''s'' ''r'' 7 True False ''a'' 0 [])))"

lemma taken_over_reached: "summary_runs ([], []) (taken_over, [''b'', ''a''])"
proof -
  have "summary_step ([], []) (snd (claim_summary ''s'' ''r'' 7 True False ''a'' 0 []), [''a''])"
    by (rule summary_step.claims) (simp, rule refl)
  moreover have "summary_step (snd (claim_summary ''s'' ''r'' 7 True False ''a'' 0 []), [''a'']) (taken_over, [''b'', ''a''])"
    by (rule summary_step.claims) (simp, simp add: taken_over_def)
  ultimately show ?thesis by simp
qed

lemma taken_over_value: "taken_over = [claimed_row ''s'' ''r'' 7 True ''b'' 100]"
  by code_simp

theorem label_has_one_writer_witness:
  "summary_runs ([], []) (taken_over, [''b'', ''a'']) \<and>
   finish_summary ''s'' ''r'' ''a'' SCompleted (Some ''late'') None 130 taken_over = (False, taken_over) \<and>
   claim_summary ''s'' ''r'' 7 True True ''c'' 130 taken_over = (Inr None, taken_over)"
  using label_has_one_writer [OF taken_over_reached, of "claimed_row ''s'' ''r'' 7 True ''b'' 100" taken_over "[''b'', ''a'']"
      SCompleted "Some ''late''" None 130 7 True True] taken_over_reached
  by (simp add: taken_over_value claimed_row_def claim_expired_def CLAIM_LEASE_S_def)

end
