(* ===== verification/Views.thy ===== *)
theory Views
  imports Service ChildTree Summaries
begin

text \<open>
  What the console and share links read of one session, \<^verbatim>\<open>session_runtime/views.py\<close>: history as
  messages and folded into blocks, the parts behind a header, the label of a response, file changes
  and sub-agents; with the check of a user action (\<^verbatim>\<open>seams/runtime_preparation.py\<close>) it shows to an
  owner. A read made of several statements takes the database of each: \<open>db'\<close> is a later one. The
  session list and the row half of a session's detail are not modelled.

  \<open>ip_literal\<close> is the standard library's check of a bracketed host in an URL. No character of
  Latin-1 normalises to one its other check of a host looks for.
\<close>

section \<open>User actions\<close>

definition partition_at :: "char \<Rightarrow> string \<Rightarrow> string \<times> string" where
  "partition_at c s = (takeWhile (\<lambda>x. x \<noteq> c) s, tl (dropWhile (\<lambda>x. x \<noteq> c) s))"

definition is_ascii_letter :: "char \<Rightarrow> bool" where
  "is_ascii_letter c \<longleftrightarrow> (65 \<le> (of_char c :: nat) \<and> of_char c \<le> (90::nat)) \<or> (97 \<le> (of_char c :: nat) \<and> of_char c \<le> (122::nat))"

definition scheme_char :: "char \<Rightarrow> bool" where
  "scheme_char c \<longleftrightarrow> is_ascii_letter c \<or> is_digit c \<or> c \<in> set ''+-.''"

text \<open>The scheme and the network location of \<^verbatim>\<open>urlsplit\<close>, for a text without control characters or blanks.\<close>

definition split_scheme :: "string \<Rightarrow> string \<times> string" where
  "split_scheme url =
     (let (scheme, rest) = partition_at (CHR '':'') url in
      if CHR '':'' \<in> set url \<and> scheme \<noteq> [] \<and> is_ascii_letter (hd scheme) \<and> list_all scheme_char scheme
      then (lower scheme, rest) else ([], url))"

definition netloc_of :: "string \<Rightarrow> string" where
  "netloc_of rest =
     (if startswith ''//'' rest then takeWhile (\<lambda>c. c \<notin> set ''/?#'') (drop 2 rest) else [])"

definition hostname_of :: "string \<Rightarrow> string" where
  "hostname_of netloc =
     (let hostinfo = (case rpartition (CHR ''@'') netloc of None \<Rightarrow> netloc | Some (_, info) \<Rightarrow> info) in
      if CHR ''['' \<in> set hostinfo then fst (partition_at (CHR '']'') (snd (partition_at (CHR ''['') hostinfo)))
      else fst (partition_at (CHR '':'') hostinfo))"

definition http_url :: "(string \<Rightarrow> bool) \<Rightarrow> string \<Rightarrow> bool" where
  "http_url ip_literal url =
     (let (scheme, rest) = split_scheme url; netloc = netloc_of rest;
          opened = (CHR ''['' \<in> set netloc); closed = (CHR '']'' \<in> set netloc)
      in opened = closed \<and> (opened \<longrightarrow> ip_literal netloc) \<and>
         scheme \<in> {''http'', ''https''} \<and> hostname_of netloc \<noteq> [])"

definition has_below :: "nat \<Rightarrow> string \<Rightarrow> bool" where
  "has_below n s \<longleftrightarrow> list_ex (\<lambda>c. (of_char c :: nat) < n) s"

definition validated_user_action :: "(string \<Rightarrow> bool) \<Rightarrow> json \<Rightarrow> obj option" where
  "validated_user_action ip_literal value =
     (let v = jfields value; message = get v ''message'';
          status = (if has_key v ''status'' then get v ''status'' else JStr ''user_action_required'');
          url = get v ''url''; words = text_of message; state = text_of status; link = text_of url
      in if \<not> is_obj value then None
         else if \<not> is_str message \<or> strip words = [] \<or> 500 < length words \<or> has_below 32 words then None
         else if \<not> is_str status \<or> state = [] \<or> 64 < length state \<or> has_below 33 state then None
         else if url \<noteq> JNull \<and> (\<not> is_str url \<or> 2000 < length link \<or> has_below 33 link \<or> \<not> http_url ip_literal link) then None
         else Some [(''status'', status), (''message'', JStr (strip words)), (''url'', url)])"

section \<open>One message as a page receives it\<close>

definition owner_input_metadata :: "string list" where
  "owner_input_metadata = [''author_user_id'', ''source'']"

definition public_parts :: "obj list \<Rightarrow> bool \<Rightarrow> obj list res" where
  "public_parts parts shared =
     rbind (rmap (\<lambda>part. public_part part shared) parts) (\<lambda>projected.
       Inr (filter (\<lambda>part. part \<noteq> []) (List.map_filter id projected)))"

definition public_failure :: "(string \<Rightarrow> bool) \<Rightarrow> obj \<Rightarrow> bool \<Rightarrow> obj" where
  "public_failure ip_literal failure shared =
     (case validated_user_action ip_literal (get failure ''user_action'') of
        None \<Rightarrow> dict_pop ''user_action'' failure
      | Some action \<Rightarrow>
          if shared then dict_pop ''user_action'' failure
          else dict_set ''user_action'' (JObj action) (dict_pop ''user_action'' failure))"

definition public_metadata :: "(string \<Rightarrow> bool) \<Rightarrow> obj \<Rightarrow> bool \<Rightarrow> obj" where
  "public_metadata ip_literal metadata shared =
     (let settled = (if is_obj (get metadata ''failure'')
                     then dict_set ''failure'' (JObj (public_failure ip_literal (jfields (get metadata ''failure'')) shared)) metadata
                     else metadata)
      in if shared then fold dict_pop owner_input_metadata settled else settled)"

definition public_message :: "(string \<Rightarrow> bool) \<Rightarrow> bool \<Rightarrow> ui_message \<Rightarrow> ui_message res" where
  "public_message ip_literal shared message =
     rbind (public_parts (um_parts message) shared) (\<lambda>parts.
       Inr \<lparr>um_id = um_id message, um_role = um_role message, um_parts = parts,
            um_metadata = public_metadata ip_literal (um_metadata message) shared\<rparr>)"

section \<open>History\<close>

record first_page =
  fp_output_seq :: "int option"
  fp_pending :: "obj option"

record page_view =
  pv_messages :: "ui_message list"
  pv_has_more :: bool
  pv_before :: "string option"
  pv_first :: "first_page option"

definition waiting_view :: "string \<Rightarrow> bool \<Rightarrow> db \<Rightarrow> obj option res" where
  "waiting_view sid shared db =
     (case waiting_interaction sid db of None \<Rightarrow> Inr None | Some x \<Rightarrow> interaction_view x (\<not> shared))"

definition first_page_of :: "string \<Rightarrow> string option \<Rightarrow> int \<Rightarrow> bool \<Rightarrow> db \<Rightarrow> first_page option res" where
  "first_page_of sid before output_seq shared db =
     (if before \<noteq> None then Inr None
      else rbind (waiting_view sid shared db) (\<lambda>pending.
        Inr (Some \<lparr>fp_output_seq = (if shared then None else Some output_seq), fp_pending = pending\<rparr>)))"

definition page_view_of :: "(string \<Rightarrow> bool) \<Rightarrow> string \<Rightarrow> string option \<Rightarrow> bool \<Rightarrow> db \<Rightarrow> ui_message list \<Rightarrow> bool \<Rightarrow> string option \<Rightarrow> int \<Rightarrow>
    page_view res" where
  "page_view_of ip_literal sid before shared db ms has_more next output_seq =
     rbind (rmap (public_message ip_literal shared) ms) (\<lambda>public.
     rbind (first_page_of sid before output_seq shared db) (\<lambda>head.
       Inr \<lparr>pv_messages = public, pv_has_more = has_more, pv_before = next, pv_first = head\<rparr>))"

definition messages_view :: "(string \<Rightarrow> bool) \<Rightarrow> string \<Rightarrow> string option \<Rightarrow> int \<Rightarrow> bool \<Rightarrow> db \<Rightarrow> db \<times> folds \<Rightarrow>
    page_view res \<times> db \<times> folds" where
  "messages_view ip_literal sid before limit shared db' w =
     (case history_for sid before limit w of
        (Inl e, w') \<Rightarrow> (Inl e, w')
      | (Inr page, w') \<Rightarrow>
          (page_view_of ip_literal sid before shared db' (sh_messages page) (sh_has_more page) (sh_before page)
             (sh_output_seq page), w'))"

definition cursor_refused :: "'a res \<Rightarrow> 'a res" where
  "cursor_refused r =
     (case r of
        Inl e \<Rightarrow> if e = HistoryCursorError \<or> e = FileChangeCursorError then Inl (APIError ''INVALID_REQUEST'' 400) else Inl e
      | Inr x \<Rightarrow> Inr x)"

text \<open>
  A label is written into the data of the header it belongs to: the page's first header of that
  response, which the page's messages hold too.
\<close>

definition label_json :: "presented option \<Rightarrow> json" where
  "label_json label =
     (case label of
        None \<Rightarrow> JNull
      | Some p \<Rightarrow> JObj [(''status'', JStr (pr_status p)), (''summary'', opt_json JStr (pr_summary p)),
                         (''error'', opt_json JStr (pr_error p))])"

fun fill_first_header :: "json \<Rightarrow> obj list \<Rightarrow> obj list" where
  "fill_first_header label [] = []"
| "fill_first_header label (part # parts) =
     (if type_of part = PROCESS_BLOCK_PART
      then dict_set ''data'' (JObj (dict_set ''summary'' label (jfields (get part ''data'')))) part # parts
      else part # fill_first_header label parts)"

definition with_label :: "(string, presented) dict \<Rightarrow> (string, json) dict \<Rightarrow> ui_message \<Rightarrow> ui_message" where
  "with_label ls labelled message =
     (case map_of labelled (um_id message) of
        None \<Rightarrow> message
      | Some header \<Rightarrow> message\<lparr>um_parts := fill_first_header (label_json (map_of ls (um_id message))) (um_parts message)\<rparr>)"

definition history_blocks_view :: "(string \<Rightarrow> bool) \<Rightarrow> bool \<Rightarrow> string \<Rightarrow> string option \<Rightarrow> nat \<Rightarrow> bool \<Rightarrow> time \<Rightarrow> summary_row list \<Rightarrow> db \<Rightarrow>
    db \<times> folds \<Rightarrow> page_view res \<times> db \<times> folds" where
  "history_blocks_view ip_literal enabled sid before limit shared now rows db' w =
     (case load_history_page sid before limit w of
        (r, w') \<Rightarrow>
          (rbind (cursor_refused r) (\<lambda>page.
             let ls = labels enabled sid (map fst (pg_labelled page)) now rows in
             page_view_of ip_literal sid before shared db' (map (with_label ls (pg_labelled page)) (pg_messages page))
               (pg_has_more page) (pg_next_cursor page) (pg_through_seq page)), w'))"

definition block_details_view :: "(string \<Rightarrow> bool) \<Rightarrow> string \<Rightarrow> string \<Rightarrow> string \<Rightarrow> bool \<Rightarrow> db \<times> folds \<Rightarrow>
    page_view res \<times> db \<times> folds" where
  "block_details_view ip_literal sid bid cursor shared w =
     (case load_block_parts sid bid cursor w of
        (r, w') \<Rightarrow>
          (rbind (cursor_refused r) (\<lambda>found.
             case found of
               None \<Rightarrow> Inl (APIError ''NOT_FOUND'' 404)
             | Some (loaded, parts) \<Rightarrow>
                 rbind (public_message ip_literal shared
                   \<lparr>um_id = bid, um_role = ''assistant'', um_parts = parts,
                    um_metadata = dict_set ''history_block_id'' (JStr bid) (um_metadata (lr_message loaded))\<rparr>) (\<lambda>message.
                 Inr \<lparr>pv_messages = [message], pv_has_more = False, pv_before = None, pv_first = None\<rparr>)), w'))"

section \<open>The owner's reads\<close>

definition owned :: "string \<Rightarrow> string \<Rightarrow> db \<Rightarrow> session_row res" where
  "owned user sid db =
     (case get_owned_session sid user db of None \<Rightarrow> Inl (APIError ''SESSION_NOT_FOUND'' 404) | Some s \<Rightarrow> Inr s)"

definition owner_reads :: "string \<Rightarrow> string \<Rightarrow> (db \<times> folds \<Rightarrow> 'a res \<times> db \<times> folds) \<Rightarrow> db \<times> folds \<Rightarrow> 'a res \<times> db \<times> folds" where
  "owner_reads user sid read w = (case owned user sid (fst w) of Inl e \<Rightarrow> (Inl e, w) | Inr _ \<Rightarrow> read w)"

definition owner_messages :: "(string \<Rightarrow> bool) \<Rightarrow> string \<Rightarrow> string \<Rightarrow> string option \<Rightarrow> int \<Rightarrow> db \<Rightarrow> db \<times> folds \<Rightarrow>
    page_view res \<times> db \<times> folds" where
  "owner_messages ip_literal user sid before limit db' w =
     owner_reads user sid (messages_view ip_literal sid before limit False db') w"

definition owner_history_blocks :: "(string \<Rightarrow> bool) \<Rightarrow> bool \<Rightarrow> string \<Rightarrow> string \<Rightarrow> string option \<Rightarrow> nat \<Rightarrow> time \<Rightarrow> summary_row list \<Rightarrow>
    db \<Rightarrow> db \<times> folds \<Rightarrow> page_view res \<times> db \<times> folds" where
  "owner_history_blocks ip_literal enabled user sid before limit now rows db' w =
     owner_reads user sid (history_blocks_view ip_literal enabled sid before limit False now rows db') w"

definition owner_block_details :: "(string \<Rightarrow> bool) \<Rightarrow> string \<Rightarrow> string \<Rightarrow> string \<Rightarrow> string \<Rightarrow> db \<times> folds \<Rightarrow> page_view res \<times> db \<times> folds" where
  "owner_block_details ip_literal user sid bid cursor w =
     owner_reads user sid (block_details_view ip_literal sid bid cursor False) w"

definition process_summary :: "bool \<Rightarrow> (string \<Rightarrow> string \<Rightarrow> string + string) \<Rightarrow> (summary_row list \<Rightarrow> summary_row list) \<Rightarrow> string \<Rightarrow> string \<Rightarrow>
    string \<Rightarrow> bool \<Rightarrow> string \<Rightarrow> time \<Rightarrow> time \<Rightarrow> labels_world \<Rightarrow> presented res \<times> labels_world" where
  "process_summary enabled model meanwhile user sid rid retry_failed token now later w =
     (case owned user sid (lw_db w) of
        Inl e \<Rightarrow> (Inl e, w) | Inr _ \<Rightarrow> request_label enabled model meanwhile sid rid retry_failed token now later w)"

definition owner_file_changes :: "string \<Rightarrow> string \<Rightarrow> int \<Rightarrow> db \<Rightarrow> file_changes_view res" where
  "owner_file_changes user sid after db =
     rbind (owned user sid db) (\<lambda>_. cursor_refused (file_changes sid after db))"

text \<open>A child run's read indexes stored transcripts first (\<^verbatim>\<open>child_runs.py\<close>); \<open>None\<close> is that index not returning.\<close>

definition projection_refused :: "'a res \<Rightarrow> 'a res" where
  "projection_refused r =
     (case r of
        Inl e \<Rightarrow> if e = ChildRunProjectionError then Inl (APIError ''CHILD_RUN_PROJECTION_INVALID'' 409) else Inl e
      | Inr x \<Rightarrow> Inr x)"

definition child_runs :: "uuid5 \<Rightarrow> registry \<Rightarrow> string \<Rightarrow> string \<Rightarrow> transcripts \<Rightarrow> (child_run_view list res \<times> transcripts) option" where
  "child_runs uuid5 registry user sid st =
     (case owned user sid (tr_db st) of
        Inl e \<Rightarrow> Some (Inl e, st)
      | Inr _ \<Rightarrow> map_option (map_prod projection_refused id) (list_child_runs uuid5 registry sid st))"

definition owner_child_run_messages :: "uuid5 \<Rightarrow> registry \<Rightarrow> string \<Rightarrow> string \<Rightarrow> string \<Rightarrow> transcripts \<Rightarrow>
    (child_message list res \<times> transcripts) option" where
  "owner_child_run_messages uuid5 registry user sid child_run_id st =
     (case owned user sid (tr_db st) of
        Inl e \<Rightarrow> Some (Inl e, st)
      | Inr _ \<Rightarrow>
          map_option (map_prod (\<lambda>r. rbind (projection_refused r) (\<lambda>found.
              case found of None \<Rightarrow> Inl (APIError ''CHILD_RUN_NOT_FOUND'' 404) | Some ms \<Rightarrow> Inr ms)) id)
            (child_run_messages uuid5 registry sid child_run_id st))"

definition stoppable :: "child_entry option \<Rightarrow> string res" where
  "stoppable found =
     (case found of
        None \<Rightarrow> Inl (APIError ''CHILD_RUN_NOT_FOUND'' 404)
      | Some e \<Rightarrow>
          let control_ref = or_empty (ce_control_ref e) in
          if cr_closed e then Inl (APIError ''CHILD_RUN_ALREADY_TERMINAL'' 409)
          else if ''stop'' \<notin> set (cr_operations e) \<or> control_ref = [] then Inl (APIError ''CHILD_RUN_CONTROL_UNAVAILABLE'' 409)
          else Inr control_ref)"

definition child_run_stop_control :: "uuid5 \<Rightarrow> registry \<Rightarrow> string \<Rightarrow> string \<Rightarrow> string \<Rightarrow> transcripts \<Rightarrow> (string res \<times> transcripts) option" where
  "child_run_stop_control uuid5 registry user sid child_run_id st =
     (case owned user sid (tr_db st) of
        Inl e \<Rightarrow> Some (Inl e, st)
      | Inr s \<Rightarrow>
          if s_state s \<noteq> READY then Some (Inl (APIError ''CHILD_RUN_CONTROL_UNAVAILABLE'' 409), st)
          else map_option (map_prod (\<lambda>r. rbind (projection_refused r) stoppable) id)
                 (find_child_run uuid5 registry sid child_run_id st))"

section \<open>Share links\<close>

text \<open>What is shown around a shared transcript: the interaction that waits and whether files may be fetched; the title is not modelled.\<close>

definition shared_session :: "string \<Rightarrow> bool \<Rightarrow> db \<Rightarrow> db \<Rightarrow> (obj option \<times> bool) res" where
  "shared_session sid allow_download db db' =
     (case get_session sid db of
        None \<Rightarrow> Inl (APIError ''SHARE_NOT_FOUND'' 404)
      | Some s \<Rightarrow> rbind (waiting_view sid True db') (\<lambda>pending. Inr (pending, allow_download)))"

definition shared_messages :: "(string \<Rightarrow> bool) \<Rightarrow> string \<Rightarrow> string option \<Rightarrow> int \<Rightarrow> db \<Rightarrow> db \<times> folds \<Rightarrow> page_view res \<times> db \<times> folds" where
  "shared_messages ip_literal sid before limit db' w = messages_view ip_literal sid before limit True db' w"

definition shared_history_blocks :: "(string \<Rightarrow> bool) \<Rightarrow> bool \<Rightarrow> string \<Rightarrow> string option \<Rightarrow> nat \<Rightarrow> time \<Rightarrow> summary_row list \<Rightarrow> db \<Rightarrow>
    db \<times> folds \<Rightarrow> page_view res \<times> db \<times> folds" where
  "shared_history_blocks ip_literal enabled sid before limit now rows db' w =
     history_blocks_view ip_literal enabled sid before limit True now rows db' w"

definition shared_block_details :: "(string \<Rightarrow> bool) \<Rightarrow> string \<Rightarrow> string \<Rightarrow> string \<Rightarrow> db \<times> folds \<Rightarrow> page_view res \<times> db \<times> folds" where
  "shared_block_details ip_literal sid bid cursor w = block_details_view ip_literal sid bid cursor True w"

section \<open>A page that asks its owner\<close>

text \<open>A refused message of the owner's, with the action it asks for, while a plan waits for approval.\<close>

definition refused_message :: input_row where
  "refused_message = (new_input ''s'' ''i'' ''m'' ''go'' None (Some ''ann'') (Some ''console'') 1 5)
     \<lparr>i_state := Failed, i_failure := Some (JObj [(''code'', JStr ''c''),
        (''user_action'', JObj [(''message'', JStr ''sign in''), (''url'', JStr ''https://id.example/x'')])])\<rparr>"

definition waiting_plan :: interaction_row where
  "waiting_plan = \<lparr>x_session_id = ''s'', x_interaction_id = ''x'', x_response_id = ''r'', x_contract = sample_decision [''a''],
     x_status = IOpen, x_answer = None, x_answered_by = None, x_answered_at = None, x_opened_at = 6, x_closed_at = None\<rparr>"

definition asking_db :: db where
  "asking_db = sample_db\<lparr>t_inputs := [refused_message], t_interactions := [waiting_plan], t_next_input_seq := 2\<rparr>"

definition owner_page :: page_view where
  "owner_page = (case fst (owner_messages (\<lambda>_. False) ''ann'' ''s'' None 10 asking_db (asking_db, new_folds 1000)) of
     Inr page \<Rightarrow> page | Inl e \<Rightarrow> \<lparr>pv_messages = [], pv_has_more = True, pv_before = None, pv_first = None\<rparr>)"

definition shared_page :: page_view where
  "shared_page = (case fst (shared_messages (\<lambda>_. False) ''s'' None 10 asking_db (asking_db, new_folds 1000)) of
     Inr page \<Rightarrow> page | Inl e \<Rightarrow> \<lparr>pv_messages = [], pv_has_more = True, pv_before = None, pv_first = None\<rparr>)"

lemma owner_page_read:
  "owner_messages (\<lambda>_. False) ''ann'' ''s'' None 10 asking_db (asking_db, new_folds 1000) =
     (Inr owner_page, snd (owner_messages (\<lambda>_. False) ''ann'' ''s'' None 10 asking_db (asking_db, new_folds 1000)))"
proof -
  have "\<not> isl (fst (owner_messages (\<lambda>_. False) ''ann'' ''s'' None 10 asking_db (asking_db, new_folds 1000)))" by code_simp
  then show ?thesis by (auto simp: prod_eq_iff owner_page_def split: sum.splits)
qed

lemma shared_page_read: "fst (shared_messages (\<lambda>_. False) ''s'' None 10 asking_db (asking_db, new_folds 1000)) = Inr shared_page"
proof -
  have "\<not> isl (fst (shared_messages (\<lambda>_. False) ''s'' None 10 asking_db (asking_db, new_folds 1000)))" by code_simp
  then show ?thesis by (auto simp: shared_page_def split: sum.splits)
qed

section \<open>What a share link does not carry\<close>

definition shared_ok :: "ui_message \<Rightarrow> bool" where
  "shared_ok m \<longleftrightarrow>
     (\<forall>k \<in> set owner_input_metadata. \<not> has_key (um_metadata m) k) \<and>
     \<not> has_key (jfields (get (um_metadata m) ''failure'')) ''user_action'' \<and>
     (\<forall>part \<in> set (um_parts m).
        (\<forall>kv \<in> set part. \<not> is_private_key (fst kv)) \<and>
        (get part ''type'' = JStr ''data-subagent'' \<longrightarrow> set engine_child_refs \<inter> keys_of (get part ''data'') = {}) \<and>
        (get part ''type'' = JStr ''data-interaction'' \<longrightarrow> safe_view (jfields (get part ''data'')) False))"

definition first_ok :: "first_page \<Rightarrow> bool" where
  "first_ok f \<longleftrightarrow> fp_output_seq f = None \<and> (\<forall>view. fp_pending f = Some view \<longrightarrow> \<not> has_key view ''raw_input'')"

lemma public_parts_mem:
  assumes "public_parts parts shared = Inr public" and "part \<in> set public"
  obtains source where "source \<in> set parts" and "public_part source shared = Inr (Some part)"
proof -
  from assms(1) obtain projected where projected: "rmap (\<lambda>part. public_part part shared) parts = Inr projected"
    and public: "public = filter (\<lambda>part. part \<noteq> []) (List.map_filter id projected)"
    by (auto simp: public_parts_def rbind_Inr_iff)
  from assms(2) public have "Some part \<in> set projected" by (auto simp: List.map_filter_def)
  from rmap_mem [OF projected this] show ?thesis using that by blast
qed

lemma get_pop: "get (dict_pop k d) k' = (if k' = k then JNull else get d k')"
  by (simp add: get_def dict_get_pop)

lemma has_key_pop: "has_key (dict_pop k d) k' \<longleftrightarrow> k' \<noteq> k \<and> has_key d k'"
  by (auto simp: has_key_iff keys_dict_pop)

lemma public_failure_shared: "public_failure ip_literal failure True = dict_pop ''user_action'' failure"
  by (simp add: public_failure_def split: option.splits)

lemma public_metadata_shared:
  "get (public_metadata ip_literal metadata True) k =
     (if k \<in> set owner_input_metadata then JNull
      else if k = ''failure'' \<and> is_obj (get metadata ''failure'')
           then JObj (dict_pop ''user_action'' (jfields (get metadata ''failure'')))
           else get metadata k)"
  by (auto simp: public_metadata_def owner_input_metadata_def public_failure_shared get_pop Let_def)

lemma public_message_shared_ok:
  assumes "public_message ip_literal True message = Inr m"
  shows "shared_ok m"
proof -
  from assms obtain parts where parts: "public_parts (um_parts message) True = Inr parts"
    and m: "um_parts m = parts" "um_metadata m = public_metadata ip_literal (um_metadata message) True"
    by (auto simp: public_message_def rbind_Inr_iff)
  have "\<not> has_key (um_metadata m) k" if "k \<in> set owner_input_metadata" for k
    using that by (auto simp: m public_metadata_def owner_input_metadata_def has_key_pop Let_def)
  moreover have "\<not> has_key (jfields (get (um_metadata m) ''failure'')) ''user_action''"
    by (cases "get (um_metadata message) ''failure''")
      (simp_all add: m public_metadata_shared owner_input_metadata_def has_key_def dict_get_pop)
  moreover have "(\<forall>kv \<in> set part. \<not> is_private_key (fst kv)) \<and>
      (get part ''type'' = JStr ''data-subagent'' \<longrightarrow> set engine_child_refs \<inter> keys_of (get part ''data'') = {}) \<and>
      (get part ''type'' = JStr ''data-interaction'' \<longrightarrow> safe_view (jfields (get part ''data'')) False)"
    if part: "part \<in> set parts" for part
  proof -
    from parts part obtain source where "public_part source True = Inr (Some part)" by (rule public_parts_mem)
    from public_part_hides_private [OF this] show ?thesis by simp
  qed
  ultimately show ?thesis unfolding shared_ok_def m(1) by blast
qed

lemma interaction_view_hides: "interaction_view x False = Inr (Some view) \<Longrightarrow> \<not> has_key view ''raw_input''"
  by (auto simp: interaction_view_def rbind_Inr_iff safe_view_def dest!: public_view_safe)

lemma page_view_shared_ok:
  assumes "page_view_of ip_literal sid before True db ms has_more next output_seq = Inr page"
  shows "(\<forall>m \<in> set (pv_messages page). shared_ok m) \<and> (\<forall>f. pv_first page = Some f \<longrightarrow> first_ok f)"
proof -
  from assms obtain public head where public: "rmap (public_message ip_literal True) ms = Inr public"
    and head: "first_page_of sid before output_seq True db = Inr head"
    and page: "pv_messages page = public" "pv_first page = head"
    by (auto simp: page_view_of_def rbind_Inr_iff)
  have "shared_ok m" if "m \<in> set public" for m
    using rmap_mem [OF public that] public_message_shared_ok by blast
  moreover have "first_ok f" if "head = Some f" for f
    using head that
    by (auto simp: first_page_of_def waiting_view_def first_ok_def rbind_Inr_iff split: if_splits option.splits
        dest: interaction_view_hides)
  ultimately show ?thesis by (simp add: page)
qed

text \<open>
  C21. A share link carries nothing only the owner may see. Whichever of the three shared reads
  answers (messages, history folded into blocks, the parts behind a header): no message names its
  author or the route it came by, no failure carries the action asked of the owner, no part carries a
  private key or an engine's handle on a sub-agent, no interaction shows the raw input of its tool
  nor an adapter's replies, and the first page neither gives a stream position nor shows the tool
  input of the interaction that waits.
\<close>

theorem share_link_hides_owner_data:
  assumes "page \<in> {page. fst (shared_messages ip_literal sid before limit db' w) = Inr page} \<union>
    {page. fst (shared_history_blocks ip_literal enabled sid before n now rows db' w) = Inr page} \<union>
    {page. fst (shared_block_details ip_literal sid bid cursor w) = Inr page}"
  shows "(\<forall>m \<in> set (pv_messages page). shared_ok m) \<and> (\<forall>f. pv_first page = Some f \<longrightarrow> first_ok f)"
  using assms
proof (elim UnE CollectE)
  assume "fst (shared_messages ip_literal sid before limit db' w) = Inr page"
  then show ?thesis
    by (auto simp: shared_messages_def messages_view_def split: prod.splits sum.splits dest!: page_view_shared_ok)
next
  assume "fst (shared_history_blocks ip_literal enabled sid before n now rows db' w) = Inr page"
  then show ?thesis
    by (auto simp: shared_history_blocks_def history_blocks_view_def rbind_Inr_iff Let_def split: prod.splits dest!: page_view_shared_ok)
next
  assume "fst (shared_block_details ip_literal sid bid cursor w) = Inr page"
  then show ?thesis
    by (auto simp: shared_block_details_def block_details_view_def rbind_Inr_iff split: prod.splits option.splits
        dest!: public_message_shared_ok)
qed

theorem share_link_hides_owner_data_witness:
  "(\<exists>m. pv_messages shared_page = [m] \<and> shared_ok m) \<and> (\<exists>f. pv_first shared_page = Some f \<and> first_ok f \<and> fp_pending f \<noteq> None)"
proof -
  have shape: "length (pv_messages shared_page) = 1" "map_option (\<lambda>f. fp_pending f = None) (pv_first shared_page) = Some False"
    by code_simp+
  from share_link_hides_owner_data [of shared_page "\<lambda>_. False" "''s''" None 10 asking_db "(asking_db, new_folds 1000)"] shared_page_read
  have "(\<forall>m \<in> set (pv_messages shared_page). shared_ok m) \<and> (\<forall>f. pv_first shared_page = Some f \<longrightarrow> first_ok f)" by simp
  with shape show ?thesis by (auto simp: length_Suc_conv)
qed

text \<open>
  What stays in sight: the tool call an approval waits for is a part of the message like any other,
  and a share link's copy of it has the input the interaction leaves out.
\<close>

definition asked_call :: obj where
  "asked_call = [(''type'', JStr ''tool-Bash''), (''toolCallId'', JStr ''c''), (''state'', JStr ''approval-requested''),
     (''input'', JObj [(''command'', JStr ''deploy'')]), (''approval'', JObj [(''id'', JStr ''x'')])]"

lemma shared_call_shows_its_input: "public_part asked_call True = Inr (Some asked_call)"
  by code_simp

section \<open>A share link shows the same history\<close>

definition same_but :: "string \<Rightarrow> obj \<Rightarrow> obj \<Rightarrow> bool" where
  "same_but k d d' \<longleftrightarrow> (\<forall>k'. k' \<noteq> k \<longrightarrow> map_of d' k' = map_of d k')"

definition same_part :: "obj \<Rightarrow> obj \<Rightarrow> bool" where
  "same_part part part' \<longleftrightarrow>
     (if get part ''type'' = JStr ''data-interaction''
      then same_but ''data'' part part' \<and> is_obj (get part' ''data'') \<and>
           same_but ''raw_input'' (jfields (get part ''data'')) (jfields (get part' ''data''))
      else if get part ''state'' = JStr ''approval-requested'' then same_but ''input'' part part'
      else part' = part)"

definition same_failure :: "json \<Rightarrow> json \<Rightarrow> bool" where
  "same_failure f f' \<longleftrightarrow>
     (if is_obj f then is_obj f' \<and> same_but ''user_action'' (jfields f) (jfields f') else f' = f)"

definition same_shown :: "ui_message \<Rightarrow> ui_message \<Rightarrow> bool" where
  "same_shown m m' \<longleftrightarrow>
     um_id m' = um_id m \<and> um_role m' = um_role m \<and>
     list_all2 same_part (um_parts m) (um_parts m') \<and>
     (\<forall>k. k \<notin> set (''failure'' # owner_input_metadata) \<longrightarrow> get (um_metadata m') k = get (um_metadata m) k) \<and>
     same_failure (get (um_metadata m) ''failure'') (get (um_metadata m') ''failure'')"

lemma same_but_refl [simp]: "same_but k d d"
  by (simp add: same_but_def)

lemma same_but_set: "same_but k d d' \<Longrightarrow> same_but k (dict_set k' v d) (dict_set k' v d')"
  by (simp add: same_but_def dict_get_set)

lemma form_part_shape:
  assumes "public_form_part v d = Inr r" and "same_but k d d'"
  obtains r' where "public_form_part v d' = Inr r'" and "same_but k r r'"
proof (cases "get v ''status'' = JStr ''answered'' \<and> is_obj (get v ''answer'')")
  case True
  with assms that show ?thesis
    by (cases "has_key v ''preset_answers''") (auto simp: public_form_part_def rbind_Inr_iff Let_def same_but_set)
next
  case False
  with assms that show ?thesis
    by (cases "has_key v ''preset_answers''")
      (auto simp: public_form_part_def rbind_Inr_iff Let_def same_but_set simp del: de_Morgan_conj)
qed

lemma decision_part_shape:
  assumes "public_decision_part v d = Inr r" and "same_but k d d'"
  obtains r' where "public_decision_part v d' = Inr r'" and "same_but k r r'"
  using assms by (auto simp: public_decision_part_def rbind_Inr_iff Let_def same_but_set split: if_splits)

lemma view_shape:
  assumes "public_interaction_view j shown = Inr (Some d)"
  obtains d' where "public_interaction_view j shown' = Inr (Some d')"
    and "same_but ''raw_input'' d d'"
proof -
  let ?v = "jfields j"
  define common where "common b = (if b \<and> has_key ?v ''raw_input''
    then dict_set ''raw_input'' (get ?v ''raw_input'') (project public_interaction_common_keys ?v)
    else project public_interaction_common_keys ?v)" for b
  define given where "given b = (if has_key ?v ''status'' then dict_set ''status'' (get ?v ''status'') (common b) else common b)" for b
  have same: "same_but ''raw_input'' (given b) (given c)" for b c
    by (simp add: given_def common_def same_but_def dict_get_set)
  from assms obtain presentation where pre: "j \<noteq> JNull" "is_obj j" "interaction_presentation ?v = Inr presentation"
      "has_key ?v ''status'' \<Longrightarrow> in_set (get ?v ''status'') interaction_statuses = Inr True"
    and r: "(if presentation = PRESENTATION_FORM then public_form_part ?v (given shown)
             else if presentation = PRESENTATION_DECISION then public_decision_part ?v (given shown)
             else Inr (given shown)) = Inr d"
    by (auto simp: public_interaction_view_def rbind_Inr_iff Let_def common_def given_def split: if_splits)
  have view: "public_interaction_view j shown' =
      rbind (if presentation = PRESENTATION_FORM then public_form_part ?v (given shown')
             else if presentation = PRESENTATION_DECISION then public_decision_part ?v (given shown')
             else Inr (given shown')) (\<lambda>result. Inr (Some result))"
    using pre by (simp add: public_interaction_view_def Let_def common_def given_def)
  show ?thesis
  proof (cases "presentation = PRESENTATION_FORM")
    case True
    with r show ?thesis
      by (auto simp: view intro: that elim!: form_part_shape [OF _ same [of shown shown']])
  next
    case False
    with r show ?thesis
      by (cases "presentation = PRESENTATION_DECISION")
        (auto simp: view same [of shown shown'] intro: that elim!: decision_part_shape [OF _ same [of shown shown']])
  qed
qed

lemma same_part_empty: "same_part part part' \<Longrightarrow> part' = [] \<longleftrightarrow> part = []"
proof -
  have "map_of part' ''type'' = map_of part ''type'' \<and> map_of part ''type'' \<noteq> None \<or>
      map_of part' ''state'' = map_of part ''state'' \<and> map_of part ''state'' \<noteq> None \<or> part' = part"
    if "same_part part part'"
    using that by (auto simp: same_part_def same_but_def get_def split: if_splits option.splits)
  then show "part' = [] \<longleftrightarrow> part = []" if "same_part part part'" using that by auto
qed

lemma view_None: "public_interaction_view j shown = Inr None \<longleftrightarrow> j = JNull"
  by (auto simp: public_interaction_view_def rbind_Inr_iff Let_def)

lemma public_part_shape:
  assumes "public_part part False = Inr r"
  obtains r' where "public_part part True = Inr r'" and "rel_option same_part r r'"
proof -
  let ?visible = "filter (\<lambda>kv. \<not> is_private_key (fst kv)) part"
  define child where "child = (if get ?visible ''type'' = JStr ''data-subagent'' \<and> is_obj (get ?visible ''data'')
      then dict_set ''data'' (JObj (filter (\<lambda>kv. fst kv \<notin> set engine_child_refs) (jfields (get ?visible ''data'')))) ?visible
      else ?visible)"
  have public: "public_part part shared =
      rbind (is_claude_diagnostic_part part) (\<lambda>diagnostic.
        if diagnostic then Inr None
        else if get child ''type'' \<noteq> JStr ''data-interaction'' then Inr (Some child)
        else rbind (public_interaction_view (get child ''data'') (\<not> shared)) (\<lambda>view.
          case view of None \<Rightarrow> Inr None
          | Some data \<Rightarrow> rbind (index_key data ''interaction_id'') (\<lambda>xid.
              Inr (Some (dict_set ''data'' (JObj data) (dict_set ''id'' xid child))))))" for shared
    unfolding public_part_def child_def Let_def by (rule refl)
  from assms obtain diagnostic where diagnostic: "is_claude_diagnostic_part part = Inr diagnostic"
    by (auto simp: public rbind_Inr_iff)
  consider "diagnostic \<or> get child ''type'' \<noteq> JStr ''data-interaction''"
    | "\<not> diagnostic" "get child ''type'' = JStr ''data-interaction''" "get child ''data'' = JNull"
    | d where "\<not> diagnostic" "get child ''type'' = JStr ''data-interaction''" "public_interaction_view (get child ''data'') True = Inr (Some d)"
    using assms by (auto simp: public diagnostic rbind_Inr_iff view_None split: if_splits option.splits)
  then show ?thesis
  proof cases
    case 1
    then show ?thesis using assms that by (auto simp: public diagnostic same_part_def split: if_splits)
  next
    case 2
    then have "public_interaction_view (get child ''data'') shown = Inr None" for shown by (simp add: view_None)
    then show ?thesis using 2 assms that by (simp add: public diagnostic)
  next
    case (3 d)
    from 3(3) obtain d' where d': "public_interaction_view (get child ''data'') False = Inr (Some d')"
      and same: "same_but ''raw_input'' d d'" by (rule view_shape)
    then have "index_key d' ''interaction_id'' = index_key d ''interaction_id''" by (simp add: index_key_def same_but_def)
    moreover have "same_part (dict_set ''data'' (JObj d) (dict_set ''id'' xid child)) (dict_set ''data'' (JObj d') (dict_set ''id'' xid child))" for xid
      using same 3(2) by (simp add: same_part_def) (simp add: same_but_def dict_get_set)
    ultimately show ?thesis using 3 assms that d' by (auto simp: public diagnostic rbind_Inr_iff)
  qed
qed

lemma public_parts_shape:
  assumes "public_parts parts False = Inr public"
  obtains public' where "public_parts parts True = Inr public'" and "list_all2 same_part public public'"
proof -
  have "\<exists>projected'. rmap (\<lambda>part. public_part part True) parts = Inr projected' \<and> list_all2 (rel_option same_part) projected projected'"
    if "rmap (\<lambda>part. public_part part False) parts = Inr projected" for projected
    using that
  proof (induction parts arbitrary: projected)
    case (Cons part parts)
    then obtain r rest where r: "public_part part False = Inr r" "rmap (\<lambda>part. public_part part False) parts = Inr rest"
      "projected = r # rest" by (auto simp: rbind_Inr_iff)
    from r(1) obtain r' where r': "public_part part True = Inr r'" "rel_option same_part r r'" by (rule public_part_shape)
    from Cons.IH [OF r(2)] obtain rest' where "rmap (\<lambda>part. public_part part True) parts = Inr rest'"
      "list_all2 (rel_option same_part) rest rest'" by blast
    with r' show ?case by (simp add: r(3))
  qed simp
  moreover have "list_all2 same_part (filter (\<lambda>part. part \<noteq> []) (List.map_filter id ps)) (filter (\<lambda>part. part \<noteq> []) (List.map_filter id ps'))"
    if "list_all2 (rel_option same_part) ps ps'" for ps ps'
    using that
  proof (induction ps ps' rule: list_all2_induct)
    case (Cons r ps r' ps')
    then show ?case by (cases r; cases r') (auto simp: map_filter_simps dest: same_part_empty)
  qed (simp add: map_filter_simps)
  ultimately show ?thesis using assms that by (auto simp: public_parts_def rbind_Inr_iff)
qed

lemma public_message_shape:
  assumes "public_message ip_literal False message = Inr m"
  obtains m' where "public_message ip_literal True message = Inr m'" and "same_shown m m'"
proof -
  from assms obtain parts where parts: "public_parts (um_parts message) False = Inr parts"
    and m: "m = \<lparr>um_id = um_id message, um_role = um_role message, um_parts = parts,
      um_metadata = public_metadata ip_literal (um_metadata message) False\<rparr>"
    by (auto simp: public_message_def rbind_Inr_iff)
  from parts obtain parts' where parts': "public_parts (um_parts message) True = Inr parts'" "list_all2 same_part parts parts'"
    by (rule public_parts_shape)
  have "get (public_metadata ip_literal (um_metadata message) True) k = get (public_metadata ip_literal (um_metadata message) False) k"
    if "k \<notin> set (''failure'' # owner_input_metadata)" for k
    using that by (auto simp: public_metadata_shared) (auto simp: public_metadata_def Let_def)
  moreover have "same_failure (get (public_metadata ip_literal (um_metadata message) False) ''failure'')
      (get (public_metadata ip_literal (um_metadata message) True) ''failure'')"
    by (auto simp: public_metadata_shared) (auto simp: public_metadata_def public_failure_def same_failure_def same_but_def
      owner_input_metadata_def dict_get_set dict_get_pop Let_def split: option.splits)
  ultimately show ?thesis using that parts' by (auto simp: public_message_def same_shown_def m)
qed

lemma public_messages_shape:
  "rmap (public_message ip_literal False) ms = Inr public \<Longrightarrow>
     \<exists>public'. rmap (public_message ip_literal True) ms = Inr public' \<and> list_all2 same_shown public public'"
proof (induction ms arbitrary: public)
  case (Cons message ms)
  then obtain m rest where m: "public_message ip_literal False message = Inr m" "rmap (public_message ip_literal False) ms = Inr rest"
    "public = m # rest" by (auto simp: rbind_Inr_iff)
  from m(1) obtain m' where m': "public_message ip_literal True message = Inr m'" "same_shown m m'" by (rule public_message_shape)
  from Cons.IH [OF m(2)] obtain rest' where "rmap (public_message ip_literal True) ms = Inr rest'" "list_all2 same_shown rest rest'"
    by blast
  with m' show ?case by (simp add: m(3))
qed simp

lemma first_page_shape:
  assumes "first_page_of sid before output_seq False db = Inr head"
  obtains head' where "first_page_of sid before output_seq True db = Inr head'"
    and "rel_option (\<lambda>f f'. rel_option (same_but ''raw_input'') (fp_pending f) (fp_pending f')) head head'"
proof (cases "before = None \<and> waiting_interaction sid db \<noteq> None")
  case False
  then show ?thesis using assms that by (auto simp: first_page_of_def waiting_view_def split: if_splits)
next
  case True
  then obtain x where x: "waiting_interaction sid db = Some x" "before = None" by auto
  with assms obtain view where view: "public_interaction_view (JObj (x_contract x)) True = Inr view"
    by (auto simp: first_page_of_def waiting_view_def interaction_view_def rbind_Inr_iff)
  then obtain d where d: "view = Some d" by (cases view) (auto simp: view_None)
  from view [unfolded d] obtain d' where "public_interaction_view (JObj (x_contract x)) False = Inr (Some d')"
    "same_but ''raw_input'' d d'" by (rule view_shape)
  then show ?thesis using assms that view d x
    by (auto simp: first_page_of_def waiting_view_def interaction_view_def same_but_set)
qed

text \<open>
  C22. A share link shows the same history. Whenever the owner's page of messages can be read, so can
  the shared one, at the same cursor and with the same cursor after it: the same messages by id and
  role, each with the same parts in the same order and the same metadata. Left out may be only: in
  an interaction's part, and in the interaction that waits, the tool input it asks about; in the
  part of a tool call awaiting approval, its input; in the metadata, the author and route of an
  input and, in its failure, the action asked of the owner.
\<close>

theorem share_link_shows_same_history:
  assumes "owner_messages ip_literal user sid before limit db' w = (Inr page, w')"
  shows "\<exists>page'. shared_messages ip_literal sid before limit db' w = (Inr page', w') \<and>
    list_all2 same_shown (pv_messages page) (pv_messages page') \<and>
    pv_has_more page' = pv_has_more page \<and> pv_before page' = pv_before page \<and>
    rel_option (\<lambda>f f'. rel_option (same_but ''raw_input'') (fp_pending f) (fp_pending f')) (pv_first page) (pv_first page')"
proof -
  from assms obtain sh where sh: "history_for sid before limit w = (Inr sh, w')"
    and page: "page_view_of ip_literal sid before False db' (sh_messages sh) (sh_has_more sh) (sh_before sh) (sh_output_seq sh) = Inr page"
    by (auto simp: owner_messages_def owner_reads_def messages_view_def split: prod.splits sum.splits)
  from page obtain public head where public: "rmap (public_message ip_literal False) (sh_messages sh) = Inr public"
    and head: "first_page_of sid before (sh_output_seq sh) False db' = Inr head"
    and page: "page = \<lparr>pv_messages = public, pv_has_more = sh_has_more sh, pv_before = sh_before sh, pv_first = head\<rparr>"
    by (auto simp: page_view_of_def rbind_Inr_iff)
  from public_messages_shape [OF public] obtain public' where
    public': "rmap (public_message ip_literal True) (sh_messages sh) = Inr public'" "list_all2 same_shown public public'" by blast
  from head obtain head' where head': "first_page_of sid before (sh_output_seq sh) True db' = Inr head'"
    "rel_option (\<lambda>f f'. rel_option (same_but ''raw_input'') (fp_pending f) (fp_pending f')) head head'" by (rule first_page_shape)
  show ?thesis
    using public' head' by (simp add: shared_messages_def messages_view_def sh page_view_of_def page)
qed

theorem share_link_shows_same_history_witness:
  "list_all2 same_shown (pv_messages owner_page) (pv_messages shared_page) \<and> length (pv_messages owner_page) = 1 \<and>
   list_all (\<lambda>m. get (um_metadata m) ''author_user_id'' = JStr ''ann'') (pv_messages owner_page)"
proof -
  from share_link_shows_same_history [OF owner_page_read] shared_page_read
  have "list_all2 same_shown (pv_messages owner_page) (pv_messages shared_page)" by auto
  moreover have "length (pv_messages owner_page) = 1"
    "list_all (\<lambda>m. get (um_metadata m) ''author_user_id'' = JStr ''ann'') (pv_messages owner_page)" by code_simp+
  ultimately show ?thesis by simp
qed

end
