(* ===== verification/Keyset.thy ===== *)
theory Keyset
  imports Codec Samples "HOL-Library.List_Lexorder" "HOL-Library.Char_ord"
begin

text \<open>
  Reading a set one keyset page at a time, \<^verbatim>\<open>persistence/repository/keyset.py\<close>: the sweep over a whole
  set, the budgeted sweep that resumes where it stopped, the page of a listing filtered after the
  read, and the cursor a listing hands out.

  A caller's \<^verbatim>\<open>fetch_page\<close> is an argument. What it owes the sweeps, one page of the set in key order
  after a key, is the locale \<open>keyset_source\<close>; keys are compared by code point, as Python compares
  strings and as the \<^verbatim>\<open>C\<close> collation orders them. A loop that a source could keep alive for ever is a
  \<open>partial_function\<close>: not returning is \<open>None\<close>.
\<close>

section \<open>A sweep in one pass\<close>

definition beyond :: "string option \<Rightarrow> string \<Rightarrow> bool" where
  "beyond after k = (case after of None \<Rightarrow> True | Some a \<Rightarrow> a < k)"

definition SWEEP_PAGE_SIZE :: nat where
  "SWEEP_PAGE_SIZE = 200"

definition stuck :: "string option \<Rightarrow> string \<Rightarrow> bool" where
  "stuck after seen \<longleftrightarrow> seen = [] \<or> \<not> beyond after seen"

text \<open>The rows yielded, and the error raised after them, if any.\<close>

partial_function (option) iter_keyset_pages :: "(string option \<Rightarrow> 'r list) \<Rightarrow> ('r \<Rightarrow> string) \<Rightarrow> nat \<Rightarrow> string option \<Rightarrow>
    ('r list \<times> error option) option" where
  "iter_keyset_pages fetch key page_size after =
     (let page = fetch after; seen = key (List.last page) in
      if length page < page_size then Some (page, None)
      else if page = [] then Some ([], Some IndexError)
      else if stuck after seen then Some (page, Some RuntimeError)
      else Option.bind (iter_keyset_pages fetch key page_size (Some seen)) (\<lambda>(rest, e). Some (page @ rest, e)))"

section \<open>A sweep with a budget\<close>

record 'r keyset_cursor =
  kc_after :: "string option"
  kc_before :: "string option"
  kc_rows :: "'r list"
  kc_limit :: nat

definition new_cursor :: "'r keyset_cursor" where
  "new_cursor = \<lparr>kc_after = None, kc_before = None, kc_rows = [], kc_limit = 0\<rparr>"

definition visited :: "('r \<Rightarrow> string) \<Rightarrow> nat \<Rightarrow> 'r keyset_cursor \<Rightarrow> unit res \<times> 'r keyset_cursor" where
  "visited key count c =
     (let rows = kc_rows c in
      if length rows \<le> count \<and> length rows < kc_limit c then (Inr (), c\<lparr>kc_after := None\<rparr>)
      else if count = 0 then (Inr (), c\<lparr>kc_after := kc_before c\<rparr>)
      else if rows = [] then (Inl IndexError, c)
      else let seen = key (rows ! (min count (length rows) - 1)) in
        if stuck (kc_before c) seen then (Inl RuntimeError, c) else (Inr (), c\<lparr>kc_after := Some seen\<rparr>))"

definition page :: "(string option \<Rightarrow> nat \<Rightarrow> 'r list) \<Rightarrow> ('r \<Rightarrow> string) \<Rightarrow> nat \<Rightarrow> 'r keyset_cursor \<Rightarrow>
    'r list res \<times> 'r keyset_cursor" where
  "page fetch key limit c =
     (let rows = fetch (kc_after c) limit;
          wraps = (rows = [] \<and> kc_after c \<noteq> None);
          shown = (if wraps then fetch None limit else rows);
          c1 = c\<lparr>kc_before := (if wraps then None else kc_after c), kc_rows := shown, kc_limit := limit\<rparr>
      in case visited key (length shown) c1 of (Inl e, c2) \<Rightarrow> (Inl e, c2) | (Inr _, c2) \<Rightarrow> (Inr shown, c2))"

text \<open>The pages of so many ticks, while the set (and the clock the read compares with) stays as it is.\<close>

fun ticks :: "(string option \<Rightarrow> nat \<Rightarrow> 'r list) \<Rightarrow> ('r \<Rightarrow> string) \<Rightarrow> nat \<Rightarrow> nat \<Rightarrow> 'r keyset_cursor \<Rightarrow> 'r list list res \<times> 'r keyset_cursor" where
  "ticks fetch key limit 0 c = (Inr [], c)"
| "ticks fetch key limit (Suc n) c =
     (case page fetch key limit c of
        (Inl e, c1) \<Rightarrow> (Inl e, c1)
      | (Inr rows, c1) \<Rightarrow>
          (case ticks fetch key limit n c1 of (Inl e, c2) \<Rightarrow> (Inl e, c2) | (Inr pages, c2) \<Rightarrow> (Inr (rows # pages), c2)))"

section \<open>A listing filtered after the read\<close>

partial_function (option) read_filtered_page :: "('k \<Rightarrow> nat \<Rightarrow> 'r list) \<Rightarrow> ('r \<Rightarrow> 'k) \<Rightarrow> ('r \<Rightarrow> bool) \<Rightarrow> nat \<Rightarrow> nat \<Rightarrow> 'k \<Rightarrow> 'r list \<Rightarrow>
    ('r list \<times> bool) res option" where
  "read_filtered_page fetch key_of keep limit page_size after kept =
     (let rows = fetch after page_size; kept' = kept @ filter keep rows in
      if limit < length kept' then Some (Inr (take limit kept', True))
      else if length rows < page_size then Some (Inr (kept', False))
      else if rows = [] then Some (Inl IndexError)
      else read_filtered_page fetch key_of keep limit page_size (key_of (List.last rows)) kept')"

section \<open>The cursor of a listing\<close>

definition encode_list_cursor :: "(string, string) dict \<Rightarrow> string" where
  "encode_list_cursor kvs =
     rstrip_char (CHR ''='') (b64encode True (encode_ascii (compact
       (JObj (map (\<lambda>(k, v). (k, JStr v)) (sort_key fst kvs))))))"

definition decode_list_cursor :: "string option \<Rightarrow> string list \<Rightarrow> string list option res" where
  "decode_list_cursor cursor keys =
     (let token = strip (coalesce cursor []) in
      if token = [] then Inr None
      else case rbind (urlsafe_b64decode (repad token)) json_loads_bytes of
        Inl e \<Rightarrow> Inl InvalidListCursor
      | Inr payload \<Rightarrow>
          if \<not> is_obj payload \<or> \<not> list_all (\<lambda>k. is_str (get (jfields payload) k)) keys then Inl InvalidListCursor
          else Inr (Some (map (\<lambda>k. text_of (get (jfields payload) k)) keys)))"

section \<open>What a source owes its sweeps\<close>

abbreviation unpadded :: "string \<Rightarrow> bool" where
  "unpadded k \<equiv> strip k = k \<and> k \<noteq> []"

abbreviation unpadded_after :: "string option \<Rightarrow> bool" where
  "unpadded_after after \<equiv> (\<forall>a. after = Some a \<longrightarrow> unpadded a)"

lemma sorted_filter_drop:
  assumes "sorted_wrt (<) (map key xs)" and "i < length xs"
  shows "filter (\<lambda>r. key (xs ! i) < (key r :: 'k :: order)) xs = drop (Suc i) xs"
proof -
  have "filter (\<lambda>r. key (xs ! i) < key r) (take (Suc i) xs) = []"
  proof (unfold filter_empty_conv, rule ballI)
    fix r assume "r \<in> set (take (Suc i) xs)"
    then obtain j where j: "j \<le> i" "r = xs ! j" using assms(2) by (auto simp: in_set_conv_nth less_Suc_eq_le)
    then have "j = i \<or> key (xs ! j) < key (xs ! i)" using assms by (auto simp: sorted_wrt_iff_nth_less le_less)
    then show "\<not> key (xs ! i) < key r" using j(2) by auto
  qed
  moreover have "filter (\<lambda>r. key (xs ! i) < key r) (drop (Suc i) xs) = drop (Suc i) xs"
  proof (rule filter_True, rule ballI)
    fix r assume "r \<in> set (drop (Suc i) xs)"
    then obtain j where "j < length xs - Suc i" "r = xs ! (Suc i + j)" by (auto simp: in_set_conv_nth)
    then show "key (xs ! i) < key r" using assms by (auto simp: sorted_wrt_iff_nth_less)
  qed
  ultimately have "filter (\<lambda>r. key (xs ! i) < key r) (take (Suc i) xs @ drop (Suc i) xs) = drop (Suc i) xs"
    by (simp only: filter_append append_Nil)
  then show ?thesis by (simp only: append_take_drop_id)
qed

definition pages_for :: "nat \<Rightarrow> nat \<Rightarrow> nat" where
  "pages_for n m = (m + n - 1) div n"

lemma pages_for_bounds:
  assumes "0 < n"
  shows "m \<le> pages_for n m * n" and "0 < m \<Longrightarrow> (pages_for n m - 1) * n < m"
    and "pages_for n a + pages_for n b \<le> pages_for n (a + b) + 1"
proof -
  have low: "pages_for n k * n \<le> k + n - 1" for k by (simp add: pages_for_def)
  have high: "k \<le> pages_for n k * n" for k
  proof -
    have "k + n - 1 < pages_for n k * n + n"
      using assms by (simp add: pages_for_def dividend_less_div_times add.commute)
    then show ?thesis using assms by linarith
  qed
  then show "m \<le> pages_for n m * n" .
  show "(pages_for n m - 1) * n < m" if "0 < m" using low [of m] that assms by (simp add: diff_mult_distrib)
  have "(pages_for n a + pages_for n b) * n < (pages_for n (a + b) + 2) * n"
    using low [of a] low [of b] high [of "a + b"] assms unfolding add_mult_distrib by linarith
  then have "pages_for n a + pages_for n b < pages_for n (a + b) + 2" by (simp only: mult_less_cancel2)
  then show "pages_for n a + pages_for n b \<le> pages_for n (a + b) + 1" by simp
qed

locale keyset_source =
  fixes ok :: "'t \<Rightarrow> bool" and rows :: "'t \<Rightarrow> 'r list" and key :: "'r \<Rightarrow> string"
    and fetch :: "'t \<Rightarrow> string option \<Rightarrow> nat \<Rightarrow> 'r list" and most :: nat
  assumes ordered: "ok t \<Longrightarrow> sorted_wrt (<) (map key (rows t))"
    and named: "ok t \<Longrightarrow> r \<in> set (rows t) \<Longrightarrow> unpadded (key r)"
    and fetches: "ok t \<Longrightarrow> 0 < n \<Longrightarrow> n \<le> most \<Longrightarrow> unpadded_after after \<Longrightarrow>
      fetch t after n = take n (filter (\<lambda>r. beyond after (key r)) (rows t))"
begin

definition left :: "'t \<Rightarrow> string option \<Rightarrow> 'r list" where
  "left t after = filter (\<lambda>r. beyond after (key r)) (rows t)"

lemma fetches_left: "ok t \<Longrightarrow> 0 < n \<Longrightarrow> n \<le> most \<Longrightarrow> unpadded_after after \<Longrightarrow> fetch t after n = take n (left t after)"
  by (simp add: fetches left_def)

lemma left_None [simp]: "left t None = rows t"
  by (simp add: left_def beyond_def)

text \<open>A full page leaves what lies beyond it, and its last key can be resumed from.\<close>

lemma left_after_row:
  assumes ok: "ok t" and i: "i < length (left t after)"
  defines "seen \<equiv> key (left t after ! i)"
  shows "left t (Some seen) = drop (Suc i) (left t after)" and "\<not> stuck after seen" and "unpadded seen"
proof -
  have mem: "left t after ! i \<in> set (rows t)" "beyond after seen"
    using nth_mem [OF i] by (auto simp: left_def seen_def)
  then show "unpadded seen" using named [OF ok] by (simp add: seen_def)
  with mem(2) show "\<not> stuck after seen" by (simp add: stuck_def)
  have sorted: "sorted_wrt (<) (map key (left t after))"
    using ordered [OF ok] by (simp add: left_def sorted_wrt_map sorted_wrt_filter)
  have "left t (Some seen) = filter (\<lambda>r. seen < key r) (left t after)"
    using mem(2) unfolding left_def filter_filter
    by (intro filter_cong) (auto simp: beyond_def split: option.splits intro: less_trans)
  with sorted_filter_drop [OF sorted i] show "left t (Some seen) = drop (Suc i) (left t after)" by (simp add: seen_def)
qed

lemma left_after_page:
  assumes "ok t" and "0 < n" and "n \<le> length (left t after)"
  defines "seen \<equiv> key (List.last (take n (left t after)))"
  shows "left t (Some seen) = drop n (left t after)" and "\<not> stuck after seen" and "unpadded seen"
proof -
  have "List.last (take n (left t after)) = left t after ! (n - 1)" using assms(2,3) by (subst last_conv_nth) auto
  then show "left t (Some seen) = drop n (left t after)" "\<not> stuck after seen" "unpadded seen"
    using left_after_row [OF assms(1), of "n - 1" after] assms(2,3) by (simp_all add: seen_def)
qed

lemma iter_yields_left:
  assumes ok: "ok t" and size: "0 < n" "n \<le> most"
  shows "unpadded_after after \<Longrightarrow> iter_keyset_pages (\<lambda>a. fetch t a n) key n after = Some (left t after, None)"
proof (induction "length (left t after)" arbitrary: after rule: less_induct)
  case less
  have fetched: "fetch t after n = take n (left t after)" using ok size less.prems by (rule fetches_left)
  show ?case
  proof (cases "length (left t after) < n")
    case True
    then show ?thesis by (subst iter_keyset_pages.simps) (simp add: fetched Let_def)
  next
    case False
    let ?seen = "key (List.last (take n (left t after)))"
    from False have full: "n \<le> length (left t after)" by simp
    note next_page = left_after_page [OF ok size(1) full]
    have "iter_keyset_pages (\<lambda>a. fetch t a n) key n (Some ?seen) = Some (left t (Some ?seen), None)"
      by (rule less.hyps) (use full size next_page(1,3) in auto)
    then show ?thesis using full size next_page
      by (subst iter_keyset_pages.simps) (auto simp: fetched Let_def)
  qed
qed

lemma filtered_reads_left:
  assumes ok: "ok t" and size: "0 < n" "n \<le> most"
  shows "unpadded_after after \<Longrightarrow> length kept \<le> limit \<Longrightarrow>
    read_filtered_page (fetch t) (\<lambda>r. Some (key r)) keep limit n after kept =
      Some (Inr (take limit (kept @ filter keep (left t after)), limit < length (kept @ filter keep (left t after))))"
proof (induction "length (left t after)" arbitrary: after kept rule: less_induct)
  case less
  have fetched: "fetch t after n = take n (left t after)" using ok size less.prems(1) by (rule fetches_left)
  have split: "filter keep (left t after) = filter keep (take n (left t after)) @ filter keep (drop n (left t after))"
    by (simp only: append_take_drop_id flip: filter_append)
  show ?case
  proof (cases "limit < length (kept @ filter keep (take n (left t after)))")
    case True
    then show ?thesis using less.prems(2)
      by (subst read_filtered_page.simps) (simp add: fetched Let_def, simp add: split)
  next
    case below: False
    show ?thesis
    proof (cases "length (left t after) < n")
    case True
    with below show ?thesis by (subst read_filtered_page.simps) (simp add: fetched Let_def)
  next
    case False
    let ?seen = "key (List.last (take n (left t after)))" and ?kept = "kept @ filter keep (take n (left t after))"
    from False have full: "n \<le> length (left t after)" by simp
    note next_page = left_after_page [OF ok size(1) full]
    have "read_filtered_page (fetch t) (\<lambda>r. Some (key r)) keep limit n (Some ?seen) ?kept =
        Some (Inr (take limit (?kept @ filter keep (left t (Some ?seen))), limit < length (?kept @ filter keep (left t (Some ?seen)))))"
      by (rule less.hyps) (use full size next_page(1,3) below in auto)
    then show ?thesis using full size below
      by (subst read_filtered_page.simps) (simp add: fetched Let_def, auto simp: split next_page(1))
    qed
  qed
qed

text \<open>What the next tick starts with: the rows left, or the whole set once none is.\<close>

definition ahead :: "'t \<Rightarrow> string option \<Rightarrow> 'r list" where
  "ahead t after = (if left t after = [] then rows t else left t after)"

lemma page_moves:
  assumes ok: "ok t" and size: "0 < n" "n \<le> most" and unpadded: "unpadded_after (kc_after c)"
  shows "\<exists>c'. page (fetch t) key n c = (Inr (take n (ahead t (kc_after c))), c') \<and> unpadded_after (kc_after c') \<and>
    ahead t (kc_after c') = (if n < length (ahead t (kc_after c)) then drop n (ahead t (kc_after c)) else rows t)"
proof -
  let ?after = "kc_after c"
  define start where "start = (if left t ?after = [] then None else ?after)"
  define shown where "shown = take n (left t start)"
  have start: "left t start = ahead t ?after" by (simp add: start_def ahead_def)
  define c1 where "c1 = c\<lparr>kc_before := start, kc_rows := shown, kc_limit := n\<rparr>"
  let ?wraps = "fetch t ?after n = [] \<and> ?after \<noteq> None"
  have "fetch t ?after n = take n (left t ?after)" "fetch t None n = take n (rows t)"
    using fetches_left [OF ok size unpadded] fetches_left [OF ok size, of None] by simp_all
  then have "(if ?wraps then fetch t None n else fetch t ?after n) = shown" "(if ?wraps then None else ?after) = start"
    using size by (auto simp: shown_def start_def)
  then have page: "page (fetch t) key n c = (case visited key (length shown) c1 of (Inl e, c2) \<Rightarrow> (Inl e, c2) | (Inr _, c2) \<Rightarrow> (Inr shown, c2))"
    by (simp only: page_def Let_def c1_def)
  show ?thesis
  proof (cases "length (left t start) < n")
    case True
    then have "visited key (length shown) c1 = (Inr (), c1\<lparr>kc_after := None\<rparr>)" by (simp add: visited_def c1_def shown_def)
    then show ?thesis using True page start by (auto simp: shown_def ahead_def)
  next
    case False
    then have full: "n \<le> length (left t start)" by simp
    let ?seen = "key (List.last shown)"
    have len: "length shown = n" "shown \<noteq> []" using full size by (auto simp: shown_def)
    then have "shown ! (n - 1) = List.last shown" by (simp add: last_conv_nth)
    note next_page = left_after_page [OF ok size(1) full, folded shown_def]
    have "visited key (length shown) c1 = (Inr (), c1\<lparr>kc_after := Some ?seen\<rparr>)"
      using len size next_page(2) \<open>shown ! (n - 1) = List.last shown\<close> by (simp add: visited_def c1_def Let_def)
    moreover have "ahead t (Some ?seen) = (if n < length (ahead t ?after) then drop n (ahead t ?after) else rows t)"
      using next_page(1) start full by (auto simp: ahead_def)
    ultimately show ?thesis using page start next_page(3) by (simp add: shown_def)
  qed
qed

lemma ticks_move:
  assumes ok: "ok t" and size: "0 < n" "n \<le> most"
  shows "unpadded_after (kc_after c) \<Longrightarrow> j = 0 \<or> (j - 1) * n < length (ahead t (kc_after c)) \<Longrightarrow>
    \<exists>pages c'. ticks (fetch t) key n j c = (Inr pages, c') \<and> concat pages = take (j * n) (ahead t (kc_after c)) \<and>
      unpadded_after (kc_after c') \<and>
      ahead t (kc_after c') = (if j * n < length (ahead t (kc_after c)) then drop (j * n) (ahead t (kc_after c)) else rows t)"
proof (induction j arbitrary: c)
  case 0
  show ?case
  proof (cases "ahead t (kc_after c) = []")
    case True
    then have "rows t = []" by (auto simp: ahead_def split: if_splits)
    with True 0 show ?thesis by simp
  qed (use 0 in auto)
next
  case (Suc j)
  let ?xs = "ahead t (kc_after c)"
  from page_moves [OF ok size Suc.prems(1)] obtain c' where c': "page (fetch t) key n c = (Inr (take n ?xs), c')"
    "unpadded_after (kc_after c')" "ahead t (kc_after c') = (if n < length ?xs then drop n ?xs else rows t)" by blast
  show ?case
  proof (cases "j = 0")
    case True
    with c' show ?thesis by simp
  next
    case False
    then obtain i where i: "j = Suc i" by (cases j) auto
    with Suc.prems(2) have more: "n + i * n < length ?xs" by simp
    then have ahead: "ahead t (kc_after c') = drop n ?xs" using c'(3) by simp
    with more i have "(j - 1) * n < length (ahead t (kc_after c'))" by simp
    from Suc.IH [OF c'(2) disjI2 [OF this]] obtain pages c'' where "ticks (fetch t) key n j c' = (Inr pages, c'')"
      "concat pages = take (j * n) (drop n ?xs)" "unpadded_after (kc_after c'')"
      "ahead t (kc_after c'') = (if j * n < length (drop n ?xs) then drop (j * n) (drop n ?xs) else rows t)"
      unfolding ahead by blast
    then show ?thesis using c'(1) by (auto simp: take_add add.commute)
  qed
qed

lemma left_suffix: "ok t \<Longrightarrow> rows t = take (length (rows t) - length (left t after)) (rows t) @ left t after"
proof -
  have "xs = take (length xs - length (filter (\<lambda>r. a < key r) xs)) xs @ filter (\<lambda>r. a < key r) xs"
    if "sorted_wrt (<) (map key xs)" for a xs
    using that
  proof (induction xs)
    case (Cons x xs)
    show ?case
    proof (cases "a < key x")
      case True
      with Cons.prems have "filter (\<lambda>r. a < key r) xs = xs" by (auto intro!: filter_True intro: less_trans)
      with True show ?thesis by simp
    next
      case False
      with Cons show ?thesis by (simp add: Suc_diff_le)
    qed
  qed simp
  then show ?thesis if "ok t" using ordered [OF that] by (cases after) (auto simp: left_def beyond_def)
qed

lemma ticks_add:
  "ticks f k n (i + j) c =
     (case ticks f k n i c of (Inl e, c1) \<Rightarrow> (Inl e, c1)
      | (Inr pages, c1) \<Rightarrow> (case ticks f k n j c1 of (Inl e, c2) \<Rightarrow> (Inl e, c2) | (Inr pages', c2) \<Rightarrow> (Inr (pages @ pages'), c2)))"
  by (induction i arbitrary: c) (auto split: prod.splits sum.splits)

text \<open>Every row is met, at most one page later than a lap takes; from the start, each once and in order.\<close>

lemma ticks_meet_all:
  assumes ok: "ok t" and size: "0 < n" "n \<le> most" and unpadded: "unpadded_after (kc_after c)"
  shows "\<exists>j pages c'. j \<le> pages_for n (length (rows t)) + 1 \<and> ticks (fetch t) key n j c = (Inr pages, c') \<and>
    set (rows t) \<subseteq> set (concat pages)"
proof -
  let ?xs = "ahead t (kc_after c)" and ?p = "length (rows t) - length (ahead t (kc_after c))"
  let ?i = "pages_for n (length ?xs)" and ?j = "pages_for n ?p"
  have suffix: "rows t = take ?p (rows t) @ ?xs" and len: "length ?xs \<le> length (rows t)"
    using left_suffix [OF ok, of "kc_after c"] by (auto simp: ahead_def left_def)
  have "?i = 0 \<or> (?i - 1) * n < length ?xs"
    using pages_for_bounds(2) [OF size(1), of "length ?xs"] size(1) by (cases "?xs = []") (auto simp: pages_for_def)
  from ticks_move [OF ok size unpadded this] pages_for_bounds(1) [OF size(1), of "length ?xs"] obtain pages c1 where
    pages: "ticks (fetch t) key n ?i c = (Inr pages, c1)" "concat pages = ?xs" "unpadded_after (kc_after c1)" "ahead t (kc_after c1) = rows t"
    by (auto simp: not_less)
  have "?j = 0 \<or> (?j - 1) * n < length (ahead t (kc_after c1))"
    using pages_for_bounds(2) [OF size(1), of ?p] size(1) by (cases "?p = 0") (auto simp: pages_for_def pages(4))
  from ticks_move [OF ok size pages(3) this] obtain pages' c2 where
    pages': "ticks (fetch t) key n ?j c1 = (Inr pages', c2)" "concat pages' = take (?j * n) (rows t)" unfolding pages(4) by blast
  have "set (take ?p (rows t)) \<subseteq> set (concat pages')"
    unfolding pages'(2) by (rule set_take_subset_set_take [OF pages_for_bounds(1) [OF size(1)]])
  then have "set (rows t) \<subseteq> set (concat (pages @ pages'))"
    by (subst suffix) (auto simp: pages(2) simp del: set_concat)
  moreover have "?i + ?j \<le> pages_for n (length (rows t)) + 1"
    using pages_for_bounds(3) [OF size(1), of "length ?xs" ?p] len by simp
  ultimately show ?thesis using ticks_add [of "fetch t" key n ?i ?j c] pages(1) pages'(1) by auto
qed

lemma ticks_lap:
  assumes ok: "ok t" and size: "0 < n" "n \<le> most" and start: "kc_after c = None"
  shows "\<exists>pages c'. ticks (fetch t) key n (pages_for n (length (rows t))) c = (Inr pages, c') \<and> concat pages = rows t"
proof -
  let ?i = "pages_for n (length (rows t))"
  have "?i = 0 \<or> (?i - 1) * n < length (ahead t (kc_after c))"
    using pages_for_bounds(2) [OF size(1), of "length (rows t)"] size(1)
    by (cases "rows t = []") (auto simp: pages_for_def start ahead_def)
  from ticks_move [OF ok size _ this] pages_for_bounds(1) [OF size(1), of "length (rows t)"] show ?thesis
    by (auto simp: start ahead_def)
qed

end

section \<open>A listing's cursor reads back\<close>

lemma map_of_JStr: "map_of (map (\<lambda>(k, v). (k, JStr v)) kvs) k = map_option JStr (map_of kvs k)"
  by (induction kvs) auto

lemma list_cursor_reads_back:
  assumes "distinct (map fst kvs)" and "set ks \<subseteq> fst ` set kvs"
  shows "decode_list_cursor (Some (encode_list_cursor kvs)) ks = Inr (Some (map (\<lambda>k. the (map_of kvs k)) ks))"
proof -
  let ?d = "map (\<lambda>(k, v). (k, JStr v)) (sort_key fst kvs)"
  let ?bytes = "encode_ascii (compact (JObj ?d))"
  have sorted: "distinct (map fst (sort_key fst kvs))" using assms(1) by (simp add: distinct_map)
  then have same: "map_of (sort_key fst kvs) = map_of kvs" using assms(1) by (simp add: map_of_inject_set)
  have ok: "json_ok (JObj ?d)" using sorted by (auto simp: o_def case_prod_beta list_all_iff)
  have some: "?bytes \<noteq> []" by (simp add: encode_ascii_def compact_def)
  have get: "get ?d k = JStr (the (map_of kvs k))" if "k \<in> set ks" for k
    using that assms(2) by (force simp: get_def map_of_JStr same dest: weak_map_of_SomeI)
  note trip = b64_round_trip [OF encode_ascii_bytes [of "compact (JObj ?d)"]]
  show ?thesis
    using get by (simp add: decode_list_cursor_def encode_list_cursor_def coalesce_def Let_def trip some json_loads_bytes_compact [OF ok] list_all_iff)
qed

end
