(* ===== verification/Sweeps.thy ===== *)
theory Sweeps
  imports Keyset
begin

text \<open>
  The sweeps over sessions that hold, suspect or are still starting a sandbox: the statements of
  \<^verbatim>\<open>session_repository.py\<close> that serve them a page at a time, the interpretation of \<open>keyset_source\<close> they
  support, and the probe of suspicious sandboxes that shares one budget between several kinds of owner
  (\<^verbatim>\<open>sandbox_lifecycle.py\<close>). What a sweep then does to a sandbox is not modelled.
\<close>

section \<open>Statements\<close>

text \<open>A row of \<^verbatim>\<open>sessions\<close> with the further columns these statements read.\<close>

record swept_session = session_row +
  s_expires_at :: "time option"
  s_liveness_suspect_at :: "time option"
  s_startup_allocation :: "obj option"
  s_retained_startup_allocations :: "json list"

definition bound_and_open :: "swept_session \<Rightarrow> bool" where
  "bound_and_open s \<longleftrightarrow>
     \<not> s_deleted s \<and> \<not> s_runtime_unavailable s \<and> coalesce (s_sandbox_id s) [] \<noteq> [] \<and> s_state s \<notin> {TERMINATED, DELETED}"

definition dead_binding_candidate :: "string \<Rightarrow> time \<Rightarrow> swept_session \<Rightarrow> bool" where
  "dead_binding_candidate env now s \<longleftrightarrow>
     s_environment_name s = env \<and> bound_and_open s \<and>
     ((case s_expires_at s of None \<Rightarrow> True | Some t \<Rightarrow> t \<le> now) \<or> s_liveness_suspect_at s \<noteq> None)"

definition idle_candidate :: "string \<Rightarrow> time \<Rightarrow> swept_session \<Rightarrow> bool" where
  "idle_candidate env now s \<longleftrightarrow>
     s_environment_name s = env \<and> bound_and_open s \<and>
     (case s_expires_at s of None \<Rightarrow> False | Some t \<Rightarrow> now < t) \<and> s_sandbox_parked_at s = None"

definition startup_candidate :: "string \<Rightarrow> swept_session \<Rightarrow> bool" where
  "startup_candidate env s \<longleftrightarrow>
     s_environment_name s = env \<and>
     (\<not> s_deleted s \<and> s_state s = CREATING \<or> s_startup_allocation s \<noteq> None \<or> s_retained_startup_allocations s \<noteq> [])"

text \<open>What the three statements share: the rows of a condition after a session id, in order of it.\<close>

definition candidate_page :: "(swept_session \<Rightarrow> bool) \<Rightarrow> nat \<Rightarrow> swept_session list \<Rightarrow> string option \<Rightarrow> nat \<Rightarrow> swept_session list" where
  "candidate_page cond most table after limit =
     (let a = strip (coalesce after []) in
      take (max 1 (min (if limit = 0 then 50 else limit) most))
        (order_by s_session_id (filter (\<lambda>s. cond s \<and> (a = [] \<or> a < s_session_id s)) table)))"

definition list_dead_binding_probe_candidates :: "string \<Rightarrow> time \<Rightarrow> swept_session list \<Rightarrow> string option \<Rightarrow> nat \<Rightarrow> swept_session list" where
  "list_dead_binding_probe_candidates env now table after limit = candidate_page (dead_binding_candidate env now) 500 table after limit"

definition list_idle_reclaim_candidates :: "string \<Rightarrow> time \<Rightarrow> swept_session list \<Rightarrow> string option \<Rightarrow> nat \<Rightarrow> swept_session list" where
  "list_idle_reclaim_candidates env now table after limit = candidate_page (idle_candidate env now) 500 table after limit"

definition list_startup_allocation_candidates :: "string \<Rightarrow> swept_session list \<Rightarrow> string option \<Rightarrow> nat \<Rightarrow> swept_session list" where
  "list_startup_allocation_candidates env table after limit = candidate_page (startup_candidate env) 10000 table after limit"

text \<open>The live Agents, and the read of all of them (\<^verbatim>\<open>agent_service.py\<close>); a row's id and state are modelled.\<close>

definition list_live_agents_page :: "agent_row list \<Rightarrow> string option \<Rightarrow> nat \<Rightarrow> agent_row list" where
  "list_live_agents_page agents after limit =
     (let a = coalesce after [] in
      take (max 1 (min (if limit = 0 then 200 else limit) 10000))
        (order_by ag_agent_id (filter (\<lambda>r. ag_state r \<noteq> ''DELETED'' \<and> (a = [] \<or> a < ag_agent_id r)) agents)))"

definition live_agents :: "agent_row list \<Rightarrow> (agent_row list \<times> error option) option" where
  "live_agents agents =
     iter_keyset_pages (\<lambda>after. list_live_agents_page agents after SWEEP_PAGE_SIZE) ag_agent_id SWEEP_PAGE_SIZE None"

section \<open>One budget for several kinds of owner\<close>

text \<open>
  \<^verbatim>\<open>list_dead_sandbox_probe_candidates\<close>: each batch is the page of one kind of owner, a row its key and
  the sandbox it names. \<open>pb_taken\<close> is how many leading rows of each batch the budget took.
\<close>

type_synonym owner_row = "string \<times> string"

record probing =
  pb_candidates :: "(string, nat) dict"
  pb_taken :: "nat list"
  pb_full :: "bool list"

definition probe_row :: "nat \<Rightarrow> nat \<Rightarrow> nat \<times> owner_row list \<Rightarrow> probing \<Rightarrow> probing" where
  "probe_row limit index batch st =
     (case batch of (b, rows) \<Rightarrow>
        if length rows \<le> index then st
        else
          let box = strip (snd (rows ! index)); found = map_of (pb_candidates st) box in
          if box \<noteq> [] \<and> found = None \<and> limit \<le> length (pb_candidates st) then st\<lparr>pb_full := (pb_full st)[b := True]\<rparr>
          else
            st\<lparr>pb_candidates := (if box = [] then pb_candidates st else dict_set box (coalesce found 0 + 1) (pb_candidates st)),
               pb_taken := (if pb_full st ! b then pb_taken st else (pb_taken st)[b := index + 1])\<rparr>)"

definition probe_index :: "nat \<Rightarrow> owner_row list list \<Rightarrow> nat \<Rightarrow> probing \<Rightarrow> probing" where
  "probe_index limit batches index st = fold (probe_row limit index) (enumerate 0 batches) st"

definition probe_merge :: "nat \<Rightarrow> owner_row list list \<Rightarrow> probing" where
  "probe_merge limit batches =
     fold (probe_index limit batches) [0..<foldr (\<lambda>rows n. max (length rows) n) batches 0]
       \<lparr>pb_candidates = [], pb_taken = replicate (length batches) 0, pb_full = replicate (length batches) False\<rparr>"

type_synonym owner_source = "(string option \<Rightarrow> nat \<Rightarrow> owner_row list) \<times> owner_row keyset_cursor"

fun read_pages :: "nat \<Rightarrow> owner_source list \<Rightarrow> owner_row list list res \<times> owner_row keyset_cursor list" where
  "read_pages limit [] = (Inr [], [])"
| "read_pages limit ((fetch, c) # sources) =
     (case page fetch fst limit c of
        (Inl e, c') \<Rightarrow> (Inl e, c' # map snd sources)
      | (Inr rows, c') \<Rightarrow>
          (case read_pages limit sources of
             (Inl e, cs) \<Rightarrow> (Inl e, c' # cs) | (Inr batches, cs) \<Rightarrow> (Inr (rows # batches), c' # cs)))"

fun report_taken :: "nat list \<Rightarrow> owner_row keyset_cursor list \<Rightarrow> unit res \<times> owner_row keyset_cursor list" where
  "report_taken (n # ns) (c # cs) =
     (case visited fst n c of
        (Inl e, c') \<Rightarrow> (Inl e, c' # cs)
      | (Inr _, c') \<Rightarrow> (case report_taken ns cs of (r, cs') \<Rightarrow> (r, c' # cs')))"
| "report_taken _ cs = (Inr (), cs)"

definition list_dead_sandbox_probe_candidates :: "nat \<Rightarrow> owner_source list \<Rightarrow> (string, nat) dict res \<times> owner_row keyset_cursor list" where
  "list_dead_sandbox_probe_candidates limit sources =
     (let page_limit = max 1 limit in
      case read_pages page_limit sources of
        (Inl e, cs) \<Rightarrow> (Inl e, cs)
      | (Inr batches, cs) \<Rightarrow>
          let merged = probe_merge page_limit batches in
          case report_taken (pb_taken merged) cs of
            (Inl e, cs') \<Rightarrow> (Inl e, cs') | (Inr _, cs') \<Rightarrow> (Inr (pb_candidates merged), cs'))"

section \<open>The statements are keyset sources\<close>

definition table_ok :: "swept_session list \<Rightarrow> bool" where
  "table_ok table \<longleftrightarrow> distinct (map s_session_id table) \<and> (\<forall>s \<in> set table. unpadded (s_session_id s))"

definition candidates :: "(swept_session \<Rightarrow> bool) \<Rightarrow> swept_session list \<Rightarrow> swept_session list" where
  "candidates cond table = order_by s_session_id (filter cond table)"

lemma sorted_distinct_strict: "sorted (map f xs) \<Longrightarrow> distinct (map f xs) \<Longrightarrow> sorted_wrt (<) (map f xs)"
  by (simp add: strict_sorted_iff)

lemma candidates_sorted:
  assumes "table_ok table"
  shows "sorted_wrt (<) (map s_session_id (candidates cond table))"
  using assms by (intro sorted_distinct_strict) (auto simp: candidates_def order_by_def table_ok_def distinct_map distinct_sort inj_on_def)

lemma candidate_page_source: "keyset_source table_ok (candidates cond) s_session_id (candidate_page cond most) most"
proof
  fix t :: "swept_session list" and r :: swept_session and n :: nat and after :: "string option"
  assume ok: "table_ok t"
  show "sorted_wrt (<) (map s_session_id (candidates cond t))" using ok by (rule candidates_sorted)
  show "unpadded (s_session_id r)" if "r \<in> set (candidates cond t)"
    using ok that by (auto simp: candidates_def table_ok_def)
  assume n: "0 < n" "n \<le> most" and after: "unpadded_after after"
  have "(strip (coalesce after []) = [] \<or> strip (coalesce after []) < k) = beyond after k" for k
    using after by (cases after) (auto simp: coalesce_def beyond_def strip_def lstrip_def rstrip_def)
  then show "candidate_page cond most t after n = take n (filter (\<lambda>r. beyond after (s_session_id r)) (candidates cond t))"
    using n by (simp add: candidate_page_def candidates_def order_by_def filter_sort min_absorb1 max_absorb2 Let_def conj_commute)
qed

interpretation idle_sweep: keyset_source table_ok "candidates (idle_candidate env now)" s_session_id
  "list_idle_reclaim_candidates env now" 500 for env now
  using candidate_page_source by (simp add: list_idle_reclaim_candidates_def [abs_def])

interpretation probe_sweep: keyset_source table_ok "candidates (dead_binding_candidate env now)" s_session_id
  "list_dead_binding_probe_candidates env now" 500 for env now
  using candidate_page_source by (simp add: list_dead_binding_probe_candidates_def [abs_def])

interpretation startup_sweep: keyset_source table_ok "candidates (startup_candidate env)" s_session_id
  "list_startup_allocation_candidates env" 10000 for env
  using candidate_page_source by (simp add: list_startup_allocation_candidates_def [abs_def])

definition agents_ok :: "agent_row list \<Rightarrow> bool" where
  "agents_ok agents \<longleftrightarrow> distinct (map ag_agent_id agents) \<and> (\<forall>a \<in> set agents. unpadded (ag_agent_id a))"

definition agent_candidates :: "agent_row list \<Rightarrow> agent_row list" where
  "agent_candidates agents = order_by ag_agent_id (filter (\<lambda>a. ag_state a \<noteq> ''DELETED'') agents)"

interpretation agent_sweep: keyset_source agents_ok agent_candidates ag_agent_id list_live_agents_page 10000
proof
  fix t :: "agent_row list" and r :: agent_row and n :: nat and after :: "string option"
  assume ok: "agents_ok t"
  then show "sorted_wrt (<) (map ag_agent_id (agent_candidates t))"
    by (intro sorted_distinct_strict) (auto simp: agent_candidates_def order_by_def agents_ok_def distinct_map inj_on_def)
  show "unpadded (ag_agent_id r)" if "r \<in> set (agent_candidates t)"
    using ok that by (auto simp: agent_candidates_def agents_ok_def)
  assume n: "0 < n" "n \<le> 10000" and after: "unpadded_after after"
  have "(coalesce after [] = [] \<or> coalesce after [] < k) = beyond after k" for k
    using after by (cases after) (auto simp: coalesce_def beyond_def)
  then show "list_live_agents_page t after n = take n (filter (\<lambda>r. beyond after (ag_agent_id r)) (agent_candidates t))"
    using n by (simp add: list_live_agents_page_def agent_candidates_def order_by_def filter_sort min_absorb1 max_absorb2 Let_def conj_commute)
qed

section \<open>Every candidate gets its turn\<close>

text \<open>
  C28. The idle sweep starves nobody. While the table and the clock its statement compares with stand
  still, and wherever an earlier sweep stopped, every session that holds a live, unparked sandbox is on one of the pages of at most one
  tick more than a lap takes, with any budget the statement serves in full; no tick fails. A lap
  begun at the start takes the candidates in order, each exactly once.
\<close>

theorem idle_sweep_starves_nobody:
  assumes "table_ok table" and "0 < limit" and "limit \<le> 500" and "unpadded_after (kc_after c)"
  shows "(\<exists>j pages c'. j \<le> pages_for limit (length (filter (idle_candidate env now) table)) + 1 \<and>
      ticks (list_idle_reclaim_candidates env now table) s_session_id limit j c = (Inr pages, c') \<and>
      set (filter (idle_candidate env now) table) \<subseteq> set (concat pages)) \<and>
    (kc_after c = None \<longrightarrow>
      (\<exists>pages c'. ticks (list_idle_reclaim_candidates env now table) s_session_id limit
         (pages_for limit (length (filter (idle_candidate env now) table))) c = (Inr pages, c') \<and>
         concat pages = order_by s_session_id (filter (idle_candidate env now) table)))"
proof -
  have len: "length (candidates (idle_candidate env now) table) = length (filter (idle_candidate env now) table)"
    and set: "set (candidates (idle_candidate env now) table) = set (filter (idle_candidate env now) table)"
    by (simp_all add: candidates_def)
  show ?thesis
    using idle_sweep.ticks_meet_all [OF assms, of env now] idle_sweep.ticks_lap [OF assms(1-3), of c env now]
    unfolding len set by (simp add: candidates_def)
qed

definition leased :: "string \<Rightarrow> swept_session" where
  "leased sid = session_row.extend (sample_session sid)
     \<lparr>s_expires_at = Some 50, s_liveness_suspect_at = None, s_startup_allocation = None, s_retained_startup_allocations = []\<rparr>"

definition three_leased :: "swept_session list" where
  "three_leased = [leased ''c'', leased ''a'', leased ''b'']"

lemma three_leased_ok: "table_ok three_leased"
  by (simp add: table_ok_def three_leased_def leased_def sample_session_def session_row.defs strip_def lstrip_def rstrip_def is_space_def)

theorem idle_sweep_starves_nobody_witness:
  "\<exists>j pages c'. j \<le> 3 \<and> ticks (list_idle_reclaim_candidates ''prod'' 10 three_leased) s_session_id 2 j
      (new_cursor\<lparr>kc_after := Some ''a''\<rparr>) = (Inr pages, c') \<and>
    set (filter (idle_candidate ''prod'' 10) three_leased) \<subseteq> set (concat pages) \<and> length (filter (idle_candidate ''prod'' 10) three_leased) = 3"
proof -
  have three: "length (filter (idle_candidate ''prod'' 10) three_leased) = 3" by code_simp
  have unpadded: "unpadded_after (kc_after (new_cursor\<lparr>kc_after := Some ''a''\<rparr>))"
    by (simp add: strip_def lstrip_def rstrip_def is_space_def)
  have "pages_for 2 3 + 1 = 3" by code_simp
  with idle_sweep_starves_nobody [OF three_leased_ok _ _ unpadded, of 2 "''prod''" 10] three show ?thesis by auto
qed

text \<open>
  The two sweeps are not complements of one another: a session whose transport detached while its lease
  was live is a candidate of both.
\<close>

lemma suspect_is_swept_twice:
  "dead_binding_candidate ''prod'' 10 ((leased ''a'')\<lparr>s_liveness_suspect_at := Some 5\<rparr>) \<and>
   idle_candidate ''prod'' 10 ((leased ''a'')\<lparr>s_liveness_suspect_at := Some 5\<rparr>)"
  by code_simp

text \<open>
  C30. A sweep in one pass ends and yields the whole set: the read of every live Agent returns, raises
  nothing, and gives each of them once, by id, however many pages that takes.
\<close>

theorem one_pass_yields_every_agent:
  assumes "agents_ok agents"
  shows "live_agents agents = Some (order_by ag_agent_id (filter (\<lambda>a. ag_state a \<noteq> ''DELETED'') agents), None)"
  using agent_sweep.iter_yields_left [OF assms, of SWEEP_PAGE_SIZE None] unfolding live_agents_def
  by (simp add: SWEEP_PAGE_SIZE_def agent_candidates_def)

theorem one_pass_yields_every_agent_witness:
  "live_agents [\<lparr>ag_agent_id = ''b'', ag_state = ''ACTIVE''\<rparr>, \<lparr>ag_agent_id = ''a'', ag_state = ''ACTIVE''\<rparr>] =
     Some ([\<lparr>ag_agent_id = ''a'', ag_state = ''ACTIVE''\<rparr>, \<lparr>ag_agent_id = ''b'', ag_state = ''ACTIVE''\<rparr>], None)"
proof -
  let ?agents = "[\<lparr>ag_agent_id = ''b'', ag_state = ''ACTIVE''\<rparr>, \<lparr>ag_agent_id = ''a'', ag_state = ''ACTIVE''\<rparr>]"
  have ok: "agents_ok ?agents" by (simp add: agents_ok_def strip_def lstrip_def rstrip_def is_space_def)
  have "order_by ag_agent_id (filter (\<lambda>a. ag_state a \<noteq> ''DELETED'') ?agents) =
      [\<lparr>ag_agent_id = ''a'', ag_state = ''ACTIVE''\<rparr>, \<lparr>ag_agent_id = ''b'', ag_state = ''ACTIVE''\<rparr>]" by code_simp
  with one_pass_yields_every_agent [OF ok] show ?thesis by simp
qed

section \<open>A fair probe\<close>

definition nominated :: "(string, nat) dict \<Rightarrow> owner_row \<Rightarrow> bool" where
  "nominated boxes row \<longleftrightarrow> strip (snd row) = [] \<or> strip (snd row) \<in> fst ` set boxes"

text \<open>What holds of one batch once its rows below \<open>k\<close> were offered, and of the whole state.\<close>

definition batch_ok :: "bool \<Rightarrow> owner_row list \<Rightarrow> nat \<Rightarrow> nat \<Rightarrow> probing \<Rightarrow> bool" where
  "batch_ok roomy rows b k st \<longleftrightarrow>
     (\<not> pb_full st ! b \<longrightarrow> pb_taken st ! b = min k (length rows)) \<and> pb_taken st ! b \<le> length rows \<and>
     (\<forall>i < pb_taken st ! b. nominated (pb_candidates st) (rows ! i)) \<and>
     (roomy \<and> 0 < k \<and> rows \<noteq> [] \<longrightarrow> 0 < pb_taken st ! b)"

definition probing_ok :: "nat \<Rightarrow> nat \<Rightarrow> probing \<Rightarrow> bool" where
  "probing_ok limit n st \<longleftrightarrow>
     length (pb_taken st) = n \<and> length (pb_full st) = n \<and> length (pb_candidates st) \<le> limit"

lemma length_dict_set: "length (dict_set k v d) = (if map_of d k = None then Suc (length d) else length d)"
  by (induction d) (auto simp: dict_set_def)

lemma probe_row_cases [consumes 1, case_names skip full taken]:
  assumes "probe_row limit k (b, rows) st = st'"
  obtains "length rows \<le> k" and "st' = st"
  | "k < length rows" and "limit \<le> length (pb_candidates st)" and "st' = st\<lparr>pb_full := (pb_full st)[b := True]\<rparr>"
  | boxes where "k < length rows" and "nominated boxes (rows ! k)" and "fst ` set (pb_candidates st) \<subseteq> fst ` set boxes"
    and "length boxes \<le> max limit (length (pb_candidates st))" and "length boxes \<le> Suc (length (pb_candidates st))"
    and "st' = st\<lparr>pb_candidates := boxes, pb_taken := (if pb_full st ! b then pb_taken st else (pb_taken st)[b := k + 1])\<rparr>"
proof (cases "length rows \<le> k")
  case True
  with assms that(1) show ?thesis by (simp add: probe_row_def)
next
  case False
  let ?box = "strip (snd (rows ! k))"
  let ?boxes = "if ?box = [] then pb_candidates st else dict_set ?box (coalesce (map_of (pb_candidates st) ?box) 0 + 1) (pb_candidates st)"
  show ?thesis
  proof (cases "?box \<noteq> [] \<and> map_of (pb_candidates st) ?box = None \<and> limit \<le> length (pb_candidates st)")
    case True
    with assms False show ?thesis by (intro that(2)) (auto simp: probe_row_def Let_def)
  next
    case fits: False
    show ?thesis
    proof (rule that(3) [of ?boxes])
      show "nominated ?boxes (rows ! k)" by (simp add: nominated_def keys_dict_set)
      show "fst ` set (pb_candidates st) \<subseteq> fst ` set ?boxes" by (auto simp: keys_dict_set)
      show "length ?boxes \<le> max limit (length (pb_candidates st))" "length ?boxes \<le> Suc (length (pb_candidates st))"
        using fits by (auto simp: length_dict_set)
      show "st' = st\<lparr>pb_candidates := ?boxes, pb_taken := (if pb_full st ! b then pb_taken st else (pb_taken st)[b := k + 1])\<rparr>"
        using assms False fits by (simp add: probe_row_def Let_def)
    qed (use False in simp)
  qed
qed

lemma nominated_mono: "nominated boxes row \<Longrightarrow> fst ` set boxes \<subseteq> fst ` set boxes' \<Longrightarrow> nominated boxes' row"
  by (auto simp: nominated_def)

lemma probe_row_ok: "probing_ok limit n st \<Longrightarrow> probing_ok limit n (probe_row limit k (b, rows) st)"
  using refl [of "probe_row limit k (b, rows) st"] by (cases rule: probe_row_cases) (auto simp: probing_ok_def)

lemma probe_row_other:
  assumes "batch_ok roomy rows' b' m st" and "b' \<noteq> b"
  shows "batch_ok roomy rows' b' m (probe_row limit k (b, rows) st)"
  using refl [of "probe_row limit k (b, rows) st"]
proof (cases rule: probe_row_cases)
  case (taken boxes)
  with assms show ?thesis by (auto simp: batch_ok_def intro: nominated_mono)
qed (use assms in \<open>auto simp: batch_ok_def\<close>)

lemma probe_row_own:
  assumes ok: "batch_ok roomy rows b k st" and b: "b < n" "probing_ok limit n st"
    and room: "roomy \<and> k = 0 \<Longrightarrow> length (pb_candidates st) < limit \<and> \<not> pb_full st ! b"
  shows "batch_ok roomy rows b (Suc k) (probe_row limit k (b, rows) st)"
  using refl [of "probe_row limit k (b, rows) st"]
proof (cases rule: probe_row_cases)
  case skip
  with ok show ?thesis by (cases rows) (auto simp: batch_ok_def)
next
  case full
  have "\<not> (roomy \<and> k = 0)" using room full(2) by (meson leD)
  with full ok b show ?thesis by (auto simp: batch_ok_def probing_ok_def)
next
  case (taken boxes)
  have len: "b < length (pb_taken st)" "b < length (pb_full st)" using b by (simp_all add: probing_ok_def)
  show ?thesis
  proof (cases "pb_full st ! b")
    case True
    then have "\<not> (roomy \<and> k = 0)" using room by blast
    with True ok taken show ?thesis by (auto simp: batch_ok_def intro: nominated_mono)
  next
    case False
    with ok taken(1) have "pb_taken st ! b = k" by (simp add: batch_ok_def)
    with ok taken len False show ?thesis
      by (auto simp: batch_ok_def less_Suc_eq intro: nominated_mono)
  qed
qed

text \<open>Within one index, batch by batch: while the first index is offered, each batch adds at most one box.\<close>

definition index_ok :: "nat \<Rightarrow> owner_row list list \<Rightarrow> nat \<Rightarrow> nat \<Rightarrow> probing \<Rightarrow> bool" where
  "index_ok limit batches k j st \<longleftrightarrow>
     probing_ok limit (length batches) st \<and>
     (\<forall>b < length batches. batch_ok (length batches \<le> limit) (batches ! b) b (if b < j then Suc k else k) st) \<and>
     (length batches \<le> limit \<and> k = 0 \<longrightarrow> length (pb_candidates st) \<le> j \<and> (\<forall>b < length batches. \<not> pb_full st ! b))"

lemma index_ok_step:
  assumes ok: "index_ok limit batches k j st" and j: "j < length batches"
  shows "index_ok limit batches k (Suc j) (probe_row limit k (j, batches ! j) st)"
proof -
  let ?st = "probe_row limit k (j, batches ! j) st" and ?roomy = "length batches \<le> limit"
  have probing: "probing_ok limit (length batches) st" using ok by (simp add: index_ok_def)
  have room: "length (pb_candidates st) < limit \<and> \<not> pb_full st ! j" if "?roomy \<and> k = 0"
    using ok that j by (auto simp: index_ok_def)
  have own: "batch_ok ?roomy (batches ! j) j (Suc k) ?st"
    using ok j by (intro probe_row_own [OF _ j probing] room) (auto simp: index_ok_def)
  have "batch_ok ?roomy (batches ! b) b (if b < Suc j then Suc k else k) ?st" if "b < length batches" for b
  proof (cases "b = j")
    case True
    with own show ?thesis by simp
  next
    case False
    then have "b < Suc j \<longleftrightarrow> b < j" by auto
    then show ?thesis using ok that False by (auto simp: index_ok_def intro!: probe_row_other)
  qed
  moreover have "length (pb_candidates ?st) \<le> Suc j \<and> (\<forall>b < length batches. \<not> pb_full ?st ! b)" if first: "?roomy \<and> k = 0"
    using refl [of "probe_row limit k (j, batches ! j) st"]
  proof (cases rule: probe_row_cases)
    case full
    then show ?thesis using room [OF first] by simp
  qed (use ok first in \<open>auto simp: index_ok_def\<close>)
  ultimately show ?thesis using probe_row_ok [OF probing, of k j "batches ! j"] by (simp add: index_ok_def)
qed

lemma index_ok_fold:
  "index_ok limit batches k j st \<Longrightarrow> j \<le> length batches \<Longrightarrow>
     index_ok limit batches k (length batches) (fold (probe_row limit k) (enumerate j (drop j batches)) st)"
proof (induction "length batches - j" arbitrary: j st)
  case 0
  then show ?case by simp
next
  case (Suc m)
  then have j: "j < length batches" by simp
  then have "drop j batches = batches ! j # drop (Suc j) batches" by (simp add: Cons_nth_drop_Suc)
  moreover have "index_ok limit batches k (length batches)
      (fold (probe_row limit k) (enumerate (Suc j) (drop (Suc j) batches)) (probe_row limit k (j, batches ! j) st))"
    using Suc.hyps(2) Suc.prems(1) j by (intro Suc.hyps(1) index_ok_step) auto
  ultimately show ?case by simp
qed

lemma probe_index_ok:
  assumes "index_ok limit batches k 0 st"
  shows "index_ok limit batches (Suc k) 0 (probe_index limit batches k st)"
  using index_ok_fold [OF assms] unfolding index_ok_def probe_index_def by auto

lemma probe_merge_ok:
  defines "most batches \<equiv> foldr (\<lambda>rows n. max (length rows) n) batches 0"
  shows "index_ok limit batches (most batches) 0 (probe_merge limit batches)"
proof -
  let ?start = "\<lparr>pb_candidates = [], pb_taken = replicate (length batches) 0, pb_full = replicate (length batches) False\<rparr>"
  have "index_ok limit batches k 0 (fold (probe_index limit batches) [0..<k] ?start)" for k
  proof (induction k)
    case 0
    show ?case by (simp add: index_ok_def probing_ok_def batch_ok_def)
  next
    case (Suc k)
    from probe_index_ok [OF Suc] show ?case by simp
  qed
  then show ?thesis by (simp add: probe_merge_def most_def)
qed

lemma longest_batch: "rows \<in> set batches \<Longrightarrow> length rows \<le> foldr (\<lambda>rows n. max (length rows) n) batches 0"
  by (induction batches) (auto simp: max_def)

text \<open>
  C29. One budget, shared fairly. Whatever the pages of the kinds of owner hold: no more sandboxes are
  probed than the budget allows; every row reported as visited has its sandbox among them (or names
  none), so a cursor never moves past a row that was not probed; and when the budget covers the kinds
  of owner, each kind with candidates moves on, so none is starved by a busier one.
\<close>

theorem probe_budget_is_fair:
  assumes "b < length batches"
  shows "length (pb_candidates (probe_merge limit batches)) \<le> limit \<and>
    pb_taken (probe_merge limit batches) ! b \<le> length (batches ! b) \<and>
    (\<forall>row \<in> set (take (pb_taken (probe_merge limit batches) ! b) (batches ! b)).
       strip (snd row) = [] \<or> strip (snd row) \<in> fst ` set (pb_candidates (probe_merge limit batches))) \<and>
    (length batches \<le> limit \<and> batches ! b \<noteq> [] \<longrightarrow> 0 < pb_taken (probe_merge limit batches) ! b)"
proof -
  let ?st = "probe_merge limit batches" and ?most = "foldr (\<lambda>rows n. max (length rows) n) batches 0"
  have ok: "batch_ok (length batches \<le> limit) (batches ! b) b ?most ?st" "probing_ok limit (length batches) ?st"
    using probe_merge_ok [of limit batches] assms by (auto simp: index_ok_def)
  have "0 < ?most" if "batches ! b \<noteq> []"
    using longest_batch [OF nth_mem [OF assms]] that by (metis length_greater_0_conv less_le_trans)
  moreover have "nominated (pb_candidates ?st) row" if "row \<in> set (take (pb_taken ?st ! b) (batches ! b))" for row
    using ok(1) that by (auto simp: batch_ok_def in_set_conv_nth)
  ultimately show ?thesis using ok unfolding batch_ok_def probing_ok_def nominated_def by blast
qed

theorem probe_budget_is_fair_witness:
  "pb_candidates (probe_merge 3 [[(''s1'', ''x''), (''s2'', ''y''), (''s3'', ''z'')], [(''g'', ''x'')], [(''w'', ''v'')]]) =
     [(''x'', 2), (''v'', 1), (''y'', 1)] \<and>
   0 < pb_taken (probe_merge 3 [[(''s1'', ''x''), (''s2'', ''y''), (''s3'', ''z'')], [(''g'', ''x'')], [(''w'', ''v'')]]) ! 2"
proof -
  let ?batches = "[[(''s1'', ''x''), (''s2'', ''y''), (''s3'', ''z'')], [(''g'', ''x'')], [(''w'', ''v'')]]"
  have "pb_candidates (probe_merge 3 ?batches) = [(''x'', 2), (''v'', 1), (''y'', 1)]" by code_simp
  with probe_budget_is_fair [of 2 ?batches 3] show ?thesis by simp
qed

end
