(* ===== verification/Spec2Isabelle.thy ===== *)
theory Spec2Isabelle
  imports Follow Blocks Host Views Sweeps
begin

text \<open>
  \<^bold>\<open>The session runtime of AstraBox.\<close>

  AstraBox runs coding agents in sandboxes and shows a person the conversation. This
  development is about the part between the two, the session runtime
  (\<^verbatim>\<open>src/astrabox/core/service/orchestrator/session_runtime/\<close>) with the repositories it keeps its
  state in (\<^verbatim>\<open>src/astrabox/persistence/repository/session_runtime_repository.py\<close>,
  \<^verbatim>\<open>session_read_repository.py\<close>, \<^verbatim>\<open>input_attachment_repository.py\<close>, \<^verbatim>\<open>transcript_entry_repository.py\<close>,
  \<^verbatim>\<open>transcript_child_run_repository.py\<close>, \<^verbatim>\<open>process_summary_repository.py\<close>) and the engine contracts it speaks
  (\<^verbatim>\<open>src/astrabox/core/service/orchestrator/engine/\<close>: \<^verbatim>\<open>runtime.py\<close>, \<^verbatim>\<open>emissions.py\<close>, \<^verbatim>\<open>child_runs.py\<close>,
  \<^verbatim>\<open>interaction_contract.py\<close>); and, beside it, the keyset pages the platform's sweeps over sessions read
  (\<^verbatim>\<open>persistence/repository/keyset.py\<close>).

  \<^bold>\<open>How the parts work together.\<close> A person's message is accepted into the database
  (\<^verbatim>\<open>accept_input\<close>), once per client message id and with its files. One process at a time holds the
  reader lease of a session. Its reader hands waiting inputs and answers to the engine's
  runtime, takes the runtime's events, numbers their output parts, and commits them in batches
  under the lease (\<^verbatim>\<open>record\<close>): facts, output rows and the cursor in one transaction. Parts are
  published to the feed as they are read, before they are committed. A page follows a session
  (\<^verbatim>\<open>follow_output\<close>) by joining the stored log with the live parts of the feed. Reading history folds
  the stored parts of each response into a message, through a cache, and folds the work of
  ended responses behind headers, each with a label that a model writes under a claim of its own.
  The sub-agents of a response are folded from their parts in the log and from the transcripts their
  engine stored. What leaves the server, to the owner or over a share link, passes one projection.

  \<^bold>\<open>Theories, in the order they build on each other.\<close>

  \<^item> \<^verbatim>\<open>Prelude\<close>: errors and fallible computations (\<open>'a res\<close>), transactions, SQL statements on tables (lists
    of rows in insertion order), dictionaries, strings. Collections \<open>table_simps\<close>, \<open>res_simps\<close>.
  \<^item> \<^verbatim>\<open>Json\<close>, \<^verbatim>\<open>Codec\<close>: JSON values with Python's operations on them; decimal numbers, \<^verbatim>\<open>json.dumps\<close> and
    \<^verbatim>\<open>json.loads\<close>, base 64, with the round trips the cursors need.
  \<^item> \<^verbatim>\<open>Store\<close>: the tables of \<^verbatim>\<open>persistence/sql/models/sessions.py\<close>, the row conditions of the repository and
    the keys of the schema (\<open>keys_ok\<close>); \<^verbatim>\<open>Samples\<close>: a small database for the concrete instances.
  \<^item> \<^verbatim>\<open>Inputs\<close>, \<^verbatim>\<open>Leases\<close>: custody of inputs and attachments; reader leases, the sweep and controls.
  \<^item> \<^verbatim>\<open>Interaction\<close>: validation of interaction contracts and answers, public views, replies.
  \<^item> \<^verbatim>\<open>Recording\<close>, \<^verbatim>\<open>Evolution\<close>, \<^verbatim>\<open>Commit\<close>: the facts of a batch and their application, the commit; what every
    write keeps of the stored rows (\<open>evolves\<close>); atomicity, fencing, the numbering of the log, one
    answer per interaction.
  \<^item> \<^verbatim>\<open>History\<close>: the display order and its pages, activity, lookups, the import of a conversation.
  \<^item> \<^verbatim>\<open>UiMessage\<close>: the fold of stored parts into a message and the public projection of a part.
  \<^item> \<^verbatim>\<open>Feed\<close>, \<^verbatim>\<open>Follow\<close>: subscriptions with bounded live queues; the stream of a page.
  \<^item> \<^verbatim>\<open>Runtime\<close>: the cursor, events and state of a runtime, and the classification of translated frames.
  \<^item> \<^verbatim>\<open>Reader\<close>, \<^verbatim>\<open>Numbering\<close>, \<^verbatim>\<open>Delivery\<close>: the reader's three loops as steps on its state, the feed and the
    database; the numbering invariant over all interleavings; delivery and reconciliation.
  \<^item> \<^verbatim>\<open>Attachments\<close>: names of files, the words and blocks of an input that carries them, their delivery.
  \<^item> \<^verbatim>\<open>Reads\<close>, \<^verbatim>\<open>Folds\<close>: the read queries, file changes, the cache of folded messages with its shared builds.
  \<^item> \<^verbatim>\<open>HistoryBlocks\<close>, \<^verbatim>\<open>Blocks\<close>: folded history pages, their cursors and headers, and their correctness.
  \<^item> \<^verbatim>\<open>Host\<close>: the readers of one process (\<^verbatim>\<open>host.py\<close>): \<^verbatim>\<open>ensure\<close> cut at its claim, the turns of \<^verbatim>\<open>_serve\<close>, and what
    is recorded when a runtime is gone; the host among others with the calls, answers and reader tasks its event
    loop holds. Shown: a lost runtime leaves nothing open, and a host runs one reader per session and never revokes
    the lease of its own reader.
  \<^item> \<^verbatim>\<open>Repository\<close>: every write of the repositories as one step; what any sequence of them keeps.
  \<^item> \<^verbatim>\<open>Service\<close>: what people and channels call (\<^verbatim>\<open>service.py\<close>): sending, answering, interrupting, the runtime
    view and history. Shown: a message is accepted once, an answer is taken once.
  \<^item> \<^verbatim>\<open>MessageBlocks\<close>: the merging of message fragments and the state of a tool result (\<^verbatim>\<open>message_blocks.py\<close>,
    \<^verbatim>\<open>tool_result_semantics.py\<close>). Shown: a fragment that arrives again is absorbed.
  \<^item> \<^verbatim>\<open>ChildFacts\<close>, \<^verbatim>\<open>ChildRuns\<close>, \<^verbatim>\<open>ChildTree\<close>: the facts an engine reports of its sub-agents, their fold into entries
    and their messages (\<^verbatim>\<open>engine/child_runs.py\<close>, \<^verbatim>\<open>session_runtime/child_runs.py\<close>). Shown: validated facts are stable,
    the tree order is right and fails only on a circle, parts delivered again change nothing.
  \<^item> \<^verbatim>\<open>Transcripts\<close>: native transcripts and the index of sub-agents over them. Shown: a batch is stored
    once, and the index is the projection of every entry, each read once.
  \<^item> \<^verbatim>\<open>Summaries\<close>: the labels over folded work (\<^verbatim>\<open>process_summaries.py\<close>). Shown: a label has one writer.
  \<^item> \<^verbatim>\<open>Views\<close>: the reads of the console and of share links (\<^verbatim>\<open>views.py\<close>). Shown: a share link carries nothing
    only the owner may see (but for the input of a call awaiting approval), and otherwise the same history.
  \<^item> \<^verbatim>\<open>Keyset\<close>, \<^verbatim>\<open>Sweeps\<close>: paged sweeps with and without a budget, over the session statements that serve them, and
    the probe that shares a budget between kinds of owner (\<^verbatim>\<open>sandbox_lifecycle.py\<close>). Shown: a sweep meets every row
    in time, a pass yields each row once, the shared budget is fair.

  \<^bold>\<open>Interfaces.\<close> What one component relies on in another is a locale, interpreted on the definitions of the
  provider: \<open>fenced_lease\<close> (a grant ends the grants before it), \<open>keyset_pages\<close> (pages of an order, for history),
  \<open>versioned_source\<close> (a log that only grows, for the cache) and \<open>keyset_source\<close> (one page of a set in key order, for
  the sweeps); the properties rest on the facts of the interpretations.

  \<^bold>\<open>Conventions.\<close> An operation of the repository is a function from its arguments and the database to
  its result and the new database; one that raises returns \<open>Inl\<close> of the error, and a transaction
  that raises changes nothing. Transactions are serialised. \<^verbatim>\<open>func.now()\<close>, \<^verbatim>\<open>utcnow()\<close> and new
  identifiers are arguments. A timestamp is an integer count of seconds, and only compared. Text is Latin-1 and numbers are whole.
  A deep copy is the identity. The runtime client, the hooks, the workspace writer, the connector,
  the gates before the service, the engine adapters with their projectors, the model that writes labels
  and the hash behind public identifiers (\<^verbatim>\<open>uuid5\<close>) are not code of these modules and are arguments: properties hold for every such argument or name
  what they need of it. Asynchronous code is cut at its awaits: the reader, the stream of a page, the
  host and the fold cache are steps, and the step relations let the steps of others come in between.
  Taken as one step each, although they await inside: a pass of \<^verbatim>\<open>_deliver_pending\<close>, of \<^verbatim>\<open>_deliver_answers\<close> and of
  \<^verbatim>\<open>_reconcile\<close>, the query and lookup of one \<^verbatim>\<open>messages\<close> call of the fold cache (\<open>read_messages\<close>), and one read of the
  index of sub-agents (\<open>scopes\<close>).

  \<^bold>\<open>Fuel and termination.\<close> The reading of the log page by page (\<open>from_log\<close>) takes the list of database
  states its reads find, so it ends with the list; \<open>follow_catches_up\<close> shows that one page more than
  the log has is enough. The JSON parser's fuel is the length of the text, which is enough for
  everything printed (\<open>json_loads_compact\<close>). The search for a free file name is a total function whose
  termination rests on the names already taken being finitely many. The visit of the tree of sub-agents
  (\<open>visit\<close>) carries as fuel one more than the number of entries, longer than any path without a repeated
  ancestor; the catching up of an index (\<open>catch_up\<close>) two more turns than the transcript has entries, each of which
  reads at least one; that neither runs out is part of \<open>sub_agents_are_in_tree_order\<close> and
  \<open>index_reads_every_entry_once\<close>. The paged loops (\<open>iter_keyset_pages\<close>, \<open>read_filtered_page\<close>) are partial functions,
  which return on every source that keeps its contract.

  \<^bold>\<open>What is not modelled.\<close> Log lines, test barriers, metrics and prose of errors. The listener task of the
  feed and other task plumbing of asyncio. Scheduling fairness: the liveness properties say what a
  pass of a loop does. The start, the stop and the sweep loop of the host. Of \<^verbatim>\<open>views.py\<close>, the session list and the
  row half of the detail, which copy columns the tables here have not; of the sweeps, what they do to a
  sandbox. The platform wiring of the session runtime (\<^verbatim>\<open>platform.py\<close>), which starts, parks and replaces
  runtimes through providers. Outside the session runtime: sandboxes and their providers,
  provisioning, engine adapters, deployment, configuration, channels, HTTP routes and the web console,
  which call it or are called through the arguments above.
\<close>

end
